(* ===== verification/Prelude.thy ===== *)
theory Prelude
  imports "HOL-Library.Word" "HOL-Library.Monad_Syntax"
begin

text \<open>
  What every other theory shares: the names of the machine types, the
  little-endian codecs of the standard library (\<^verbatim>\<open>to_le_bytes\<close> and
  \<^verbatim>\<open>from_le_bytes\<close>), the ASCII case rules, and generic lemmas on lists, words
  and options. The collection \<open>codec_simps\<close> holds the encoder and decoder
  facts; the codec proofs of the later theories rewrite with it.
\<close>

unbundle bit_operations_syntax

named_theorems codec_simps

type_synonym byte = "8 word"
type_synonym bytes = "byte list"
type_synonym u16 = "16 word"
type_synonym u32 = "32 word"
type_synonym u64 = "64 word"

section \<open>Little-endian integers\<close>

definition le_bytes :: "nat \<Rightarrow> 'a::len word \<Rightarrow> bytes" where
  "le_bytes n w = map (\<lambda>i. ucast (drop_bit (8 * i) w)) [0..<n]"

fun le_word :: "bytes \<Rightarrow> 'a::len word" where
  "le_word [] = 0"
| "le_word (b # bs) = ucast b OR push_bit 8 (le_word bs)"

abbreviation le16 :: "u16 \<Rightarrow> bytes" where "le16 \<equiv> le_bytes 2"
abbreviation le32 :: "u32 \<Rightarrow> bytes" where "le32 \<equiv> le_bytes 4"
abbreviation le64 :: "u64 \<Rightarrow> bytes" where "le64 \<equiv> le_bytes 8"

lemma length_le_bytes [simp, codec_simps]: "length (le_bytes n w) = n"
  by (simp add: le_bytes_def)

lemma le_bytes_0 [simp]: "le_bytes 0 w = []"
  by (simp add: le_bytes_def)

lemma le_bytes_Suc: "le_bytes (Suc n) w = ucast w # le_bytes n (drop_bit 8 w)"
proof -
  have "[0..<Suc n] = 0 # map Suc [0..<n]"
    by (metis map_Suc_upt upt_conv_Cons zero_less_Suc)
  then show ?thesis
    by (simp add: le_bytes_def comp_def drop_bit_drop_bit add.commute del: upt_Suc)
qed

lemma le_word_le_bytes: "le_word (le_bytes n w) = take_bit (8 * n) w"
proof (induction n arbitrary: w)
  case 0
  show ?case by simp
next
  case (Suc n)
  show ?case
    by (rule bit_word_eqI)
      (auto simp add: le_bytes_Suc Suc.IH bit_or_iff bit_push_bit_iff bit_take_bit_iff bit_drop_bit_eq
        bit_ucast_iff not_less dest: bit_imp_le_length)
qed

lemma le_word_le16 [simp, codec_simps]: "le_word (le16 w) = w"
  using take_bit_word_eq_self [of 16 w] by (simp add: le_word_le_bytes)

lemma le_word_le32 [simp, codec_simps]: "le_word (le32 w) = w"
  using take_bit_word_eq_self [of 32 w] by (simp add: le_word_le_bytes)

lemma le_word_le64 [simp, codec_simps]: "le_word (le64 w) = w"
  using take_bit_word_eq_self [of 64 w] by (simp add: le_word_le_bytes)

lemma le_bytes_le_word [codec_simps]:
  "length bs = n \<Longrightarrow> 8 * n \<le> LENGTH('a) \<Longrightarrow> le_bytes n (le_word bs :: 'a::len word) = bs"
proof (induction bs arbitrary: n)
  case (Cons b bs)
  then obtain m where n: "n = Suc m" "length bs = m" by auto
  have b: "(ucast (le_word (b # bs) :: 'a word) :: byte) = b"
    using Cons.prems(2) n
    by (intro bit_word_eqI) (auto simp: bit_ucast_iff bit_or_iff bit_push_bit_iff dest: bit_imp_le_length)
  have "drop_bit 8 (le_word (b # bs) :: 'a word) = take_bit (LENGTH('a) - 8) (le_word bs)"
    by (rule bit_word_eqI)
      (auto simp: bit_drop_bit_eq bit_or_iff bit_push_bit_iff bit_ucast_iff bit_take_bit_iff dest: bit_imp_le_length)
  moreover have "le_bytes m (take_bit (LENGTH('a) - 8) (le_word bs) :: 'a word) = le_bytes m (le_word bs :: 'a word)"
    unfolding le_bytes_def using Cons.prems(2) n
    by (intro map_cong refl bit_word_eqI) (auto simp: bit_ucast_iff bit_drop_bit_eq bit_take_bit_iff)
  ultimately show ?case
    using b Cons.IH [OF n(2)] Cons.prems(2) n by (simp add: le_bytes_Suc)
qed simp

lemma of_nat_unat_u32 [simp]: "n < 2 ^ 32 \<Longrightarrow> unat (of_nat n :: u32) = n"
  by (simp only: unsigned_of_nat) (simp add: take_bit_nat_eq_self)

section \<open>Bounds of the machine types\<close>

lemma unat_byte_less: "unat (w :: byte) < 256"
  by (rule order_less_le_trans [OF unsigned_less]) simp

lemma unat_u16_less: "unat (w :: u16) < 65536"
  by (rule order_less_le_trans [OF unsigned_less]) simp

lemma unat_u32_less: "unat (w :: u32) < 4294967296"
  by (rule order_less_le_trans [OF unsigned_less]) simp

lemma unat_u64_less: "unat (w :: u64) < 18446744073709551616"
  by (rule order_less_le_trans [OF unsigned_less]) simp

lemma unat_ucast_u16_u32 [simp]: "unat (ucast (x :: u16) :: u32) = unat x"
  using unat_u16_less [of x] by (simp add: unsigned_ucast_eq take_bit_nat_eq_self)

definition U64_MAX :: u64 where "U64_MAX = - 1"

lemma U64_MAX_ge: "x \<le> U64_MAX"
  by (simp add: U64_MAX_def)

section \<open>Indexing a slice\<close>

text \<open>\<^verbatim>\<open>slice::get\<close>: the element, or nothing out of range.\<close>

definition get :: "'a list \<Rightarrow> nat \<Rightarrow> 'a option" where
  "get xs i = (if i < length xs then Some (xs ! i) else None)"

lemma get_eq_Some_iff: "get xs i = Some x \<longleftrightarrow> i < length xs \<and> xs ! i = x"
  by (auto simp: get_def)

lemma get_eq_None_iff: "get xs i = None \<longleftrightarrow> length xs \<le> i"
  by (auto simp: get_def)

lemmas get_iffs = get_eq_Some_iff get_eq_None_iff

lemma get_drop: "get xs (n + i) = get (drop n xs) i" if "n \<le> length xs"
  using that by (auto simp: get_def)

section \<open>Text\<close>

text \<open>A string of the source is its bytes; \<open>ascii\<close> reads a literal.
  \<open>to_ascii_lowercase\<close> and \<open>eq_ignore_ascii_case\<close> are the standard library's.\<close>

definition ascii :: "string \<Rightarrow> bytes" where
  "ascii = map of_char"

lemma ascii_simps [simp]: "ascii [] = []" "ascii (c # cs) = of_char c # ascii cs"
  by (simp_all add: ascii_def)

definition ascii_lower :: "byte \<Rightarrow> byte" where
  "ascii_lower b = (if 65 \<le> b \<and> b \<le> 90 then b + 32 else b)"

definition to_ascii_lowercase :: "bytes \<Rightarrow> bytes" where
  "to_ascii_lowercase = map ascii_lower"

definition eq_ignore_ascii_case :: "bytes \<Rightarrow> bytes \<Rightarrow> bool" where
  "eq_ignore_ascii_case a b = (to_ascii_lowercase a = to_ascii_lowercase b)"

definition strip_suffix :: "bytes \<Rightarrow> bytes \<Rightarrow> bytes option" where
  "strip_suffix suf t =
     (if length suf \<le> length t \<and> drop (length t - length suf) t = suf
      then Some (take (length t - length suf) t) else None)"

section \<open>Decimal integers\<close>

text \<open>\<open>decimal\<close> is what \<^verbatim>\<open>to_string\<close> prints of an unsigned integer, and
  \<open>digits_value\<close> the value of a run of digits; nothing if a byte is not one.\<close>

definition is_digit :: "byte \<Rightarrow> bool" where
  "is_digit b = (48 \<le> b \<and> b \<le> 57)"

definition digit_value :: "byte \<Rightarrow> nat" where
  "digit_value b = unat b - 48"

fun decimal :: "nat \<Rightarrow> bytes" where
  "decimal n = (if n < 10 then [of_nat (48 + n)] else decimal (n div 10) @ [of_nat (48 + n mod 10)])"

fun digits_value :: "nat \<Rightarrow> bytes \<Rightarrow> nat option" where
  "digits_value acc [] = Some acc"
| "digits_value acc (b # bs) =
     (if is_digit b then digits_value (acc * 10 + digit_value b) bs else None)"

declare decimal.simps [simp del]

lemma digits_value_append:
  "digits_value acc (xs @ ys) = Option.bind (digits_value acc xs) (\<lambda>v. digits_value v ys)"
  by (induction xs arbitrary: acc) auto

lemma digit_of_nat:
  assumes "d < 10"
  shows "is_digit (of_nat (48 + d))" "digit_value (of_nat (48 + d)) = d"
proof -
  have "unat (of_nat (48 + d) :: byte) = 48 + d"
    using assms by (simp only: unsigned_of_nat) (simp add: take_bit_nat_eq_self)
  then show "is_digit (of_nat (48 + d))" "digit_value (of_nat (48 + d)) = d"
    using assms by (simp_all add: is_digit_def digit_value_def word_le_nat_alt)
qed

lemma digits_value_decimal [simp]: "digits_value 0 (decimal n) = Some n"
proof (induction n rule: decimal.induct)
  case (1 n)
  show ?case
  proof (cases "n < 10")
    case True
    then show ?thesis by (simp add: decimal.simps [of n] digit_of_nat del: of_nat_add)
  next
    case False
    then show ?thesis
      using 1 by (simp add: decimal.simps [of n] digits_value_append digit_of_nat del: of_nat_add)
  qed
qed

lemma decimal_digits: "list_all is_digit (decimal n)"
proof (induction n rule: decimal.induct)
  case (1 n)
  then show ?case
    by (subst decimal.simps) (auto simp: digit_of_nat simp del: of_nat_add)
qed

lemma decimal_not_Nil [simp]: "decimal n \<noteq> []"
  by (subst decimal.simps) simp

text \<open>The standard library's \<^verbatim>\<open>str::parse::<u64>\<close>: an optional plus sign and at
  least one digit, refused when the value does not fit.\<close>

definition parse_std_u64 :: "bytes \<Rightarrow> u64 option" where
  "parse_std_u64 t =
     (let ds = (if get t 0 = Some 43 then tl t else t) in
      if ds = [] then None
      else case digits_value 0 ds of
        Some n \<Rightarrow> if n < 2 ^ 64 then Some (of_nat n) else None
      | None \<Rightarrow> None)"

lemma decimal_hd: "is_digit (hd (decimal n))"
  using decimal_digits [of n] by (cases "decimal n") auto

lemma parse_std_u64_decimal:
  "parse_std_u64 (decimal n) = (if n < 2 ^ 64 then Some (of_nat n) else None)"
proof -
  have "get (decimal n) 0 \<noteq> Some 43"
    using decimal_hd [of n] by (cases "decimal n") (auto simp: get_def is_digit_def)
  then show ?thesis by (simp add: parse_std_u64_def)
qed

lemma strip_suffix_snoc:
  "strip_suffix (s @ [y]) (xs @ [x]) = (if x = y then strip_suffix s xs else None)"
  by (auto simp: strip_suffix_def)

lemma strip_suffix_Nil [simp]: "strip_suffix [] t = Some t"
  by (simp add: strip_suffix_def)

lemmas strip_suffix_1 = strip_suffix_snoc [of "[]", simplified]
lemmas strip_suffix_2 = strip_suffix_snoc [of "[z]" for z, simplified]

end
