(* ===== verification/Slot.thy ===== *)
theory Slot
  imports Prelude
begin

text \<open>
  The placement of keys: \<^verbatim>\<open>crates/seedstone-core/src/slot.rs\<close>. A key's shard
  is its CRC-16/XMODEM modulo the shard count, and an executor owns a
  contiguous range of shards. The arithmetic is kept at the source's widths
  (\<open>u16\<close> in, \<open>u32\<close> for the product), so that the lemmas say that nothing wraps.
\<close>

definition crc16_bit :: "u16 \<Rightarrow> u16" where
  "crc16_bit crc = (if crc AND 0x8000 \<noteq> 0 then push_bit 1 crc XOR 0x1021 else push_bit 1 crc)"

definition crc16_byte :: "u16 \<Rightarrow> byte \<Rightarrow> u16" where
  "crc16_byte crc b = (crc16_bit ^^ 8) (crc XOR push_bit 8 (ucast b))"

definition crc16_xmodem :: "bytes \<Rightarrow> u16" where
  "crc16_xmodem data = foldl crc16_byte 0 data"

definition shard_of :: "bytes \<Rightarrow> u16 \<Rightarrow> u16" where
  "shard_of key shards = crc16_xmodem key mod shards"

definition executor_of :: "u16 \<Rightarrow> u16 \<Rightarrow> u16 \<Rightarrow> u16" where
  "executor_of shard shards executors =
     ucast ((ucast shard * ucast executors :: u32) div ucast shards)"

section \<open>The shard is in range\<close>

lemma shard_of_less: "0 < shards \<Longrightarrow> shard_of key shards < shards"
  by (simp add: shard_of_def word_mod_less_divisor)

section \<open>The executor's range\<close>

lemma executor_product:
  fixes shard executors :: u16
  shows "unat (ucast shard * ucast executors :: u32) = unat shard * unat executors"
proof -
  have "unat shard * unat executors \<le> (2 ^ 16 - 1) * (2 ^ 16 - 1)"
    using unat_u16_less [of shard] unat_u16_less [of executors] by (intro mult_mono) auto
  then have "unat shard * unat executors < 2 ^ 32" by simp
  then show ?thesis
    by (simp add: unat_word_ariths)
qed

lemma unat_executor_of:
  assumes "shard < shards"
  shows "unat (executor_of shard shards executors) = unat shard * unat executors div unat shards"
    and "0 < executors \<Longrightarrow> executor_of shard shards executors < executors"
proof -
  let ?q = "unat shard * unat executors div unat shards"
  have lt: "unat shard < unat shards" using assms by (simp add: word_less_nat_alt)
  have q: "?q < unat executors" if "0 < unat executors"
  proof -
    have "unat shard * unat executors < unat shards * unat executors" using lt that by simp
    then show ?thesis using lt by (simp add: less_mult_imp_div_less mult.commute)
  qed
  have "?q < 2 ^ 16" 
  proof (cases "unat executors = 0")
    case False
    then show ?thesis using q unat_u16_less [of executors] by force
  qed simp
  then show eq: "unat (executor_of shard shards executors) = ?q"
    by (simp add: executor_of_def unsigned_ucast_eq unat_div executor_product take_bit_nat_eq_self)
  show "0 < executors \<Longrightarrow> executor_of shard shards executors < executors"
    using eq q by (simp add: word_less_nat_alt word_gt_0 unat_gt_0)
qed

lemma executor_of_mono:
  assumes "a \<le> b" "b < shards"
  shows "executor_of a shards executors \<le> executor_of b shards executors"
  using assms by (simp add: word_le_nat_alt word_less_nat_alt unat_executor_of div_le_mono)

section \<open>Balance\<close>

text \<open>On naturals: the shards of executor \<open>e\<close> are an interval whose ends are
  the ceilings of \<open>e * S / E\<close>, so its length is the quotient or one more.\<close>

lemma ceiling_div_le_iff:
  fixes s e S E :: nat
  assumes "0 < E"
  shows "e * S \<le> s * E \<longleftrightarrow> (e * S + (E - 1)) div E \<le> s"
proof -
  have "(e * S + (E - 1)) div E \<le> s \<longleftrightarrow> e * S + (E - 1) < Suc s * E"
    using assms by (metis less_Suc_eq_le div_less_iff_less_mult)
  also have "\<dots> \<longleftrightarrow> e * S \<le> s * E" using assms by auto
  finally show ?thesis by simp
qed

lemma range_is_interval:
  fixes e S E :: nat
  assumes "0 < E" "0 < S" "e < E"
  shows "{s. s < S \<and> s * E div S = e} =
    {(e * S + (E - 1)) div E ..< (Suc e * S + (E - 1)) div E}"
proof -
  have "s < S \<and> s * E div S = e \<longleftrightarrow> e * S \<le> s * E \<and> \<not> Suc e * S \<le> s * E" for s
  proof -
    have "s * E div S = e \<longleftrightarrow> e * S \<le> s * E \<and> s * E < Suc e * S"
      using less_eq_div_iff_mult_less_eq [OF \<open>0 < S\<close>, of e "s * E"]
        div_less_iff_less_mult [OF \<open>0 < S\<close>, of "s * E" "Suc e"] by linarith
    moreover have "s < S" if "s * E < Suc e * S"
    proof -
      have "Suc e * S \<le> E * S" using assms by (intro mult_le_mono1) simp
      with that show ?thesis by (metis mult.commute mult_less_cancel2 order_less_le_trans)
    qed
    ultimately show ?thesis by auto
  qed
  then have "s < S \<and> s * E div S = e \<longleftrightarrow>
      (e * S + (E - 1)) div E \<le> s \<and> s < (Suc e * S + (E - 1)) div E" for s
    by (simp only: ceiling_div_le_iff [OF assms(1)] not_le)
  then show ?thesis by (simp only: atLeastLessThan_def atLeast_def lessThan_def Int_def mem_Collect_eq)
qed

lemma range_card:
  fixes e S E :: nat
  assumes "0 < E" "0 < S" "e < E"
  shows "card {s. s < S \<and> s * E div S = e} \<in> {S div E, S div E + 1}"
proof -
  let ?a = "e * S + (E - 1)"
  have sum: "(?a + S) div E = ?a div E + S div E + (?a mod E + S mod E) div E"
    by (rule div_add1_eq)
  have carry: "(?a mod E + S mod E) div E \<le> 1"
  proof -
    have "?a mod E + S mod E < 2 * E" using add_strict_mono [OF mod_less_divisor mod_less_divisor, of E E ?a S] assms by simp
    then have "(?a mod E + S mod E) div E < 2"
      by (simp only: div_less_iff_less_mult [OF \<open>0 < E\<close>])
    then show ?thesis by simp
  qed
  have "card {s. s < S \<and> s * E div S = e} = (?a + S) div E - ?a div E"
    unfolding range_is_interval [OF assms] by (simp add: ac_simps)
  then have "card {s. s < S \<and> s * E div S = e} = S div E + (?a mod E + S mod E) div E"
    unfolding sum by linarith
  with carry obtain k where "card {s. s < S \<and> s * E div S = e} = S div E + k" "k \<le> 1"
    by blast
  then show ?thesis by (cases k) auto
qed

lemma card_executor_range:
  assumes "e < executors"
  shows "card {s. s < shards \<and> executor_of s shards executors = e} =
    card {s. s < unat shards \<and> s * unat executors div unat shards = unat e}"
proof (rule bij_betw_same_card [of unat])
  let ?A = "{s. s < shards \<and> executor_of s shards executors = e}"
  let ?B = "{s. s < unat shards \<and> s * unat executors div unat shards = unat e}"
  have "unat ` ?A = ?B"
  proof (intro equalityI subsetI)
    fix x assume "x \<in> unat ` ?A"
    then show "x \<in> ?B" by (auto simp: unat_executor_of word_less_nat_alt)
  next
    fix x assume x: "x \<in> ?B"
    then have "x < 65536" using unat_u16_less [of shards] by simp
    then have u: "unat (of_nat x :: u16) = x" by (simp add: unsigned_of_nat take_bit_nat_eq_self)
    then have lt: "(of_nat x :: u16) < shards" using x by (simp add: word_less_nat_alt)
    have "executor_of (of_nat x) shards executors = e"
      using x u by (simp add: word_unat_eq_iff unat_executor_of [OF lt])
    with lt u show "x \<in> unat ` ?A" by (metis (mono_tags, lifting) image_eqI mem_Collect_eq)
  qed
  then show "bij_betw unat ?A ?B"
    by (simp add: bij_betw_def inj_on_def word_unat_eq_iff)
qed

text \<open>C40. With at least one executor and no more executors than shards, the
  executors partition the shards into contiguous ranges: the owner of a shard
  is a valid executor, ownership is monotone in the shard, and every executor
  owns the quotient of the two counts or one more, and never none.\<close>

theorem executor_ranges:
  assumes "0 < executors" "executors \<le> shards"
  shows "(\<forall>s. s < shards \<longrightarrow> executor_of s shards executors < executors) \<and>
    (\<forall>a b. a \<le> b \<longrightarrow> b < shards \<longrightarrow>
       executor_of a shards executors \<le> executor_of b shards executors) \<and>
    (\<forall>e. e < executors \<longrightarrow>
       card {s. s < shards \<and> executor_of s shards executors = e}
         \<in> {unat shards div unat executors, unat shards div unat executors + 1} - {0})"
proof (intro conjI allI impI)
  fix e assume e: "e < executors"
  have pos: "0 < unat executors" "0 < unat shards" "unat e < unat executors"
    using assms e by (auto simp: word_less_nat_alt word_le_nat_alt)
  have "0 < unat shards div unat executors"
    using assms(2) pos by (simp add: div_greater_zero_iff word_le_nat_alt)
  then show "card {s. s < shards \<and> executor_of s shards executors = e}
    \<in> {unat shards div unat executors, unat shards div unat executors + 1} - {0}"
    using range_card [OF pos(1,2,3)] card_executor_range [OF e, of shards] by auto
qed (use assms in \<open>auto simp: unat_executor_of(2) executor_of_mono\<close>)

theorem executor_ranges_witness:
  "executor_of 513 1024 10 < 10 \<and> executor_of 512 1024 10 \<le> executor_of 513 1024 10 \<and>
    card {s. s < 1024 \<and> executor_of s 1024 10 = 5} \<in> {102, 103}"
  using executor_ranges [of 10 1024] by simp

end
