(* ===== verification/Glob.thy ===== *)
theory Glob
  imports Prelude "HOL-Library.Sublist"
begin

text \<open>
  Glob matching over bytes: \<^verbatim>\<open>crates/seedstone-core/src/glob.rs\<close>. The matcher
  is the source's loop with one remembered star, over positions in the pattern
  and the subject; \<open>class\<close> is its bracket scanner. The inductive predicate
  \<open>glob\<close> is the declarative reading of a pattern, with the class contents as a
  list of byte ranges, and the theory shows that the loop ends and decides it.
\<close>

section \<open>The scanner of a bracketed class\<close>

text \<open>Positions of the loop: \<open>0x5B\<close> is \<open>[\<close>, \<open>0x5C\<close> the backslash, \<open>0x5D\<close> is \<open>]\<close>,
  \<open>0x5E\<close> the caret, \<open>0x2D\<close> the dash, \<open>0x2A\<close> the star, \<open>0x3F\<close> the question mark.\<close>

function class_loop :: "bytes \<Rightarrow> byte \<Rightarrow> bool \<Rightarrow> nat \<Rightarrow> bool \<Rightarrow> bool \<times> nat" where
  "class_loop pattern b negated i hit =
     (case get pattern i of
        None \<Rightarrow> (hit \<noteq> negated, i)
      | Some member \<Rightarrow>
          if member = 0x5D then (hit \<noteq> negated, i + 1)
          else if member = 0x5C \<and> i + 1 < length pattern then
            class_loop pattern b negated (i + 2) (hit \<or> pattern ! (i + 1) = b)
          else if get pattern (i + 1) = Some 0x2D \<and> i + 2 < length pattern then
            (let last = pattern ! (i + 2) in
             class_loop pattern b negated (i + 3)
               (hit \<or> min member last \<le> b \<and> b \<le> max member last))
          else class_loop pattern b negated (i + 1) (hit \<or> member = b))"
  by pat_completeness auto
termination
  by (relation "measure (\<lambda>(pattern, b, negated, i, hit). length pattern - i)")
    (auto simp: get_iffs)

definition glob_class :: "bytes \<Rightarrow> byte \<Rightarrow> bool \<times> nat" where
  "glob_class pattern b =
     (let negated = (get pattern 1 = Some 0x5E) in
      class_loop pattern b negated (if negated then 2 else 1) False)"

section \<open>The matcher\<close>

definition backtrack :: "nat option \<Rightarrow> nat \<Rightarrow> (nat \<times> nat \<times> nat) option" where
  "backtrack star resume =
     (case star of Some at \<Rightarrow> Some (at + 1, resume + 1, resume + 1) | None \<Rightarrow> None)"

declare class_loop.simps [simp del]

definition sane :: "nat \<Rightarrow> nat \<Rightarrow> nat option \<Rightarrow> nat \<Rightarrow> bool" where
  "sane p s star resume = (\<forall>at. star = Some at \<longrightarrow> at < p \<and> resume \<le> s)"

lemma class_loop_end: "length pattern \<le> i \<Longrightarrow> class_loop pattern b negated i hit = (hit \<noteq> negated, i)"
  by (subst class_loop.simps) (simp add: get_def)

lemma class_loop_close:
  "i < length pattern \<Longrightarrow> pattern ! i = 0x5D \<Longrightarrow>
    class_loop pattern b negated i hit = (hit \<noteq> negated, i + 1)"
  by (subst class_loop.simps) (simp add: get_def)

lemma class_loop_escape:
  "i + 1 < length pattern \<Longrightarrow> pattern ! i = 0x5C \<Longrightarrow>
    class_loop pattern b negated i hit =
    class_loop pattern b negated (i + 2) (hit \<or> pattern ! (i + 1) = b)"
  by (subst class_loop.simps) (simp add: get_def)

lemma class_loop_range:
  "i + 2 < length pattern \<Longrightarrow> pattern ! i \<noteq> 0x5D \<Longrightarrow> pattern ! i \<noteq> 0x5C \<Longrightarrow>
    pattern ! (i + 1) = 0x2D \<Longrightarrow>
    class_loop pattern b negated i hit =
    class_loop pattern b negated (i + 3)
      (hit \<or> min (pattern ! i) (pattern ! (i + 2)) \<le> b \<and> b \<le> max (pattern ! i) (pattern ! (i + 2)))"
  by (subst class_loop.simps) (simp add: get_def Let_def)

lemma class_loop_member:
  "i < length pattern \<Longrightarrow> pattern ! i \<noteq> 0x5D \<Longrightarrow>
    \<not> (pattern ! i = 0x5C \<and> i + 1 < length pattern) \<Longrightarrow>
    \<not> (i + 2 < length pattern \<and> pattern ! (i + 1) = 0x2D) \<Longrightarrow>
    class_loop pattern b negated i hit = class_loop pattern b negated (i + 1) (hit \<or> pattern ! i = b)"
  by (subst class_loop.simps) (auto simp add: get_def)

lemmas class_loop_steps =
  class_loop_end class_loop_close class_loop_escape class_loop_range class_loop_member

text \<open>The scanner reads left to right, so a proof about it is an induction over
  what is left of the pattern, by the five ways its next step can go.\<close>

lemma class_scan_induct [case_names end_of_pattern close escape range member]:
  fixes pattern :: bytes
  assumes "\<And>i. length pattern \<le> i \<Longrightarrow> P i"
    and "\<And>i. i < length pattern \<Longrightarrow> pattern ! i = 0x5D \<Longrightarrow> P i"
    and "\<And>i. i + 1 < length pattern \<Longrightarrow> pattern ! i = 0x5C \<Longrightarrow> P (i + 2) \<Longrightarrow> P i"
    and "\<And>i. i + 2 < length pattern \<Longrightarrow> pattern ! i \<noteq> 0x5D \<Longrightarrow> pattern ! i \<noteq> 0x5C \<Longrightarrow>
      pattern ! (i + 1) = 0x2D \<Longrightarrow> P (i + 3) \<Longrightarrow> P i"
    and "\<And>i. i < length pattern \<Longrightarrow> pattern ! i \<noteq> 0x5D \<Longrightarrow>
      \<not> (pattern ! i = 0x5C \<and> i + 1 < length pattern) \<Longrightarrow>
      \<not> (i + 2 < length pattern \<and> pattern ! (i + 1) = 0x2D) \<Longrightarrow> P (i + 1) \<Longrightarrow> P i"
  shows "P i"
proof (induction "length pattern - i" arbitrary: i rule: less_induct)
  case less
  show ?case
  proof (cases "i < length pattern")
    case True
    then have "P (i + 1)" "P (i + 2)" "P (i + 3)" using less by auto
    then show ?thesis using True assms(2-5) [of i] by fastforce
  qed (use assms(1) in auto)
qed

lemma class_loop_width:
  "i \<le> length pattern \<Longrightarrow> i \<le> snd (class_loop pattern b negated i hit) \<and>
    snd (class_loop pattern b negated i hit) \<le> length pattern"
proof (induction i arbitrary: hit rule: class_scan_induct [of pattern])
  case (escape i)
  then show ?case
    using escape.IH [of "hit \<or> pattern ! (i + 1) = b"]
    unfolding class_loop_escape [OF escape.hyps] by linarith
next
  case (range i)
  then show ?case
    using range.IH [of "hit \<or> min (pattern ! i) (pattern ! (i + 2)) \<le> b \<and>
        b \<le> max (pattern ! i) (pattern ! (i + 2))"]
    unfolding class_loop_range [OF range.hyps] by linarith
next
  case (member i)
  then show ?case
    using member.IH [of "hit \<or> pattern ! i = b"]
    unfolding class_loop_member [OF member.hyps] by linarith
qed (simp_all add: class_loop_end class_loop_close)

lemma glob_class_width:
  assumes "p < length pattern"
  shows "0 < snd (glob_class (drop p pattern) b) \<and>
    p + snd (glob_class (drop p pattern) b) \<le> length pattern"
proof (cases "get (drop p pattern) 1 = Some 0x5E")
  case True
  then have "2 \<le> length (drop p pattern)" by (simp add: get_iffs)
  from class_loop_width [OF this, of b True False] assms show ?thesis
    using True unfolding glob_class_def Let_def by auto
next
  case False
  have "1 \<le> length (drop p pattern)" using assms by simp
  from class_loop_width [OF this, of b False False] assms show ?thesis
    using False unfolding glob_class_def Let_def by auto
qed

text \<open>One turn of the loop. Every pattern element but the star takes exactly one
  byte of the subject or refuses it: \<open>takes_byte\<close> is where the pattern stands
  after it took the byte. \<open>matches_step\<close> is the next positions, or nothing where
  the source returns false.\<close>

definition takes_byte :: "bytes \<Rightarrow> nat \<Rightarrow> byte \<Rightarrow> nat option" where
  "takes_byte pattern p b =
     (case get pattern p of
        None \<Rightarrow> None
      | Some c \<Rightarrow>
          if c = 0x3F then Some (p + 1)
          else if c = 0x5B then
            (case glob_class (drop p pattern) b of (hit, width) \<Rightarrow>
               if hit then Some (p + width) else None)
          else if c = 0x5C \<and> p + 1 < length pattern then
            (if pattern ! (p + 1) = b then Some (p + 2) else None)
          else if c = b then Some (p + 1)
          else None)"

definition matches_step ::
    "bytes \<Rightarrow> bytes \<Rightarrow> nat \<Rightarrow> nat \<Rightarrow> nat option \<Rightarrow> nat \<Rightarrow> (nat \<times> nat \<times> nat option \<times> nat) option" where
  "matches_step pattern subject p s star resume =
     (if get pattern p = Some 0x2A then Some (p + 1, s, Some p, s)
      else case takes_byte pattern p (subject ! s) of
        Some p' \<Rightarrow> Some (p', s + 1, star, resume)
      | None \<Rightarrow>
          (case backtrack star resume of
             Some (p', s', resume') \<Rightarrow> Some (p', s', star, resume')
           | None \<Rightarrow> None))"

function matches_loop :: "bytes \<Rightarrow> bytes \<Rightarrow> nat \<Rightarrow> nat \<Rightarrow> nat option \<Rightarrow> nat \<Rightarrow> bool" where
  "matches_loop pattern subject p s star resume =
     (if s < length subject then
        (case matches_step pattern subject p s star resume of
           Some (p', s', star', resume') \<Rightarrow> matches_loop pattern subject p' s' star' resume'
         | None \<Rightarrow> False)
      else list_all (\<lambda>c. c = 0x2A) (drop (min p (length pattern)) pattern))"
  by pat_completeness auto

text \<open>The loop ends from any state. One step makes an arbitrary state \<open>sane\<close> or
  moves the pattern; from a sane one, giving back moves the resume point, a new
  star moves the star or the resume point, and every other step moves the
  pattern position.\<close>

definition progress :: "nat \<Rightarrow> nat \<Rightarrow> nat \<Rightarrow> nat \<Rightarrow> nat option \<Rightarrow> nat \<Rightarrow> nat list" where
  "progress m n p s star resume =
     [of_bool (\<not> sane p s star resume), if star = None then Suc n else n - resume,
      m - the star, m - p]"

lemma takes_byte_bounds:
  assumes "takes_byte pattern p b = Some p'"
  shows "p < length pattern" "p < p'" "p' \<le> length pattern"
proof -
  show p: "p < length pattern"
    using assms by (auto simp: takes_byte_def get_def split: if_splits)
  show "p < p'" "p' \<le> length pattern"
    using assms glob_class_width [OF p, of b]
    by (auto simp: takes_byte_def get_def split: if_splits prod.splits)
qed

lemma matches_step_cases:
  assumes "matches_step pattern subject p s star resume = Some (p', s', star', resume')"
  obtains (star) "p < length pattern" "pattern ! p = 0x2A" "p' = p + 1" "s' = s" "star' = Some p"
      "resume' = s"
  | (one) "get pattern p \<noteq> Some 0x2A" "takes_byte pattern p (subject ! s) = Some p'" "s' = s + 1"
      "star' = star" "resume' = resume"
  | (return) i where "get pattern p \<noteq> Some 0x2A" "takes_byte pattern p (subject ! s) = None"
      "star = Some i" "p' = i + 1" "s' = resume + 1" "star' = star" "resume' = resume + 1"
  using assms
  by (auto simp: matches_step_def backtrack_def get_eq_Some_iff split: if_splits option.splits)

lemma progress_less:
  assumes "s < length subject"
    and "matches_step pattern subject p s star resume = Some (p', s', star', resume')"
  shows "(progress (length pattern) (length subject) p' s' star' resume',
    progress (length pattern) (length subject) p s star resume) \<in> lex less_than"
  using assms(2)
proof (cases rule: matches_step_cases)
  case star
  then show ?thesis using assms(1) by (auto simp: progress_def sane_def)
next
  case one
  then show ?thesis using takes_byte_bounds [OF one(2)] by (auto simp: progress_def sane_def)
next
  case (return i)
  then show ?thesis using assms(1) by (auto simp: progress_def sane_def)
qed

termination matches_loop
  by (relation "inv_image (lex less_than)
       (\<lambda>(pattern, subject, p, s, star, resume).
          progress (length pattern) (length subject) p s star resume)")
     (auto intro: wf_lex progress_less)

definition glob_matches :: "bytes \<Rightarrow> bytes \<Rightarrow> bool" where
  "glob_matches pattern subject = matches_loop pattern subject 0 0 None 0"

declare matches_loop.simps [simp del]

section \<open>What a pattern means\<close>

text \<open>The members of a class as a list of inclusive ranges, and what follows
  the class. \<open>prepend\<close> adds a range in front.\<close>

definition prepend :: "byte \<Rightarrow> byte \<Rightarrow> (byte \<times> byte) list \<times> bytes \<Rightarrow> (byte \<times> byte) list \<times> bytes" where
  "prepend lo hi r = ((lo, hi) # fst r, snd r)"

fun class_ranges :: "bytes \<Rightarrow> (byte \<times> byte) list \<times> bytes" where
  "class_ranges [] = ([], [])"
| "class_ranges [c] = (if c = 0x5D then ([], []) else ([(c, c)], []))"
| "class_ranges [c, d] =
     (if c = 0x5D then ([], [d])
      else if c = 0x5C then ([(d, d)], [])
      else prepend c c (class_ranges [d]))"
| "class_ranges (c # d # e # rest) =
     (if c = 0x5D then ([], d # e # rest)
      else if c = 0x5C then prepend d d (class_ranges (e # rest))
      else if d = 0x2D then prepend (min c e) (max c e) (class_ranges rest)
      else prepend c c (class_ranges (d # e # rest)))"

definition in_ranges :: "(byte \<times> byte) list \<Rightarrow> byte \<Rightarrow> bool" where
  "in_ranges rs b = list_ex (\<lambda>(lo, hi). lo \<le> b \<and> b \<le> hi) rs"

definition class_negated :: "bytes \<Rightarrow> bool" where
  "class_negated p = (get p 0 = Some 0x5E)"

definition class_body :: "bytes \<Rightarrow> (byte \<times> byte) list \<times> bytes" where
  "class_body p = class_ranges (if class_negated p then tl p else p)"

inductive glob :: "bytes \<Rightarrow> bytes \<Rightarrow> bool" where
  glob_nil: "glob [] []"
| glob_star_done: "glob p s \<Longrightarrow> glob (0x2A # p) s"
| glob_star_take: "glob (0x2A # p) s \<Longrightarrow> glob (0x2A # p) (b # s)"
| glob_any: "glob p s \<Longrightarrow> glob (0x3F # p) (b # s)"
| glob_set:
    "in_ranges (fst (class_body p)) b \<noteq> class_negated p \<Longrightarrow> glob (snd (class_body p)) s \<Longrightarrow>
      glob (0x5B # p) (b # s)"
| glob_quoted: "glob p s \<Longrightarrow> glob (0x5C # b # p) (b # s)"
| glob_literal:
    "b \<notin> {0x2A, 0x3F, 0x5B} \<Longrightarrow> b = 0x5C \<longrightarrow> p = [] \<Longrightarrow> glob p s \<Longrightarrow> glob (b # p) (b # s)"

inductive_simps glob_nil_simp: "glob [] s"
inductive_simps glob_star_simp: "glob (0x2A # p) s"
inductive_simps glob_any_simp: "glob (0x3F # p) s"
inductive_simps glob_set_simp: "glob (0x5B # p) s"
inductive_simps glob_quoted_simp: "glob (0x5C # c # p) s"
inductive_simps glob_cons_simp: "glob (c # p) s"

lemma glob_literal_simp:
  "c \<notin> {0x2A, 0x3F, 0x5B} \<Longrightarrow> c = 0x5C \<longrightarrow> p = [] \<Longrightarrow>
    glob (c # p) s \<longleftrightarrow> (\<exists>t. s = c # t \<and> glob p t)"
  by (subst glob_cons_simp) auto

section \<open>The scanner reads the ranges\<close>

lemma class_ranges_length: "length (snd (class_ranges p)) \<le> length p"
  by (induction p rule: class_ranges.induct) (auto simp: prepend_def)

lemma class_ranges_step:
  assumes "i < length pattern"
  shows "class_ranges (drop i pattern) =
    (if pattern ! i = 0x5D then ([], drop (i + 1) pattern)
     else if pattern ! i = 0x5C \<and> i + 1 < length pattern then
       prepend (pattern ! (i + 1)) (pattern ! (i + 1)) (class_ranges (drop (i + 2) pattern))
     else if i + 2 < length pattern \<and> pattern ! (i + 1) = 0x2D then
       prepend (min (pattern ! i) (pattern ! (i + 2))) (max (pattern ! i) (pattern ! (i + 2)))
         (class_ranges (drop (i + 3) pattern))
     else prepend (pattern ! i) (pattern ! i) (class_ranges (drop (i + 1) pattern)))"
proof -
  consider (one) "length pattern = i + 1" | (two) "length pattern = i + 2"
    | (more) "i + 2 < length pattern"
    using assms by linarith
  then show ?thesis
  proof cases
    case one
    then have "drop i pattern = [pattern ! i]" "drop (i + 1) pattern = []"
      using assms by (simp_all add: Cons_nth_drop_Suc [symmetric])
    then show ?thesis using one by (simp add: prepend_def)
  next
    case two
    then have "drop i pattern = [pattern ! i, pattern ! (i + 1)]"
      "drop (i + 1) pattern = [pattern ! (i + 1)]" "drop (i + 2) pattern = []"
      using assms by (simp_all add: Cons_nth_drop_Suc [symmetric])
    then show ?thesis using two by (simp add: prepend_def)
  next
    case more
    then have "drop i pattern = pattern ! i # pattern ! (i + 1) # pattern ! (i + 2) # drop (i + 3) pattern"
      "drop (i + 1) pattern = pattern ! (i + 1) # pattern ! (i + 2) # drop (i + 3) pattern"
      "drop (i + 2) pattern = pattern ! (i + 2) # drop (i + 3) pattern"
      by (simp_all add: Cons_nth_drop_Suc [symmetric] numeral_3_eq_3)
    then show ?thesis using more by simp
  qed
qed

lemma in_ranges_simps [simp]:
  "in_ranges [] b = False"
  "in_ranges (fst (prepend lo hi r)) b = (lo \<le> b \<and> b \<le> hi \<or> in_ranges (fst r) b)"
  "snd (prepend lo hi r) = snd r"
  by (simp_all add: in_ranges_def prepend_def)

lemma class_loop_eq:
  "i \<le> length pattern \<Longrightarrow> class_loop pattern b negated i hit =
    ((hit \<or> in_ranges (fst (class_ranges (drop i pattern))) b) \<noteq> negated,
     length pattern - length (snd (class_ranges (drop i pattern))))"
proof (induction i arbitrary: hit rule: class_scan_induct [of pattern])
  case (end_of_pattern i)
  then show ?case by (simp add: class_loop_end)
next
  case (close i)
  then show ?case by (simp add: class_loop_close class_ranges_step)
next
  case (escape i)
  then show ?case
    unfolding class_loop_escape [OF escape.hyps] by (auto simp: class_ranges_step [of i])
next
  case (range i)
  then show ?case
    unfolding class_loop_range [OF range.hyps] by (auto simp: class_ranges_step [of i])
next
  case (member i)
  then show ?case
    unfolding class_loop_member [OF member.hyps] by (auto simp: class_ranges_step [of i])
qed

lemma glob_class_eq:
  "glob_class (c # p) b =
    (in_ranges (fst (class_body p)) b \<noteq> class_negated p, Suc (length p) - length (snd (class_body p)))"
  by (cases p) (auto simp: glob_class_def class_loop_eq class_body_def class_negated_def get_def Let_def)

section \<open>One element takes one byte\<close>

lemma takes_byte_width:
  "takes_byte pattern p b = Some q \<Longrightarrow> takes_byte pattern p c = Some q' \<Longrightarrow> q = q'"
  by (cases "drop p pattern")
    (auto simp: takes_byte_def get_def glob_class_eq split: if_splits)

lemma class_ranges_suffix: "suffix (snd (class_ranges p)) p"
  by (induction p rule: class_ranges.induct) (auto intro: suffix_ConsI)

lemma class_body_suffix: "suffix (snd (class_body p)) p"
  using class_ranges_suffix [of p] class_ranges_suffix [of "tl p"]
  by (cases p) (auto simp: class_body_def class_negated_def get_def intro: suffix_ConsI)

lemma drop_to_suffix: "suffix xs ys \<Longrightarrow> drop (Suc (length ys) - length xs) (y # ys) = xs"
  by (auto simp: suffix_def Suc_diff_le)

lemmas drop_class = drop_to_suffix [OF class_body_suffix]

lemma glob_takes_byte:
  assumes "p < length pattern" "pattern ! p \<noteq> 0x2A"
  shows "glob (drop p pattern) s \<longleftrightarrow>
    (\<exists>b t q. s = b # t \<and> takes_byte pattern p b = Some q \<and> glob (drop q pattern) t)"
proof -
  define c where "c = pattern ! p"
  define rest where "rest = drop (p + 1) pattern"
  have d: "drop p pattern = c # rest"
    using assms by (simp add: rest_def c_def Cons_nth_drop_Suc)
  have len: "Suc p < length pattern \<longleftrightarrow> rest \<noteq> []" by (auto simp: rest_def)
  have snd: "pattern ! (p + 1) = hd rest" if "rest \<noteq> []"
    using that by (simp add: rest_def hd_drop_conv_nth)
  have dr: "drop (p + n) pattern = drop n (c # rest)" for n
    using d by (metis add.commute drop_drop)
  have takes: "takes_byte pattern p b =
     (if c = 0x3F then Some (p + 1)
      else if c = 0x5B then
        (if in_ranges (fst (class_body rest)) b \<noteq> class_negated rest
         then Some (p + (Suc (length rest) - length (snd (class_body rest)))) else None)
      else if c = 0x5C \<and> rest \<noteq> [] then (if hd rest = b then Some (p + 2) else None)
      else if c = b then Some (p + 1) else None)" for b
    using assms(1) snd by (auto simp: takes_byte_def get_def d glob_class_eq len simp flip: c_def)
  have c: "c \<noteq> 0x2A" using assms(2) by (simp add: c_def)
  consider (any) "c = 0x3F" | (set) "c = 0x5B" | (quoted) b r where "c = 0x5C" "rest = b # r"
    | (literal) "c \<notin> {0x2A, 0x3F, 0x5B}" "c = 0x5C \<longrightarrow> rest = []"
    using c by (cases rest) auto
  then show ?thesis
  proof cases
    case any
    then show ?thesis unfolding d takes using dr [of 1] by (auto simp: glob_any_simp)
  next
    case set
    then show ?thesis
      unfolding d takes set by (auto simp: glob_set_simp dr drop_class simp del: drop_Suc_Cons)
  next
    case quoted
    then show ?thesis unfolding d takes using dr [of 2] by (auto simp: glob_quoted_simp)
  next
    case literal
    then show ?thesis
      unfolding d takes glob_literal_simp [OF literal] using dr [of 1] by auto
  qed
qed

section \<open>The loop decides the pattern\<close>

lemma glob_star:
  "glob (0x2A # p) s \<longleftrightarrow> (\<exists>k \<le> length s. glob p (drop k s))"
proof (induction s)
  case Nil
  show ?case by (subst glob_star_simp) simp
next
  case (Cons b s)
  have "glob (0x2A # p) (b # s) \<longleftrightarrow> glob p (b # s) \<or> glob (0x2A # p) s"
    by (subst glob_star_simp) auto
  also have "\<dots> \<longleftrightarrow> (\<exists>k \<le> length (b # s). glob p (drop k (b # s)))"
    unfolding Cons.IH by (auto simp: Suc_le_eq less_Suc_eq_le ex_simps intro: exI [of _ 0] exI [of _ "Suc k" for k]) 
      (metis drop_Suc_Cons drop0 not0_implies_Suc Suc_le_mono)
  finally show ?case .
qed

text \<open>\<open>matches_from\<close>: the rest of the pattern matches the rest of the subject. The
  loop answers whether it does here, or for a longer run of the remembered star.
  What lets it forget every older star is \<open>aligned\<close>: since the last star every
  element took one byte, so any other run of that star that matches also reaches
  the present pattern position, as many bytes further on.\<close>

definition matches_from :: "bytes \<Rightarrow> bytes \<Rightarrow> nat \<Rightarrow> nat \<Rightarrow> bool" where
  "matches_from pattern subject p s = (s \<le> length subject \<and> glob (drop p pattern) (drop s subject))"

definition aligned :: "bytes \<Rightarrow> bytes \<Rightarrow> nat \<Rightarrow> nat \<Rightarrow> nat option \<Rightarrow> nat \<Rightarrow> bool" where
  "aligned pattern subject p s star resume =
     (\<forall>i. star = Some i \<longrightarrow> i < length pattern \<and> resume \<le> s \<and>
        (\<forall>k. matches_from pattern subject (i + 1) k \<longrightarrow> matches_from pattern subject p (k + (s - resume))))"

definition later_run :: "bytes \<Rightarrow> bytes \<Rightarrow> nat option \<Rightarrow> nat \<Rightarrow> bool" where
  "later_run pattern subject star resume =
     (\<exists>i k. star = Some i \<and> resume < k \<and> matches_from pattern subject (i + 1) k)"

lemma matches_from_star:
  assumes "p < length pattern" "pattern ! p = 0x2A"
  shows "matches_from pattern subject p s \<longleftrightarrow> (\<exists>k \<ge> s. matches_from pattern subject (p + 1) k)"
proof -
  have "drop p pattern = 0x2A # drop (p + 1) pattern"
    using assms by (metis Cons_nth_drop_Suc Suc_eq_plus1)
  then have "matches_from pattern subject p s \<longleftrightarrow>
      s \<le> length subject \<and> (\<exists>k \<le> length subject - s. glob (drop (p + 1) pattern) (drop (k + s) subject))"
    by (simp add: matches_from_def glob_star)
  also have "\<dots> \<longleftrightarrow> (\<exists>k \<ge> s. matches_from pattern subject (p + 1) k)"
  proof
    assume "s \<le> length subject \<and>
      (\<exists>k \<le> length subject - s. glob (drop (p + 1) pattern) (drop (k + s) subject))"
    then obtain k where "s \<le> length subject" "k \<le> length subject - s"
      "glob (drop (p + 1) pattern) (drop (k + s) subject)" by blast
    then have "s \<le> k + s" "matches_from pattern subject (p + 1) (k + s)"
      by (auto simp: matches_from_def)
    then show "\<exists>k \<ge> s. matches_from pattern subject (p + 1) k" by blast
  next
    assume "\<exists>k \<ge> s. matches_from pattern subject (p + 1) k"
    then obtain k where "s \<le> k" "k \<le> length subject" "glob (drop (p + 1) pattern) (drop k subject)"
      by (auto simp: matches_from_def)
    then show "s \<le> length subject \<and>
      (\<exists>k \<le> length subject - s. glob (drop (p + 1) pattern) (drop (k + s) subject))"
      by (intro conjI exI [of _ "k - s"]) auto
  qed
  finally show ?thesis .
qed

lemma matches_from_takes:
  assumes "p < length pattern" "pattern ! p \<noteq> 0x2A"
  shows "matches_from pattern subject p s \<longleftrightarrow>
    s < length subject \<and>
    (\<exists>q. takes_byte pattern p (subject ! s) = Some q \<and> matches_from pattern subject q (s + 1))"
  using Cons_nth_drop_Suc [of s subject]
  by (cases "s < length subject")
    (auto simp: matches_from_def glob_takes_byte [OF assms] not_less dest: sym)

lemma matches_from_end: "length pattern \<le> p \<Longrightarrow> matches_from pattern subject p s \<longleftrightarrow> s = length subject"
  by (auto simp: matches_from_def glob_nil_simp)

lemma matches_step_none:
  assumes "s < length subject" "matches_step pattern subject p s star resume = None"
  shows "\<not> matches_from pattern subject p s" "star = None"
  using assms matches_from_takes [of p pattern subject s] matches_from_end [of pattern p subject s]
  by (auto simp: matches_step_def backtrack_def get_def split: if_splits option.splits)

lemma matches_step_some:
  assumes "s < length subject" "aligned pattern subject p s star resume"
    and "matches_step pattern subject p s star resume = Some (p', s', star', resume')"
  shows "aligned pattern subject p' s' star' resume' \<and> s' \<le> length subject \<and>
    ((matches_from pattern subject p' s' \<or> later_run pattern subject star' resume') =
     (matches_from pattern subject p s \<or> later_run pattern subject star resume))"
  using assms(3)
proof (cases rule: matches_step_cases)
  case star
  note here = matches_from_star [OF star(1,2)]
  have "\<exists>k \<ge> s. matches_from pattern subject (p + 1) k"
    if "star = Some i" "resume < k" "matches_from pattern subject (i + 1) k" for i k
  proof -
    have "matches_from pattern subject p (k + (s - resume))" "resume \<le> s"
      using assms(2) that unfolding aligned_def by blast+
    then obtain k' where "k + (s - resume) \<le> k'" "matches_from pattern subject (p + 1) k'"
      using here by blast
    moreover have "s \<le> k + (s - resume)" using that(2) by simp
    ultimately show ?thesis using le_trans by blast
  qed
  then have "later_run pattern subject star resume \<Longrightarrow> matches_from pattern subject p s"
    unfolding later_run_def here by blast
  moreover have "matches_from pattern subject p s \<longleftrightarrow>
      matches_from pattern subject (p + 1) s \<or> (\<exists>k > s. matches_from pattern subject (p + 1) k)"
    unfolding here using le_less by blast
  ultimately show ?thesis
    using star assms(1) unfolding aligned_def later_run_def by auto
next
  case one
  have p: "p < length pattern" "pattern ! p \<noteq> 0x2A"
    using takes_byte_bounds [OF one(2)] one(1) by (auto simp: get_def)
  have "matches_from pattern subject p s \<longleftrightarrow> matches_from pattern subject p' (s + 1)"
    using matches_from_takes [OF p, of subject s] one(2) assms(1) by simp
  moreover have "matches_from pattern subject p' (k + 1)" if "matches_from pattern subject p k" for k
    using that matches_from_takes [OF p, of subject k] takes_byte_width [OF one(2)] by auto
  ultimately show ?thesis
    using one assms(1,2) unfolding aligned_def by (auto simp: Suc_diff_le)
next
  case (return i)
  have no: "\<not> matches_from pattern subject p s"
    using return(1,2) assms(1) matches_from_takes [of p pattern subject s] matches_from_end [of pattern p subject s]
    by (auto simp: get_def not_less split: if_splits)
  have "resume \<le> s" using assms(2) return(3) unfolding aligned_def by blast
  moreover have "(\<exists>k > resume. matches_from pattern subject (i + 1) k) \<longleftrightarrow>
      matches_from pattern subject (i + 1) (resume + 1) \<or>
      (\<exists>k > resume + 1. matches_from pattern subject (i + 1) k)"
    by (metis Suc_eq_plus1 Suc_lessD Suc_lessI lessI)
  ultimately show ?thesis
    using no return assms(1,2) unfolding aligned_def later_run_def by auto
qed

lemma all_stars: "list_all (\<lambda>c. c = 0x2A) p \<longleftrightarrow> glob p []"
  by (induction p) (auto simp: glob_nil_simp glob_star_simp intro: glob.intros elim: glob.cases)

lemma matches_loop_correct:
  "aligned pattern subject p s star resume \<Longrightarrow> s \<le> length subject \<Longrightarrow>
    matches_loop pattern subject p s star resume \<longleftrightarrow>
    matches_from pattern subject p s \<or> later_run pattern subject star resume"
proof (induction pattern subject p s star resume rule: matches_loop.induct)
  case (1 pattern subject p s star resume)
  show ?case
  proof (cases "s < length subject")
    case True
    note step = matches_loop.simps [of pattern subject p s star resume]
    show ?thesis
    proof (cases "matches_step pattern subject p s star resume")
      case None
      then show ?thesis
        unfolding step using matches_step_none [OF True None] True by (simp add: later_run_def)
    next
      case (Some next_state)
      obtain p' s' star' resume' where n: "next_state = (p', s', star', resume')"
        by (cases next_state)
      note facts = matches_step_some [OF True 1(2) Some [unfolded n]]
      have "matches_loop pattern subject p' s' star' resume' \<longleftrightarrow>
          matches_from pattern subject p' s' \<or> later_run pattern subject star' resume'"
        by (rule 1(1)) (use True Some n facts in auto)
      then show ?thesis using facts True Some n by (simp add: step)
    qed
  next
    case False
    then have s: "s = length subject" using 1(3) by simp
    have "\<not> later_run pattern subject star resume"
      using 1(2) s unfolding aligned_def later_run_def matches_from_def by fastforce
    moreover have "drop (min p (length pattern)) pattern = drop p pattern"
      by (cases "p \<le> length pattern") (auto simp: min_def)
    ultimately show ?thesis
      unfolding matches_loop.simps [of pattern subject p s]
      using s by (simp add: all_stars matches_from_def)
  qed
qed

text \<open>C36. The iterative matcher, which remembers only its last star, terminates
  on every pattern and subject and accepts exactly what the pattern means: a star
  is any run of bytes, a question mark one byte, a class one byte inside (or, after
  a caret, outside) its ranges, a backslash quotes the next byte, and any other
  byte is itself.\<close>

theorem glob_matches_iff_glob: "glob_matches pattern subject \<longleftrightarrow> glob pattern subject"
  unfolding glob_matches_def
  by (subst matches_loop_correct) (auto simp: aligned_def later_run_def matches_from_def)

end
