(* ===== verification/Command.thy ===== *)
theory Command
  imports Prelude
begin

text \<open>
  What a shard is asked and what it answers:
  \<^verbatim>\<open>crates/seedstone-core/src/shard/command.rs\<close> and \<^verbatim>\<open>reply.rs\<close>, with the
  \<^verbatim>\<open>ShardStats\<close> of \<^verbatim>\<open>pool.rs\<close>. An \<open>i64\<close> is an \<open>int\<close>; where the code can leave its
  range the check is written out.
\<close>

type_synonym i64 = int

definition is_i64 :: "int \<Rightarrow> bool" where
  "is_i64 i = (- (2 ^ 63) \<le> i \<and> i < 2 ^ 63)"

definition I64_MAX :: i64 where "I64_MAX = 2 ^ 63 - 1"

text \<open>\<open>i64::to_string\<close>.\<close>

definition i64_text :: "i64 \<Rightarrow> bytes" where
  "i64_text i = (if i < 0 then 45 # decimal (nat (- i)) else decimal (nat i))"

section \<open>Commands\<close>

datatype expiry = Ex u64 | Px u64

datatype cond = Nx | Xx

datatype command =
    Get (c_key: bytes)
  | Set (c_key: bytes) bytes "expiry option" "cond option" bool bool
  | SetEx (c_key: bytes) u64 bytes
  | SetNx (c_key: bytes) bytes
  | PSetEx (c_key: bytes) u64 bytes
  | PTtl (c_key: bytes)
  | ExpireAt (c_key: bytes) i64
  | PExpireAt (c_key: bytes) i64
  | Del (c_key: bytes)
  | IncrBy (c_key: bytes) i64
  | Expire (c_key: bytes) i64
  | PExpire (c_key: bytes) i64
  | Ttl (c_key: bytes)
  | Persist (c_key: bytes)
  | Exists (c_key: bytes)
  | Type (c_key: bytes)
  | StrLen (c_key: bytes)
  | FlushDb
  | DbSize
  | ScanStep u64 nat "bytes option"
  | Stats
  | Snapshot bool

datatype command_route = Key bytes | Shard u16 | Every | Unaddressed

fun route :: "command \<Rightarrow> command_route" where
  "route FlushDb = Every"
| "route DbSize = Every"
| "route Stats = Every"
| "route (Snapshot _) = Every"
| "route (ScanStep _ _ _) = Unaddressed"
| "route cmd = Key (c_key cmd)"

definition KIND_MAX :: byte where "KIND_MAX = 22"
definition KIND_SLOTS :: nat where "KIND_SLOTS = unat KIND_MAX + 1"

fun kind :: "command \<Rightarrow> byte" where
  "kind (Get _) = 1"
| "kind (Set _ _ _ _ _ _) = 2"
| "kind (Del _) = 3"
| "kind (IncrBy _ _) = 4"
| "kind (Expire _ _) = 5"
| "kind (Ttl _) = 6"
| "kind (Exists _) = 7"
| "kind FlushDb = 8"
| "kind DbSize = 9"
| "kind (ScanStep _ _ _) = 10"
| "kind (PExpire _ _) = 11"
| "kind (Persist _) = 12"
| "kind (Type _) = 13"
| "kind (StrLen _) = 14"
| "kind Stats = 15"
| "kind (SetEx _ _ _) = 16"
| "kind (SetNx _ _) = 17"
| "kind (PSetEx _ _ _) = 18"
| "kind (PTtl _) = 19"
| "kind (ExpireAt _ _) = 20"
| "kind (PExpireAt _ _) = 21"
| "kind (Snapshot _) = 22"

fun denied_when_full :: "command \<Rightarrow> bool" where
  "denied_when_full (Set _ _ _ _ _ _) = True"
| "denied_when_full (SetEx _ _ _) = True"
| "denied_when_full (SetNx _ _) = True"
| "denied_when_full (PSetEx _ _ _) = True"
| "denied_when_full (IncrBy _ _) = True"
| "denied_when_full _ = False"

fun writes_the_log :: "command \<Rightarrow> bool" where
  "writes_the_log (Set _ _ _ _ _ _) = True"
| "writes_the_log (SetEx _ _ _) = True"
| "writes_the_log (SetNx _ _) = True"
| "writes_the_log (PSetEx _ _ _) = True"
| "writes_the_log (IncrBy _ _) = True"
| "writes_the_log (Del _) = True"
| "writes_the_log (Expire _ _) = True"
| "writes_the_log (PExpire _ _) = True"
| "writes_the_log (ExpireAt _ _) = True"
| "writes_the_log (PExpireAt _ _) = True"
| "writes_the_log (Persist _) = True"
| "writes_the_log FlushDb = True"
| "writes_the_log _ = False"

section \<open>Replies\<close>

datatype reply_error =
    NotAnInteger
  | WouldOverflow
  | ShardUnavailable
  | LogWriteFailed
  | OutOfMemory
  | SaveInProgress
  | SnapshotFailed

fun wire_text :: "reply_error \<Rightarrow> bytes" where
  "wire_text NotAnInteger = ascii ''ERR value is not an integer or out of range''"
| "wire_text WouldOverflow = ascii ''ERR increment or decrement would overflow''"
| "wire_text ShardUnavailable = ascii ''ERR shard is unavailable''"
| "wire_text LogWriteFailed =
     ascii ''MISCONF Errors writing to the log: writes are refused until a snapshot is durable''"
| "wire_text OutOfMemory = ascii (''OOM command not allowed when used memory > '' @ [CHR 0x27] @
     ''maxmemory'' @ [CHR 0x27] @ ''.'')"
| "wire_text SaveInProgress = ascii ''ERR Background save already in progress''"
| "wire_text SnapshotFailed =
     ascii ''ERR Snapshot failed: the log directory refused the image; see snapshot_fault''"

record shard_stats =
  st_keys :: u64
  st_expires :: u64
  st_evicted :: u64
  st_hits :: u64
  st_misses :: u64
  st_expired :: u64
  st_calls :: "u64 list"
  st_usec :: "u64 list"

datatype reply =
    Bulk "bytes option"
  | Ok
  | Status bytes
  | Removed bool
  | Integer i64
  | Scanned u64 "bytes list" nat
  | StatsReply shard_stats
  | Error reply_error

section \<open>Tags\<close>

lemma kind_bounds: "1 \<le> kind cmd \<and> kind cmd \<le> KIND_MAX"
  by (cases cmd) (simp_all add: KIND_MAX_def)

lemma kind_slot: "unat (kind cmd) < KIND_SLOTS"
  using kind_bounds [of cmd] by (simp add: KIND_SLOTS_def word_le_nat_alt)

lemma denied_writes: "denied_when_full cmd \<Longrightarrow> writes_the_log cmd"
  by (cases cmd) simp_all

end
