(* ===== verification/Effect.thy ===== *)
theory Effect
  imports Prelude
begin

text \<open>
  The effects a mutation leaves in the replication log,
  \<^verbatim>\<open>crates/seedstone-core/src/log/effect.rs\<close>: the tagged, length-prefixed payload
  of a record. A length that does not fit the prefix panics in the source and is
  \<open>None\<close> here. The borrowed \<^verbatim>\<open>Effect\<close> and the owned \<^verbatim>\<open>Owned\<close> have the same
  constructors and the same bytes, and are one datatype.
\<close>

datatype effect =
    Put bytes bytes "u64 option"
  | Del bytes
  | Deadline bytes "u64 option"
  | Flush
  | Rebase

definition TAG_PUT :: byte where "TAG_PUT = 1"
definition TAG_DEL :: byte where "TAG_DEL = 2"
definition TAG_DEADLINE :: byte where "TAG_DEADLINE = 3"
definition TAG_FLUSH :: byte where "TAG_FLUSH = 4"
definition TAG_REBASE :: byte where "TAG_REBASE = 5"

lemmas tags = TAG_PUT_def TAG_DEL_def TAG_DEADLINE_def TAG_FLUSH_def TAG_REBASE_def

definition put_bytes :: "bytes \<Rightarrow> bytes option" where
  "put_bytes bs = (if length bs < 2 ^ 32 then Some (le32 (of_nat (length bs)) @ bs) else None)"

fun put_deadline :: "u64 option \<Rightarrow> bytes" where
  "put_deadline None = [0]"
| "put_deadline (Some millis) = 1 # le64 millis"

definition take_bytes :: "bytes \<Rightarrow> (bytes \<times> bytes) option" where
  "take_bytes cursor =
     (if length cursor < 4 then None
      else let len = unat (le_word (take 4 cursor) :: u32); rest = drop 4 cursor in
        if length rest < len then None else Some (take len rest, drop len rest))"

fun take_deadline :: "bytes \<Rightarrow> (u64 option \<times> bytes) option" where
  "take_deadline [] = None"
| "take_deadline (flag # rest) =
     (if flag = 0 then Some (None, rest)
      else if flag = 1 then
        (if length rest < 8 then None else Some (Some (le_word (take 8 rest)), drop 8 rest))
      else None)"

fun encode :: "effect \<Rightarrow> bytes option" where
  "encode (Put key v deadline) =
     do { k \<leftarrow> put_bytes key; x \<leftarrow> put_bytes v; Some (TAG_PUT # k @ x @ put_deadline deadline) }"
| "encode (Del key) = do { k \<leftarrow> put_bytes key; Some (TAG_DEL # k) }"
| "encode (Deadline key deadline) = do { k \<leftarrow> put_bytes key; Some (TAG_DEADLINE # k @ put_deadline deadline) }"
| "encode Flush = Some [TAG_FLUSH]"
| "encode Rebase = Some [TAG_REBASE]"

definition deadline_len :: "u64 option \<Rightarrow> nat" where
  "deadline_len deadline = (if deadline \<noteq> None then 1 + 8 else 1)"

fun encoded_len :: "effect \<Rightarrow> nat" where
  "encoded_len (Put key v deadline) = 1 + (4 + length key + 4 + length v + deadline_len deadline)"
| "encoded_len (Del key) = 1 + (4 + length key)"
| "encoded_len (Deadline key deadline) = 1 + (4 + length key + deadline_len deadline)"
| "encoded_len Flush = 1"
| "encoded_len Rebase = 1"

fun decode :: "bytes \<Rightarrow> effect option" where
  "decode [] = None"
| "decode (tag # rest) =
     do {
       (e, rest') \<leftarrow>
         (if tag = TAG_PUT then
            do { (key, r) \<leftarrow> take_bytes rest; (v, r) \<leftarrow> take_bytes r; (at, r) \<leftarrow> take_deadline r;
                 Some (Put key v at, r) }
          else if tag = TAG_DEL then do { (key, r) \<leftarrow> take_bytes rest; Some (Del key, r) }
          else if tag = TAG_DEADLINE then
            do { (key, r) \<leftarrow> take_bytes rest; (at, r) \<leftarrow> take_deadline r; Some (Deadline key at, r) }
          else if tag = TAG_FLUSH then Some (Flush, rest)
          else if tag = TAG_REBASE then Some (Rebase, rest)
          else None);
       if rest' = [] then Some e else None
     }"

section \<open>Fields\<close>

lemma take_put_bytes [codec_simps]: "put_bytes bs = Some w \<Longrightarrow> take_bytes (w @ rest) = Some (bs, rest)"
  by (auto simp: put_bytes_def take_bytes_def Let_def split: if_splits)

lemma take_put_deadline [codec_simps]: "take_deadline (put_deadline at @ rest) = Some (at, rest)"
  by (cases at) simp_all

lemma put_take_bytes:
  assumes "take_bytes bs = Some (x, rest)"
  shows "\<exists>w. put_bytes x = Some w \<and> bs = w @ rest"
proof -
  let ?len = "unat (le_word (take 4 bs) :: u32)"
  have x: "4 \<le> length bs" "?len \<le> length (drop 4 bs)" "x = take ?len (drop 4 bs)" "rest = drop ?len (drop 4 bs)"
    using assms by (auto simp: take_bytes_def Let_def not_less split: if_splits)
  then have "length x = ?len" by simp
  then have "put_bytes x = Some (take 4 bs @ x)"
    using x(1) unat_u32_less [of "le_word (take 4 bs)"] le_bytes_le_word [of "take 4 bs" 4, where 'a = 32]
    by (simp add: put_bytes_def)
  moreover have "bs = take 4 bs @ x @ rest" unfolding x by (simp only: append_take_drop_id)
  ultimately show ?thesis by fastforce
qed

lemma put_take_deadline:
  assumes "take_deadline bs = Some (at, rest)"
  shows "bs = put_deadline at @ rest"
proof (cases bs)
  case (Cons flag r)
  then show ?thesis
    using assms le_bytes_le_word [of "take 8 r" 8, where 'a = 64] by (auto split: if_splits)
qed (use assms in simp)

lemma length_put_bytes: "put_bytes bs = Some w \<Longrightarrow> length w = 4 + length bs"
  by (auto simp: put_bytes_def split: if_splits)

lemma length_put_deadline: "length (put_deadline at) = deadline_len at"
  by (cases at) (simp_all add: deadline_len_def)

section \<open>The codec\<close>

lemma decode_encode: "encode e = Some bs \<Longrightarrow> decode bs = Some e"
  by (cases e) (auto simp: codec_simps tags take_put_deadline [of _ "[]", simplified]
      take_put_bytes [of _ _ "[]", simplified] bind_eq_Some_conv)

lemma encode_decode:
  assumes "decode bs = Some e"
  shows "encode e = Some bs"
proof (cases bs)
  case (Cons tag rest)
  then show ?thesis
    using assms
    by (auto simp: bind_eq_Some_conv tags split: if_splits prod.splits
        dest!: put_take_bytes put_take_deadline)
qed (use assms in simp)

text \<open>The fields whose length the prefix can carry; the others panic.\<close>

fun fields_fit :: "effect \<Rightarrow> bool" where
  "fields_fit (Put key v _) = (length key < 2 ^ 32 \<and> length v < 2 ^ 32)"
| "fields_fit (Del key) = (length key < 2 ^ 32)"
| "fields_fit (Deadline key _) = (length key < 2 ^ 32)"
| "fields_fit Flush = True"
| "fields_fit Rebase = True"

lemma length_encode: "map_option length (encode e) = (if fields_fit e then Some (encoded_len e) else None)"
  by (cases e) (auto simp: put_bytes_def length_put_deadline)

lemma encode_fits: "fields_fit e \<Longrightarrow> \<exists>bs. encode e = Some bs \<and> length bs = encoded_len e"
  using length_encode [of e] by auto

text \<open>C34. The effect codec is exact. A payload decodes to an effect just when it is,
  byte for byte, what \<open>encode\<close> writes of it; \<open>encode\<close> succeeds just when the fields
  fit their length prefixes, and then writes as many bytes as \<open>encoded_len\<close> said.\<close>

theorem effect_codec:
  "(decode bs = Some e \<longleftrightarrow> encode e = Some bs) \<and>
    map_option length (encode e) = (if fields_fit e then Some (encoded_len e) else None)"
  using decode_encode encode_decode length_encode by blast

end
