(* ===== verification/Crc.thy ===== *)
theory Crc
  imports Prelude
begin

text \<open>
  The CRC-32/ISO-HDLC checksum of \<^verbatim>\<open>crates/seedstone-core/src/log.rs\<close>: the sixteen
  lookup tables, the sixteen-byte blocks folded through them, and the tail taken
  a byte at a time. The reference is the bitwise register; the tables implement
  it because one step of the register is linear over exclusive or.
\<close>

definition crc_bit_step :: "u32 \<Rightarrow> u32" where
  "crc_bit_step crc = (if crc AND 1 \<noteq> 0 then drop_bit 1 crc XOR 0xEDB88320 else drop_bit 1 crc)"

definition crc_row0 :: "u32 list" where
  "crc_row0 = map (\<lambda>byte. (crc_bit_step ^^ 8) (of_nat byte)) [0..<256]"

fun crc_row :: "nat \<Rightarrow> u32 list" where
  "crc_row 0 = crc_row0"
| "crc_row (Suc n) = map (\<lambda>prev. crc_row0 ! unat (ucast prev :: byte) XOR drop_bit 8 prev) (crc_row n)"

definition crc_tables :: "u32 list list" where
  "crc_tables = map crc_row [0..<16]"

definition crc_block :: "u32 \<Rightarrow> bytes \<Rightarrow> u32" where
  "crc_block crc block =
     (let folded = map2 (XOR) (take 4 block) (le32 crc) @ drop 4 block in
      foldl (\<lambda>acc (byte, row). acc XOR row ! unat byte) 0 (zip folded (rev crc_tables)))"

definition crc_byte :: "u32 \<Rightarrow> byte \<Rightarrow> u32" where
  "crc_byte crc byte = (crc_tables ! 0) ! unat (ucast (crc XOR ucast byte) :: byte) XOR drop_bit 8 crc"

function crc_loop :: "u32 \<Rightarrow> bytes \<Rightarrow> u32" where
  "crc_loop crc data =
     (if 16 \<le> length data then crc_loop (crc_block crc (take 16 data)) (drop 16 data)
      else foldl crc_byte crc data)"
  by pat_completeness auto
termination by (relation "measure (\<lambda>(crc, data). length data)") auto

declare crc_loop.simps [simp del]

definition crc32_iso_hdlc :: "bytes \<Rightarrow> u32" where
  "crc32_iso_hdlc data = NOT (crc_loop 0xFFFFFFFF data)"

section \<open>The bitwise register\<close>

definition shift8 :: "u32 \<Rightarrow> u32" where
  "shift8 = crc_bit_step ^^ 8"

definition crc_feed :: "u32 \<Rightarrow> byte \<Rightarrow> u32" where
  "crc_feed crc byte = shift8 (crc XOR ucast byte)"

definition crc_reference :: "bytes \<Rightarrow> u32" where
  "crc_reference data = NOT (foldl crc_feed 0xFFFFFFFF data)"

lemma crc_bit_step_xor: "crc_bit_step (a XOR b) = crc_bit_step a XOR crc_bit_step b"
proof -
  have d: "drop_bit 1 (a XOR b) = drop_bit 1 a XOR drop_bit 1 b" by (simp add: drop_bit_xor)
  have o: "x AND 1 \<noteq> 0 \<longleftrightarrow> odd x" for x :: u32 by (simp add: and_one_eq odd_iff_mod_2_eq_one)
  have "odd (a XOR b) \<longleftrightarrow> odd a \<noteq> odd b" by (simp add: even_xor_iff)
  then show ?thesis unfolding crc_bit_step_def o d
    by (cases "odd a"; cases "odd b") (simp_all add: xor.assoc xor.left_commute xor.commute)
qed

lemma xor_eq_0_iff: "a XOR b = 0 \<longleftrightarrow> a = (b :: 'a::len word)"
proof
  assume "a XOR b = 0"
  then have "(a XOR b) XOR b = b" by simp
  then show "a = b" by (simp add: xor.assoc)
qed simp

lemma crc_bit_step_0 [simp]: "crc_bit_step 0 = 0"
  by (simp add: crc_bit_step_def)

lemma crc_bit_step_eq_0: "crc_bit_step a = 0 \<longleftrightarrow> a = 0"
proof
  assume z: "crc_bit_step a = 0"
  have "a AND 1 = 0"
  proof (rule ccontr)
    assume "a AND 1 \<noteq> 0"
    then have "drop_bit 1 a = 0xEDB88320" using z by (simp add: crc_bit_step_def xor_eq_0_iff)
    then have "bit (drop_bit 1 a) 31 = bit (0xEDB88320 :: u32) 31" by simp
    then show False by (auto simp: bit_drop_bit_eq dest: bit_imp_le_length)
  qed
  then have "drop_bit 1 a = 0" using z by (simp add: crc_bit_step_def)
  show "a = 0"
  proof (rule bit_word_eqI)
    fix n assume "n < LENGTH(32)"
    show "bit a n = bit (0 :: u32) n"
    proof (cases n)
      case 0
      then show ?thesis using \<open>a AND 1 = 0\<close> by (simp add: bit_0 and_one_eq mod2_eq_if split: if_splits)
    next
      case (Suc m)
      have "bit (drop_bit 1 a) m = False" using \<open>drop_bit 1 a = 0\<close> by simp
      then show ?thesis using Suc by (simp add: bit_drop_bit_eq)
    qed
  qed
qed simp

lemma shift8_xor: "shift8 (a XOR b) = shift8 a XOR shift8 b"
proof -
  have "(crc_bit_step ^^ n) (a XOR b) = (crc_bit_step ^^ n) a XOR (crc_bit_step ^^ n) b" for n
    by (induction n) (simp_all add: crc_bit_step_xor)
  then show ?thesis by (simp add: shift8_def)
qed

lemma shift8_0 [simp]: "shift8 0 = 0"
  using shift8_xor [of 0 0] by simp

lemma shift8_eq_0: "shift8 a = 0 \<longleftrightarrow> a = 0"
proof -
  have "(crc_bit_step ^^ n) a = 0 \<longleftrightarrow> a = 0" for n
    by (induction n) (simp_all add: crc_bit_step_eq_0)
  then show ?thesis by (simp add: shift8_def)
qed

lemma shift8s_xor: "(shift8 ^^ n) (a XOR b) = (shift8 ^^ n) a XOR (shift8 ^^ n) b"
  by (induction n) (simp_all add: shift8_xor)

lemma shift8s_eq_0: "(shift8 ^^ n) a = 0 \<longleftrightarrow> a = 0"
  by (induction n) (simp_all add: shift8_eq_0)

text \<open>Eight steps move the upper bytes down and send the low byte through the table.\<close>

lemma crc_bit_steps_drop:
  "(\<And>i. i < n \<Longrightarrow> \<not> bit a i) \<Longrightarrow> (crc_bit_step ^^ n) a = drop_bit n a"
proof (induction n)
  case (Suc n)
  have "\<not> bit (drop_bit n a) 0" using Suc.prems [of n] by (simp add: bit_drop_bit_eq)
  then have "crc_bit_step (drop_bit n a) = drop_bit 1 (drop_bit n a)"
    by (simp add: crc_bit_step_def and_one_eq bit_0 mod2_eq_if)
  then show ?case using Suc by (simp add: drop_bit_drop_bit)
qed simp

lemma shift8_split: "shift8 c = shift8 (ucast (ucast c :: byte)) XOR drop_bit 8 c"
proof -
  have c: "c = ucast (ucast c :: byte) XOR push_bit 8 (drop_bit 8 c)"
    by (rule bit_word_eqI)
      (auto simp: bit_xor_iff bit_ucast_iff bit_push_bit_iff bit_drop_bit_eq dest: bit_imp_le_length)
  have "shift8 (push_bit 8 (drop_bit 8 c)) = drop_bit 8 (push_bit 8 (drop_bit 8 c))"
    unfolding shift8_def by (rule crc_bit_steps_drop) (simp add: bit_push_bit_iff)
  also have "\<dots> = drop_bit 8 c"
    by (rule bit_word_eqI) (auto simp: bit_push_bit_iff bit_drop_bit_eq dest: bit_imp_le_length)
  finally show ?thesis using arg_cong [OF c, of shift8] by (simp add: shift8_xor)
qed

lemma crc_row0_nth: "crc_row0 ! unat (b :: byte) = shift8 (ucast b)"
  using unat_byte_less [of b] by (simp add: crc_row0_def shift8_def)

lemma length_crc_row [simp]: "length (crc_row n) = 256"
  by (induction n) (simp_all add: crc_row0_def)

lemma crc_row_nth: "crc_row n ! unat (b :: byte) = (shift8 ^^ Suc n) (ucast b)"
proof (induction n)
  case (Suc n)
  then show ?case
    using unat_byte_less [of b] shift8_split [of "crc_row n ! unat b"] by (simp add: crc_row0_nth)
qed (simp add: crc_row0_nth)

lemma crc_byte_feed: "crc_byte crc byte = crc_feed crc byte"
proof -
  have "drop_bit 8 (crc XOR ucast byte) = drop_bit 8 crc"
    by (rule bit_word_eqI) (auto simp: bit_drop_bit_eq bit_xor_iff bit_ucast_iff dest: bit_imp_le_length)
  moreover have "crc_tables ! 0 = crc_row0" by (simp add: crc_tables_def)
  ultimately show ?thesis
    using shift8_split [of "crc XOR ucast byte"] by (simp add: crc_byte_def crc_feed_def crc_row0_nth)
qed

lemma crc_feeds_linear: "foldl crc_feed (c XOR a) bs = (shift8 ^^ length bs) c XOR foldl crc_feed a bs"
proof (induction bs arbitrary: c a)
  case (Cons b bs)
  have "crc_feed (c XOR a) b = shift8 c XOR crc_feed a b"
    by (simp add: crc_feed_def xor.assoc shift8_xor)
  then show ?case using Cons.IH [of "shift8 c" "crc_feed a b"] by (simp add: funpow_swap1)
qed simp

lemma crc_rows_fold:
  "foldl (\<lambda>acc (byte, row). acc XOR row ! unat byte) a (zip bs (rev (map crc_row [0..<length bs]))) =
    a XOR foldl crc_feed 0 bs"
proof (induction bs arbitrary: a)
  case (Cons b bs)
  have "foldl crc_feed 0 (b # bs) = (shift8 ^^ length bs) (shift8 (ucast b)) XOR foldl crc_feed 0 bs"
    using crc_feeds_linear [of "shift8 (ucast b)" 0 bs] by (simp add: crc_feed_def)
  then show ?case
    using Cons.IH by (simp add: crc_row_nth funpow_swap1 xor.assoc)
qed simp

lemma crc_fold_in:
  "take_bit (8 * length bs) c = c \<Longrightarrow>
    foldl crc_feed a (map2 (XOR) bs (le_bytes (length bs) c)) = foldl crc_feed (a XOR c) bs"
proof (induction bs arbitrary: a c)
  case (Cons b bs)
  have c: "take_bit (8 * length bs) (drop_bit 8 c) = drop_bit 8 c"
    using arg_cong [OF Cons.prems, of "drop_bit 8"] by (simp add: drop_bit_take_bit)
  have "crc_feed a (b XOR ucast c) XOR drop_bit 8 c = crc_feed (a XOR c) b"
    using shift8_split [of c] by (simp add: crc_feed_def shift8_xor unsigned_xor_eq xor.assoc xor.left_commute xor.commute)
  then show ?case using Cons.IH [OF c] by (simp add: le_bytes_Suc)
qed simp

lemma crc_block_feed:
  assumes "length block = 16"
  shows "crc_block crc block = foldl crc_feed crc block"
proof -
  let ?f = "map2 (XOR) (take 4 block) (le32 crc) @ drop 4 block"
  have "length ?f = 16" using assms by simp
  have "crc_block crc block = foldl crc_feed 0 ?f"
    using crc_rows_fold [of 0 ?f] unfolding \<open>length ?f = 16\<close> by (simp add: crc_block_def crc_tables_def)
  also have "foldl crc_feed 0 (map2 (XOR) (take 4 block) (le32 crc)) = foldl crc_feed crc (take 4 block)"
    using crc_fold_in [of "take 4 block" crc 0] assms by (simp add: take_bit_word_eq_self)
  then have "foldl crc_feed 0 ?f = foldl crc_feed crc (take 4 block @ drop 4 block)"
    by (simp del: append_take_drop_id)
  finally show ?thesis by simp
qed

lemma crc_loop_feed: "crc_loop crc data = foldl crc_feed crc data"
proof (induction crc data rule: crc_loop.induct)
  case (1 crc data)
  show ?case
  proof (cases "16 \<le> length data")
    case True
    then have "crc_loop crc data = foldl crc_feed (foldl crc_feed crc (take 16 data)) (drop 16 data)"
      using 1 by (subst crc_loop.simps) (simp add: crc_block_feed)
    then show ?thesis by (simp flip: foldl_append)
  next
    case False
    then show ?thesis by (subst crc_loop.simps) (simp add: crc_byte_feed [abs_def])
  qed
qed

text \<open>Two inputs that differ in one byte have different checksums.\<close>

lemma crc_one_byte:
  assumes "b \<noteq> b'"
  shows "crc_reference (xs @ b # ys) \<noteq> crc_reference (xs @ b' # ys)"
proof
  assume "crc_reference (xs @ b # ys) = crc_reference (xs @ b' # ys)"
  then have eq: "foldl crc_feed (crc_feed r b) ys = foldl crc_feed (crc_feed r b') ys"
    if "r = foldl crc_feed 0xFFFFFFFF xs" for r using that by (simp add: crc_reference_def)
  let ?r = "foldl crc_feed 0xFFFFFFFF xs"
  have d: "crc_feed ?r b XOR crc_feed ?r b' = shift8 (ucast (b XOR b'))"
    by (simp add: crc_feed_def unsigned_xor_eq flip: shift8_xor)
      (simp add: xor.assoc xor.left_commute xor.commute)
  let ?f = "foldl crc_feed (crc_feed ?r b') ys"
  let ?s = "(shift8 ^^ length ys) (shift8 (ucast (b XOR b')))"
  have "crc_feed ?r b = shift8 (ucast (b XOR b')) XOR crc_feed ?r b'"
    unfolding d [symmetric] by (simp add: xor.assoc)
  then have "?s XOR ?f = ?f"
    using eq [OF refl] crc_feeds_linear [of "shift8 (ucast (b XOR b'))" "crc_feed ?r b'" ys] by simp
  then have "(?s XOR ?f) XOR ?f = 0" by simp
  then have "?s = 0" by (simp add: xor.assoc)
  then have "(ucast (b XOR b') :: u32) = 0" by (simp add: shift8s_eq_0 shift8_eq_0)
  then have "\<not> bit (b XOR b') n" for n
    using bit_ucast_iff [of "b XOR b'" n, where 'a = 32] by (auto dest: bit_imp_le_length)
  then have "b XOR b' = 0" by (intro bit_word_eqI) simp
  then show False using assms by (simp add: xor_eq_0_iff)
qed

text \<open>C35. The table-driven checksum, sixteen bytes at a time, computes the bitwise
  CRC-32/ISO-HDLC register on every input.\<close>

theorem crc32_bitwise: "crc32_iso_hdlc data = crc_reference data"
  by (simp add: crc32_iso_hdlc_def crc_reference_def crc_loop_feed)

end
