(* ===== verification/RecordLog.thy ===== *)
theory RecordLog
  imports Crc
begin

text \<open>
  One record of the replication log, \<^verbatim>\<open>crates/seedstone-core/src/log.rs\<close>: a magic
  byte, the length and the checksum of the body, and the body (shard, sequence,
  payload), all little-endian. \<open>decode_record\<close> is total over arbitrary bytes: a
  record, the end of the log, a request for more bytes, or damage to skip. A
  body too long for the length field panics in the encoder and is \<open>None\<close> here.
\<close>

record log_record =
  rec_shard :: u16
  rec_seq :: u64
  rec_payload :: bytes

datatype decoded =
    Record u16 u64 bytes nat
  | EndOfLog
  | NeedMore
  | Corrupt nat

definition MAGIC :: byte where "MAGIC = 0xA5"
definition END_OF_LOG :: byte where "END_OF_LOG = 0"
definition HEADER_LEN :: nat where "HEADER_LEN = 1 + 4 + 4"
definition BODY_FIXED_LEN :: nat where "BODY_FIXED_LEN = 2 + 8"
definition MAX_BODY_LEN :: nat where "MAX_BODY_LEN = 64 * 1024 * 1024"

lemmas record_consts = MAGIC_def END_OF_LOG_def HEADER_LEN_def BODY_FIXED_LEN_def MAX_BODY_LEN_def

definition record_body :: "log_record \<Rightarrow> bytes" where
  "record_body r = le16 (rec_shard r) @ le64 (rec_seq r) @ rec_payload r"

definition encode_record :: "log_record \<Rightarrow> bytes option" where
  "encode_record r =
     (let body_len = BODY_FIXED_LEN + length (rec_payload r) in
      if body_len < 2 ^ 32
      then let body = record_body r in
           Some (MAGIC # le32 (of_nat body_len) @ le32 (crc32_iso_hdlc body) @ body)
      else None)"

definition decode_record :: "bytes \<Rightarrow> decoded" where
  "decode_record buf =
     (case get buf 0 of
        None \<Rightarrow> NeedMore
      | Some b \<Rightarrow>
          if b = END_OF_LOG then EndOfLog
          else if b \<noteq> MAGIC then Corrupt 1
          else if length buf < HEADER_LEN then NeedMore
          else let body_len = unat (le_word (take 4 (drop 1 buf)) :: u32) in
            if \<not> (BODY_FIXED_LEN \<le> body_len \<and> body_len \<le> MAX_BODY_LEN) then Corrupt 1
            else let consumed = HEADER_LEN + body_len in
              if length buf < consumed then NeedMore
              else let body = drop HEADER_LEN (take consumed buf);
                       expected = le_word (take 4 (drop 5 buf)) in
                if crc32_iso_hdlc body \<noteq> expected then Corrupt 1
                else Record (le_word (take 2 body)) (le_word (take 8 (drop 2 body)))
                       (drop BODY_FIXED_LEN body) consumed)"

section \<open>Framing\<close>

lemma length_record_body [simp]: "length (record_body r) = BODY_FIXED_LEN + length (rec_payload r)"
  by (simp add: record_body_def BODY_FIXED_LEN_def)

definition record_header :: "u32 \<Rightarrow> u32 \<Rightarrow> bytes" where
  "record_header n crc = MAGIC # le32 n @ le32 crc"

lemma length_record_header [simp]: "length (record_header n crc) = HEADER_LEN"
  by (simp add: record_header_def HEADER_LEN_def)

lemma record_header_fields:
  "get (record_header n crc @ rest) 0 = Some MAGIC"
  "take 4 (drop 1 (record_header n crc @ rest)) = le32 n"
  "take 4 (drop 5 (record_header n crc @ rest)) = le32 crc"
  by (simp_all add: record_header_def get_def)

lemma MAGIC_not_END [simp]: "MAGIC \<noteq> END_OF_LOG"
  by (simp add: record_consts)

text \<open>What the decoder makes of a whole header with anything behind it.\<close>

lemma decode_header:
  "decode_record (record_header n crc @ rest) =
    (if \<not> (BODY_FIXED_LEN \<le> unat n \<and> unat n \<le> MAX_BODY_LEN) then Corrupt 1
     else if length rest < unat n then NeedMore
     else let body = take (unat n) rest in
       if crc32_iso_hdlc body \<noteq> crc then Corrupt 1
       else Record (le_word (take 2 body)) (le_word (take 8 (drop 2 body))) (drop BODY_FIXED_LEN body)
              (HEADER_LEN + unat n))"
proof -
  have body: "drop HEADER_LEN (take (HEADER_LEN + unat n) (record_header n crc @ rest)) = take (unat n) rest"
    by (simp add: drop_take)
  show ?thesis
    unfolding decode_record_def record_header_fields Let_def body by (simp add: not_less)
qed

lemma encode_recordD:
  assumes "encode_record r = Some bs"
  shows "bs = record_header (of_nat (length (record_body r))) (crc32_iso_hdlc (record_body r)) @ record_body r"
    "unat (of_nat (length (record_body r)) :: u32) = length (record_body r)"
  using assms by (auto simp: encode_record_def record_header_def Let_def simp del: of_nat_add split: if_splits)

lemma length_encode_record: "encode_record r = Some bs \<Longrightarrow> length bs = HEADER_LEN + length (record_body r)"
  using encode_recordD(1) [of r bs] by simp

lemma record_body_fields:
  "le_word (take 2 (record_body r)) = rec_shard r" "le_word (take 8 (drop 2 (record_body r))) = rec_seq r"
  "drop BODY_FIXED_LEN (record_body r) = rec_payload r"
  by (simp_all add: record_body_def BODY_FIXED_LEN_def)

lemma decode_encode_record:
  assumes "encode_record r = Some bs" "length (record_body r) \<le> MAX_BODY_LEN"
  shows "decode_record (bs @ rest) = Record (rec_shard r) (rec_seq r) (rec_payload r) (length bs)"
  unfolding encode_recordD(1) [OF assms(1)] append_assoc decode_header encode_recordD(2) [OF assms(1)]
  using assms(2) by (simp add: record_body_fields)

lemma decode_prefix:
  assumes "encode_record r = Some bs" "length (record_body r) \<le> MAX_BODY_LEN" "n < length bs"
  shows "decode_record (take n bs) = NeedMore"
proof (cases "n < HEADER_LEN")
  case True
  have "bs \<noteq> []" "bs ! 0 = MAGIC" unfolding encode_recordD(1) [OF assms(1)] by (simp_all add: record_header_def)
  then have "get (take n bs) 0 = (if n = 0 then None else Some MAGIC)" by (simp add: get_def)
  moreover have "length (take n bs) < HEADER_LEN" using True by simp
  ultimately show ?thesis by (simp add: decode_record_def)
next
  case False
  have t: "take n bs = record_header (of_nat (length (record_body r))) (crc32_iso_hdlc (record_body r)) @
      take (n - HEADER_LEN) (record_body r)"
    using False unfolding encode_recordD(1) [OF assms(1)] by simp
  have "n - HEADER_LEN < length (record_body r)"
    using assms(3) False length_encode_record [OF assms(1)] by linarith
  then show ?thesis
    using assms(2) unfolding t decode_header encode_recordD(2) [OF assms(1)] by simp
qed

lemma decode_sound:
  assumes "decode_record buf = Record shard seq payload consumed"
  shows "consumed \<le> length buf \<and>
    encode_record \<lparr>rec_shard = shard, rec_seq = seq, rec_payload = payload\<rparr> = Some (take consumed buf)"
proof -
  let ?n = "le_word (take 4 (drop 1 buf)) :: u32" let ?crc = "le_word (take 4 (drop 5 buf)) :: u32"
  have len: "HEADER_LEN \<le> length buf" and magic: "get buf 0 = Some MAGIC"
    using assms by (auto simp: decode_record_def Let_def split: option.splits if_splits)
  have "buf = take 1 buf @ take 4 (drop 1 buf) @ take 4 (drop 5 buf) @ drop 9 buf"
    using append_take_drop_id [of 1 buf] append_take_drop_id [of 4 "drop 1 buf"]
      append_take_drop_id [of 4 "drop 5 buf"] by simp
  moreover have "take 1 buf = [MAGIC]" using magic by (auto simp: get_def take_Suc_conv_app_nth split: if_splits)
  moreover have "take 4 (drop 1 buf) = le32 ?n" "take 4 (drop 5 buf) = le32 ?crc"
    using len le_bytes_le_word [where 'a = 32 and n = 4] by (simp_all add: HEADER_LEN_def)
  ultimately have buf: "buf = record_header ?n ?crc @ drop 9 buf"
    unfolding record_header_def by (metis append_Cons append_Nil append_assoc)
  let ?rest = "drop 9 buf" let ?body = "take (unat ?n) (drop 9 buf)"
  let ?r = "\<lparr>rec_shard = shard, rec_seq = seq, rec_payload = payload\<rparr>"
  have "decode_record (record_header ?n ?crc @ ?rest) = Record shard seq payload consumed"
    using assms buf by simp
  then have d: "BODY_FIXED_LEN \<le> unat ?n" "unat ?n \<le> length ?rest" "crc32_iso_hdlc ?body = ?crc"
    "shard = le_word (take 2 ?body)" "seq = le_word (take 8 (drop 2 ?body))" "payload = drop BODY_FIXED_LEN ?body"
    "consumed = HEADER_LEN + unat ?n"
    unfolding decode_header by (auto simp: Let_def split: if_splits)
  have lb: "length ?body = unat ?n" using d(2) by simp
  have body: "record_body ?r = ?body"
  proof -
    have "le16 shard = take 2 ?body" "le64 seq = take 8 (drop 2 ?body)"
      unfolding d(4,5) by (rule le_bytes_le_word; use lb d(1) in \<open>simp add: BODY_FIXED_LEN_def\<close>)+
    moreover have "?body = take 2 ?body @ take 8 (drop 2 ?body) @ drop 10 ?body"
      using append_take_drop_id [of 2 ?body] append_take_drop_id [of 8 "drop 2 ?body"] by simp
    ultimately show ?thesis by (simp add: record_body_def d(6) BODY_FIXED_LEN_def)
  qed
  have len': "BODY_FIXED_LEN + length payload = unat ?n"
    using arg_cong [OF body, of length] lb by simp
  have "encode_record ?r = Some (record_header ?n ?crc @ ?body)"
    using unat_u32_less [of ?n] d(3)
    by (simp add: encode_record_def len' body record_header_def Let_def del: of_nat_add)
  moreover have "take consumed buf = record_header ?n ?crc @ ?body"
    using arg_cong [OF buf, of "take consumed"] by (simp add: d(7))
  moreover have "consumed \<le> length buf"
    using d(2,7) len by (simp add: HEADER_LEN_def)
  ultimately show ?thesis by simp
qed

lemma decode_damaged:
  assumes "encode_record r = Some (xs @ b # ys)" "length (record_body r) \<le> MAX_BODY_LEN"
    and "HEADER_LEN \<le> length xs" "b' \<noteq> b"
  shows "decode_record (xs @ b' # ys @ rest) = Corrupt 1"
proof -
  let ?h = "record_header (of_nat (length (record_body r))) (crc32_iso_hdlc (record_body r))"
  note e = encode_recordD [OF assms(1)]
  have h: "take HEADER_LEN xs = ?h"
    using arg_cong [OF e(1), of "take HEADER_LEN"] assms(3) by simp
  define us where "us = drop HEADER_LEN xs"
  have xs: "xs = ?h @ us" using append_take_drop_id [of HEADER_LEN xs] h by (simp add: us_def)
  have body: "record_body r = us @ b # ys" using e(1) xs by simp
  have "crc32_iso_hdlc (us @ b' # ys) \<noteq> crc32_iso_hdlc (us @ b # ys)"
    using crc_one_byte [OF assms(4)] by (simp add: crc32_iso_hdlc_def crc_reference_def crc_loop_feed)
  moreover have "take (length (record_body r)) (us @ b' # ys @ rest) = us @ b' # ys"
    by (simp only: body) simp
  ultimately show ?thesis
    using assms(2) unfolding xs append_assoc decode_header e(2)
    by (simp only: body) simp
qed

section \<open>Properties\<close>

text \<open>C33. A record reads back as itself, whatever follows it, and the decoder reports
  exactly the bytes the encoder wrote; cut anywhere short of its end it asks for
  more bytes, and never reports damage or the end of the log.\<close>

theorem record_roundtrip:
  assumes "encode_record r = Some bs" "BODY_FIXED_LEN + length (rec_payload r) \<le> MAX_BODY_LEN"
  shows "decode_record (bs @ rest) = Record (rec_shard r) (rec_seq r) (rec_payload r) (length bs) \<and>
    (n < length bs \<longrightarrow> decode_record (take n bs) = NeedMore)"
  using decode_encode_record decode_prefix assms by simp

text \<open>C32. Whatever bytes the decoder accepts as a record are, up to the count it
  consumed, exactly the encoding of the record it returns: no two encodings of
  one record, and no record from bytes the encoder does not write.\<close>

theorem record_decode_sound:
  assumes "decode_record buf = Record shard seq payload consumed"
  shows "consumed \<le> length buf \<and>
    encode_record \<lparr>rec_shard = shard, rec_seq = seq, rec_payload = payload\<rparr> = Some (take consumed buf)"
  using decode_sound [OF assms] .

text \<open>C31. A record with any one byte of its body changed, in any way, is reported as
  damage and never as a record.\<close>

theorem record_damage_detected:
  assumes "encode_record r = Some bs" "BODY_FIXED_LEN + length (rec_payload r) \<le> MAX_BODY_LEN"
    and "HEADER_LEN \<le> i" "i < length bs" "b \<noteq> bs ! i"
  shows "decode_record (bs[i := b] @ rest) = Corrupt 1"
proof -
  have "encode_record r = Some (take i bs @ bs ! i # drop (Suc i) bs)"
    using assms(1,4) by (simp add: id_take_nth_drop [symmetric])
  from decode_damaged [OF this _ _ assms(5), of rest] show ?thesis
    using assms(2-4) by (simp add: upd_conv_take_nth_drop)
qed

section \<open>Witnesses\<close>

definition a_record :: log_record where
  "a_record = \<lparr>rec_shard = 1, rec_seq = 2, rec_payload = [3]\<rparr>"

lemma a_record_encodes: "\<exists>bs. encode_record a_record = Some bs \<and> length bs = 20"
  by (simp add: a_record_def encode_record_def record_body_def BODY_FIXED_LEN_def Let_def)

theorem record_roundtrip_witness:
  "\<exists>bs. encode_record a_record = Some bs \<and> decode_record (bs @ [0]) = Record 1 2 [3] 20 \<and>
    decode_record (take 7 bs) = NeedMore"
proof -
  obtain bs where "encode_record a_record = Some bs" "length bs = 20" using a_record_encodes by blast
  then show ?thesis
    using record_roundtrip [of a_record bs "[0]" 7] by (auto simp: a_record_def record_consts)
qed

theorem record_decode_sound_witness:
  "\<exists>bs. decode_record bs = Record 1 2 [3] 20 \<and> encode_record a_record = Some (take 20 bs)"
proof -
  obtain bs where "encode_record a_record = Some bs" "length bs = 20" using a_record_encodes by blast
  then have "decode_record bs = Record 1 2 [3] 20"
    using decode_encode_record [of a_record bs "[]"] by (simp add: a_record_def record_consts)
  then show ?thesis using record_decode_sound [of bs 1 2 "[3]" 20] by (auto simp: a_record_def)
qed

theorem record_damage_detected_witness:
  "\<exists>bs. encode_record a_record = Some bs \<and> decode_record (bs[19 := bs ! 19 + 1]) = Corrupt 1"
proof -
  obtain bs where "encode_record a_record = Some bs" "length bs = 20" using a_record_encodes by blast
  then show ?thesis
    using record_damage_detected [of a_record bs 19 "bs ! 19 + 1" "[]"] by (auto simp: a_record_def record_consts)
qed

end
