(* ===== verification/FileLog.thy ===== *)
theory FileLog
  imports RecordLog "HOL-Library.Option_ord"
begin

text \<open>
  The replication log a shard writes to. The trait \<^verbatim>\<open>ReplicationLog\<close> of
  \<^verbatim>\<open>crates/seedstone-core/src/log.rs\<close> is a record of operations that the shard's
  definitions take as an argument; its contract is the locale \<open>replication_log\<close>.
  The two implementations are the \<^verbatim>\<open>FileLog\<close> of \<^verbatim>\<open>log/file.rs\<close>, which keeps the
  encoded records until they are handed to the writer, and \<^verbatim>\<open>NoopLog\<close>. An append
  answers whether it was accepted; \<open>None\<close> is the encoder's panic on a body that
  does not fit its length field.
\<close>

record 'l log_ops =
  log_append :: "'l \<Rightarrow> log_record \<Rightarrow> (bool \<times> 'l) option"
  log_flush_into :: "'l \<Rightarrow> bytes \<Rightarrow> 'l \<times> bytes"
  log_flushed_through :: "'l \<Rightarrow> u64 option"
  log_sync_completed :: "'l \<Rightarrow> u64 option \<Rightarrow> u64 \<Rightarrow> u64 option \<times> 'l"
  log_covered :: "'l \<Rightarrow> u64 \<Rightarrow> 'l"
  log_keeps_payloads :: "'l \<Rightarrow> bool"

record file_log =
  fl_shard :: u16
  pending :: bytes
  pending_through :: "u64 option"
  flushed_point :: "u64 option"
  durable_point :: "u64 option"

definition file_log_new :: "u16 \<Rightarrow> file_log" where
  "file_log_new shard =
     \<lparr>fl_shard = shard, pending = [], pending_through = None, flushed_point = None, durable_point = None\<rparr>"

definition file_log_append :: "file_log \<Rightarrow> log_record \<Rightarrow> (bool \<times> file_log) option" where
  "file_log_append l r =
     do {
       bs \<leftarrow> encode_record r;
       Some (True, l\<lparr>pending := pending l @ bs, pending_through := Some (rec_seq r)\<rparr>)
     }"

definition file_log_flush_into :: "file_log \<Rightarrow> bytes \<Rightarrow> file_log \<times> bytes" where
  "file_log_flush_into l out =
     (if pending l = [] then (l, out)
      else (l\<lparr>pending := [], pending_through := None,
              flushed_point := (case pending_through l of Some s \<Rightarrow> Some s | None \<Rightarrow> flushed_point l)\<rparr>,
            out @ pending l))"

definition file_log_sync_completed :: "file_log \<Rightarrow> u64 option \<Rightarrow> u64 \<Rightarrow> u64 option \<times> file_log" where
  "file_log_sync_completed l through round =
     (let point = max (durable_point l) through in (point, l\<lparr>durable_point := point\<rparr>))"

definition file_log_covered :: "file_log \<Rightarrow> u64 \<Rightarrow> file_log" where
  "file_log_covered l through = l\<lparr>durable_point := max (durable_point l) (Some through)\<rparr>"

definition file_log_ops :: "file_log log_ops" where
  "file_log_ops =
     \<lparr>log_append = file_log_append, log_flush_into = file_log_flush_into,
      log_flushed_through = flushed_point, log_sync_completed = file_log_sync_completed,
      log_covered = file_log_covered, log_keeps_payloads = (\<lambda>_. True)\<rparr>"

text \<open>The log of a node without one.\<close>

definition noop_log_ops :: "unit log_ops" where
  "noop_log_ops =
     \<lparr>log_append = (\<lambda>l _. Some (True, l)), log_flush_into = (\<lambda>l out. (l, out)),
      log_flushed_through = (\<lambda>_. None), log_sync_completed = (\<lambda>l _ _. (None, l)),
      log_covered = (\<lambda>l _. l), log_keeps_payloads = (\<lambda>_. False)\<rparr>"

section \<open>The contract\<close>

text \<open>The bytes a sequence of records is on the wire to the writer.\<close>

fun wire :: "log_record list \<Rightarrow> bytes option" where
  "wire [] = Some []"
| "wire (r # rs) = do { bs \<leftarrow> encode_record r; rest \<leftarrow> wire rs; Some (bs @ rest) }"

lemma wire_append: "wire (rs @ qs) = do { a \<leftarrow> wire rs; b \<leftarrow> wire qs; Some (a @ b) }"
  by (induction rs) (auto simp: bind_eq_Some_conv split: Option.bind_splits)

lemma wire_snoc: "wire rs = Some a \<Longrightarrow> encode_record r = Some b \<Longrightarrow> wire (rs @ [r]) = Some (a @ b)"
  by (simp add: wire_append)

lemma encode_record_not_Nil: "encode_record r = Some bs \<Longrightarrow> bs \<noteq> []"
  by (auto simp: encode_record_def Let_def split: if_splits)

lemma wire_eq_Nil: "wire rs = Some [] \<longleftrightarrow> rs = []"
  by (cases rs) (auto simp: bind_eq_Some_conv dest: encode_record_not_Nil)

text \<open>\<open>holds l rs\<close>: the log \<open>l\<close> has accepted the records \<open>rs\<close>, in order, since it last
  handed over. An append adds its record at the end or refuses and keeps the
  rest; a hand-over moves exactly the accepted records, in order, after what was
  in the buffer.\<close>

locale replication_log =
  fixes ops :: "'l log_ops"
    and holds :: "'l \<Rightarrow> log_record list \<Rightarrow> bool"
  assumes keeps: "log_keeps_payloads ops l"
    and append_accepts: "holds l rs \<Longrightarrow> log_append ops l r = Some (True, l') \<Longrightarrow> holds l' (rs @ [r])"
    and append_refuses: "holds l rs \<Longrightarrow> log_append ops l r = Some (False, l') \<Longrightarrow> holds l' rs"
    and flush_moves: "holds l rs \<Longrightarrow> log_flush_into ops l out = (l', out') \<Longrightarrow>
      holds l' [] \<and> (\<exists>bs. wire rs = Some bs \<and> out' = out @ bs)"
    and flush_point: "holds l rs \<Longrightarrow> log_flush_into ops l out = (l', out') \<Longrightarrow>
      log_flushed_through ops l' = (if rs = [] then log_flushed_through ops l else Some (rec_seq (last rs)))"
begin

lemma flush_after_append:
  assumes "holds l []" "log_append ops l r = Some (True, l')"
  shows "\<exists>bs. encode_record r = Some bs \<and> snd (log_flush_into ops l' out) = out @ bs \<and>
    log_flushed_through ops (fst (log_flush_into ops l' out)) = Some (rec_seq r)"
proof -
  have h: "holds l' [r]" using append_accepts [OF assms] by simp
  obtain l'' out' where f: "log_flush_into ops l' out = (l'', out')" by fastforce
  from flush_moves [OF h f] flush_point [OF h f] f show ?thesis
    by (auto simp: bind_eq_Some_conv)
qed

end

definition file_log_holds :: "file_log \<Rightarrow> log_record list \<Rightarrow> bool" where
  "file_log_holds l rs =
     (wire rs = Some (pending l) \<and>
      pending_through l = (if rs = [] then None else Some (rec_seq (last rs))))"

interpretation fl: replication_log file_log_ops file_log_holds
proof unfold_locales
  fix l l' :: file_log and rs r and out out' :: bytes
  show "log_keeps_payloads file_log_ops l" by (simp add: file_log_ops_def)
  show "file_log_holds l rs \<Longrightarrow> log_append file_log_ops l r = Some (True, l') \<Longrightarrow> file_log_holds l' (rs @ [r])"
    by (auto simp: file_log_ops_def file_log_append_def file_log_holds_def bind_eq_Some_conv wire_snoc)
  show "file_log_holds l rs \<Longrightarrow> log_append file_log_ops l r = Some (False, l') \<Longrightarrow> file_log_holds l' rs"
    by (auto simp: file_log_ops_def file_log_append_def bind_eq_Some_conv)
  assume h: "file_log_holds l rs" and f: "log_flush_into file_log_ops l out = (l', out')"
  have e: "pending l = [] \<longleftrightarrow> rs = []" using h wire_eq_Nil [of rs] by (auto simp: file_log_holds_def)
  show "file_log_holds l' [] \<and> (\<exists>bs. wire rs = Some bs \<and> out' = out @ bs)"
    using h f e by (auto simp: file_log_ops_def file_log_flush_into_def file_log_holds_def split: if_splits)
  show "log_flushed_through file_log_ops l' =
      (if rs = [] then log_flushed_through file_log_ops l else Some (rec_seq (last rs)))"
    using h f e by (auto simp: file_log_ops_def file_log_flush_into_def file_log_holds_def split: if_splits)
qed

text \<open>What the writer and the checkpoint tell a log about the disk leaves what it has accepted.\<close>

locale durable_log = replication_log +
  assumes sync_keeps: "holds l rs \<Longrightarrow> holds (snd (log_sync_completed ops l through round)) rs"
    and covered_keeps: "holds l rs \<Longrightarrow> holds (log_covered ops l point) rs"

interpretation dl: durable_log file_log_ops file_log_holds
  by unfold_locales (simp_all add: file_log_ops_def file_log_holds_def file_log_sync_completed_def file_log_covered_def Let_def)

lemma file_log_new_holds: "file_log_holds (file_log_new shard) []"
  by (simp add: file_log_holds_def file_log_new_def)

section \<open>The durable point\<close>

text \<open>Neither a completed sync nor a snapshot's coverage ever lowers a shard's
  durable point, and each raises it at least to what it proved.\<close>

theorem durable_point_rises:
  "durable_point l \<le> durable_point (snd (file_log_sync_completed l through round)) \<and>
    through \<le> durable_point (snd (file_log_sync_completed l through round)) \<and>
    fst (file_log_sync_completed l through round) = durable_point (snd (file_log_sync_completed l through round)) \<and>
    durable_point l \<le> durable_point (file_log_covered l point) \<and>
    Some point \<le> durable_point (file_log_covered l point)"
  by (simp add: file_log_sync_completed_def file_log_covered_def Let_def)

end
