(* ===== verification/Table.thy ===== *)
theory Table
  imports Prelude "HOL-Library.Multiset"
begin

text \<open>
  The bucket tables of \<^verbatim>\<open>crates/seedstone-core/src/dict.rs\<close>: entries, slots,
  buckets and the free functions that probe, update and remove in one table.
  The keyed hash is SipHash-1-3 of the \<^verbatim>\<open>siphasher\<close> crate, a parameter \<open>sip\<close> of
  every operation that hashes; nothing is assumed of it. Instants are naturals
  (nanoseconds from an arbitrary origin). The content of a table is the multiset
  of its slots: each operation is described by what it does to that multiset,
  which is what the accounting and the abstract map of the dict depend on.
\<close>

type_synonym instant = nat
type_synonym siphash = "u64 \<Rightarrow> u64 \<Rightarrow> bytes \<Rightarrow> u64"

record dict_seed =
  k0 :: u64
  k1 :: u64

record entry =
  entry_value :: bytes
  expires_at :: "instant option"
  touched :: u32

type_synonym slot = "u64 \<times> bytes \<times> entry"
type_synonym bucket = "slot list"
type_synonym table = "bucket list"

abbreviation slot_hash :: "slot \<Rightarrow> u64" where "slot_hash \<equiv> fst"
abbreviation slot_key :: "slot \<Rightarrow> bytes" where "slot_key s \<equiv> fst (snd s)"
abbreviation slot_entry :: "slot \<Rightarrow> entry" where "slot_entry s \<equiv> snd (snd s)"

definition INITIAL_BUCKETS :: nat where "INITIAL_BUCKETS = 8"
definition ENTRY_OVERHEAD :: nat where "ENTRY_OVERHEAD = 96"
definition BUCKET_OVERHEAD :: nat where "BUCKET_OVERHEAD = 24"

definition entry_bytes :: "bytes \<Rightarrow> bytes \<Rightarrow> u64" where
  "entry_bytes key v = of_nat ENTRY_OVERHEAD + of_nat (length key) + of_nat (length v)"

definition table_bytes :: "nat \<Rightarrow> u64" where
  "table_bytes buckets = of_nat buckets * of_nat BUCKET_OVERHEAD"

definition empty_table :: "nat \<Rightarrow> table" where
  "empty_table buckets = replicate buckets []"

definition hash_key :: "siphash \<Rightarrow> dict_seed \<Rightarrow> bytes \<Rightarrow> u64" where
  "hash_key sip seed key = sip (k0 seed) (k1 seed) key"

definition bucket_index :: "u64 \<Rightarrow> nat \<Rightarrow> nat" where
  "bucket_index h buckets = unat (h AND (of_nat buckets - 1))"

definition mask_of :: "table \<Rightarrow> u64" where
  "mask_of t = of_nat (length t) - 1"

definition slot_matches :: "u64 \<Rightarrow> bytes \<Rightarrow> slot \<Rightarrow> bool" where
  "slot_matches h key s = (slot_hash s = h \<and> slot_key s = key)"

definition find_in :: "table \<Rightarrow> u64 \<Rightarrow> bytes \<Rightarrow> entry option" where
  "find_in t h key = map_option slot_entry (find (slot_matches h key) (t ! bucket_index h (length t)))"

text \<open>A write through the reference \<^verbatim>\<open>find_mut\<close> hands out: the first matching
  slot of the bucket gets the entry \<open>f\<close> makes of it.\<close>

fun write_first :: "u64 \<Rightarrow> bytes \<Rightarrow> (entry \<Rightarrow> entry) \<Rightarrow> bucket \<Rightarrow> bucket" where
  "write_first h key f [] = []"
| "write_first h key f (s # ss) =
     (if slot_matches h key s then (slot_hash s, slot_key s, f (slot_entry s)) # ss
      else s # write_first h key f ss)"

definition write_found :: "table \<Rightarrow> u64 \<Rightarrow> bytes \<Rightarrow> (entry \<Rightarrow> entry) \<Rightarrow> table" where
  "write_found t h key f =
     (let i = bucket_index h (length t) in t[i := write_first h key f (t ! i)])"

fun remove_first :: "u64 \<Rightarrow> bytes \<Rightarrow> bucket \<Rightarrow> bucket" where
  "remove_first h key [] = []"
| "remove_first h key (s # ss) = (if slot_matches h key s then ss else s # remove_first h key ss)"

definition remove_from :: "table \<Rightarrow> u64 \<Rightarrow> bytes \<Rightarrow> entry option \<times> table" where
  "remove_from t h key =
     (let i = bucket_index h (length t) in
      case find (slot_matches h key) (t ! i) of
        None \<Rightarrow> (None, t)
      | Some s \<Rightarrow> (Some (slot_entry s), t[i := remove_first h key (t ! i)]))"

definition push_slot :: "table \<Rightarrow> slot \<Rightarrow> table" where
  "push_slot t s = (let i = bucket_index (slot_hash s) (length t) in t[i := t ! i @ [s]])"

section \<open>The content of a table\<close>

definition content :: "table \<Rightarrow> slot multiset" where
  "content t = mset (concat t)"

lemma content_update:
  assumes "i < length t"
  shows "content (t[i := b]) + mset (t ! i) = content t + mset b"
proof -
  have t: "t = take i t @ t ! i # drop (Suc i) t" by (rule id_take_nth_drop [OF assms])
  have "t[i := b] = take i t @ b # drop (Suc i) t" by (rule upd_conv_take_nth_drop [OF assms])
  then have "content (t[i := b]) = mset (concat (take i t)) + mset b + mset (concat (drop (Suc i) t))"
    by (simp add: content_def)
  moreover have "content t = mset (concat (take i t)) + mset (t ! i) + mset (concat (drop (Suc i) t))"
    using arg_cong [OF t, of "\<lambda>x. mset (concat x)"] by (simp add: content_def)
  ultimately show ?thesis by simp
qed

lemma set_content: "set_mset (content t) = (\<Union>b \<in> set t. set b)"
  by (simp add: content_def)

lemma content_empty_table [simp]: "content (empty_table n) = {#}"
  by (simp add: content_def empty_table_def)

lemma length_empty_table [simp]: "length (empty_table n) = n"
  by (simp add: empty_table_def)

declare split_paired_All [simp del] split_paired_Ex [simp del] split_paired_all [simp del]

section \<open>Placement\<close>

text \<open>A table is \<open>placed\<close> when its length is a power of two and every slot
  carries its key's hash and sits in the bucket that hash selects.\<close>

definition power_of_two :: "nat \<Rightarrow> bool" where
  "power_of_two n = (\<exists>k. n = 2 ^ k)"

definition placed :: "(bytes \<Rightarrow> u64) \<Rightarrow> table \<Rightarrow> bool" where
  "placed hk t =
     (power_of_two (length t) \<and>
      (\<forall>i < length t. \<forall>s \<in> set (t ! i).
         slot_hash s = hk (slot_key s) \<and> i = bucket_index (slot_hash s) (length t)))"

lemma mask_word: "of_nat (2 ^ k) - 1 = (mask k :: u64)"
  by (simp add: mask_eq_decr_exp)

lemma bucket_index_less:
  assumes "power_of_two n"
  shows "bucket_index h n < n"
proof -
  obtain k where n: "n = 2 ^ k" using assms by (auto simp: power_of_two_def)
  have "bucket_index h n = unat (take_bit k h)"
    by (simp only: bucket_index_def n mask_word) (simp add: take_bit_eq_mask)
  also have "\<dots> < 2 ^ k"
    by (simp add: unsigned_take_bit_eq take_bit_nat_less_exp)
  finally show ?thesis by (simp add: n)
qed

lemma placedI:
  assumes "power_of_two (length t)"
    and "\<And>i s. i < length t \<Longrightarrow> s \<in> set (t ! i) \<Longrightarrow>
      slot_hash s = hk (slot_key s) \<and> i = bucket_index (slot_hash s) (length t)"
  shows "placed hk t"
  using assms by (auto simp: placed_def)

lemma placed_in:
  assumes "placed hk t" "i < length t" "s \<in> set (t ! i)"
  shows "slot_hash s = hk (slot_key s)" "bucket_index (slot_hash s) (length t) = i"
  using assms unfolding placed_def by metis+

lemma placedD:
  assumes "placed hk t"
  shows "bucket_index h (length t) < length t" "power_of_two (length t)"
  using assms by (auto simp: placed_def bucket_index_less)

lemma content_in: "s \<in># content t \<Longrightarrow> \<exists>i < length t. s \<in> set (t ! i)"
  by (auto simp: content_def in_set_conv_nth [of _ t])

lemma placed_slot:
  assumes "placed hk t" "s \<in># content t"
  shows "slot_hash s = hk (slot_key s)" "s \<in> set (t ! bucket_index (slot_hash s) (length t))"
proof -
  obtain i where i: "i < length t" "s \<in> set (t ! i)" using content_in [OF assms(2)] by blast
  show "slot_hash s = hk (slot_key s)" "s \<in> set (t ! bucket_index (slot_hash s) (length t))"
    using placed_in [OF assms(1) i] i(2) by simp_all
qed

lemma slot_matchesD: "slot_matches h key s \<Longrightarrow> s = (h, key, slot_entry s)"
  by (cases s) (simp add: slot_matches_def)

lemma find_slot:
  assumes "find (slot_matches h key) b = Some s"
  shows "s \<in> set b" "s = (h, key, slot_entry s)"
proof -
  obtain i where "i < length b" "slot_matches h key (b ! i)" "s = b ! i"
    using assms by (auto simp: find_Some_iff)
  then show "s \<in> set b" "s = (h, key, slot_entry s)" using slot_matchesD by auto
qed

lemma bucket_content: "i < length t \<Longrightarrow> s \<in> set (t ! i) \<Longrightarrow> s \<in># content t"
  by (auto simp: content_def)

lemma placed_update:
  assumes "placed hk t" "i < length t"
    and "\<And>s. s \<in> set b \<Longrightarrow> slot_hash s = hk (slot_key s) \<and> i = bucket_index (slot_hash s) (length t)"
  shows "placed hk (t[i := b])"
proof (rule placedI)
  show "power_of_two (length (t[i := b]))" using placedD(2) [OF assms(1)] by simp
  fix j s assume "j < length (t[i := b])" "s \<in> set (t[i := b] ! j)"
  then show "slot_hash s = hk (slot_key s) \<and> j = bucket_index (slot_hash s) (length (t[i := b]))"
    using assms(3) placed_in [OF assms(1), of j s] by (cases "j = i") auto
qed

lemma placed_empty_table: "power_of_two n \<Longrightarrow> placed hk (empty_table n)"
  by (auto simp: placed_def empty_table_def)

section \<open>Probing\<close>

lemma find_in_SomeD:
  assumes "placed hk t" "find_in t h key = Some e"
  shows "(h, key, e) \<in># content t"
proof -
  let ?i = "bucket_index h (length t)"
  obtain s where "find (slot_matches h key) (t ! ?i) = Some s" "e = slot_entry s"
    using assms(2) by (auto simp: find_in_def)
  then have "s \<in> set (t ! ?i)" "s = (h, key, e)" using find_slot by blast+
  then show ?thesis using placedD(1) [OF assms(1)] by (blast intro: bucket_content)
qed

lemma find_in_NoneD:
  assumes "placed hk t" "find_in t (hk key) key = None" "s \<in># content t"
  shows "slot_key s \<noteq> key"
proof
  assume "slot_key s = key"
  then have "slot_matches (hk key) key s" "s \<in> set (t ! bucket_index (hk key) (length t))"
    using placed_slot [OF assms(1,3)] by (auto simp: slot_matches_def)
  then show False using assms(2) by (auto simp: find_in_def find_None_iff)
qed

section \<open>Writing through a probe\<close>

lemma write_first_mset:
  "find (slot_matches h key) b = Some s \<Longrightarrow>
    mset (write_first h key f b) + {#s#} = mset b + {#(h, key, f (slot_entry s))#}"
  by (induction b) (auto simp: slot_matches_def)

lemma write_first_None: "find (slot_matches h key) b = None \<Longrightarrow> write_first h key f b = b"
  by (induction b) (auto split: if_splits)

lemma write_first_set: "s \<in> set (write_first h key f b) \<Longrightarrow>
    \<exists>s' \<in> set b. slot_hash s = slot_hash s' \<and> slot_key s = slot_key s'"
  by (induction b) (auto split: if_splits)

lemma length_write_found [simp]: "length (write_found t h key f) = length t"
  by (simp add: write_found_def Let_def)

lemma write_found_None: "find_in t h key = None \<Longrightarrow> write_found t h key f = t"
  by (simp add: find_in_def write_found_def write_first_None Let_def)

lemma write_found_content:
  assumes "placed hk t" "find_in t h key = Some e"
  shows "content (write_found t h key f) = content t - {#(h, key, e)#} + {#(h, key, f e)#}"
proof -
  let ?i = "bucket_index h (length t)"
  obtain s where s: "find (slot_matches h key) (t ! ?i) = Some s" "e = slot_entry s"
    using assms(2) by (auto simp: find_in_def)
  then have e: "s = (h, key, e)" using find_slot by blast
  have "content (write_found t h key f) + {#(h, key, e)#} + mset (t ! ?i) =
      content t + (mset (write_first h key f (t ! ?i)) + {#s#})"
    using content_update [OF placedD(1) [OF assms(1), of h], of "write_first h key f (t ! ?i)"] e
    by (simp add: write_found_def Let_def)
  also have "\<dots> = content t + {#(h, key, f e)#} + mset (t ! ?i)"
    using write_first_mset [OF s(1), of f] s(2) by simp
  finally show ?thesis
    using find_in_SomeD [OF assms] by (auto dest!: multi_member_split)
qed

lemma placed_write_found:
  assumes "placed hk t"
  shows "placed hk (write_found t h key f)"
proof -
  let ?i = "bucket_index h (length t)"
  have "slot_hash s = hk (slot_key s) \<and> ?i = bucket_index (slot_hash s) (length t)"
    if s: "s \<in> set (write_first h key f (t ! ?i))" for s
  proof -
    obtain s' where "s' \<in> set (t ! ?i)" "slot_hash s = slot_hash s'" "slot_key s = slot_key s'"
      using write_first_set [OF s] by blast
    then show ?thesis using placed_in [OF assms placedD(1) [OF assms], of s'] by auto
  qed
  then show ?thesis
    using placed_update [OF assms placedD(1) [OF assms, of h]]
    unfolding write_found_def Let_def by blast
qed

section \<open>Removing and pushing\<close>

lemma remove_first_mset:
  "find (slot_matches h key) b = Some s \<Longrightarrow> mset (remove_first h key b) + {#s#} = mset b"
  by (induction b) auto

lemma remove_first_subset: "set (remove_first h key b) \<subseteq> set b"
  by (induction b) auto

lemma remove_from_fst [simp]: "fst (remove_from t h key) = find_in t h key"
  by (simp add: remove_from_def find_in_def Let_def split: option.split)

lemma remove_from_None: "find_in t h key = None \<Longrightarrow> snd (remove_from t h key) = t"
  by (simp add: remove_from_def find_in_def Let_def split: option.splits)

lemma length_remove_from [simp]: "length (snd (remove_from t h key)) = length t"
  by (simp add: remove_from_def Let_def split: option.split)

lemma remove_from_content:
  assumes "placed hk t" "find_in t h key = Some e"
  shows "content (snd (remove_from t h key)) = content t - {#(h, key, e)#}"
proof -
  let ?i = "bucket_index h (length t)"
  obtain s where s: "find (slot_matches h key) (t ! ?i) = Some s" "e = slot_entry s"
    using assms(2) by (auto simp: find_in_def)
  then have e: "s = (h, key, e)" using find_slot by blast
  have "content (snd (remove_from t h key)) + {#(h, key, e)#} + mset (t ! ?i) =
      content t + (mset (remove_first h key (t ! ?i)) + {#s#})"
    using content_update [OF placedD(1) [OF assms(1), of h], of "remove_first h key (t ! ?i)"] e s
    by (simp add: remove_from_def Let_def)
  also have "\<dots> = content t + mset (t ! ?i)"
    using remove_first_mset [OF s(1)] by simp
  finally show ?thesis by (metis add_diff_cancel_right' add_right_cancel)
qed

lemma placed_remove_from:
  assumes "placed hk t"
  shows "placed hk (snd (remove_from t h key))"
proof -
  let ?i = "bucket_index h (length t)"
  have i: "?i < length t" by (rule placedD(1) [OF assms])
  have "placed hk (t[?i := remove_first h key (t ! ?i)])"
    using placed_in [OF assms i] remove_first_subset by (intro placed_update [OF assms i]) fastforce
  then show ?thesis using assms by (simp add: remove_from_def Let_def split: option.split)
qed

lemma length_push_slot [simp]: "length (push_slot t s) = length t"
  by (simp add: push_slot_def Let_def)

lemma push_slot_content:
  assumes "power_of_two (length t)"
  shows "content (push_slot t s) = content t + {#s#}"
proof -
  let ?i = "bucket_index (slot_hash s) (length t)"
  have "content (push_slot t s) + mset (t ! ?i) = content t + {#s#} + mset (t ! ?i)"
    using content_update [OF bucket_index_less [OF assms], of "slot_hash s" "t ! ?i @ [s]"]
    by (simp add: push_slot_def Let_def)
  then show ?thesis by simp
qed

lemma placed_push_slot:
  assumes "placed hk t" "slot_hash s = hk (slot_key s)"
  shows "placed hk (push_slot t s)"
proof -
  let ?i = "bucket_index (slot_hash s) (length t)"
  have i: "?i < length t" by (rule placedD(1) [OF assms(1)])
  show ?thesis
    unfolding push_slot_def Let_def
  proof (rule placed_update [OF assms(1) i])
    fix x assume "x \<in> set (t ! ?i @ [s])"
    then consider "x = s" | "x \<in> set (t ! ?i)" by auto
    then show "slot_hash x = hk (slot_key x) \<and> ?i = bucket_index (slot_hash x) (length t)"
    proof cases
      case 1
      then show ?thesis using assms(2) by blast
    next
      case 2
      then show ?thesis using placed_in [OF assms(1) i 2] by metis
    qed
  qed
qed

section \<open>Distinct keys\<close>

definition keys_of :: "slot multiset \<Rightarrow> bytes multiset" where
  "keys_of M = image_mset (\<lambda>s. slot_key s) M"

definition keys_distinct :: "slot multiset \<Rightarrow> bool" where
  "keys_distinct M = (\<forall>k. count (keys_of M) k \<le> 1)"

definition holds_key :: "slot multiset \<Rightarrow> bytes \<Rightarrow> bool" where
  "holds_key M k = (k \<in># keys_of M)"

lemma keys_of_add [simp]: "keys_of (add_mset s M) = add_mset (slot_key s) (keys_of M)"
  by (simp add: keys_of_def)

lemma holds_key_iff: "holds_key M k \<longleftrightarrow> (\<exists>s. s \<in># M \<and> slot_key s = k)"
  by (auto simp: holds_key_def keys_of_def)

lemma keys_distinct_unique:
  assumes "keys_distinct M" "s \<in># M" "s' \<in># M" "slot_key s = slot_key s'"
  shows "s = s'"
proof (rule ccontr)
  assume "s \<noteq> s'"
  then obtain N where "M = add_mset s (add_mset s' N)"
    using assms(2,3) by (metis insert_DiffM insert_noteq_member)
  then have "count (keys_of M) (slot_key s) \<ge> 2" using assms(4) by simp
  then show False using assms(1) unfolding keys_distinct_def by (metis not_less_eq_eq numeral_2_eq_2 One_nat_def)
qed

lemma keys_distinct_add:
  "keys_distinct M \<Longrightarrow> \<not> holds_key M (slot_key s) \<Longrightarrow> keys_distinct (add_mset s M)"
  by (simp add: keys_distinct_def holds_key_def not_in_iff)

lemma keys_distinct_diff:
  assumes "keys_distinct M"
  shows "keys_distinct (M - N)"
proof -
  have "count (keys_of (M - N)) k \<le> count (keys_of M) k" for k
    unfolding keys_of_def by (intro mset_subset_eq_count image_mset_subseteq_mono) simp
  then show ?thesis using assms unfolding keys_distinct_def by (meson le_trans)
qed

lemma keys_distinct_replace:
  assumes "keys_distinct M" "s \<in># M" "slot_key s' = slot_key s"
  shows "keys_distinct (add_mset s' (M - {#s#}))"
proof -
  obtain N where "M = add_mset s N" using assms(2) by (blast dest: multi_member_split)
  then show ?thesis using assms by (simp add: keys_distinct_def)
qed

lemma holds_key_union [simp]: "holds_key (A + B) k \<longleftrightarrow> holds_key A k \<or> holds_key B k"
  by (simp add: holds_key_def keys_of_def)

lemma holds_key_empty [simp]: "\<not> holds_key {#} k"
  by (simp add: holds_key_def keys_of_def)

lemma find_in_None_holds:
  "placed hk t \<Longrightarrow> find_in t (hk key) key = None \<Longrightarrow> \<not> holds_key (content t) key"
  using find_in_NoneD by (auto simp: holds_key_iff)

end
