(* ===== verification/Dict.thy ===== *)
theory Dict
  imports Table
begin

text \<open>
  The keyspace of one shard: the \<open>Dict\<close> of \<^verbatim>\<open>crates/seedstone-core/src/dict.rs\<close>,
  a chained hash table that grows by an incremental rehash into a second table
  of twice the size. Its counters keep the source's widths: the accounted bytes
  are a wrapping \<open>u64\<close>, the touch clock a wrapping \<open>u32\<close>; lengths are \<open>usize\<close> and
  are naturals here. \<open>dict_inv\<close> is the representation invariant, \<open>dict_map\<close> the
  map the dict stands for; the last part shows that every operation keeps the
  one and does to the other what its name says.
\<close>

record dict =
  d_seed :: dict_seed
  old_table :: table
  new_table :: "table option"
  rehash_index :: nat
  d_len :: nat
  may_hold_deadlines :: bool
  used_bytes :: u64
  with_deadline :: nat
  d_clock :: u32

definition with_seed :: "dict_seed \<Rightarrow> dict" where
  "with_seed seed =
     \<lparr>d_seed = seed, old_table = empty_table INITIAL_BUCKETS, new_table = None, rehash_index = 0,
      d_len = 0, may_hold_deadlines = False, used_bytes = table_bytes INITIAL_BUCKETS,
      with_deadline = 0, d_clock = 0\<rparr>"

abbreviation hash_in :: "siphash \<Rightarrow> dict \<Rightarrow> bytes \<Rightarrow> u64" where
  "hash_in sip d \<equiv> hash_key sip (d_seed d)"

definition dict_get :: "siphash \<Rightarrow> dict \<Rightarrow> bytes \<Rightarrow> entry option" where
  "dict_get sip d key =
     (let h = hash_in sip d key in
      case find_in (old_table d) h key of
        Some e \<Rightarrow> Some e
      | None \<Rightarrow> (case new_table d of None \<Rightarrow> None | Some t \<Rightarrow> find_in t h key))"

definition dated :: "entry \<Rightarrow> nat" where
  "dated e = (if expires_at e \<noteq> None then 1 else 0)"

text \<open>A write to the entry under \<open>key\<close>, in whichever table holds it: the shape the
  mutating operations share. The first component says what was there.\<close>

definition write_entry :: "siphash \<Rightarrow> dict \<Rightarrow> bytes \<Rightarrow> (entry \<Rightarrow> entry) \<Rightarrow> entry option \<times> dict" where
  "write_entry sip d key f =
     (let h = hash_in sip d key in
      case find_in (old_table d) h key of
        Some e \<Rightarrow> (Some e, d\<lparr>old_table := write_found (old_table d) h key f\<rparr>)
      | None \<Rightarrow>
          (case new_table d of
             None \<Rightarrow> (None, d)
           | Some t \<Rightarrow>
               (case find_in t h key of
                  Some e \<Rightarrow> (Some e, d\<lparr>new_table := Some (write_found t h key f)\<rparr>)
                | None \<Rightarrow> (None, d))))"

definition set_deadline :: "siphash \<Rightarrow> dict \<Rightarrow> bytes \<Rightarrow> instant option \<Rightarrow> bool \<times> dict" where
  "set_deadline sip d key at =
     (let d1 = d\<lparr>may_hold_deadlines := (may_hold_deadlines d \<or> at \<noteq> None)\<rparr> in
      case write_entry sip d1 key (\<lambda>e. e\<lparr>expires_at := at\<rparr>) of
        (None, d2) \<Rightarrow> (False, d2)
      | (Some e, d2) \<Rightarrow>
          (True, d2\<lparr>with_deadline := with_deadline d2 + (if at \<noteq> None then 1 else 0) - dated e\<rparr>))"

definition touch :: "siphash \<Rightarrow> dict \<Rightarrow> bytes \<Rightarrow> dict" where
  "touch sip d key =
     (let stamp = d_clock d + 1 in
      snd (write_entry sip (d\<lparr>d_clock := stamp\<rparr>) key (\<lambda>e. e\<lparr>touched := stamp\<rparr>)))"

definition is_rehashing :: "dict \<Rightarrow> bool" where
  "is_rehashing d = (new_table d \<noteq> None)"

definition dict_is_empty :: "dict \<Rightarrow> bool" where
  "dict_is_empty d = (d_len d = 0)"

text \<open>One old bucket drained into the new table.\<close>

definition migrate_bucket :: "nat \<Rightarrow> table \<times> table \<Rightarrow> table \<times> table" where
  "migrate_bucket i ts = ((fst ts)[i := []], foldl push_slot (snd ts) (fst ts ! i))"

definition rehash_step :: "dict \<Rightarrow> nat \<Rightarrow> dict" where
  "rehash_step d buckets =
     (case new_table d of
        None \<Rightarrow> d
      | Some new \<Rightarrow>
          (let stop = min (rehash_index d + buckets) (length (old_table d));
               (old', new') = fold migrate_bucket [rehash_index d..<stop] (old_table d, new)
           in
           if stop = length (old_table d)
           then d\<lparr>used_bytes := used_bytes d - table_bytes (length (old_table d)),
                  old_table := new', new_table := None, rehash_index := 0\<rparr>
           else d\<lparr>old_table := old', new_table := Some new', rehash_index := stop\<rparr>))"

definition start_rehash :: "dict \<Rightarrow> dict" where
  "start_rehash d =
     d\<lparr>new_table := Some (empty_table (length (old_table d) * 2)),
       used_bytes := used_bytes d + table_bytes (length (old_table d) * 2),
       rehash_index := 0\<rparr>"

definition grow_or_migrate :: "dict \<Rightarrow> dict" where
  "grow_or_migrate d =
     (if is_rehashing d then rehash_step d 1
      else if d_len d \<ge> length (old_table d) then start_rehash d
      else d)"

definition dict_insert :: "siphash \<Rightarrow> dict \<Rightarrow> bytes \<Rightarrow> entry \<Rightarrow> dict" where
  "dict_insert sip d0 key e =
     (let d1 = grow_or_migrate d0;
          d = d1\<lparr>may_hold_deadlines := (may_hold_deadlines d1 \<or> expires_at e \<noteq> None)\<rparr>;
          h = hash_in sip d key;
          after = entry_bytes key (entry_value e)
      in
      case write_entry sip d key (\<lambda>_. e) of
        (Some existing, d2) \<Rightarrow>
          d2\<lparr>used_bytes := used_bytes d2 - entry_bytes key (entry_value existing) + after,
             with_deadline := with_deadline d2 + dated e - dated existing\<rparr>
      | (None, d2) \<Rightarrow>
          (let d3 = d2\<lparr>used_bytes := used_bytes d2 + after,
                       with_deadline := with_deadline d2 + dated e,
                       d_len := d_len d2 + 1\<rparr> in
           case new_table d3 of
             Some t \<Rightarrow> d3\<lparr>new_table := Some (push_slot t (h, key, e))\<rparr>
           | None \<Rightarrow> d3\<lparr>old_table := push_slot (old_table d3) (h, key, e)\<rparr>))"

definition dict_remove :: "siphash \<Rightarrow> dict \<Rightarrow> bytes \<Rightarrow> entry option \<times> dict" where
  "dict_remove sip d0 key =
     (let d = (if is_rehashing d0 then rehash_step d0 1 else d0);
          h = hash_in sip d key;
          (removed, d2) =
            (case remove_from (old_table d) h key of
               (Some e, t) \<Rightarrow> (Some e, d\<lparr>old_table := t\<rparr>)
             | (None, _) \<Rightarrow>
                 (case new_table d of
                    None \<Rightarrow> (None, d)
                  | Some new \<Rightarrow>
                      (case remove_from new h key of
                         (Some e, t) \<Rightarrow> (Some e, d\<lparr>new_table := Some t\<rparr>)
                       | (None, _) \<Rightarrow> (None, d))))
      in
      case removed of
        None \<Rightarrow> (None, d2)
      | Some e \<Rightarrow>
          (Some e,
           d2\<lparr>used_bytes := used_bytes d2 - entry_bytes key (entry_value e),
              with_deadline := with_deadline d2 - dated e,
              d_len := d_len d2 - 1,
              may_hold_deadlines := (may_hold_deadlines d2 \<and> d_len d2 - 1 \<noteq> 0)\<rparr>))"

definition dict_clear :: "dict \<Rightarrow> dict" where
  "dict_clear d = with_seed (d_seed d)"

section \<open>Invariant and abstraction\<close>

definition slots :: "dict \<Rightarrow> slot multiset" where
  "slots d = content (old_table d) + (case new_table d of None \<Rightarrow> {#} | Some t \<Rightarrow> content t)"

definition slot_bytes :: "slot \<Rightarrow> u64" where
  "slot_bytes s = entry_bytes (slot_key s) (entry_value (slot_entry s))"

definition tables_bytes :: "dict \<Rightarrow> u64" where
  "tables_bytes d = table_bytes (length (old_table d)) +
     (case new_table d of None \<Rightarrow> 0 | Some t \<Rightarrow> table_bytes (length t))"

text \<open>\<open>accounted M d\<close>: the running figures agree with a recount of the slots \<open>M\<close>
  and of the tables held.\<close>

definition accounted :: "slot multiset \<Rightarrow> dict \<Rightarrow> bool" where
  "accounted M d =
     (d_len d = size M \<and>
      used_bytes d = sum_mset (image_mset slot_bytes M) + tables_bytes d \<and>
      with_deadline d = sum_mset (image_mset (\<lambda>s. dated (slot_entry s)) M) \<and>
      (\<not> may_hold_deadlines d \<longrightarrow> (\<forall>s \<in># M. expires_at (slot_entry s) = None)))"

definition tables_ok :: "siphash \<Rightarrow> dict \<Rightarrow> bool" where
  "tables_ok sip d =
     (placed (hash_in sip d) (old_table d) \<and>
      (case new_table d of
         None \<Rightarrow> True
       | Some t \<Rightarrow>
           placed (hash_in sip d) t \<and> length t = 2 * length (old_table d) \<and>
           rehash_index d < length (old_table d) \<and>
           (\<forall>i < rehash_index d. old_table d ! i = [])))"

definition dict_inv :: "siphash \<Rightarrow> dict \<Rightarrow> bool" where
  "dict_inv sip d = (tables_ok sip d \<and> keys_distinct (slots d) \<and> accounted (slots d) d)"

definition entries :: "table \<Rightarrow> (bytes \<times> entry) list" where
  "entries t = map snd (concat t)"

definition dict_map :: "dict \<Rightarrow> bytes \<Rightarrow> entry option" where
  "dict_map d = map_of (entries (old_table d) @
     (case new_table d of None \<Rightarrow> [] | Some t \<Rightarrow> entries t))"

section \<open>What a multiset of slots denotes\<close>

definition denotes :: "slot multiset \<Rightarrow> (bytes \<Rightarrow> entry option) \<Rightarrow> bool" where
  "denotes M m = (\<forall>k e. m k = Some e \<longleftrightarrow> (\<exists>h. (h, k, e) \<in># M))"

lemma denotesD: "denotes M m \<Longrightarrow> m k = Some e \<longleftrightarrow> (\<exists>h. (h, k, e) \<in># M)"
  unfolding denotes_def by blast

lemma denotes_unique: "denotes M m \<Longrightarrow> denotes M m' \<Longrightarrow> m = m'"
  unfolding denotes_def by (rule ext) (metis not_None_eq)

lemma denotes_holds: "denotes M m \<Longrightarrow> holds_key M k \<longleftrightarrow> m k \<noteq> None"
  unfolding denotes_def holds_key_iff by (metis fst_conv not_None_eq prod.collapse snd_conv)

lemma denotes_empty: "denotes {#} (\<lambda>_. None)"
  by (simp add: denotes_def)

lemma denotes_add:
  assumes "denotes M m" "m k = None"
  shows "denotes (add_mset (h, k, e) M) (m(k \<mapsto> e))"
  using assms unfolding denotes_def by (auto split: if_splits) (metis option.distinct(1))

lemma denotes_remove:
  assumes "denotes M m" "keys_distinct M" "(h, k, e) \<in># M"
  shows "denotes (M - {#(h, k, e)#}) (m(k := None))"
proof -
  obtain N where M: "M = add_mset (h, k, e) N" using assms(3) by (blast dest: multi_member_split)
  have no: "(h', k, e') \<notin># N" for h' e'
  proof
    assume "(h', k, e') \<in># N"
    then have "count (keys_of M) k \<ge> 2"
      using M by (auto dest!: multi_member_split)
    then show False using assms(2) unfolding keys_distinct_def by (metis not_less_eq_eq numeral_2_eq_2 One_nat_def)
  qed
  have "(m(k := None)) k' = Some e' \<longleftrightarrow> (\<exists>h'. (h', k', e') \<in># N)" for k' e'
    using no denotesD [OF assms(1), of k' e'] M by (cases "k' = k") auto
  then show ?thesis using M by (simp add: denotes_def)
qed

lemma denotes_replace:
  assumes "denotes M m" "keys_distinct M" "(h, k, e) \<in># M"
  shows "denotes (add_mset (h', k, e') (M - {#(h, k, e)#})) (m(k \<mapsto> e'))"
  using denotes_add [OF denotes_remove [OF assms], of k h' e'] by simp

lemma dict_map_set: "m = map_of (map snd ss) \<Longrightarrow>
    keys_distinct (mset ss) \<Longrightarrow> denotes (mset ss) m"
proof (induction ss arbitrary: m)
  case Nil
  then show ?case by (simp add: denotes_empty)
next
  case (Cons s ss)
  obtain h k e where s: "s = (h, k, e)" by (cases s)
  have kd: "keys_distinct (mset ss)"
    using keys_distinct_diff [OF Cons.prems(2), of "{#s#}"] by simp
  have "count (keys_of (mset ss)) k \<le> 0"
    using Cons.prems(2) s unfolding keys_distinct_def by (auto dest: spec [of _ k])
  then have "\<not> holds_key (mset ss) k" by (simp add: holds_key_def not_in_iff)
  then have "map_of (map snd ss) k = None"
    using denotes_holds [OF Cons.IH [OF refl kd]] by blast
  then show ?case
    using denotes_add [OF Cons.IH [OF refl kd], of k h e] Cons.prems(1) s by (simp add: fun_upd_def)
qed

lemma denotes_dict_map:
  assumes "keys_distinct (slots d)"
  shows "denotes (slots d) (dict_map d)"
proof -
  let ?ss = "concat (old_table d) @ (case new_table d of None \<Rightarrow> [] | Some t \<Rightarrow> concat t)"
  have m: "mset ?ss = slots d"
    by (simp add: slots_def content_def split: option.split)
  have "dict_map d = map_of (map snd ?ss)"
    by (simp add: dict_map_def entries_def split: option.split)
  from dict_map_set [OF this] show ?thesis using assms unfolding m by blast
qed

lemma dict_map_eqI:
  "keys_distinct (slots d) \<Longrightarrow> denotes (slots d) m \<Longrightarrow> dict_map d = m"
  using denotes_unique [OF denotes_dict_map] by blast

section \<open>Probing and writing one entry\<close>

lemma tables_okD:
  assumes "tables_ok sip d"
  shows "placed (hash_in sip d) (old_table d)"
    and "new_table d = Some t \<Longrightarrow> placed (hash_in sip d) t"
    and "new_table d = Some t \<Longrightarrow> length t = 2 * length (old_table d)"
    and "new_table d = Some t \<Longrightarrow> rehash_index d < length (old_table d)"
    and "new_table d = Some t \<Longrightarrow> i < rehash_index d \<Longrightarrow> old_table d ! i = []"
  using assms by (simp_all add: tables_ok_def)

lemma dict_get_Some:
  assumes "tables_ok sip d" "dict_get sip d key = Some e"
  shows "(hash_in sip d key, key, e) \<in># slots d"
  using assms(2) find_in_SomeD [OF tables_okD(1) [OF assms(1)]] find_in_SomeD [OF tables_okD(2) [OF assms(1)]]
  by (auto simp: dict_get_def slots_def Let_def split: option.splits)

lemma dict_get_None:
  assumes "tables_ok sip d" "dict_get sip d key = None"
  shows "\<not> holds_key (slots d) key"
  using assms(2) find_in_None_holds [OF tables_okD(1) [OF assms(1)]]
    find_in_None_holds [OF tables_okD(2) [OF assms(1)]]
  by (auto simp: dict_get_def slots_def Let_def split: option.splits)

lemma write_entry_fst [simp]: "fst (write_entry sip d key f) = dict_get sip d key"
  by (simp add: write_entry_def dict_get_def Let_def split: option.split)

lemma write_entry_None: "dict_get sip d key = None \<Longrightarrow> write_entry sip d key f = (None, d)"
  by (auto simp add: write_entry_def dict_get_def Let_def split: option.splits)

lemma drained_write:
  assumes "\<forall>i < n. t ! i = []" "i < n"
  shows "write_found t h key f ! i = []"
  using assms
  by (cases "bucket_index h (length t) < length t")
    (auto simp: write_found_def Let_def nth_list_update list_update_beyond)

lemma write_entry_Some:
  assumes "tables_ok sip d" "dict_get sip d key = Some e"
  shows "\<exists>d'. write_entry sip d key f = (Some e, d') \<and>
    slots d' = slots d - {#(hash_in sip d key, key, e)#} + {#(hash_in sip d key, key, f e)#} \<and>
    tables_ok sip d' \<and>
    (\<exists>t n. d' = d\<lparr>old_table := t, new_table := n\<rparr> \<and> length t = length (old_table d) \<and>
       map_option length n = map_option length (new_table d))"
proof (cases "find_in (old_table d) (hash_in sip d key) key")
  case (Some e')
  note old = tables_okD(1) [OF assms(1)]
  have e: "e' = e" using Some assms(2) by (simp add: dict_get_def Let_def)
  let ?t = "write_found (old_table d) (hash_in sip d key) key f"
  let ?d = "d\<lparr>old_table := ?t\<rparr>"
  have "write_entry sip d key f = (Some e, ?d)" using Some e by (simp add: write_entry_def Let_def)
  moreover have "slots ?d = slots d - {#(hash_in sip d key, key, e)#} + {#(hash_in sip d key, key, f e)#}"
    using write_found_content [OF old Some, of f] find_in_SomeD [OF old Some] e
    by (auto simp: slots_def dest!: multi_member_split)
  moreover have "tables_ok sip ?d"
    using assms(1) placed_write_found [OF old] by (auto simp: tables_ok_def drained_write split: option.splits)
  moreover have "?d = d\<lparr>old_table := ?t, new_table := new_table d\<rparr>" by simp
  ultimately show ?thesis by (metis length_write_found)
next
  case None
  then obtain t where t: "new_table d = Some t" "find_in t (hash_in sip d key) key = Some e"
    using assms(2) by (auto simp: dict_get_def Let_def split: option.splits)
  note new = tables_okD(2) [OF assms(1) t(1)]
  let ?t = "write_found t (hash_in sip d key) key f"
  let ?d = "d\<lparr>new_table := Some ?t\<rparr>"
  have "write_entry sip d key f = (Some e, ?d)" using None t by (simp add: write_entry_def Let_def)
  moreover have "slots ?d = slots d - {#(hash_in sip d key, key, e)#} + {#(hash_in sip d key, key, f e)#}"
    using write_found_content [OF new t(2), of f] find_in_SomeD [OF new t(2)] t(1)
    by (auto simp: slots_def dest!: multi_member_split)
  moreover have "tables_ok sip ?d"
    using assms(1) placed_write_found [OF new] t(1) by (auto simp: tables_ok_def)
  moreover have "?d = d\<lparr>old_table := old_table d, new_table := Some ?t\<rparr>" by simp
  ultimately show ?thesis using t(1) by (metis length_write_found option.map(2))
qed

section \<open>The incremental rehash\<close>

lemma push_all:
  assumes "placed hk t" "\<And>s. s \<in> set ss \<Longrightarrow> slot_hash s = hk (slot_key s)"
  shows "content (foldl push_slot t ss) = content t + mset ss \<and> placed hk (foldl push_slot t ss) \<and>
    length (foldl push_slot t ss) = length t"
  using assms
proof (induction ss arbitrary: t)
  case (Cons s ss)
  have p: "placed hk (push_slot t s)" by (rule placed_push_slot) (use Cons.prems in simp_all)
  then show ?case
    using Cons.IH [OF p] Cons.prems push_slot_content [OF placedD(2) [OF Cons.prems(1)], of s] by auto
qed simp

lemma migrate_bucket_ok:
  assumes "placed hk old" "placed hk new" "i < length old" "migrate_bucket i (old, new) = (old', new')"
  shows "content old' + content new' = content old + content new" "placed hk old'" "placed hk new'"
    "length old' = length old" "length new' = length new" "old' = old[i := []]"
proof -
  have h: "\<And>s. s \<in> set (old ! i) \<Longrightarrow> slot_hash s = hk (slot_key s)"
    using placed_in(1) [OF assms(1,3)] by blast
  have o: "old' = old[i := []]" "new' = foldl push_slot new (old ! i)"
    using assms(4) by (auto simp: migrate_bucket_def)
  note all = push_all [OF assms(2) h]
  show "content old' + content new' = content old + content new"
    using all content_update [OF assms(3), of "[]"] o by simp
  show "placed hk old'" unfolding o by (rule placed_update [OF assms(1,3)]) simp
  show "placed hk new'" "length new' = length new" using all o by auto
  show "length old' = length old" "old' = old[i := []]" using o by auto
qed

lemma migrate_range:
  assumes "placed hk old" "placed hk new" "a \<le> b" "b \<le> length old"
    and "fold migrate_bucket [a..<b] (old, new) = (old', new')"
  shows "content old' + content new' = content old + content new \<and> placed hk old' \<and> placed hk new' \<and>
    length old' = length old \<and> length new' = length new \<and>
    (\<forall>i < length old. old' ! i = (if a \<le> i \<and> i < b then [] else old ! i))"
  using assms(3-5)
proof (induction b arbitrary: old' new' rule: nat_induct_at_least)
  case base
  then show ?case using assms(1,2) by auto
next
  case (Suc b)
  obtain o1 n1 where mid: "fold migrate_bucket [a..<b] (old, new) = (o1, n1)" by fastforce
  have ih: "content o1 + content n1 = content old + content new" "placed hk o1" "placed hk n1"
    "length o1 = length old" "length n1 = length new"
    "\<forall>i < length old. o1 ! i = (if a \<le> i \<and> i < b then [] else old ! i)"
    using Suc.IH [OF _ mid] Suc.prems by auto
  have "migrate_bucket b (o1, n1) = (old', new')"
    using Suc.prems(2) mid Suc.hyps by simp
  from migrate_bucket_ok [OF ih(2,3) _ this] ih Suc.prems(1) Suc.hyps show ?case
    by (auto simp: nth_list_update)
qed

lemma rehash_step_cases:
  assumes "tables_ok sip d" "new_table d = Some new"
  obtains (more) old' new' where
      "rehash_step d n = d\<lparr>old_table := old', new_table := Some new', rehash_index := rehash_index d + n\<rparr>"
      "rehash_index d + n < length (old_table d)"
      "content old' + content new' = slots d" "placed (hash_in sip d) old'" "placed (hash_in sip d) new'"
      "length old' = length (old_table d)" "length new' = length new"
      "\<forall>i < rehash_index d + n. old' ! i = []"
  | (finished) new' where
      "rehash_step d n = d\<lparr>used_bytes := used_bytes d - table_bytes (length (old_table d)),
         old_table := new', new_table := None, rehash_index := 0\<rparr>"
      "length (old_table d) \<le> rehash_index d + n"
      "content new' = slots d" "placed (hash_in sip d) new'" "length new' = length new"
proof -
  let ?stop = "min (rehash_index d + n) (length (old_table d))"
  note ok = tables_okD [OF assms(1)]
  have lt: "rehash_index d < length (old_table d)" by (rule ok(4) [OF assms(2)])
  obtain old' new' where f:
    "fold migrate_bucket [rehash_index d..<?stop] (old_table d, new) = (old', new')" by fastforce
  have r: "content old' + content new' = slots d" "placed (hash_in sip d) old'" "placed (hash_in sip d) new'"
    "length old' = length (old_table d)" "length new' = length new"
    "\<forall>i < length (old_table d). old' ! i = (if rehash_index d \<le> i \<and> i < ?stop then [] else old_table d ! i)"
    using migrate_range [OF ok(1) ok(2) [OF assms(2)] _ _ f] lt assms(2) by (auto simp: slots_def)
  have drained: "\<forall>i < ?stop. old' ! i = []"
    using r(6) ok(5) [OF assms(2)] by (auto simp: not_le)
  show thesis
  proof (cases "length (old_table d) \<le> rehash_index d + n")
    case True
    then have "\<forall>b \<in> set old'. b = []" using drained r(4) by (auto simp: in_set_conv_nth)
    then have "content old' = {#}" by (auto simp: content_def concat_eq_Nil_conv [THEN iffD2])
    then have "content new' = slots d" using r(1) by simp
    moreover have "rehash_step d n = d\<lparr>used_bytes := used_bytes d - table_bytes (length (old_table d)),
         old_table := new', new_table := None, rehash_index := 0\<rparr>"
      using True f assms(2) by (simp add: rehash_step_def min_def)
    ultimately show thesis using finished True r by blast
  next
    case False
    then have "rehash_step d n =
        d\<lparr>old_table := old', new_table := Some new', rehash_index := rehash_index d + n\<rparr>"
      using f assms(2) by (simp add: rehash_step_def min_def)
    then show thesis using more False r drained by (simp add: min_def)
  qed
qed

lemma rehash_step_ok:
  assumes "tables_ok sip d"
  shows "slots (rehash_step d n) = slots d" "tables_ok sip (rehash_step d n)"
    "accounted M d \<Longrightarrow> accounted M (rehash_step d n)"
    "d_seed (rehash_step d n) = d_seed d"
proof -
  have "slots (rehash_step d n) = slots d \<and> tables_ok sip (rehash_step d n) \<and>
      (accounted M d \<longrightarrow> accounted M (rehash_step d n)) \<and> d_seed (rehash_step d n) = d_seed d"
  proof (cases "new_table d")
    case None
    then show ?thesis using assms by (simp add: rehash_step_def)
  next
    case (Some new)
    note ok = tables_okD [OF assms(1)]
    from assms(1) Some show ?thesis
    proof (cases rule: rehash_step_cases [of sip d new n])
      case (more old' new')
      then show ?thesis
        using ok(3) [OF Some] Some
        by (auto simp: slots_def tables_ok_def accounted_def tables_bytes_def)
    next
      case (finished new')
      then show ?thesis
        using ok(3) [OF Some] Some
        by (auto simp: slots_def tables_ok_def accounted_def tables_bytes_def)
    qed
  qed
  then show "slots (rehash_step d n) = slots d" "tables_ok sip (rehash_step d n)"
    "accounted M d \<Longrightarrow> accounted M (rehash_step d n)" "d_seed (rehash_step d n) = d_seed d" by auto
qed

lemma start_rehash_ok:
  assumes "tables_ok sip d" "new_table d = None"
  shows "slots (start_rehash d) = slots d" "tables_ok sip (start_rehash d)"
    "accounted M d \<Longrightarrow> accounted M (start_rehash d)" "d_seed (start_rehash d) = d_seed d"
proof -
  have p: "power_of_two (length (old_table d))" "0 < length (old_table d)"
    using placedD [OF tables_okD(1) [OF assms(1)]] by (auto simp: power_of_two_def)
  then have "power_of_two (length (old_table d) * 2)"
    unfolding power_of_two_def by (metis power_Suc2)
  then show "tables_ok sip (start_rehash d)"
    using assms p by (auto simp: tables_ok_def start_rehash_def intro: placed_empty_table)
  show "slots (start_rehash d) = slots d" "d_seed (start_rehash d) = d_seed d"
    using assms(2) by (simp_all add: slots_def start_rehash_def)
  show "accounted M d \<Longrightarrow> accounted M (start_rehash d)"
    using assms(2) by (simp add: accounted_def start_rehash_def tables_bytes_def)
qed

lemma grow_or_migrate_ok:
  assumes "tables_ok sip d"
  shows "slots (grow_or_migrate d) = slots d" "tables_ok sip (grow_or_migrate d)"
    "accounted M d \<Longrightarrow> accounted M (grow_or_migrate d)" "d_seed (grow_or_migrate d) = d_seed d"
  using rehash_step_ok [OF assms] start_rehash_ok [OF assms] assms
  by (auto simp: grow_or_migrate_def is_rehashing_def)

section \<open>Every operation keeps the invariant and refines the map\<close>

lemma dict_invD:
  assumes "dict_inv sip d"
  shows "tables_ok sip d" "keys_distinct (slots d)" "accounted (slots d) d"
  using assms by (simp_all add: dict_inv_def)

lemma dict_get_map:
  assumes "dict_inv sip d"
  shows "dict_get sip d key = dict_map d key"
proof (cases "dict_get sip d key")
  case None
  then show ?thesis
    using dict_get_None [OF dict_invD(1) [OF assms]] denotes_holds [OF denotes_dict_map [OF dict_invD(2) [OF assms]]]
    by simp
next
  case (Some e)
  then show ?thesis
    using dict_get_Some [OF dict_invD(1) [OF assms]] denotesD [OF denotes_dict_map [OF dict_invD(2) [OF assms]]]
    by metis
qed

lemma with_seed_ok: "dict_inv sip (with_seed seed)" "dict_map (with_seed seed) = (\<lambda>_. None)"
proof -
  have p: "power_of_two INITIAL_BUCKETS"
    unfolding power_of_two_def INITIAL_BUCKETS_def by (rule exI [of _ 3]) simp
  show "dict_inv sip (with_seed seed)"
    using placed_empty_table [OF p]
    by (simp add: dict_inv_def tables_ok_def slots_def with_seed_def accounted_def tables_bytes_def
        keys_distinct_def keys_of_def)
  show "dict_map (with_seed seed) = (\<lambda>_. None)"
    by (simp add: dict_map_def entries_def with_seed_def empty_table_def concat_replicate_trivial)
qed

lemma dict_clear_ok: "dict_inv sip (dict_clear d)" "dict_map (dict_clear d) = (\<lambda>_. None)"
  by (simp_all add: dict_clear_def with_seed_ok)

text \<open>The shape of a successful write: the slots change in one place, the
  tables keep their sizes, and nothing else of the dict moves.\<close>

lemma write_entry_ok:
  assumes "tables_ok sip d" "keys_distinct (slots d)" "dict_get sip d key = Some e"
  obtains t n where "write_entry sip d key f = (Some e, d\<lparr>old_table := t, new_table := n\<rparr>)"
    "tables_ok sip (d\<lparr>old_table := t, new_table := n\<rparr>)"
    "keys_distinct (slots (d\<lparr>old_table := t, new_table := n\<rparr>))"
    "dict_map (d\<lparr>old_table := t, new_table := n\<rparr>) = (dict_map d)(key \<mapsto> f e)"
    "tables_bytes (d\<lparr>old_table := t, new_table := n\<rparr>) = tables_bytes d"
    "slots (d\<lparr>old_table := t, new_table := n\<rparr>) =
       add_mset (hash_in sip d key, key, f e) (slots d - {#(hash_in sip d key, key, e)#})"
proof -
  let ?h = "hash_in sip d key"
  obtain t n where w: "write_entry sip d key f = (Some e, d\<lparr>old_table := t, new_table := n\<rparr>)"
    "slots (d\<lparr>old_table := t, new_table := n\<rparr>) = slots d - {#(?h, key, e)#} + {#(?h, key, f e)#}"
    "tables_ok sip (d\<lparr>old_table := t, new_table := n\<rparr>)" "length t = length (old_table d)"
    "map_option length n = map_option length (new_table d)"
    using write_entry_Some [OF assms(1,3), of f] by blast
  have mem: "(?h, key, e) \<in># slots d" by (rule dict_get_Some [OF assms(1,3)])
  have sl: "slots (d\<lparr>old_table := t, new_table := n\<rparr>) =
      add_mset (?h, key, f e) (slots d - {#(?h, key, e)#})" using w(2) by simp
  have kd: "keys_distinct (slots (d\<lparr>old_table := t, new_table := n\<rparr>))"
    unfolding sl by (rule keys_distinct_replace [OF assms(2) mem]) simp
  moreover have "dict_map (d\<lparr>old_table := t, new_table := n\<rparr>) = (dict_map d)(key \<mapsto> f e)"
    using denotes_replace [OF denotes_dict_map [OF assms(2)] assms(2) mem] sl
    by (intro dict_map_eqI [OF kd]) simp
  moreover have "tables_bytes (d\<lparr>old_table := t, new_table := n\<rparr>) = tables_bytes d"
    using w(4,5) by (cases n; cases "new_table d") (simp_all add: tables_bytes_def)
  ultimately show thesis using that w sl by blast
qed

lemma slots_update [simp]:
  "slots (d\<lparr>used_bytes := a\<rparr>) = slots d" "slots (d\<lparr>with_deadline := b\<rparr>) = slots d"
  "slots (d\<lparr>may_hold_deadlines := c\<rparr>) = slots d" "slots (d\<lparr>d_clock := x\<rparr>) = slots d"
  "slots (d\<lparr>d_len := y\<rparr>) = slots d"
  by (simp_all add: slots_def)

lemma tables_ok_update [simp]:
  "tables_ok sip (d\<lparr>used_bytes := a\<rparr>) = tables_ok sip d"
  "tables_ok sip (d\<lparr>with_deadline := b\<rparr>) = tables_ok sip d"
  "tables_ok sip (d\<lparr>may_hold_deadlines := c\<rparr>) = tables_ok sip d"
  "tables_ok sip (d\<lparr>d_clock := x\<rparr>) = tables_ok sip d" "tables_ok sip (d\<lparr>d_len := y\<rparr>) = tables_ok sip d"
  by (cases "new_table d"; simp add: tables_ok_def)+

lemma tables_bytes_update [simp]:
  "tables_bytes (d\<lparr>used_bytes := a\<rparr>) = tables_bytes d" "tables_bytes (d\<lparr>with_deadline := b\<rparr>) = tables_bytes d"
  "tables_bytes (d\<lparr>may_hold_deadlines := c\<rparr>) = tables_bytes d" "tables_bytes (d\<lparr>d_clock := x\<rparr>) = tables_bytes d"
  "tables_bytes (d\<lparr>d_len := y\<rparr>) = tables_bytes d"
  by (simp_all add: tables_bytes_def)

lemma dict_map_update [simp]:
  "dict_map (d\<lparr>used_bytes := a\<rparr>) = dict_map d" "dict_map (d\<lparr>with_deadline := b\<rparr>) = dict_map d"
  "dict_map (d\<lparr>may_hold_deadlines := c\<rparr>) = dict_map d" "dict_map (d\<lparr>d_clock := x\<rparr>) = dict_map d"
  "dict_map (d\<lparr>d_len := y\<rparr>) = dict_map d"
  by (simp_all add: dict_map_def)

lemma dict_get_update [simp]:
  "dict_get sip (d\<lparr>may_hold_deadlines := c\<rparr>) = dict_get sip d"
  "dict_get sip (d\<lparr>d_clock := x\<rparr>) = dict_get sip d"
  by (rule ext; simp add: dict_get_def Let_def split: option.split)+

subsection \<open>Deadlines and touches\<close>

lemma sum_dated_replace:
  assumes "s \<in># M"
  shows "sum_mset (image_mset (\<lambda>s. dated (slot_entry s)) (add_mset s' (M - {#s#}))) =
    sum_mset (image_mset (\<lambda>s. dated (slot_entry s)) M) + dated (slot_entry s') - dated (slot_entry s)"
    and "sum_mset (image_mset slot_bytes (add_mset s' (M - {#s#}))) =
      sum_mset (image_mset slot_bytes M) - slot_bytes s + slot_bytes s'"
    and "size (add_mset s' (M - {#s#})) = size M"
  using assms by (auto dest!: multi_member_split simp: algebra_simps)

text \<open>An entry overwritten in place keeps the invariant once the figures move by
  the difference between what was there and what is there now.\<close>

lemma write_counted:
  assumes "dict_inv sip d" "dict_map d key = Some e"
    and "expires_at (f e) = None \<or> may_hold_deadlines d"
  obtains d2 where "write_entry sip d key f = (Some e, d2)"
    "d_seed d2 = d_seed d" "used_bytes d2 = used_bytes d" "with_deadline d2 = with_deadline d"
    "dict_map d2 = (dict_map d)(key \<mapsto> f e)"
    "dict_inv sip (d2\<lparr>used_bytes := used_bytes d - entry_bytes key (entry_value e) + entry_bytes key (entry_value (f e)),
       with_deadline := with_deadline d + dated (f e) - dated e\<rparr>)"
proof -
  note inv = dict_invD [OF assms(1)]
  let ?h = "hash_in sip d key"
  have get: "dict_get sip d key = Some e" using dict_get_map [OF assms(1)] assms(2) by simp
  obtain t n where w: "write_entry sip d key f = (Some e, d\<lparr>old_table := t, new_table := n\<rparr>)"
    "tables_ok sip (d\<lparr>old_table := t, new_table := n\<rparr>)"
    "keys_distinct (slots (d\<lparr>old_table := t, new_table := n\<rparr>))"
    "dict_map (d\<lparr>old_table := t, new_table := n\<rparr>) = (dict_map d)(key \<mapsto> f e)"
    "tables_bytes (d\<lparr>old_table := t, new_table := n\<rparr>) = tables_bytes d"
    "slots (d\<lparr>old_table := t, new_table := n\<rparr>) = add_mset (?h, key, f e) (slots d - {#(?h, key, e)#})"
    by (rule write_entry_ok [OF inv(1,2) get])
  let ?d2 = "d\<lparr>old_table := t, new_table := n\<rparr>"
  have mem: "(?h, key, e) \<in># slots d" by (rule dict_get_Some [OF inv(1) get])
  have "accounted (slots ?d2) (?d2\<lparr>used_bytes := used_bytes d - entry_bytes key (entry_value e) +
      entry_bytes key (entry_value (f e)), with_deadline := with_deadline d + dated (f e) - dated e\<rparr>)"
    using inv(3) w(5) sum_dated_replace [OF mem, of "(?h, key, f e)"] assms(3) unfolding w(6)
    by (auto simp: accounted_def slot_bytes_def dest: in_diffD)
  then show thesis using w by (intro that [of ?d2]) (simp_all add: dict_inv_def)
qed

lemma raise_flag: "dict_inv sip d \<Longrightarrow> dict_inv sip (d\<lparr>may_hold_deadlines := (may_hold_deadlines d \<or> b)\<rparr>)"
  by (auto simp: dict_inv_def accounted_def)

lemma set_deadline_ok:
  assumes "dict_inv sip d" "set_deadline sip d key at = (present, d')"
  shows "dict_inv sip d' \<and>
    dict_map d' = (case dict_map d key of None \<Rightarrow> dict_map d
       | Some e \<Rightarrow> (dict_map d)(key \<mapsto> e\<lparr>expires_at := at\<rparr>)) \<and>
    present = (dict_map d key \<noteq> None) \<and> d_seed d' = d_seed d"
proof -
  let ?d1 = "d\<lparr>may_hold_deadlines := (may_hold_deadlines d \<or> at \<noteq> None)\<rparr>"
  let ?f = "\<lambda>e. e\<lparr>expires_at := at\<rparr>"
  have inv1: "dict_inv sip ?d1" by (rule raise_flag [OF assms(1)])
  show ?thesis
  proof (cases "dict_map d key")
    case None
    then have "d' = ?d1" "\<not> present"
      using assms(2) dict_get_map [OF assms(1), of key] by (auto simp: set_deadline_def write_entry_None)
    then show ?thesis using None inv1 by simp
  next
    case (Some e)
    then have 1: "dict_map ?d1 key = Some e" "expires_at (?f e) = None \<or> may_hold_deadlines ?d1"
      by auto
    obtain d2 where w: "write_entry sip ?d1 key ?f = (Some e, d2)"
      "d_seed d2 = d_seed ?d1" "used_bytes d2 = used_bytes ?d1" "with_deadline d2 = with_deadline ?d1"
      "dict_map d2 = (dict_map ?d1)(key \<mapsto> ?f e)"
      "dict_inv sip (d2\<lparr>used_bytes := used_bytes ?d1 - entry_bytes key (entry_value e) +
         entry_bytes key (entry_value (?f e)), with_deadline := with_deadline ?d1 + dated (?f e) - dated e\<rparr>)"
      by (rule write_counted [where f = ?f, OF inv1 1])
    have "d' = d2\<lparr>used_bytes := used_bytes ?d1 - entry_bytes key (entry_value e) +
         entry_bytes key (entry_value (?f e)), with_deadline := with_deadline ?d1 + dated (?f e) - dated e\<rparr>"
      using assms(2) w(1,3,4) by (auto simp: set_deadline_def dated_def)
    then show ?thesis using w Some assms(2) by (auto simp: set_deadline_def)
  qed
qed

lemma touch_ok:
  assumes "dict_inv sip d"
  shows "dict_inv sip (touch sip d key) \<and>
    dict_map (touch sip d key) = (case dict_map d key of None \<Rightarrow> dict_map d
       | Some e \<Rightarrow> (dict_map d)(key \<mapsto> e\<lparr>touched := d_clock d + 1\<rparr>)) \<and>
    d_seed (touch sip d key) = d_seed d"
proof -
  let ?d1 = "d\<lparr>d_clock := d_clock d + 1\<rparr>"
  let ?f = "\<lambda>e. e\<lparr>touched := d_clock d + 1\<rparr>"
  have inv1: "dict_inv sip ?d1" using dict_invD [OF assms] by (auto simp: dict_inv_def accounted_def)
  show ?thesis
  proof (cases "dict_map d key")
    case None
    then have "touch sip d key = ?d1"
      using dict_get_map [OF assms, of key] by (simp add: touch_def write_entry_None)
    then show ?thesis using None inv1 by simp
  next
    case (Some e)
    then have 1: "dict_map ?d1 key = Some e" "expires_at (?f e) = None \<or> may_hold_deadlines ?d1"
      using assms denotesD [OF denotes_dict_map [OF dict_invD(2) [OF assms]], of key e]
      by (auto simp: dict_inv_def accounted_def)
    obtain d2 where w: "write_entry sip ?d1 key ?f = (Some e, d2)"
      "d_seed d2 = d_seed ?d1" "used_bytes d2 = used_bytes ?d1" "with_deadline d2 = with_deadline ?d1"
      "dict_map d2 = (dict_map ?d1)(key \<mapsto> ?f e)"
      "dict_inv sip (d2\<lparr>used_bytes := used_bytes ?d1 - entry_bytes key (entry_value e) +
         entry_bytes key (entry_value (?f e)), with_deadline := with_deadline ?d1 + dated (?f e) - dated e\<rparr>)"
      by (rule write_counted [where f = ?f, OF inv1 1])
    have "touch sip d key = d2\<lparr>used_bytes := used_bytes ?d1 - entry_bytes key (entry_value e) +
         entry_bytes key (entry_value (?f e)), with_deadline := with_deadline ?d1 + dated (?f e) - dated e\<rparr>"
      using w(1,3,4) by (simp add: touch_def dated_def)
    then show ?thesis using w Some by auto
  qed
qed

subsection \<open>Inserting\<close>

lemma grown_ok:
  assumes "dict_inv sip d"
  shows "dict_inv sip (grow_or_migrate d)" "dict_map (grow_or_migrate d) = dict_map d"
    "d_seed (grow_or_migrate d) = d_seed d"
proof -
  note inv = dict_invD [OF assms]
  note g = grow_or_migrate_ok [OF inv(1)]
  show "dict_inv sip (grow_or_migrate d)" using inv g by (simp add: dict_inv_def)
  show "dict_map (grow_or_migrate d) = dict_map d"
    using denotes_dict_map [OF inv(2)] g(1) inv(2) by (intro dict_map_eqI) simp_all
  show "d_seed (grow_or_migrate d) = d_seed d" by (rule g(4))
qed

lemma push_new_ok:
  assumes "dict_inv sip d" "dict_map d key = None"
    and "expires_at e = None \<or> may_hold_deadlines d"
    and "d3 = d\<lparr>used_bytes := used_bytes d + entry_bytes key (entry_value e),
               with_deadline := with_deadline d + dated e, d_len := d_len d + 1\<rparr>"
    and "d' = (case new_table d3 of
         Some t \<Rightarrow> d3\<lparr>new_table := Some (push_slot t (hash_in sip d key, key, e))\<rparr>
       | None \<Rightarrow> d3\<lparr>old_table := push_slot (old_table d3) (hash_in sip d key, key, e)\<rparr>)"
  shows "dict_inv sip d' \<and> dict_map d' = (dict_map d)(key \<mapsto> e) \<and> d_seed d' = d_seed d"
proof -
  note inv = dict_invD [OF assms(1)]
  note ok = tables_okD [OF inv(1)]
  let ?s = "(hash_in sip d key, key, e)"
  have seed: "d_seed d' = d_seed d" using assms(4,5) by (simp split: option.split)
  have old: "power_of_two (length (old_table d))" by (rule placedD(2) [OF ok(1)])
  have sl: "slots d' = add_mset ?s (slots d)"
  proof (cases "new_table d")
    case None
    then show ?thesis using assms(4,5) push_slot_content [OF old, of ?s] by (simp add: slots_def)
  next
    case (Some t)
    then show ?thesis
      using assms(4,5) push_slot_content [OF placedD(2) [OF ok(2) [OF Some]], of ?s] by (simp add: slots_def)
  qed
  have tok: "tables_ok sip d'"
    using inv(1) assms(4,5) placed_push_slot [OF ok(1), of ?s] placed_push_slot [OF ok(2), of _ ?s]
    by (cases "new_table d") (simp_all add: tables_ok_def)
  have tb: "tables_bytes d' = tables_bytes d"
    using assms(4,5) by (cases "new_table d") (simp_all add: tables_bytes_def)
  have nk: "\<not> holds_key (slots d) key"
    using denotes_holds [OF denotes_dict_map [OF inv(2)]] assms(2) by simp
  have kd: "keys_distinct (slots d')" unfolding sl using keys_distinct_add [OF inv(2)] nk by simp
  have "dict_map d' = (dict_map d)(key \<mapsto> e)"
    using denotes_add [OF denotes_dict_map [OF inv(2)] assms(2), of "hash_in sip d key" e] sl
    by (intro dict_map_eqI [OF kd]) simp
  moreover have "accounted (slots d') d'"
    unfolding sl using inv(3) tb assms(3-5)
    by (cases "new_table d") (auto simp: accounted_def slot_bytes_def algebra_simps)
  ultimately show ?thesis using tok kd seed by (simp add: dict_inv_def)
qed

lemma dict_insert_ok:
  assumes "dict_inv sip d"
  shows "dict_inv sip (dict_insert sip d key e) \<and>
    dict_map (dict_insert sip d key e) = (dict_map d)(key \<mapsto> e) \<and>
    d_seed (dict_insert sip d key e) = d_seed d"
proof -
  let ?g = "grow_or_migrate d"
  let ?d = "?g\<lparr>may_hold_deadlines := (may_hold_deadlines ?g \<or> expires_at e \<noteq> None)\<rparr>"
  note g = grown_ok [OF assms]
  have inv: "dict_inv sip ?d" by (rule raise_flag [OF g(1)])
  have m: "dict_map ?d = dict_map d" "d_seed ?d = d_seed d" using g by simp_all
  show ?thesis
  proof (cases "dict_map d key")
    case None
    then have "dict_get sip ?d key = None" using dict_get_map [OF inv, of key] m by simp
    define d3 where "d3 = ?d\<lparr>used_bytes := used_bytes ?d + entry_bytes key (entry_value e),
        with_deadline := with_deadline ?d + dated e, d_len := d_len ?d + 1\<rparr>"
    have "dict_insert sip d key e = (case new_table d3 of
         Some t \<Rightarrow> d3\<lparr>new_table := Some (push_slot t (hash_in sip ?d key, key, e))\<rparr>
       | None \<Rightarrow> d3\<lparr>old_table := push_slot (old_table d3) (hash_in sip ?d key, key, e)\<rparr>)"
      using \<open>dict_get sip ?d key = None\<close>
      by (simp add: dict_insert_def Let_def write_entry_None d3_def split: option.split)
    from push_new_ok [OF inv _ _ d3_def this] show ?thesis
      using m None by (cases "expires_at e") auto
  next
    case (Some x)
    then have 1: "dict_map ?d key = Some x" "expires_at e = None \<or> may_hold_deadlines ?d"
      using m by auto
    obtain d2 where w: "write_entry sip ?d key (\<lambda>_. e) = (Some x, d2)"
      "d_seed d2 = d_seed ?d" "used_bytes d2 = used_bytes ?d" "with_deadline d2 = with_deadline ?d"
      "dict_map d2 = (dict_map ?d)(key \<mapsto> e)"
      "dict_inv sip (d2\<lparr>used_bytes := used_bytes ?d - entry_bytes key (entry_value x) +
         entry_bytes key (entry_value e), with_deadline := with_deadline ?d + dated e - dated x\<rparr>)"
      by (rule write_counted [where f = "\<lambda>_. e", OF inv 1])
    have "dict_insert sip d key e = d2\<lparr>used_bytes := used_bytes ?d - entry_bytes key (entry_value x) +
         entry_bytes key (entry_value e), with_deadline := with_deadline ?d + dated e - dated x\<rparr>"
      using w(1,3,4) by (simp add: dict_insert_def Let_def)
    then show ?thesis using w(2,5,6) m by simp
  qed
qed

subsection \<open>Removing\<close>

lemma drained_remove:
  assumes "\<forall>i < n. t ! i = []" "i < n"
  shows "snd (remove_from t h key) ! i = []"
  using assms
  by (cases "bucket_index h (length t) < length t")
    (auto simp: remove_from_def Let_def nth_list_update list_update_beyond split: option.split)

lemma remove_from_miss: "find_in t h key = None \<Longrightarrow> remove_from t h key = (None, t)"
  using remove_from_fst [of t h key] remove_from_None [of t h key] by (metis prod.collapse)

lemma remove_counted:
  assumes "dict_inv sip d" "tables_ok sip d2" "tables_bytes d2 = tables_bytes d"
    and "slots d2 = slots d - {#(h, key, e)#}" "(h, key, e) \<in># slots d"
    and "d_seed d2 = d_seed d" "d_len d2 = d_len d" "used_bytes d2 = used_bytes d"
      "with_deadline d2 = with_deadline d" "may_hold_deadlines d2 = may_hold_deadlines d"
    and "d' = d2\<lparr>used_bytes := used_bytes d2 - entry_bytes key (entry_value e),
              with_deadline := with_deadline d2 - dated e, d_len := d_len d2 - 1,
              may_hold_deadlines := (may_hold_deadlines d2 \<and> d_len d2 - 1 \<noteq> 0)\<rparr>"
  shows "dict_inv sip d' \<and> dict_map d' = (dict_map d)(key := None) \<and> d_seed d' = d_seed d"
proof -
  note inv = dict_invD [OF assms(1)]
  obtain N where N: "slots d = add_mset (h, key, e) N" "slots d2 = N"
    using assms(4,5) by (auto dest!: multi_member_split)
  have kd: "keys_distinct (slots d')" using keys_distinct_diff [OF inv(2)] assms(4,11) by simp
  have "dict_map d' = (dict_map d)(key := None)"
    using denotes_remove [OF denotes_dict_map [OF inv(2)] inv(2) assms(5)] assms(4,11)
    by (intro dict_map_eqI [OF kd]) simp
  moreover have "accounted (slots d') d'"
    using inv(3) N assms by (auto simp: accounted_def slot_bytes_def)
  ultimately show ?thesis using assms kd by (simp add: dict_inv_def)
qed

lemma removal_step_ok:
  assumes "dict_inv sip d"
  defines "d1 \<equiv> (if is_rehashing d then rehash_step d 1 else d)"
  shows "dict_inv sip d1" "dict_map d1 = dict_map d" "d_seed d1 = d_seed d"
proof -
  note inv = dict_invD [OF assms(1)]
  note r = rehash_step_ok [OF inv(1)]
  show "dict_inv sip d1" "d_seed d1 = d_seed d" using inv r by (auto simp: d1_def dict_inv_def)
  have "dict_map (rehash_step d 1) = dict_map d"
    using denotes_dict_map [OF inv(2)] r(1) inv(2) by (intro dict_map_eqI) simp_all
  then show "dict_map d1 = dict_map d" by (simp add: d1_def)
qed

lemma dict_remove_ok:
  assumes "dict_inv sip d" "dict_remove sip d key = (removed, d')"
  shows "dict_inv sip d' \<and> dict_map d' = (dict_map d)(key := None) \<and> removed = dict_map d key \<and>
    d_seed d' = d_seed d"
proof -
  define d1 where "d1 = (if is_rehashing d then rehash_step d 1 else d)"
  note s = removal_step_ok [OF assms(1), folded d1_def]
  note inv = dict_invD [OF s(1)]
  note ok = tables_okD [OF inv(1)]
  let ?h = "hash_in sip d1 key"
  let ?fin = "\<lambda>e d2. d2\<lparr>used_bytes := used_bytes d2 - entry_bytes key (entry_value e),
      with_deadline := with_deadline d2 - dated e, d_len := d_len d2 - 1,
      may_hold_deadlines := (may_hold_deadlines d2 \<and> d_len d2 - 1 \<noteq> 0)\<rparr>"
  consider (old) e where "find_in (old_table d1) ?h key = Some e"
    | (new) t e where "find_in (old_table d1) ?h key = None" "new_table d1 = Some t" "find_in t ?h key = Some e"
    | (none) "dict_get sip d1 key = None"
    by (cases "find_in (old_table d1) ?h key"; cases "new_table d1")
      (auto simp: dict_get_def Let_def)
  then show ?thesis
  proof cases
    case (old e)
    obtain r where rm: "remove_from (old_table d1) ?h key = (Some e, r)"
      and r: "r = snd (remove_from (old_table d1) ?h key)"
      using old by (metis prod.collapse remove_from_fst)
    let ?d2 = "d1\<lparr>old_table := r\<rparr>"
    have sl: "slots ?d2 = slots d1 - {#(?h, key, e)#}"
      using remove_from_content [OF ok(1) old] find_in_SomeD [OF ok(1) old]
      by (auto simp: slots_def r dest!: multi_member_split)
    have mem: "(?h, key, e) \<in># slots d1" using find_in_SomeD [OF ok(1) old] by (simp add: slots_def)
    have tok: "tables_ok sip ?d2"
      using inv(1) placed_remove_from [OF ok(1)]
      by (cases "new_table d1") (auto simp: tables_ok_def drained_remove r)
    have "removed = Some e" "d' = ?fin e ?d2"
      using assms(2) rm by (auto simp: dict_remove_def Let_def simp flip: d1_def)
    moreover have "dict_map d key = Some e"
      using denotesD [OF denotes_dict_map [OF inv(2)]] mem s(2) by metis
    ultimately show ?thesis
      using remove_counted [OF s(1) tok _ sl mem _ _ _ _ _ \<open>d' = ?fin e ?d2\<close>] s(2,3)
      by (simp add: tables_bytes_def r)
  next
    case (new t e)
    obtain r where rm: "remove_from t ?h key = (Some e, r)" and r: "r = snd (remove_from t ?h key)"
      using new by (metis prod.collapse remove_from_fst)
    let ?d2 = "d1\<lparr>new_table := Some r\<rparr>"
    note rm0 = remove_from_miss [OF new(1)]
    have sl: "slots ?d2 = slots d1 - {#(?h, key, e)#}"
      using remove_from_content [OF ok(2) [OF new(2)] new(3)] find_in_SomeD [OF ok(2) [OF new(2)] new(3)] new(2)
      by (auto simp: slots_def r dest!: multi_member_split)
    have mem: "(?h, key, e) \<in># slots d1"
      using find_in_SomeD [OF ok(2) [OF new(2)] new(3)] new(2) by (simp add: slots_def)
    have tok: "tables_ok sip ?d2"
      using inv(1) placed_remove_from [OF ok(2) [OF new(2)]] new(2) by (auto simp: tables_ok_def r)
    have "removed = Some e" "d' = ?fin e ?d2"
      using assms(2) rm rm0 new(2)
      by (auto simp: dict_remove_def Let_def simp flip: d1_def)
    moreover have "dict_map d key = Some e"
      using denotesD [OF denotes_dict_map [OF inv(2)]] mem s(2) by metis
    ultimately show ?thesis
      using remove_counted [OF s(1) tok _ sl mem _ _ _ _ _ \<open>d' = ?fin e ?d2\<close>] s(2,3) new(2)
      by (simp add: tables_bytes_def r)
  next
    case none
    then have f: "find_in (old_table d1) ?h key = None"
      "\<And>t. new_table d1 = Some t \<Longrightarrow> find_in t ?h key = None"
      by (auto simp: dict_get_def Let_def split: option.splits)
    then have "removed = None" "d' = d1"
      using assms(2) by (auto simp: dict_remove_def Let_def remove_from_miss split: option.splits simp flip: d1_def)
    moreover have "dict_map d key = None" using none dict_get_map [OF s(1)] s(2) by simp
    ultimately show ?thesis using s by (auto simp: fun_upd_idem)
  qed
qed

subsection \<open>Migrating on the timer\<close>

lemma rehash_step_refines:
  assumes "dict_inv sip d"
  shows "dict_inv sip (rehash_step d n) \<and> dict_map (rehash_step d n) = dict_map d \<and>
    d_seed (rehash_step d n) = d_seed d"
proof -
  note inv = dict_invD [OF assms]
  note r = rehash_step_ok [OF inv(1)]
  have "dict_map (rehash_step d n) = dict_map d"
    using denotes_dict_map [OF inv(2)] r(1) inv(2) by (intro dict_map_eqI) simp_all
  then show ?thesis using inv r by (simp add: dict_inv_def)
qed

section \<open>The figures, as sums over the map\<close>

lemma sum_over_map:
  fixes g :: "bytes \<Rightarrow> entry \<Rightarrow> 'a::comm_monoid_add"
  assumes "keys_distinct M" "denotes M m"
  shows "finite (dom m) \<and>
    sum_mset (image_mset (\<lambda>s. g (slot_key s) (slot_entry s)) M) = (\<Sum>k \<in> dom m. g k (the (m k)))"
  using assms
proof (induction M arbitrary: m)
  case empty
  then have "m = (\<lambda>_. None)" using denotes_unique denotes_empty by blast
  then show ?case by simp
next
  case (add s M)
  obtain h k e where s: "s = (h, k, e)" by (cases s)
  have kd: "keys_distinct M" using keys_distinct_diff [OF add.prems(1), of "{#s#}"] by simp
  have m0: "denotes M (m(k := None))"
    using denotes_remove [OF add.prems(2,1), of h k e] s by simp
  have mk: "m k = Some e" using denotesD [OF add.prems(2), of k e] s by auto
  define m' where "m' = m(k := None)"
  have ih: "finite (dom m')" "sum_mset (image_mset (\<lambda>s. g (slot_key s) (slot_entry s)) M) =
      (\<Sum>x \<in> dom m'. g x (the (m' x)))"
    using add.IH [OF kd m0, folded m'_def] by blast+
  have dom: "dom m = insert k (dom m')" "k \<notin> dom m'" using mk by (auto simp: m'_def)
  have "(\<Sum>x \<in> dom m'. g x (the (m' x))) = (\<Sum>x \<in> dom m'. g x (the (m x)))"
    by (rule sum.cong) (auto simp: m'_def)
  then show ?case using ih dom mk s by simp
qed

lemma dict_figures:
  assumes "dict_inv sip d"
  shows "finite (dom (dict_map d))" "d_len d = card (dom (dict_map d))"
    "with_deadline d = card {k. \<exists>e. dict_map d k = Some e \<and> expires_at e \<noteq> None}"
    "used_bytes d = (\<Sum>k \<in> dom (dict_map d). entry_bytes k (entry_value (the (dict_map d k)))) + tables_bytes d"
    "may_hold_deadlines d \<or> (\<forall>k e. dict_map d k = Some e \<longrightarrow> expires_at e = None)"
proof -
  note inv = dict_invD [OF assms]
  note den = denotes_dict_map [OF inv(2)]
  note over = sum_over_map [OF inv(2) den]
  show fin: "finite (dom (dict_map d))" using over [of "\<lambda>_ _. 0 :: nat"] by blast
  have "d_len d = size (slots d)" using inv(3) by (simp add: accounted_def)
  also have "\<dots> = sum_mset (image_mset (\<lambda>_. 1) (slots d))" by simp
  also have "\<dots> = card (dom (dict_map d))" using over [of "\<lambda>_ _. 1 :: nat"] by simp
  finally show "d_len d = card (dom (dict_map d))" .
  have "with_deadline d = (\<Sum>k \<in> dom (dict_map d). dated (the (dict_map d k)))"
    using inv(3) over [of "\<lambda>_ e. dated e"] by (simp add: accounted_def)
  also have "\<dots> = card {k \<in> dom (dict_map d). expires_at (the (dict_map d k)) \<noteq> None}"
    using fin by (simp add: dated_def sum.If_cases Int_def conj_commute)
  also have "{k \<in> dom (dict_map d). expires_at (the (dict_map d k)) \<noteq> None} =
      {k. \<exists>e. dict_map d k = Some e \<and> expires_at e \<noteq> None}" by force
  finally show "with_deadline d = card {k. \<exists>e. dict_map d k = Some e \<and> expires_at e \<noteq> None}" .
  show "used_bytes d = (\<Sum>k \<in> dom (dict_map d). entry_bytes k (entry_value (the (dict_map d k)))) + tables_bytes d"
    using inv(3) over [of "\<lambda>k e. entry_bytes k (entry_value e)"] by (simp add: accounted_def slot_bytes_def [abs_def])
  show "may_hold_deadlines d \<or> (\<forall>k e. dict_map d k = Some e \<longrightarrow> expires_at e = None)"
    using inv(3) denotesD [OF den] by (fastforce simp: accounted_def)
qed

section \<open>Reachable dicts\<close>

inductive reachable :: "siphash \<Rightarrow> dict_seed \<Rightarrow> dict \<Rightarrow> bool" for sip seed where
  reach_new: "reachable sip seed (with_seed seed)"
| reach_insert: "reachable sip seed d \<Longrightarrow> reachable sip seed (dict_insert sip d key e)"
| reach_remove: "reachable sip seed d \<Longrightarrow> reachable sip seed (snd (dict_remove sip d key))"
| reach_set_deadline: "reachable sip seed d \<Longrightarrow> reachable sip seed (snd (set_deadline sip d key at))"
| reach_touch: "reachable sip seed d \<Longrightarrow> reachable sip seed (touch sip d key)"
| reach_clear: "reachable sip seed d \<Longrightarrow> reachable sip seed (dict_clear d)"
| reach_rehash: "reachable sip seed d \<Longrightarrow> reachable sip seed (rehash_step d n)"

lemma reachable_inv: "reachable sip seed d \<Longrightarrow> dict_inv sip d"
proof (induction rule: reachable.induct)
  case (reach_remove d key)
  then show ?case using dict_remove_ok [of sip d key] by (metis prod.collapse)
next
  case (reach_set_deadline d key at)
  then show ?case using set_deadline_ok [of sip d key at] by (metis prod.collapse)
qed (simp_all add: with_seed_ok dict_insert_ok touch_ok dict_clear_ok rehash_step_refines)

text \<open>C26. In every dict that any sequence of operations can build, the running
  figures are exact: the length is the number of keys, the deadline count the
  number of keys with one, the accounted bytes the sum over the keys of the
  entry formula plus the buckets of every table held (modulo 64 bits, the
  width of the counter), and the deadline flag is false only where no key has
  a deadline.\<close>

theorem reachable_figures_exact:
  assumes "reachable sip seed d"
  shows "d_len d = card (dom (dict_map d)) \<and>
    with_deadline d = card {k. \<exists>e. dict_map d k = Some e \<and> expires_at e \<noteq> None} \<and>
    used_bytes d = (\<Sum>k \<in> dom (dict_map d). entry_bytes k (entry_value (the (dict_map d k)))) + tables_bytes d \<and>
    (may_hold_deadlines d \<or> (\<forall>k e. dict_map d k = Some e \<longrightarrow> expires_at e = None))"
  using dict_figures [OF reachable_inv [OF assms]] by blast

text \<open>C25. A dict refines a map. From a dict that meets the invariant every
  operation yields one that does; lookup reads the map, insert updates it,
  remove returns the entry and forgets the key, a deadline is replaced only on a
  key that is there, a touch changes only the stamp, a migration step changes
  nothing, and clear empties it.\<close>

theorem dict_refines_map:
  assumes "dict_inv sip d"
  shows "dict_get sip d key = dict_map d key \<and>
    dict_inv sip (dict_insert sip d key e) \<and>
    dict_map (dict_insert sip d key e) = (dict_map d)(key \<mapsto> e) \<and>
    dict_inv sip (snd (dict_remove sip d key)) \<and>
    fst (dict_remove sip d key) = dict_map d key \<and>
    dict_map (snd (dict_remove sip d key)) = (dict_map d)(key := None) \<and>
    dict_inv sip (snd (set_deadline sip d key at)) \<and>
    fst (set_deadline sip d key at) = (dict_map d key \<noteq> None) \<and>
    dict_map (snd (set_deadline sip d key at)) =
      (case dict_map d key of None \<Rightarrow> dict_map d | Some x \<Rightarrow> (dict_map d)(key \<mapsto> x\<lparr>expires_at := at\<rparr>)) \<and>
    dict_inv sip (touch sip d key) \<and>
    dict_map (touch sip d key) =
      (case dict_map d key of None \<Rightarrow> dict_map d | Some x \<Rightarrow> (dict_map d)(key \<mapsto> x\<lparr>touched := d_clock d + 1\<rparr>)) \<and>
    dict_inv sip (rehash_step d n) \<and> dict_map (rehash_step d n) = dict_map d \<and>
    dict_inv sip (dict_clear d) \<and> dict_map (dict_clear d) = (\<lambda>_. None)"
  using dict_get_map [OF assms] dict_insert_ok [OF assms] touch_ok [OF assms] rehash_step_refines [OF assms]
    dict_remove_ok [OF assms, of key "fst (dict_remove sip d key)" "snd (dict_remove sip d key)"]
    set_deadline_ok [OF assms, of key at "fst (set_deadline sip d key at)" "snd (set_deadline sip d key at)"]
  by (simp add: dict_clear_ok)

text \<open>A small dict for the witnesses: one key, inserted into a fresh dict, under
  a constant hash.\<close>

definition sip_const :: siphash where
  "sip_const = (\<lambda>_ _ _. 0)"

definition seed_zero :: dict_seed where
  "seed_zero = \<lparr>k0 = 0, k1 = 0\<rparr>"

definition one_key :: dict where
  "one_key = dict_insert sip_const (with_seed seed_zero) [1] \<lparr>entry_value = [7], expires_at = Some 5, touched = 0\<rparr>"

lemma one_key_reachable: "reachable sip_const seed_zero one_key"
  unfolding one_key_def by (intro reach_insert reach_new)

lemma one_key_map: "dict_map one_key = [[1] \<mapsto> \<lparr>entry_value = [7], expires_at = Some 5, touched = 0\<rparr>]"
  unfolding one_key_def using dict_insert_ok [OF with_seed_ok(1)] with_seed_ok(2) by simp

theorem reachable_figures_exact_witness:
  "reachable sip_const seed_zero one_key \<and> d_len one_key = 1 \<and> with_deadline one_key = 1 \<and>
    used_bytes one_key = 98 + 192"
proof -
  note f = reachable_figures_exact [OF one_key_reachable]
  have "{k. \<exists>e. dict_map one_key k = Some e \<and> expires_at e \<noteq> None} = {[1]}"
    by (auto simp: one_key_map split: if_splits)
  moreover have "tables_bytes one_key = 192"
    by (simp add: one_key_def dict_insert_def grow_or_migrate_def is_rehashing_def with_seed_def tables_bytes_def
        write_entry_def find_in_def bucket_index_def empty_table_def INITIAL_BUCKETS_def table_bytes_def
        BUCKET_OVERHEAD_def hash_key_def sip_const_def Let_def)
  ultimately show ?thesis
    using f one_key_reachable by (simp add: one_key_map entry_bytes_def ENTRY_OVERHEAD_def)
qed

theorem dict_refines_map_witness:
  "dict_inv sip_const one_key \<and> dict_get sip_const one_key [1] = dict_map one_key [1] \<and>
    dict_map (dict_insert sip_const one_key [2] \<lparr>entry_value = [8], expires_at = None, touched = 0\<rparr>) =
      (dict_map one_key)([2] \<mapsto> \<lparr>entry_value = [8], expires_at = None, touched = 0\<rparr>) \<and>
    fst (dict_remove sip_const one_key [1]) = Some \<lparr>entry_value = [7], expires_at = Some 5, touched = 0\<rparr>"
  using dict_refines_map [OF reachable_inv [OF one_key_reachable]] reachable_inv [OF one_key_reachable]
  by (simp add: one_key_map)

end
