(* ===== verification/Keyspace.thy ===== *)
theory Keyspace
  imports Dict
begin

text \<open>
  What the interpreter and recovery rely on of a dict: the locale \<open>keyspace\<close>, over
  the map from keys to a value and a deadline that a dict stands for. The touch
  stamps are not part of that map. The dict of \<open>Dict\<close> is its instance.
\<close>

type_synonym item = "bytes \<times> instant option"

definition item_of :: "entry \<Rightarrow> item" where
  "item_of e = (entry_value e, expires_at e)"

definition items :: "dict \<Rightarrow> bytes \<Rightarrow> item option" where
  "items d key = map_option item_of (dict_map d key)"

lemma items_upd: "dict_map d' = (dict_map d)(key := x) \<Longrightarrow> items d' = (items d)(key := map_option item_of x)"
  by (rule ext) (simp add: items_def)

lemma items_same: "dict_map d' = dict_map d \<Longrightarrow> items d' = items d"
  by (rule ext) (simp add: items_def)

locale keyspace =
  fixes inv :: "'d \<Rightarrow> bool"
    and view :: "'d \<Rightarrow> bytes \<Rightarrow> item option"
    and lookup :: "'d \<Rightarrow> bytes \<Rightarrow> entry option"
    and put :: "'d \<Rightarrow> bytes \<Rightarrow> entry \<Rightarrow> 'd"
    and del :: "'d \<Rightarrow> bytes \<Rightarrow> entry option \<times> 'd"
    and redate :: "'d \<Rightarrow> bytes \<Rightarrow> instant option \<Rightarrow> bool \<times> 'd"
    and stamp :: "'d \<Rightarrow> bytes \<Rightarrow> 'd"
    and wipe :: "'d \<Rightarrow> 'd"
  assumes lookup_view: "inv d \<Longrightarrow> map_option item_of (lookup d key) = view d key"
    and put_ok: "inv d \<Longrightarrow> inv (put d key e) \<and> view (put d key e) = (view d)(key \<mapsto> item_of e)"
    and del_ok: "inv d \<Longrightarrow> inv (snd (del d key)) \<and> view (snd (del d key)) = (view d)(key := None)"
    and redate_ok: "inv d \<Longrightarrow> inv (snd (redate d key at)) \<and>
      view (snd (redate d key at)) =
        (case view d key of None \<Rightarrow> view d | Some (v, _) \<Rightarrow> (view d)(key \<mapsto> (v, at))) \<and>
      fst (redate d key at) = (view d key \<noteq> None)"
    and stamp_ok: "inv d \<Longrightarrow> inv (stamp d key) \<and> view (stamp d key) = view d"
    and wipe_ok: "inv (wipe d) \<and> view (wipe d) = (\<lambda>_. None)"
begin

lemma lookup_None: "inv d \<Longrightarrow> lookup d key = None \<longleftrightarrow> view d key = None"
  using lookup_view [of d key] by (metis option.map_disc_iff)

lemma lookup_Some: "inv d \<Longrightarrow> lookup d key = Some e \<Longrightarrow> view d key = Some (entry_value e, expires_at e)"
  using lookup_view [of d key] by (simp add: item_of_def flip: lookup_view)

lemma put_stamp:
  "inv d \<Longrightarrow> inv (stamp (put d key e) key) \<and>
    view (stamp (put d key e) key) = (view d)(key \<mapsto> (entry_value e, expires_at e))"
  using put_ok [of d key e] stamp_ok [of "put d key e" key] by (simp add: item_of_def)

lemma redate_present:
  assumes "inv d" "lookup d key = Some e"
  shows "inv (snd (redate d key at)) \<and> view (snd (redate d key at)) = (view d)(key \<mapsto> (entry_value e, at))"
  using redate_ok [OF assms(1), of key at] lookup_Some [OF assms] by simp

end

interpretation dk: keyspace "dict_inv sip" items "dict_get sip" "dict_insert sip" "dict_remove sip"
  "set_deadline sip" "touch sip" dict_clear for sip
proof unfold_locales
  fix d key e at
  show "dict_inv sip (dict_clear d) \<and> items (dict_clear d) = (\<lambda>_. None)"
    by (simp add: dict_clear_ok items_def [abs_def])
  assume inv: "dict_inv sip d"
  show "map_option item_of (dict_get sip d key) = items d key"
    by (simp add: dict_get_map [OF inv] items_def)
  show "dict_inv sip (dict_insert sip d key e) \<and>
      items (dict_insert sip d key e) = (items d)(key \<mapsto> item_of e)"
    using dict_insert_ok [OF inv, of key e] items_upd [of _ d key "Some e"] by simp
  show "dict_inv sip (snd (dict_remove sip d key)) \<and> items (snd (dict_remove sip d key)) = (items d)(key := None)"
    using dict_remove_ok [OF inv prod.collapse [symmetric], of key] items_upd [of _ d key None] by simp
  note r = set_deadline_ok [OF inv prod.collapse [symmetric], of key at]
  show "dict_inv sip (snd (set_deadline sip d key at)) \<and>
      items (snd (set_deadline sip d key at)) =
        (case items d key of None \<Rightarrow> items d | Some (v, _) \<Rightarrow> (items d)(key \<mapsto> (v, at))) \<and>
      fst (set_deadline sip d key at) = (items d key \<noteq> None)"
  proof (cases "dict_map d key")
    case None
    then have "items d key = None" by (simp add: items_def)
    then show ?thesis using r None items_same [of "snd (set_deadline sip d key at)" d] by simp
  next
    case (Some x)
    then have "items d key = Some (entry_value x, expires_at x)" by (simp add: items_def item_of_def)
    then show ?thesis
      using r Some items_upd [of "snd (set_deadline sip d key at)" d key "Some (x\<lparr>expires_at := at\<rparr>)"]
      by (simp add: item_of_def)
  qed
  have "items (touch sip d key) = items d"
  proof (cases "dict_map d key")
    case None
    then show ?thesis using touch_ok [OF inv, of key] items_same [of "touch sip d key" d] by simp
  next
    case (Some x)
    then have "items d key = Some (item_of x)" by (simp add: items_def)
    moreover have "item_of (x\<lparr>touched := t\<rparr>) = item_of x" for t by (simp add: item_of_def)
    ultimately show ?thesis
      using touch_ok [OF inv, of key] Some items_upd [of "touch sip d key" d key "Some (x\<lparr>touched := d_clock d + 1\<rparr>)"]
      by (simp add: fun_upd_idem)
  qed
  then show "dict_inv sip (touch sip d key) \<and> items (touch sip d key) = items d"
    using touch_ok [OF inv, of key] by simp
qed

end
