(* ===== verification/Scan.thy ===== *)
theory Scan
  imports Dict
begin

text \<open>
  The cursor walk of a dict: \<open>scan\<close>, \<open>sample_oldest\<close> and \<open>expire_step\<close> of
  \<^verbatim>\<open>crates/seedstone-core/src/dict.rs\<close>, with the honest \<open>ReverseBinary\<close> order. A
  step returns the entries it handed to the visitor, in order, and the next
  cursor. Read through the reversed bits of a cursor, a step moves forward over
  an interval of the hash space and visits every key whose hash lies in it; the
  coverage and the length of a whole cycle follow, for any sequence of dicts the
  walk meets, growing or not.
\<close>

definition reverse_increment :: "u64 \<Rightarrow> u64 \<Rightarrow> u64" where
  "reverse_increment cursor m = word_reverse (word_reverse (cursor OR NOT m) + 1)"

definition visit_bucket :: "table \<Rightarrow> u64 \<Rightarrow> (bytes \<times> entry) list" where
  "visit_bucket t cursor = map snd (t ! unat (cursor AND mask_of t))"

text \<open>The position of a cursor, or of a hash, in the order of the walk.\<close>

definition pos :: "u64 \<Rightarrow> nat" where
  "pos v = unat (word_reverse v)"

lemma pos_less: "pos v < 2 ^ 64"
  using unat_u64_less [of "word_reverse v"] by (simp add: pos_def)

lemma word_reverse_zero [simp]: "word_reverse (0 :: u64) = 0"
  by (rule bit_word_eqI) (simp add: bit_word_reverse_iff)

lemma pos_0 [simp]: "pos 0 = 0"
  by (simp add: pos_def)

lemma pos_eq_0_iff: "pos v = 0 \<longleftrightarrow> v = 0"
  by (metis pos_def unat_eq_zero word_reverse_zero word_rev_rev)

lemma reverse_or: "word_reverse (a OR b) = word_reverse a OR (word_reverse b :: u64)"
  by (rule bit_word_eqI) (auto simp: bit_word_reverse_iff bit_or_iff)

lemma or_ge: "(a :: nat) \<le> a OR b"
  using or_greater_eq [of "int b" "int a"] by (simp flip: of_nat_or_eq)

lemma or_mask_nat: "(a :: nat) OR mask n = a div 2 ^ n * 2 ^ n + (2 ^ n - 1)"
proof -
  have "a OR mask n = push_bit n (drop_bit n a) OR mask n"
    by (rule bit_eqI) (auto simp: bit_or_iff bit_push_bit_iff bit_drop_bit_eq bit_mask_iff)
  also have "\<dots> = push_bit n (drop_bit n a) + mask n"
    by (rule disjunctive_add [symmetric]) (auto simp: bit_push_bit_iff bit_mask_iff)
  finally show ?thesis by (simp add: push_bit_eq_mult drop_bit_eq_div mask_eq_exp_minus_1)
qed

lemma reverse_not_mask: "k \<le> 64 \<Longrightarrow> word_reverse (NOT (mask k :: u64)) = mask (64 - k)"
  by (rule bit_word_eqI) (auto simp: bit_word_reverse_iff bit_not_iff bit_mask_iff)

lemma unat_mask: "n \<le> 64 \<Longrightarrow> unat (mask n :: u64) = mask n"
  by (rule bit_eqI) (auto simp: bit_unsigned_iff bit_mask_iff)

lemma pos_reverse_increment:
  "k \<le> 64 \<Longrightarrow> pos (reverse_increment v (mask k)) =
    ((pos v div 2 ^ (64 - k) + 1) * 2 ^ (64 - k)) mod 2 ^ 64"
proof -
  assume k: "k \<le> 64"
  let ?n = "64 - k"
  have "unat (word_reverse (v OR NOT (mask k))) = pos v OR mask ?n"
    using k by (simp add: reverse_or reverse_not_mask unsigned_or_eq unat_mask pos_def)
  then have "Suc (unat (word_reverse (v OR NOT (mask k)))) = (pos v div 2 ^ ?n + 1) * 2 ^ ?n"
    by (simp add: or_mask_nat)
  then show ?thesis
    by (simp add: pos_def reverse_increment_def unat_word_ariths)
qed

lemma reverse_increment_up: "reverse_increment v m = 0 \<or> pos v < pos (reverse_increment v m)"
proof -
  let ?x = "word_reverse (v OR NOT m)"
  have "pos v \<le> unat ?x"
    by (simp add: reverse_or unsigned_or_eq pos_def or_ge)
  moreover have "?x + 1 = 0 \<or> unat (?x + 1) = unat ?x + 1"
    using unatSuc [of ?x] by (auto simp: add.commute)
  moreover have "pos (reverse_increment v m) = unat (?x + 1)"
    by (simp add: reverse_increment_def pos_def)
  ultimately show ?thesis by (auto simp: reverse_increment_def)
qed

section \<open>One step\<close>

text \<open>The loop over the buckets of the larger table that the smaller table's
  bucket expands into.\<close>

function scan_loop :: "table \<Rightarrow> u64 \<Rightarrow> u64 \<Rightarrow> u64 \<Rightarrow> (bytes \<times> entry) list \<times> u64" where
  "scan_loop new small large v =
     (let v' = reverse_increment v large in
      if v' AND (small XOR large) = 0 then (visit_bucket new v, v')
      else let (seen, last) = scan_loop new small large v' in (visit_bucket new v @ seen, last))"
  by pat_completeness auto

termination
proof (relation "measure (\<lambda>(new, small, large, v). 2 ^ 64 - pos v)")
  fix new :: table and small large v v' :: u64
  assume v': "v' = reverse_increment v large" and "v' AND (small XOR large) \<noteq> 0"
  then have "v' \<noteq> 0" by auto
  then have "pos v < pos v'" using reverse_increment_up [of v large] v' by simp
  then show "((new, small, large, v'), (new, small, large, v)) \<in>
      measure (\<lambda>(new, small, large, v). 2 ^ 64 - pos v)"
    using pos_less [of v'] by simp
qed simp

declare scan_loop.simps [simp del]

definition dict_scan :: "dict \<Rightarrow> u64 \<Rightarrow> (bytes \<times> entry) list \<times> u64" where
  "dict_scan d cursor =
     (if dict_is_empty d then ([], 0)
      else case new_table d of
        None \<Rightarrow> (visit_bucket (old_table d) cursor, reverse_increment cursor (mask_of (old_table d)))
      | Some new \<Rightarrow>
          (let (seen, v) = scan_loop new (mask_of (old_table d)) (mask_of new) cursor in
           (visit_bucket (old_table d) cursor @ seen, v)))"

text \<open>The walk of \<open>sample_oldest\<close>: steps until enough candidates are met or the
  bound is spent; the candidate is replaced only by an older one.\<close>

fun oldest_of :: "(u32 \<times> bytes) option \<Rightarrow> (bytes \<times> entry) list \<Rightarrow> (u32 \<times> bytes) option" where
  "oldest_of best [] = best"
| "oldest_of best ((key, e) # es) =
     oldest_of
       (if (case best of None \<Rightarrow> True | Some (stamp, _) \<Rightarrow> touched e < stamp)
        then Some (touched e, key) else best) es"

fun sample_loop :: "dict \<Rightarrow> nat \<Rightarrow> bytes option \<Rightarrow> nat \<Rightarrow> nat \<Rightarrow> u64 \<Rightarrow> (u32 \<times> bytes) option \<Rightarrow>
    (u32 \<times> bytes) option \<times> u64" where
  "sample_loop d samples spared 0 seen cursor best = (best, cursor)"
| "sample_loop d samples spared (Suc steps) seen cursor best =
     (if seen < samples
      then let (met, cursor') = dict_scan d cursor;
               candidates = filter (\<lambda>(key, _). spared \<noteq> Some key) met
           in sample_loop d samples spared steps (seen + length candidates) cursor' (oldest_of best candidates)
      else (best, cursor))"

definition sample_oldest :: "dict \<Rightarrow> u64 \<Rightarrow> nat \<Rightarrow> bytes option \<Rightarrow> bytes option \<times> u64" where
  "sample_oldest d cursor samples spared =
     (if dict_is_empty d then (None, cursor)
      else let bound = length (old_table d) + (case new_table d of None \<Rightarrow> 0 | Some t \<Rightarrow> length t);
               (best, cursor') = sample_loop d samples spared bound 0 cursor None
           in (map_option snd best, cursor'))"

text \<open>The sweep's walk; \<open>due\<close> is the expiry policy's \<open>due_on_sweep\<close> at the sweep's
  instant, \<open>takes_undated\<close> whether the policy waives the shortcut.\<close>

fun expire_loop :: "dict \<Rightarrow> (instant option \<Rightarrow> bool) \<Rightarrow> nat \<Rightarrow> u64 \<Rightarrow> u64 \<times> bytes list" where
  "expire_loop d due 0 cursor = (cursor, [])"
| "expire_loop d due (Suc n) cursor =
     (let (met, cursor') = dict_scan d cursor;
          dead = map fst (filter (\<lambda>(_, e). due (expires_at e)) met)
      in if cursor' = 0 then (0, dead)
         else let (last, rest) = expire_loop d due n cursor' in (last, dead @ rest))"

definition expire_step :: "dict \<Rightarrow> u64 \<Rightarrow> nat \<Rightarrow> (instant option \<Rightarrow> bool) \<Rightarrow> bool \<Rightarrow> u64 \<times> bytes list" where
  "expire_step d cursor budget_buckets due takes_undated =
     (if \<not> may_hold_deadlines d \<and> \<not> takes_undated then (cursor, [])
      else expire_loop d due budget_buckets cursor)"

section \<open>What one step covers\<close>

lemma unat_drop_bit: "unat (drop_bit n (w :: u64)) = unat w div 2 ^ n"
proof -
  have "unat (drop_bit n w) = drop_bit n (unat w)"
    by (rule bit_eqI) (auto simp: bit_unsigned_iff bit_drop_bit_eq dest: bit_imp_le_length)
  then show ?thesis by (simp add: drop_bit_eq_div)
qed

lemma take_bit_pos:
  assumes "k \<le> 64"
  shows "take_bit k v = take_bit k h \<longleftrightarrow> pos v div 2 ^ (64 - k) = pos h div 2 ^ (64 - k)"
proof -
  have "take_bit k v = take_bit k h \<longleftrightarrow>
      drop_bit (64 - k) (word_reverse v) = drop_bit (64 - k) (word_reverse h)"
  proof
    assume t: "take_bit k v = take_bit k h"
    show "drop_bit (64 - k) (word_reverse v) = drop_bit (64 - k) (word_reverse h)"
    proof (rule bit_word_eqI)
      fix n assume "n < LENGTH(64)"
      have "bit (take_bit k v) (63 - (64 - k + n)) = bit (take_bit k h) (63 - (64 - k + n))"
        using t by simp
      then show "bit (drop_bit (64 - k) (word_reverse v)) n = bit (drop_bit (64 - k) (word_reverse h)) n"
        using assms by (auto simp: bit_drop_bit_eq bit_word_reverse_iff bit_take_bit_iff)
    qed
  next
    assume t: "drop_bit (64 - k) (word_reverse v) = drop_bit (64 - k) (word_reverse h)"
    show "take_bit k v = take_bit k h"
    proof (rule bit_word_eqI)
      fix n assume n: "n < LENGTH(64)"
      have "bit (drop_bit (64 - k) (word_reverse v)) (k - Suc n) = bit (drop_bit (64 - k) (word_reverse h)) (k - Suc n)"
        using t by simp
      then show "bit (take_bit k v) n = bit (take_bit k h) n"
        using assms n by (auto simp: bit_drop_bit_eq bit_word_reverse_iff bit_take_bit_iff)
    qed
  qed
  also have "\<dots> \<longleftrightarrow> pos v div 2 ^ (64 - k) = pos h div 2 ^ (64 - k)"
    unfolding word_eq_iff_unsigned [where 'a = nat] unat_drop_bit pos_def ..
  finally show ?thesis .
qed

lemma visit_bucket_covers:
  assumes "placed hk t" "length t = 2 ^ k" "k \<le> 64" "(h, key, e) \<in># content t"
    and "pos v div 2 ^ (64 - k) = pos h div 2 ^ (64 - k)"
  shows "(key, e) \<in> set (visit_bucket t v)"
proof -
  have "take_bit k v = take_bit k h" using assms(3,5) take_bit_pos by blast
  then have "v AND mask_of t = h AND mask_of t"
    by (simp only: mask_of_def assms(2) mask_word flip: take_bit_eq_mask)
  then have "(h, key, e) \<in> set (t ! unat (v AND mask_of t))"
    using placed_slot(2) [OF assms(1,4)] by (simp add: bucket_index_def mask_of_def)
  then show ?thesis unfolding visit_bucket_def by force
qed

text \<open>\<open>stretch_end x n\<close>: the end of the stretch of \<open>2 ^ n\<close> positions that \<open>x\<close> lies in.\<close>

definition stretch_end :: "nat \<Rightarrow> nat \<Rightarrow> nat" where
  "stretch_end x n = (x div 2 ^ n + 1) * 2 ^ n"

lemma stretch_end_gt: "x < stretch_end x n"
  unfolding stretch_end_def by (metis Suc_eq_plus1 dividend_less_div_times mult.commute mult_Suc zero_less_numeral zero_less_power add.commute)

lemma stretch_same:
  assumes "x \<le> y" "y < stretch_end x n"
  shows "x div 2 ^ n = y div 2 ^ n"
proof (rule antisym)
  show "x div 2 ^ n \<le> y div 2 ^ n" using assms(1) by (rule div_le_mono)
  show "y div 2 ^ n \<le> x div 2 ^ n"
    using assms(2) unfolding stretch_end_def by (metis Suc_eq_plus1 less_Suc_eq_le less_mult_imp_div_less)
qed

lemma stretch_end_le:
  assumes "x < 2 ^ 64" "n \<le> 64"
  shows "stretch_end x n \<le> 2 ^ 64"
proof -
  have "(2::nat) ^ 64 = 2 ^ (64 - n) * 2 ^ n" using assms(2) by (simp flip: power_add)
  then have "x div 2 ^ n < 2 ^ (64 - n)" using assms(1) by (metis less_mult_imp_div_less)
  then have "(x div 2 ^ n + 1) * 2 ^ n \<le> 2 ^ (64 - n) * 2 ^ n" by (intro mult_le_mono1) simp
  then show ?thesis using \<open>2 ^ 64 = _\<close> by (simp add: stretch_end_def)
qed

lemma pos_step: "k \<le> 64 \<Longrightarrow> pos (reverse_increment v (mask k)) = stretch_end (pos v) (64 - k) mod 2 ^ 64"
  by (simp add: pos_reverse_increment stretch_end_def)

lemma scan_guard:
  assumes "k < 64"
  shows "v AND (mask k XOR mask (Suc k)) = 0 \<longleftrightarrow> even (pos v div 2 ^ (63 - k))"
proof -
  have "v AND (mask k XOR mask (Suc k)) = 0 \<longleftrightarrow> \<not> bit v k"
  proof
    assume "v AND (mask k XOR mask (Suc k)) = 0"
    then have "\<not> bit (v AND (mask k XOR mask (Suc k))) k" by simp
    then show "\<not> bit v k" using assms by (simp add: bit_and_iff bit_xor_iff bit_mask_iff)
  next
    assume "\<not> bit v k"
    then show "v AND (mask k XOR mask (Suc k)) = 0"
      by (intro bit_word_eqI) (auto simp: bit_and_iff bit_xor_iff bit_mask_iff less_Suc_eq)
  qed
  also have "bit v k \<longleftrightarrow> bit (word_reverse v) (63 - k)"
    using assms by (auto simp: bit_word_reverse_iff)
  also have "\<dots> \<longleftrightarrow> odd (pos v div 2 ^ (63 - k))"
    by (simp add: pos_def bit_unsigned_iff flip: bit_iff_odd)
  finally show ?thesis by simp
qed

lemma scan_loop_guard:
  assumes "k < 64"
  shows "reverse_increment v (mask (Suc k)) AND (mask k XOR mask (Suc k)) = 0 \<longleftrightarrow> odd (pos v div 2 ^ (63 - k))"
proof -
  let ?n = "63 - k" let ?q = "pos v div 2 ^ (63 - k)"
  have "(2::nat) ^ 64 = 2 ^ Suc k * 2 ^ ?n" using assms by (simp flip: power_add power_Suc)
  have n: "64 - Suc k = ?n" by simp
  from \<open>2 ^ 64 = _\<close> have "pos (reverse_increment v (mask (Suc k))) = ((?q + 1) mod 2 ^ Suc k) * 2 ^ ?n"
    using pos_step [of "Suc k" v] assms unfolding stretch_end_def n by (simp only: mod_mult_mult2)
  then have "pos (reverse_increment v (mask (Suc k))) div 2 ^ ?n = (?q + 1) mod 2 ^ Suc k" by simp
  moreover have "even ((?q + 1) mod 2 ^ Suc k) \<longleftrightarrow> even (?q + 1)"
    by (rule dvd_mod_iff) simp
  ultimately show ?thesis using scan_guard [OF assms] by simp
qed

text \<open>A stretch of the smaller table is the two stretches of the larger one it
  splits into; the loop visits the one the cursor is in and those after it.\<close>

lemma stretch_end_double:
  "stretch_end x (Suc n) = (if odd (x div 2 ^ n) then x div 2 ^ n + 1 else x div 2 ^ n + 2) * 2 ^ n"
proof -
  have "x div 2 ^ Suc n = x div 2 ^ n div 2" by (simp only: power_Suc2 div_mult2_eq)
  then show ?thesis
    unfolding stretch_end_def by (cases "even (x div 2 ^ n)") (auto elim!: evenE oddE simp: algebra_simps)
qed

lemma scan_loop_covers:
  fixes v :: u64
  assumes "k < 64" "placed hk new" "length new = 2 ^ Suc k"
  defines "E \<equiv> stretch_end (pos v) (64 - k)"
  shows "pos (snd (scan_loop new (mask k) (mask (Suc k)) v)) = E mod 2 ^ 64"
    and "(h, key, e) \<in># content new \<Longrightarrow> pos v \<le> pos h \<Longrightarrow> pos h < E \<Longrightarrow>
      (key, e) \<in> set (fst (scan_loop new (mask k) (mask (Suc k)) v))"
proof -
  let ?n = "63 - k" let ?q = "pos v div 2 ^ (63 - k)"
  let ?v1 = "reverse_increment v (mask (Suc k))" let ?v2 = "reverse_increment ?v1 (mask (Suc k))"
  have n: "64 - k = Suc ?n" "64 - Suc k = ?n" using assms(1) by simp_all
  have step: "pos (reverse_increment u (mask (Suc k))) = ((pos u div 2 ^ ?n + 1) * 2 ^ ?n) mod 2 ^ 64" for u
    using pos_step [of "Suc k" u] assms(1) unfolding n stretch_end_def by simp
  have visits: "(key, e) \<in> set (visit_bucket new u)"
    if "(h, key, e) \<in># content new" "pos u div 2 ^ ?n = pos h div 2 ^ ?n" for u
    using visit_bucket_covers [OF assms(2,3) _ that(1)] that(2) assms(1) n(2) by simp
  have "pos (snd (scan_loop new (mask k) (mask (Suc k)) v)) = E mod 2 ^ 64 \<and>
    ((h, key, e) \<in># content new \<longrightarrow> pos v \<le> pos h \<longrightarrow> pos h < E \<longrightarrow>
      (key, e) \<in> set (fst (scan_loop new (mask k) (mask (Suc k)) v)))"
  proof (cases "odd ?q")
    case True
    then have E: "E = stretch_end (pos v) ?n" by (simp add: E_def n(1) stretch_end_double) (simp add: stretch_end_def)
    have "scan_loop new (mask k) (mask (Suc k)) v = (visit_bucket new v, ?v1)"
      using True scan_loop_guard [OF assms(1), of v] by (subst scan_loop.simps) (simp add: Let_def)
    then show ?thesis
      using E step [of v] visits stretch_same [of "pos v" "pos h" ?n] by (simp add: stretch_end_def)
  next
    case False
    then have E: "E = (?q + 2) * 2 ^ ?n" by (simp add: E_def n(1) stretch_end_double)
    have split: "(2::nat) ^ 64 = 2 ^ Suc k * 2 ^ ?n" using assms(1) by (simp flip: power_add power_Suc)
    then have "?q < 2 ^ Suc k" using pos_less [of v] by (metis less_mult_imp_div_less)
    then have "?q + 1 < 2 ^ Suc k" using False by (metis Suc_eq_plus1 Suc_lessI even_Suc even_power even_numeral zero_less_Suc)
    then have "(?q + 1) * 2 ^ ?n < 2 ^ 64" unfolding split by (intro mult_strict_right_mono) simp_all
    then have v1: "pos ?v1 = (?q + 1) * 2 ^ ?n" using step [of v] by simp
    then have q1: "pos ?v1 div 2 ^ ?n = ?q + 1" by simp
    have "scan_loop new (mask k) (mask (Suc k)) ?v1 = (visit_bucket new ?v1, ?v2)"
      using False q1 scan_loop_guard [OF assms(1), of ?v1] by (subst scan_loop.simps) (simp add: Let_def)
    then have loop: "scan_loop new (mask k) (mask (Suc k)) v = (visit_bucket new v @ visit_bucket new ?v1, ?v2)"
      using False scan_loop_guard [OF assms(1), of v] by (subst scan_loop.simps) (simp add: Let_def)
    have "pos h div 2 ^ ?n = ?q \<or> pos h div 2 ^ ?n = ?q + 1" if "pos v \<le> pos h" "pos h < E"
    proof -
      have "?q \<le> pos h div 2 ^ ?n" using that(1) by (rule div_le_mono)
      moreover have "pos h div 2 ^ ?n < ?q + 2" using that(2) unfolding E by (rule less_mult_imp_div_less)
      ultimately show ?thesis by linarith
    qed
    then show ?thesis using loop step [of ?v1] q1 E visits [of v] visits [of ?v1] by auto
  qed
  then show "pos (snd (scan_loop new (mask k) (mask (Suc k)) v)) = E mod 2 ^ 64"
    and "(h, key, e) \<in># content new \<Longrightarrow> pos v \<le> pos h \<Longrightarrow> pos h < E \<Longrightarrow>
      (key, e) \<in> set (fst (scan_loop new (mask k) (mask (Suc k)) v))" by auto
qed

text \<open>The bucket vectors fit the address space.\<close>

definition addressable :: "dict \<Rightarrow> bool" where
  "addressable d = (length (old_table d) < 2 ^ 63)"

lemma dict_scan_step:
  assumes "dict_inv sip d" "addressable d" "\<not> dict_is_empty d" "dict_scan d v = (seen, v')"
  obtains k where "length (old_table d) = 2 ^ k" "k < 63"
    "pos v' = stretch_end (pos v) (64 - k) mod 2 ^ 64"
    "\<And>key e. dict_map d key = Some e \<Longrightarrow> pos v \<le> pos (hash_in sip d key) \<Longrightarrow>
       pos (hash_in sip d key) < stretch_end (pos v) (64 - k) \<Longrightarrow> (key, e) \<in> set seen"
proof -
  note inv = dict_invD [OF assms(1)] and ok = tables_okD [OF dict_invD(1) [OF assms(1)]]
  obtain k where k: "length (old_table d) = 2 ^ k"
    using placedD(2) [OF ok(1)] by (auto simp: power_of_two_def)
  have k63: "k < 63"
    using assms(2) power_less_imp_less_exp [of 2 k 63] unfolding addressable_def k by simp
  have old: "(key, e) \<in> set (visit_bucket (old_table d) v)"
    if "(h, key, e) \<in># content (old_table d)" "pos v \<le> pos h" "pos h < stretch_end (pos v) (64 - k)" for h key e
    using visit_bucket_covers [OF ok(1) k _ that(1)] stretch_same [OF that(2,3)] k63 by simp
  have slot: "\<exists>h. (h, key, e) \<in># slots d \<and> h = hash_in sip d key" if "dict_map d key = Some e" for key e
    using that dict_get_Some [OF inv(1)] dict_get_map [OF assms(1)] by metis
  show thesis
  proof (cases "new_table d")
    case None
    then have "seen = visit_bucket (old_table d) v" "v' = reverse_increment v (mask k)"
      using assms(3,4) by (simp_all add: dict_scan_def mask_of_def k mask_eq_decr_exp)
    moreover have "slots d = content (old_table d)" using None by (simp add: slots_def)
    ultimately show thesis using that [OF k k63] pos_step [of k v] k63 slot old by fastforce
  next
    case (Some new)
    have len: "length new = 2 ^ Suc k" using ok(3) [OF Some] k by simp
    have masks: "mask_of (old_table d) = mask k" "mask_of new = mask (Suc k)"
      unfolding mask_of_def k len by (simp_all only: mask_word)
    have step: "seen = visit_bucket (old_table d) v @ fst (scan_loop new (mask k) (mask (Suc k)) v)"
        "v' = snd (scan_loop new (mask k) (mask (Suc k)) v)"
      using Some assms(3,4) masks by (auto simp: dict_scan_def split: prod.splits)
    have k64: "k < 64" using k63 by simp
    note covers = scan_loop_covers [where v = v, OF k64 ok(2) [OF Some] len]
    show thesis
    proof (rule that [OF k k63])
      show "pos v' = stretch_end (pos v) (64 - k) mod 2 ^ 64" unfolding step by (rule covers(1))
      fix key e
      assume m: "dict_map d key = Some e" and p: "pos v \<le> pos (hash_in sip d key)"
        "pos (hash_in sip d key) < stretch_end (pos v) (64 - k)"
      have "(hash_in sip d key, key, e) \<in># content (old_table d) + content new"
        using slot [OF m] Some by (simp add: slots_def)
      then show "(key, e) \<in> set seen"
        using old [OF _ p] covers(2) [OF _ p] unfolding step by auto
    qed
  qed
qed

section \<open>A whole cycle\<close>

text \<open>The calls of one cycle, each against the dict it finds: the cycle stops when a
  call returns cursor zero.\<close>

fun scan_walk :: "dict list \<Rightarrow> u64 \<Rightarrow> (bytes \<times> entry) list \<times> u64" where
  "scan_walk [] v = ([], v)"
| "scan_walk (d # ds) v =
     (let (seen, v') = dict_scan d v in
      if v' = 0 then (seen, 0)
      else let (rest, last) = scan_walk ds v' in (seen @ rest, last))"

lemma stretch_end_mod:
  assumes "v' \<noteq> 0" "pos v' = stretch_end (pos v) n mod 2 ^ 64" "n \<le> 64"
  shows "pos v' = stretch_end (pos v) n"
  using assms stretch_end_le [OF pos_less assms(3), of v] pos_eq_0_iff [of v']
  by (cases "stretch_end (pos v) n = 2 ^ 64") auto

lemma stretch_end_zero:
  assumes "pos 0 = stretch_end (pos v) n mod 2 ^ 64" "n \<le> 64"
  shows "stretch_end (pos v) n = 2 ^ 64"
  using assms stretch_end_le [OF pos_less assms(2), of v] stretch_end_gt [of "pos v" n]
  by (cases "stretch_end (pos v) n = 2 ^ 64") auto

lemma scan_walk_covers:
  assumes "\<And>d. d \<in> set ds \<Longrightarrow> dict_inv sip d \<and> addressable d \<and> d_seed d = seed \<and> key \<in> dom (dict_map d)"
    and "scan_walk ds v = (seen, 0)" "ds \<noteq> []" "pos v \<le> pos (hash_key sip seed key)"
  shows "key \<in> fst ` set seen"
  using assms
proof (induction ds arbitrary: v seen)
  case (Cons d ds)
  obtain met v' where scan: "dict_scan d v = (met, v')" by fastforce
  have d: "dict_inv sip d" "addressable d" "d_seed d = seed" "key \<in> dom (dict_map d)"
    using Cons.prems(1) by auto
  obtain e where e: "dict_map d key = Some e" using d(4) by blast
  have ne: "\<not> dict_is_empty d"
  proof
    assume "dict_is_empty d"
    then have "slots d = {#}" using dict_invD(3) [OF d(1)] by (simp add: dict_is_empty_def accounted_def)
    then show False using e denotesD [OF denotes_dict_map [OF dict_invD(2) [OF d(1)]], of key e] by simp
  qed
  obtain k where k: "pos v' = stretch_end (pos v) (64 - k) mod 2 ^ 64"
    "pos (hash_key sip seed key) < stretch_end (pos v) (64 - k) \<Longrightarrow> (key, e) \<in> set met"
    using dict_scan_step [OF d(1,2) ne scan] e Cons.prems(4) d(3) by metis
  show ?case
  proof (cases "pos (hash_key sip seed key) < stretch_end (pos v) (64 - k)")
    case True
    then have "(key, e) \<in> set met" by (rule k(2))
    then show ?thesis using Cons.prems(2) scan by (force simp: Let_def split: prod.splits if_splits)
  next
    case False
    have v': "v' \<noteq> 0"
    proof
      assume "v' = 0"
      then have "stretch_end (pos v) (64 - k) = 2 ^ 64" using k(1) stretch_end_zero by simp
      then show False using False pos_less [of "hash_key sip seed key"] by simp
    qed
    then obtain rest where rest: "scan_walk ds v' = (rest, 0)" "seen = met @ rest"
      using Cons.prems(2) scan by (auto simp: Let_def split: prod.splits)
    have "ds \<noteq> []" using rest(1) v' by auto
    moreover have "pos v' \<le> pos (hash_key sip seed key)"
      using False stretch_end_mod [OF v' k(1)] by simp
    ultimately have "key \<in> fst ` set rest" using Cons.IH [OF _ rest(1)] Cons.prems(1) by simp
    then show ?thesis using rest(2) by (simp add: image_Un)
  qed
qed simp

lemma stretch_end_mono:
  assumes "m \<le> n"
  shows "x div 2 ^ m < stretch_end x n div 2 ^ m"
proof -
  have "stretch_end x n = (x div 2 ^ n + 1) * 2 ^ (n - m) * 2 ^ m"
    using assms unfolding stretch_end_def mult.assoc power_add [symmetric] by simp
  then have "x < (stretch_end x n div 2 ^ m) * 2 ^ m" using stretch_end_gt [of x n] by simp
  then show ?thesis by (rule less_mult_imp_div_less)
qed

lemma scan_walk_ends:
  assumes "\<And>d. d \<in> set ds \<Longrightarrow> dict_inv sip d \<and> length (old_table d) \<le> 2 ^ K" "K < 63"
    and "2 ^ K \<le> length ds + pos v div 2 ^ (64 - K)" "ds \<noteq> []"
  shows "snd (scan_walk ds v) = 0"
  using assms
proof (induction ds arbitrary: v)
  case (Cons d ds)
  obtain met v' where scan: "dict_scan d v = (met, v')" by fastforce
  show ?case
  proof (cases "v' = 0")
    case True
    then show ?thesis using scan by simp
  next
    case False
    have d: "dict_inv sip d" "length (old_table d) \<le> 2 ^ K" using Cons.prems(1) by auto
    have "(2::nat) ^ K < 2 ^ 63" using assms(2) by (rule power_strict_increasing) simp
    then have a: "addressable d" using d(2) by (simp add: addressable_def)
    have ne: "\<not> dict_is_empty d" using False scan by (auto simp: dict_scan_def split: if_splits)
    obtain k where k: "length (old_table d) = 2 ^ k" "pos v' = stretch_end (pos v) (64 - k) mod 2 ^ 64"
      by (rule dict_scan_step [OF d(1) a ne scan]) blast
    have "k \<le> K" using d(2) unfolding k(1) by (simp add: power_increasing_iff)
    then have "pos v div 2 ^ (64 - K) < pos v' div 2 ^ (64 - K)"
      using stretch_end_mod [OF False k(2)] stretch_end_mono [of "64 - K" "64 - k" "pos v"] by simp
    then have more: "2 ^ K \<le> length ds + pos v' div 2 ^ (64 - K)" using Cons.prems(3) by simp
    have "ds \<noteq> []"
    proof
      assume "ds = []"
      then have "2 ^ K \<le> pos v' div 2 ^ (64 - K)" using more by simp
      then have "2 ^ K * 2 ^ (64 - K) \<le> pos v'" by (metis div_times_less_eq_dividend le_trans mult_le_mono1)
      then show False using pos_less [of v'] assms(2) by (simp flip: power_add)
    qed
    then have "snd (scan_walk ds v') = 0" using Cons.IH [of v'] Cons.prems(1,2) more by simp
    then show ?thesis using scan False by (auto simp: Let_def split: prod.split)
  qed
qed simp

section \<open>Only what is stored, and the two walks built on a step\<close>

lemma visit_bucket_sound:
  assumes "placed hk t" "(key, e) \<in> set (visit_bucket t v)"
  shows "\<exists>h. (h, key, e) \<in># content t"
proof -
  obtain s where s: "s \<in> set (t ! unat (v AND mask_of t))" "snd s = (key, e)"
    using assms(2) by (auto simp: visit_bucket_def)
  have "unat (v AND mask_of t) < length t"
    using placedD(1) [OF assms(1), of v] by (simp add: bucket_index_def mask_of_def)
  then have "s \<in># content t" using s(1) by (rule bucket_content)
  then show ?thesis using s(2) by (metis prod.collapse)
qed

lemma scan_loop_sound:
  assumes "placed hk new" "(key, e) \<in> set (fst (scan_loop new small large v))"
  shows "\<exists>h. (h, key, e) \<in># content new"
  using assms
proof (induction new small large v rule: scan_loop.induct)
  case (1 new small large v)
  let ?v' = "reverse_increment v large"
  have "(key, e) \<in> set (visit_bucket new v) \<or>
      (?v' AND (small XOR large) \<noteq> 0 \<and> (key, e) \<in> set (fst (scan_loop new small large ?v')))"
    using 1(3) by (subst (asm) scan_loop.simps) (auto simp: Let_def split: if_splits prod.splits)
  then show ?case using visit_bucket_sound [OF 1(2)] 1(1) [OF refl _ 1(2)] by blast
qed

lemma dict_scan_sound:
  assumes "dict_inv sip d" "(key, e) \<in> set (fst (dict_scan d v))"
  shows "dict_map d key = Some e"
proof -
  note inv = dict_invD [OF assms(1)] and ok = tables_okD [OF dict_invD(1) [OF assms(1)]]
  have "\<exists>h. (h, key, e) \<in># slots d"
  proof (cases "new_table d")
    case None
    then have "(key, e) \<in> set (visit_bucket (old_table d) v)"
      using assms(2) by (auto simp: dict_scan_def split: if_splits)
    then show ?thesis using visit_bucket_sound [OF ok(1)] None by (simp add: slots_def)
  next
    case (Some new)
    then have "(key, e) \<in> set (visit_bucket (old_table d) v) \<or>
        (key, e) \<in> set (fst (scan_loop new (mask_of (old_table d)) (mask_of new) v))"
      using assms(2) by (auto simp: dict_scan_def split: if_splits prod.splits)
    then show ?thesis
      using visit_bucket_sound [OF ok(1)] scan_loop_sound [OF ok(2) [OF Some]] Some
      unfolding slots_def by (metis option.simps(5) union_iff)
  qed
  then show ?thesis using denotesD [OF denotes_dict_map [OF inv(2)]] by blast
qed

lemma scan_walk_sound:
  "(\<And>d. d \<in> set ds \<Longrightarrow> dict_inv sip d) \<Longrightarrow> (key, e) \<in> set (fst (scan_walk ds v)) \<Longrightarrow>
    \<exists>d \<in> set ds. dict_map d key = Some e"
proof (induction ds arbitrary: v)
  case (Cons d ds)
  obtain met v' where scan: "dict_scan d v = (met, v')" by fastforce
  then have "(key, e) \<in> set met \<or> (key, e) \<in> set (fst (scan_walk ds v'))"
    using Cons.prems(2) by (auto simp: Let_def split: if_splits prod.splits)
  then show ?case
    using dict_scan_sound [of sip d key e v] scan Cons.IH [of v'] Cons.prems(1) by auto
qed simp

lemma expire_loop_walk:
  "expire_loop d due n v = (snd (scan_walk (replicate n d) v),
     map fst (filter (\<lambda>(_, e). due (expires_at e)) (fst (scan_walk (replicate n d) v))))"
  by (induction n arbitrary: v) (auto simp: Let_def split: prod.splits)

lemma full_walk:
  assumes "dict_inv sip d" "addressable d" "length (old_table d) \<le> budget"
  shows "snd (scan_walk (replicate budget d) 0) = 0"
    and "key \<in> dom (dict_map d) \<Longrightarrow> key \<in> fst ` set (fst (scan_walk (replicate budget d) 0))"
    and "(key, e) \<in> set (fst (scan_walk (replicate budget d) 0)) \<Longrightarrow> dict_map d key = Some e"
proof -
  let ?w = "scan_walk (replicate budget d) 0"
  note ok = tables_okD [OF dict_invD(1) [OF assms(1)]]
  obtain k where k: "length (old_table d) = 2 ^ k"
    using placedD(2) [OF ok(1)] by (auto simp: power_of_two_def)
  have k63: "k < 63"
    using assms(2) power_less_imp_less_exp [of 2 k 63] unfolding addressable_def k by simp
  have pos: "0 < budget" using assms(3) k by (metis gr0I le_zero_eq power_not_zero zero_neq_numeral)
  show ends: "snd ?w = 0"
    using scan_walk_ends [of "replicate budget d" sip k 0] assms k k63 pos by simp
  show "key \<in> fst ` set (fst ?w)" if "key \<in> dom (dict_map d)"
    using scan_walk_covers [of "replicate budget d" sip "d_seed d" key 0 "fst ?w"] assms that ends pos
    by (metis empty_replicate in_set_replicate le0 less_not_refl pos_0 prod.collapse)
  show "dict_map d key = Some e" if "(key, e) \<in> set (fst ?w)"
    using scan_walk_sound [of "replicate budget d" sip key e 0] assms(1) that by auto
qed

subsection \<open>The sampling walk\<close>

lemma oldest_of_None: "oldest_of best es = None \<longleftrightarrow> best = None \<and> es = []"
proof (induction es arbitrary: best)
  case (Cons x es)
  obtain key e where x: "x = (key, e)" by (cases x)
  show ?case unfolding x oldest_of.simps Cons.IH by (cases best) auto
qed simp

lemma oldest_of_in:
  "oldest_of best es = Some (stamp, key) \<Longrightarrow> best = Some (stamp, key) \<or> key \<in> fst ` set es"
proof (induction es arbitrary: best)
  case (Cons x es)
  obtain k e where x: "x = (k, e)" by (cases x)
  from Cons.IH [OF Cons.prems [unfolded x oldest_of.simps]] show ?case
    unfolding x by (auto split: if_splits)
qed simp

lemma sample_loop_sticky: "fst (sample_loop d samples spared n seen v best) = None \<Longrightarrow> best = None"
proof (induction n arbitrary: seen v best)
  case (Suc n)
  obtain met v' where scan: "dict_scan d v = (met, v')" by fastforce
  show ?case
  proof (cases "seen < samples")
    case True
    let ?c = "filter (\<lambda>(key, _). spared \<noteq> Some key) met"
    have "fst (sample_loop d samples spared n (seen + length ?c) v' (oldest_of best ?c)) = None"
      using True Suc.prems scan by (simp add: Let_def)
    from Suc.IH [OF this] show ?thesis by (simp add: oldest_of_None)
  qed (use Suc.prems in simp)
qed simp

abbreviation cursor_at :: "dict \<Rightarrow> nat \<Rightarrow> u64 \<Rightarrow> u64" where
  "cursor_at d i v \<equiv> ((\<lambda>u. snd (dict_scan d u)) ^^ i) v"

lemma sample_loop_None:
  assumes "fst (sample_loop d samples spared n 0 v None) = None" "0 < samples" "i < n"
    "(key, e) \<in> set (fst (dict_scan d (cursor_at d i v)))"
  shows "spared = Some key"
  using assms
proof (induction n arbitrary: v i)
  case (Suc n)
  obtain met v' where scan: "dict_scan d v = (met, v')" by fastforce
  let ?c = "filter (\<lambda>(key, _). spared \<noteq> Some key) met"
  have rest: "fst (sample_loop d samples spared n (length ?c) v' (oldest_of None ?c)) = None"
    using Suc.prems(1,2) scan by (simp add: Let_def)
  then have none: "?c = []" using sample_loop_sticky oldest_of_None by blast
  show ?case
  proof (cases i)
    case 0
    then show ?thesis using none Suc.prems(4) scan by (auto simp: filter_empty_conv)
  next
    case (Suc j)
    have "cursor_at d i v = cursor_at d j v'" using scan by (simp only: Suc funpow_Suc_right o_apply snd_conv)
    then show ?thesis using Suc.IH [of v' j] rest none Suc.prems Suc by simp
  qed
qed simp

lemma sample_loop_in:
  assumes "fst (sample_loop d samples spared n seen v best) = Some (stamp, key)"
  shows "best = Some (stamp, key) \<or>
    (spared \<noteq> Some key \<and> (\<exists>u. key \<in> fst ` set (fst (dict_scan d u))))"
  using assms
proof (induction n arbitrary: seen v best)
  case (Suc n)
  obtain met v' where scan: "dict_scan d v = (met, v')" by fastforce
  let ?c = "filter (\<lambda>(key, _). spared \<noteq> Some key) met"
  consider "best = Some (stamp, key)"
    | "fst (sample_loop d samples spared n (seen + length ?c) v' (oldest_of best ?c)) = Some (stamp, key)"
    using Suc.prems scan by (auto simp: Let_def split: if_splits)
  then show ?case
  proof cases
    case 2
    from Suc.IH [OF this] oldest_of_in [of best ?c stamp key]
    consider "best = Some (stamp, key)" | "key \<in> fst ` set ?c"
      | "spared \<noteq> Some key" "\<exists>u. key \<in> fst ` set (fst (dict_scan d u))" by blast
    then show ?thesis
    proof cases
      case 2
      then have "spared \<noteq> Some key" "key \<in> fst ` set (fst (dict_scan d v))" using scan by auto
      then show ?thesis by blast
    qed simp_all
  qed simp
qed simp

lemma cursor_at_pos:
  assumes "dict_inv sip d" "addressable d" "\<not> dict_is_empty d" "length (old_table d) = 2 ^ k"
  shows "pos (cursor_at d (Suc i) v) = ((pos v div 2 ^ (64 - k) + Suc i) mod 2 ^ k) * 2 ^ (64 - k)"
proof -
  let ?S = "2 ^ (64 - k) :: nat"
  have step: "pos (snd (dict_scan d u)) = ((pos u div ?S + 1) mod 2 ^ k) * ?S" for u
  proof -
    obtain met u' where scan: "dict_scan d u = (met, u')" by fastforce
    obtain k' where k': "length (old_table d) = 2 ^ k'" "k' < 63"
        "pos u' = stretch_end (pos u) (64 - k') mod 2 ^ 64"
      by (rule dict_scan_step [OF assms(1-3) scan]) blast
    then have "k' = k" using assms(4) by simp
    have "(2::nat) ^ 64 = 2 ^ k * ?S" using k'(2) \<open>k' = k\<close> by (simp flip: power_add)
    then show ?thesis using k'(3) scan unfolding \<open>k' = k\<close> stretch_end_def by (simp only: mod_mult_mult2 snd_conv)
  qed
  show ?thesis
  proof (induction i)
    case 0
    then show ?case using step [of v] by simp
  next
    case (Suc i)
    have "pos (cursor_at d (Suc (Suc i)) v) = ((pos (cursor_at d (Suc i) v) div ?S + 1) mod 2 ^ k) * ?S"
      using step [of "cursor_at d (Suc i) v"] by simp
    also have "pos (cursor_at d (Suc i) v) div ?S = (pos v div ?S + Suc i) mod 2 ^ k"
      unfolding Suc.IH by simp
    finally show ?case by (simp add: mod_simps)
  qed
qed

text \<open>Within the walk's bound every stored key is met, from any starting cursor.\<close>

lemma sample_bound_meets:
  assumes "dict_inv sip d" "addressable d" "dict_map d key = Some e" "\<not> dict_is_empty d"
  shows "\<exists>i < length (old_table d) + (case new_table d of None \<Rightarrow> 0 | Some t \<Rightarrow> length t).
    (key, e) \<in> set (fst (dict_scan d (cursor_at d i v)))"
proof -
  note ok = tables_okD [OF dict_invD(1) [OF assms(1)]]
  let ?h = "hash_in sip d key"
  obtain k where k: "length (old_table d) = 2 ^ k" "k < 63"
    by (rule dict_scan_step [OF assms(1,2,4) prod.collapse [symmetric], of v]) blast
  let ?S = "2 ^ (64 - k) :: nat"
  define q where "q = pos v div ?S"
  define y where "y = pos ?h div ?S"
  have split: "(2::nat) ^ 64 = 2 ^ k * ?S" using k(2) by (simp flip: power_add)
  have lt: "q < 2 ^ k" "y < 2 ^ k"
    unfolding q_def y_def using pos_less [of v] pos_less [of ?h] split by (metis less_mult_imp_div_less)+
  have hit: "(key, e) \<in> set (fst (dict_scan d (cursor_at d (Suc i) v)))" if "(q + Suc i) mod 2 ^ k = y" for i
  proof -
    define u where "u = cursor_at d (Suc i) v"
    have u: "pos u = y * ?S"
      using cursor_at_pos [OF assms(1,2,4) k(1), of i v] that unfolding q_def u_def by simp
    obtain k' where k': "length (old_table d) = 2 ^ k'"
      "\<And>key e. dict_map d key = Some e \<Longrightarrow> pos u \<le> pos (hash_in sip d key) \<Longrightarrow>
        pos (hash_in sip d key) < stretch_end (pos u) (64 - k') \<Longrightarrow> (key, e) \<in> set (fst (dict_scan d u))"
      by (rule dict_scan_step [OF assms(1,2,4) prod.collapse [symmetric], of u]) blast
    have "k' = k" using k k'(1) by simp
    moreover have "pos u \<le> pos ?h" unfolding u y_def by (rule div_times_less_eq_dividend)
    moreover have "pos ?h < stretch_end (pos u) (64 - k)"
      using stretch_end_gt [of "pos ?h" "64 - k"] by (simp add: u y_def stretch_end_def)
    ultimately show ?thesis unfolding u_def [symmetric] using k'(2) [OF assms(3)] by blast
  qed
  define i where "i = (if q < y then y - q else y + 2 ^ k - q)"
  have i: "0 < i" "(q + i) mod 2 ^ k = y" "i \<le> 2 ^ k" using lt by (auto simp: i_def)
  show ?thesis
  proof (cases "i = 2 ^ k \<and> new_table d = None")
    case False
    have "i < 3 * 2 ^ k" using i(3) by (rule order_le_less_trans) simp
    then have "i < length (old_table d) + (case new_table d of None \<Rightarrow> 0 | Some t \<Rightarrow> length t)"
      using False i(3) k(1) ok(3) by (cases "new_table d") auto
    moreover have "(key, e) \<in> set (fst (dict_scan d (cursor_at d i v)))"
      using hit [of "i - 1"] i(1,2) by simp
    ultimately show ?thesis by blast
  next
    case True
    then have "q = y" using lt by (auto simp: i_def split: if_splits)
    have "(?h, key, e) \<in># content (old_table d)"
      using dict_get_Some [OF dict_invD(1) [OF assms(1)], of key e] dict_get_map [OF assms(1)] assms(3) True
      by (simp add: slots_def)
    from visit_bucket_covers [OF ok(1) k(1) _ this, of v]
    have "(key, e) \<in> set (visit_bucket (old_table d) v)" using \<open>q = y\<close> k(2) by (simp add: q_def y_def)
    then have "(key, e) \<in> set (fst (dict_scan d (cursor_at d 0 v)))" using True assms(4) by (simp add: dict_scan_def)
    then show ?thesis using k(1) by (intro exI [of _ 0]) simp
  qed
qed

lemma expire_step_all:
  assumes "dict_inv sip d" "addressable d" "length (old_table d) \<le> budget" "\<not> due None"
    and "expire_step d 0 budget due False = (cursor, dead)"
  shows "cursor = 0 \<and> set dead = {key. \<exists>e. dict_map d key = Some e \<and> due (expires_at e)}"
proof (cases "may_hold_deadlines d")
  case True
  note walk = full_walk [OF assms(1-3)]
  have "key \<in> fst ` {x \<in> set (fst (scan_walk (replicate budget d) 0)). due (expires_at (snd x))} \<longleftrightarrow>
      (\<exists>e. dict_map d key = Some e \<and> due (expires_at e))" (is "?l \<longleftrightarrow> ?r") for key
  proof
    assume ?l
    then show ?r using walk(3) by auto
  next
    assume ?r
    then obtain e where e: "dict_map d key = Some e" "due (expires_at e)" by blast
    then have "key \<in> dom (dict_map d)" by blast
    from walk(2) [OF this]
    obtain e' where "(key, e') \<in> set (fst (scan_walk (replicate budget d) 0))" by auto
    moreover from walk(3) [OF this] have "e' = e" using e by simp
    ultimately show ?l using e(2) by force
  qed
  then show ?thesis
    using True walk(1) assms(5) by (auto simp: expire_step_def expire_loop_walk case_prod_beta)
next
  case False
  have "expires_at e = None" if "dict_map d key = Some e" for key e
    using False dict_invD(3) [OF assms(1)] denotesD [OF denotes_dict_map [OF dict_invD(2) [OF assms(1)]]] that
    by (force simp: accounted_def)
  then show ?thesis using False assms(4,5) by (auto simp: expire_step_def)
qed

lemma sample_oldest_total:
  assumes "dict_inv sip d" "addressable d" "0 < samples"
  shows "case fst (sample_oldest d v samples spared) of
      None \<Rightarrow> \<forall>key. key \<in> dom (dict_map d) \<longrightarrow> spared = Some key
    | Some key \<Rightarrow> key \<in> dom (dict_map d) \<and> spared \<noteq> Some key"
proof (cases "dict_is_empty d")
  case True
  then have "slots d = {#}" using dict_invD(3) [OF assms(1)] by (simp add: dict_is_empty_def accounted_def)
  then have "dict_map d = (\<lambda>_. None)"
    using denotes_unique [OF denotes_dict_map [OF dict_invD(2) [OF assms(1)]]] denotes_empty by metis
  then show ?thesis using True by (simp add: sample_oldest_def)
next
  case False
  let ?bound = "length (old_table d) + (case new_table d of None \<Rightarrow> 0 | Some t \<Rightarrow> length t)"
  let ?r = "fst (sample_loop d samples spared ?bound 0 v None)"
  have r: "fst (sample_oldest d v samples spared) = map_option snd ?r"
    using False by (simp add: sample_oldest_def Let_def split: prod.split)
  show ?thesis
  proof (cases ?r)
    case None
    have "spared = Some key" if "dict_map d key = Some e" for key e
      using sample_bound_meets [OF assms(1,2) that False, of v] sample_loop_None [OF None assms(3)] by blast
    then show ?thesis unfolding r None by auto
  next
    case (Some x)
    obtain stamp key where x: "x = (stamp, key)" by (cases x)
    from sample_loop_in [OF Some [unfolded x]] dict_scan_sound [OF assms(1)] show ?thesis
      unfolding r Some x by force
  qed
qed

section \<open>The walk's two promises\<close>

text \<open>C27. Over any run of calls that starts at cursor zero and ends when a call
  returns zero, a key present throughout is handed to the visitor at least once,
  whatever grew, shrank or migrated between the calls: the dicts of the run are
  arbitrary as long as each satisfies the invariant under the same seed.\<close>

theorem scan_cycle_complete:
  assumes "\<And>d. d \<in> set ds \<Longrightarrow> dict_inv sip d \<and> addressable d \<and> d_seed d = seed"
    and "scan_walk ds 0 = (seen, 0)" "ds \<noteq> []"
    and "\<And>d. d \<in> set ds \<Longrightarrow> key \<in> dom (dict_map d)"
  shows "key \<in> fst ` set seen"
  using scan_walk_covers [of ds sip seed key 0 seen] assms by simp

text \<open>C28. A cycle over tables of at most \<open>2 ^ K\<close> buckets ends within \<open>2 ^ K\<close> calls, even
  while the tables change size between the calls.\<close>

theorem scan_cycle_ends:
  assumes "\<And>d. d \<in> set ds \<Longrightarrow> dict_inv sip d \<and> length (old_table d) \<le> 2 ^ K" "K < 63"
    and "2 ^ K \<le> length ds"
  shows "snd (scan_walk ds 0) = 0"
  using scan_walk_ends [of ds sip K 0] assms by fastforce

text \<open>C38. A sweep with at least as many steps as the table has buckets reports
  exactly the stored keys the policy calls due, and ends its cycle: the flag that
  lets an undated dict skip the walk never hides a due key.\<close>

theorem expire_step_exact:
  assumes "dict_inv sip d" "addressable d" "length (old_table d) \<le> budget" "\<not> due None"
    and "expire_step d 0 budget due False = (cursor, dead)"
  shows "cursor = 0 \<and> set dead = {key. \<exists>e. dict_map d key = Some e \<and> due (expires_at e)}"
  by (rule expire_step_all [OF assms])

text \<open>\<open>sample_oldest\<close> answers a stored key other than the spared one whenever
  there is one, from any cursor and during a rehash: none means the dict has
  nothing else to give.\<close>

theorem sample_oldest_answers:
  assumes "dict_inv sip d" "addressable d" "0 < samples"
  shows "case fst (sample_oldest d v samples spared) of
      None \<Rightarrow> \<forall>key. key \<in> dom (dict_map d) \<longrightarrow> spared = Some key
    | Some key \<Rightarrow> key \<in> dom (dict_map d) \<and> spared \<noteq> Some key"
  by (rule sample_oldest_total [OF assms])

section \<open>Witnesses\<close>

definition two_keys :: dict where
  "two_keys = dict_insert sip_const one_key [2] \<lparr>entry_value = [], expires_at = None, touched = 0\<rparr>"

lemmas build_simps = dict_insert_def grow_or_migrate_def is_rehashing_def with_seed_def write_entry_def
  find_in_def empty_table_def INITIAL_BUCKETS_def hash_key_def sip_const_def push_slot_def bucket_index_def
  Let_def

lemma one_key_shape:
  "length (old_table one_key) = 8" "d_seed one_key = seed_zero" "new_table one_key = None" "d_len one_key = 1"
  by (simp_all add: one_key_def build_simps)

lemma one_key_inv: "dict_inv sip_const one_key"
  by (rule reachable_inv [OF one_key_reachable])

lemma two_keys_shape:
  "length (old_table two_keys) = 8" "d_seed two_keys = seed_zero"
  using one_key_shape by (simp_all add: two_keys_def build_simps split: option.split)

lemma two_keys_ok: "dict_inv sip_const two_keys" "[1] \<in> dom (dict_map two_keys)"
  using dict_insert_ok [OF one_key_inv] by (simp_all add: two_keys_def one_key_map)

definition growing :: "dict list" where
  "growing = replicate 4 one_key @ replicate 4 two_keys"

lemma growing_ok: "d \<in> set growing \<Longrightarrow>
    dict_inv sip_const d \<and> addressable d \<and> d_seed d = seed_zero \<and> length (old_table d) \<le> 2 ^ 3 \<and>
    [1] \<in> dom (dict_map d)"
  using one_key_inv one_key_shape two_keys_ok two_keys_shape
  by (auto simp: addressable_def one_key_map growing_def)

lemma growing_length: "length growing = 8"
  by (simp add: growing_def)

theorem scan_cycle_complete_witness:
  "snd (scan_walk growing 0) = 0 \<and> [1] \<in> fst ` set (fst (scan_walk growing 0))"
proof -
  have ne: "growing \<noteq> []" using growing_length by force
  have e: "snd (scan_walk growing 0) = 0"
    by (rule scan_walk_ends [of growing sip_const 3 0]) (use growing_ok growing_length ne in auto)
  then have w: "scan_walk growing 0 = (fst (scan_walk growing 0), 0)" by (metis prod.collapse)
  have "[1] \<in> fst ` set (fst (scan_walk growing 0))"
    by (rule scan_cycle_complete [OF _ w ne, of sip_const seed_zero]) (use growing_ok in blast)+
  then show ?thesis using e by blast
qed

theorem scan_cycle_ends_witness: "snd (scan_walk growing 0) = 0 \<and> length growing = 2 ^ 3"
proof -
  have "snd (scan_walk growing 0) = 0"
    by (rule scan_cycle_ends [of growing sip_const 3]) (use growing_ok growing_length in auto)
  then show ?thesis using growing_length by simp
qed

theorem expire_step_exact_witness:
  "fst (expire_step one_key 0 8 (\<lambda>at. at = Some 5) False) = 0 \<and>
    set (snd (expire_step one_key 0 8 (\<lambda>at. at = Some 5) False)) = {[1]}"
proof -
  have "addressable one_key" by (simp add: addressable_def one_key_shape)
  moreover have "{key. \<exists>e. dict_map one_key key = Some e \<and> expires_at e = Some 5} = {[1]}"
    by (auto simp: one_key_map split: if_splits)
  ultimately show ?thesis
    using expire_step_exact [OF one_key_inv, of 8 "\<lambda>at. at = Some 5", OF _ _ _ prod.collapse [symmetric]]
      one_key_shape(1) by simp
qed

theorem sample_oldest_answers_witness:
  "fst (sample_oldest one_key 3 5 None) = Some [1] \<and> fst (sample_oldest one_key 3 5 (Some [1])) = None"
proof -
  have a: "addressable one_key" by (simp add: addressable_def one_key_shape)
  have d: "dom (dict_map one_key) = {[1]}" by (simp add: one_key_map)
  note answers = sample_oldest_answers [OF one_key_inv a, where v = 3 and samples = 5, unfolded d]
  have "fst (sample_oldest one_key 3 5 None) = Some [1]"
    using answers [of None] by (cases "fst (sample_oldest one_key 3 5 None)") simp_all
  moreover have "fst (sample_oldest one_key 3 5 (Some [1])) = None"
    using answers [of "Some [1]"] by (cases "fst (sample_oldest one_key 3 5 (Some [1]))") simp_all
  ultimately show ?thesis ..
qed

end
