(* ===== verification/Shard.thy ===== *)
theory Shard
  imports Command Effect FileLog Keyspace Scan
begin

text \<open>
  The state of one shard and what its handlers share: the clock readings and
  deadline conversions and \<^verbatim>\<open>ShardState\<close> of
  \<^verbatim>\<open>crates/seedstone-core/src/shard/executor.rs\<close>, the shipped expiry policy
  \<^verbatim>\<open>Deadlines\<close> of \<^verbatim>\<open>policy.rs\<close>, and \<^verbatim>\<open>append\<close> and the canonical integers of
  \<^verbatim>\<open>apply.rs\<close>. The log is any one with the operations \<open>ops\<close>. \<open>None\<close> from an
  operation that appends is a panic of the encoder.
\<close>

section \<open>Clocks and deadlines\<close>

text \<open>An instant of the monotonic clock counts nanoseconds; its seconds are an \<open>i64\<close>,
  so \<^verbatim>\<open>checked_add\<close> fails past the limit.\<close>

definition INSTANT_LIMIT :: nat where "INSTANT_LIMIT = 2 ^ 63 * 10 ^ 9"

definition checked_add :: "instant \<Rightarrow> nat \<Rightarrow> instant option" where
  "checked_add at span = (if at + span < INSTANT_LIMIT then Some (at + span) else None)"

definition from_secs :: "u64 \<Rightarrow> nat" where "from_secs s = unat s * 10 ^ 9"
definition from_millis :: "u64 \<Rightarrow> nat" where "from_millis m = unat m * 10 ^ 6"
definition as_millis :: "nat \<Rightarrow> nat" where "as_millis span = span div 10 ^ 6"

definition saturate_u64 :: "nat \<Rightarrow> u64" where
  "saturate_u64 n = of_nat (min n (2 ^ 64 - 1))"

record now =
  now_instant :: instant
  unix_millis :: u64

datatype replayed = Past | ReplayedAt "instant option"

definition deadline_millis :: "now \<Rightarrow> instant option \<Rightarrow> u64 option" where
  "deadline_millis n at =
     map_option (\<lambda>a. saturate_u64 (unat (unix_millis n) +
       unat (saturate_u64 (as_millis (a - now_instant n))))) at"

definition replay_deadline :: "now \<Rightarrow> u64 \<Rightarrow> replayed" where
  "replay_deadline n millis =
     (if unat millis \<le> unat (unix_millis n) then Past
      else ReplayedAt (checked_add (now_instant n) (from_millis (millis - unix_millis n))))"

definition deadline :: "instant \<Rightarrow> expiry option \<Rightarrow> instant option" where
  "deadline t e =
     (case e of None \<Rightarrow> None
      | Some (Ex seconds) \<Rightarrow> checked_add t (from_secs seconds)
      | Some (Px millis) \<Rightarrow> checked_add t (from_millis millis))"

definition try_i64 :: "nat \<Rightarrow> i64" where
  "try_i64 n = (if is_i64 (int n) then int n else I64_MAX)"

definition remaining_seconds :: "instant \<Rightarrow> instant \<Rightarrow> i64" where
  "remaining_seconds at t = try_i64 ((as_millis (at - t) + 500) div 1000)"

definition remaining_millis :: "instant \<Rightarrow> instant \<Rightarrow> i64" where
  "remaining_millis at t = try_i64 (as_millis (at - t))"

text \<open>The shipped policy: a deadline comes due the instant the clock reaches it.\<close>

definition due_on_read :: "instant option \<Rightarrow> instant \<Rightarrow> bool" where
  "due_on_read at t = (case at of None \<Rightarrow> False | Some a \<Rightarrow> a \<le> t)"

definition due_on_sweep :: "instant option \<Rightarrow> instant \<Rightarrow> bool" where
  "due_on_sweep at t = (case at of None \<Rightarrow> False | Some a \<Rightarrow> a \<le> t)"

definition takes_undated :: bool where "takes_undated = False"

section \<open>Canonical integers\<close>

definition parse_i64 :: "bytes \<Rightarrow> i64 option" where
  "parse_i64 bs =
     (let negative = (get bs 0 = Some 45); digits = (if negative then tl bs else bs) in
      if digits = [] \<or> \<not> list_all is_digit digits then None
      else if hd digits = 48 \<and> (length digits > 1 \<or> negative) then None
      else case digits_value 0 digits of
        None \<Rightarrow> None
      | Some n \<Rightarrow> let i = (if negative then - int n else int n) in if is_i64 i then Some i else None)"

section \<open>One shard\<close>

record 'l shard_state =
  sh_dict :: dict
  sh_seq :: u64
  sh_log :: 'l
  expire_cursor :: u64
  evict_cursor :: u64
  evicted :: u64
  hits :: u64
  misses :: u64
  expired :: u64
  calls :: "u64 list"
  usec :: "u64 list"
  lossy :: bool
  image_unix_millis :: "u64 option"
  refusing :: bool

definition shard_recovered :: "dict \<Rightarrow> u64 \<Rightarrow> 'l \<Rightarrow> 'l shard_state" where
  "shard_recovered d s l =
     \<lparr>sh_dict = d, sh_seq = s, sh_log = l, expire_cursor = 0, evict_cursor = 0, evicted = 0, hits = 0,
      misses = 0, expired = 0, calls = replicate KIND_SLOTS 0, usec = replicate KIND_SLOTS 0,
      lossy = False, image_unix_millis = None, refusing = False\<rparr>"

definition shard_new :: "dict \<Rightarrow> 'l \<Rightarrow> 'l shard_state" where
  "shard_new d l = shard_recovered d 0 l"

text \<open>\<open>append\<close> answers the reply to send instead when the log refuses the record.\<close>

definition append :: "'l log_ops \<Rightarrow> u16 \<Rightarrow> effect \<Rightarrow> 'l shard_state \<Rightarrow> (reply option \<times> 'l shard_state) option"
  where
  "append ops shard eff st =
     do {
       payload \<leftarrow> (if log_keeps_payloads ops (sh_log st) then encode eff else Some []);
       (ok, l) \<leftarrow> log_append ops (sh_log st)
         \<lparr>rec_shard = shard, rec_seq = sh_seq st, rec_payload = payload\<rparr>;
       if ok then Some (None, st\<lparr>sh_log := l, sh_seq := sh_seq st + 1\<rparr>)
       else Some (Some (Error LogWriteFailed), st\<lparr>sh_log := l\<rparr>)
     }"

text \<open>The shape of every logged change: the record first, and the change only if
  the log took it.\<close>

definition logged :: "'l log_ops \<Rightarrow> u16 \<Rightarrow> effect \<Rightarrow> ('l shard_state \<Rightarrow> reply \<times> 'l shard_state) \<Rightarrow>
    'l shard_state \<Rightarrow> (reply \<times> 'l shard_state) option" where
  "logged ops shard eff change st =
     do {
       (failed, st') \<leftarrow> append ops shard eff st;
       case failed of Some r \<Rightarrow> Some (r, st') | None \<Rightarrow> Some (change st')
     }"

section \<open>Canonical spelling\<close>

lemma decimal_no_zero: "hd (decimal n) = 48 \<Longrightarrow> n = 0"
proof (induction n rule: decimal.induct)
  case (1 n)
  have d: "(of_nat (48 + d) :: byte) = 48 \<longleftrightarrow> d = 0" if "d < 10" for d
    using digit_of_nat(2) [OF that] by (auto simp: digit_value_def)
  show ?case
  proof (cases "n < 10")
    case True
    then show ?thesis using 1 d [of n] by (simp add: decimal.simps [of n] del: of_nat_add)
  next
    case False
    then have "hd (decimal n) = hd (decimal (n div 10))" by (subst decimal.simps) simp
    then have "n div 10 = 0" using 1 False by simp
    then show ?thesis using False by simp
  qed
qed

lemma parse_i64_text: "is_i64 i \<Longrightarrow> parse_i64 (i64_text i) = Some i"
proof -
  assume i: "is_i64 i"
  have not_minus: "get (decimal n) 0 \<noteq> Some 45" for n
    using decimal_hd [of n] by (cases "decimal n") (auto simp: get_def is_digit_def)
  have zero: "hd (decimal n) = 48 \<Longrightarrow> decimal n = [48]" for n
    using decimal_no_zero [of n] by (simp add: decimal.simps [of 0])
  show ?thesis
  proof (cases "i < 0")
    case True
    then have "hd (decimal (nat (- i))) \<noteq> 48" using decimal_no_zero [of "nat (- i)"] by auto
    then show ?thesis
      using True i decimal_digits [of "nat (- i)"] by (simp add: parse_i64_def i64_text_def get_def Let_def)
  next
    case False
    have "\<not> (hd (decimal (nat i)) = 48 \<and> 1 < length (decimal (nat i)))" using zero [of "nat i"] by auto
    then show ?thesis
      using False i decimal_digits [of "nat i"] not_minus [of "nat i"] by (simp add: parse_i64_def i64_text_def Let_def)
  qed
qed

lemma digit_char: "is_digit d \<Longrightarrow> of_nat (48 + digit_value d) = d \<and> digit_value d < 10"
proof -
  assume "is_digit d"
  then have "48 \<le> unat d" "unat d \<le> 57" by (simp_all add: is_digit_def word_le_nat_alt)
  then show ?thesis by (simp add: digit_value_def del: of_nat_add)
qed

lemma decimal_of_digits:
  "list_all is_digit ds \<Longrightarrow> ds \<noteq> [] \<Longrightarrow> (hd ds = 48 \<longrightarrow> length ds = 1) \<Longrightarrow> digits_value 0 ds = Some n \<Longrightarrow>
    decimal n = ds"
proof (induction ds arbitrary: n rule: rev_induct)
  case (snoc d xs)
  have d: "of_nat (48 + digit_value d) = d" "digit_value d < 10" using snoc.prems(1) digit_char [of d] by auto
  show ?case
  proof (cases "xs = []")
    case True
    then show ?thesis using snoc.prems d by (simp add: decimal.simps [of n] digits_value_append del: of_nat_add)
  next
    case False
    then obtain v where v: "digits_value 0 xs = Some v" "n = v * 10 + digit_value d"
      using snoc.prems by (auto simp: digits_value_append bind_eq_Some_conv split: if_splits)
    have hd: "hd xs \<noteq> 48" using False snoc.prems(3) by auto
    then have "decimal v = xs" using snoc.IH [of v] snoc.prems(1) False v(1) by auto
    moreover from this hd have "v \<noteq> 0" by (cases v) (auto simp: decimal.simps [of 0])
    moreover have "decimal n = decimal (n div 10) @ [of_nat (48 + n mod 10)]" if "v \<noteq> 0"
      using that v(2) by (subst decimal.simps) simp
    ultimately show ?thesis using v(2) d by simp
  qed
qed simp

text \<open>A stored counter has one spelling: \<open>parse_i64\<close> accepts exactly the text
  \<open>i64::to_string\<close> writes, and reads the number back.\<close>

theorem parse_i64_canonical: "parse_i64 bs = Some i \<longleftrightarrow> is_i64 i \<and> bs = i64_text i"
proof
  assume p: "parse_i64 bs = Some i"
  define negative where "negative = (get bs 0 = Some 45)"
  define ds where "ds = (if negative then tl bs else bs)"
  obtain n where n: "ds \<noteq> []" "list_all is_digit ds" "\<not> (hd ds = 48 \<and> (length ds > 1 \<or> negative))"
    "digits_value 0 ds = Some n" "i = (if negative then - int n else int n)" "is_i64 i"
    using p unfolding parse_i64_def negative_def [symmetric] ds_def [symmetric] Let_def
    by (auto split: if_splits option.splits)
  have dec: "decimal n = ds"
    by (rule decimal_of_digits) (use n in \<open>cases ds; auto\<close>)+
  show "is_i64 i \<and> bs = i64_text i"
  proof (cases negative)
    case True
    then have "bs = 45 # ds" by (cases bs) (auto simp: negative_def ds_def get_def)
    moreover have "n \<noteq> 0" using dec n(3) True by (cases n) (auto simp: decimal.simps [of 0])
    ultimately show ?thesis using n(5,6) dec True by (simp add: i64_text_def)
  next
    case False
    then show ?thesis using n(5,6) dec by (simp add: i64_text_def ds_def)
  qed
qed (use parse_i64_text in blast)

end
