(* ===== verification/Apply.thy ===== *)
theory Apply
  imports Shard Glob
begin

text \<open>
  The interpreter of \<^verbatim>\<open>crates/seedstone-core/src/shard/apply.rs\<close>: one command
  against one shard, its reply, and the record it appends when it changed
  something, with lazy expiry in front of every keyed command. Each handler is a
  function from the shard's state to its reply and the next state; \<open>None\<close> is a
  panic of the encoder on a field too long for its length prefix.
\<close>

type_synonym 'l handler = "'l shard_state \<Rightarrow> (reply \<times> 'l shard_state) option"

abbreviation lookup :: "siphash \<Rightarrow> 'l shard_state \<Rightarrow> bytes \<Rightarrow> entry option" where
  "lookup sip st key \<equiv> dict_get sip (sh_dict st) key"

definition with_dict :: "(dict \<Rightarrow> dict) \<Rightarrow> 'l shard_state \<Rightarrow> 'l shard_state" where
  "with_dict f st = st\<lparr>sh_dict := f (sh_dict st)\<rparr>"

section \<open>Expiry in front of the dispatch\<close>

definition is_due :: "siphash \<Rightarrow> dict \<Rightarrow> bytes \<Rightarrow> instant \<Rightarrow> bool" where
  "is_due sip d key t =
     (if \<not> may_hold_deadlines d \<and> \<not> takes_undated then False
      else case dict_get sip d key of None \<Rightarrow> False | Some e \<Rightarrow> due_on_read (expires_at e) t)"

definition evict_if_expired :: "'l log_ops \<Rightarrow> siphash \<Rightarrow> u16 \<Rightarrow> bytes \<Rightarrow> instant \<Rightarrow> 'l shard_state \<Rightarrow>
    ((reply + bool) \<times> 'l shard_state) option" where
  "evict_if_expired ops sip shard key t st =
     (if \<not> is_due sip (sh_dict st) key t then Some (Inr False, st)
      else do {
        (failed, st') \<leftarrow> append ops shard (effect.Del key) st;
        case failed of
          Some r \<Rightarrow> Some (Inl r, st')
        | None \<Rightarrow> Some (Inr True, with_dict (\<lambda>d. snd (dict_remove sip d key)) st')
      })"

definition remove_if_expired :: "siphash \<Rightarrow> bytes \<Rightarrow> instant \<Rightarrow> 'l shard_state \<Rightarrow> bool \<times> 'l shard_state" where
  "remove_if_expired sip key t st =
     (if \<not> is_due sip (sh_dict st) key t then (False, st)
      else (True, with_dict (\<lambda>d. snd (dict_remove sip d key)) st))"

section \<open>Handlers\<close>

record set_args =
  sa_key :: bytes
  sa_value :: bytes
  sa_expiry :: "expiry option"
  sa_cond :: "cond option"
  sa_keep_ttl :: bool
  sa_get :: bool

definition set_ex_args :: "bytes \<Rightarrow> bytes \<Rightarrow> u64 \<Rightarrow> set_args" where
  "set_ex_args key v seconds =
     \<lparr>sa_key = key, sa_value = v, sa_expiry = Some (Ex seconds), sa_cond = None, sa_keep_ttl = False, sa_get = False\<rparr>"

definition set_nx_args :: "bytes \<Rightarrow> bytes \<Rightarrow> set_args" where
  "set_nx_args key v =
     \<lparr>sa_key = key, sa_value = v, sa_expiry = None, sa_cond = Some Nx, sa_keep_ttl = False, sa_get = False\<rparr>"

definition pset_ex_args :: "bytes \<Rightarrow> bytes \<Rightarrow> u64 \<Rightarrow> set_args" where
  "pset_ex_args key v millis =
     \<lparr>sa_key = key, sa_value = v, sa_expiry = Some (Px millis), sa_cond = None, sa_keep_ttl = False, sa_get = False\<rparr>"

text \<open>A write: the entry in, unstamped, and then the touch.\<close>

definition put_touched :: "siphash \<Rightarrow> bytes \<Rightarrow> bytes \<Rightarrow> instant option \<Rightarrow> 'l shard_state \<Rightarrow> 'l shard_state" where
  "put_touched sip key v at =
     with_dict (\<lambda>d. touch sip (dict_insert sip d key \<lparr>entry_value = v, expires_at = at, touched = 0\<rparr>) key)"

definition set_cmd :: "'l log_ops \<Rightarrow> siphash \<Rightarrow> u16 \<Rightarrow> now \<Rightarrow> set_args \<Rightarrow> 'l handler" where
  "set_cmd ops sip shard n args st =
     (let key = sa_key args;
          found = lookup sip st key;
          existed = (found \<noteq> None);
          old = (if sa_get args then map_option entry_value found else None);
          kept = Option.bind found expires_at
      in
      if sa_cond args = Some Nx \<and> existed then Some (Bulk old, st)
      else if sa_cond args = Some Xx \<and> \<not> existed then Some (Bulk None, st)
      else
        let at = (if sa_keep_ttl args then kept else deadline (now_instant n) (sa_expiry args)) in
        logged ops shard (Put key (sa_value args) (deadline_millis n at))
          (\<lambda>st'. (if sa_get args then Bulk old else Ok, put_touched sip key (sa_value args) at st')) st)"

definition set_nx :: "'l log_ops \<Rightarrow> siphash \<Rightarrow> u16 \<Rightarrow> now \<Rightarrow> bytes \<Rightarrow> bytes \<Rightarrow> 'l handler" where
  "set_nx ops sip shard n key v st =
     do {
       (r, st') \<leftarrow> set_cmd ops sip shard n (set_nx_args key v) st;
       Some (case r of Ok \<Rightarrow> Integer 1 | Bulk None \<Rightarrow> Integer 0 | other \<Rightarrow> other, st')
     }"

definition del :: "'l log_ops \<Rightarrow> siphash \<Rightarrow> u16 \<Rightarrow> bytes \<Rightarrow> 'l handler" where
  "del ops sip shard key st =
     (if lookup sip st key = None then Some (Removed False, st)
      else logged ops shard (effect.Del key)
        (\<lambda>st'. (Removed True, with_dict (\<lambda>d. snd (dict_remove sip d key)) st')) st)"

definition incr_by :: "'l log_ops \<Rightarrow> siphash \<Rightarrow> u16 \<Rightarrow> now \<Rightarrow> bytes \<Rightarrow> i64 \<Rightarrow> 'l handler" where
  "incr_by ops sip shard n key delta st =
     (case (case lookup sip st key of
              None \<Rightarrow> Some (0, None)
            | Some e \<Rightarrow> map_option (\<lambda>i. (i, expires_at e)) (parse_i64 (entry_value e))) of
        None \<Rightarrow> Some (Error NotAnInteger, st)
      | Some (current, at) \<Rightarrow>
          if \<not> is_i64 (current + delta) then Some (Error WouldOverflow, st)
          else
            let text = i64_text (current + delta) in
            logged ops shard (Put key text (deadline_millis n at))
              (\<lambda>st'. (Integer (current + delta), put_touched sip key text at st')) st)"

datatype span = SpanAt "instant option" | Passed

definition span_deadline :: "instant \<Rightarrow> i64 \<Rightarrow> (u64 \<Rightarrow> expiry) \<Rightarrow> span" where
  "span_deadline t s unit = (if s \<le> 0 then Passed else SpanAt (deadline t (Some (unit (of_int s)))))"

definition set_expiry :: "'l log_ops \<Rightarrow> siphash \<Rightarrow> u16 \<Rightarrow> now \<Rightarrow> bytes \<Rightarrow> span \<Rightarrow> 'l handler" where
  "set_expiry ops sip shard n key at st =
     (if lookup sip st key = None then Some (Integer 0, st)
      else logged ops shard
        (case at of Passed \<Rightarrow> effect.Del key | SpanAt a \<Rightarrow> Deadline key (deadline_millis n a))
        (\<lambda>st'. (Integer 1,
           case at of
             Passed \<Rightarrow> with_dict (\<lambda>d. snd (dict_remove sip d key)) st'
           | SpanAt a \<Rightarrow> with_dict (\<lambda>d. snd (set_deadline sip d key a)) st')) st)"

definition persist :: "'l log_ops \<Rightarrow> siphash \<Rightarrow> u16 \<Rightarrow> bytes \<Rightarrow> 'l handler" where
  "persist ops sip shard key st =
     (if (case lookup sip st key of None \<Rightarrow> True | Some e \<Rightarrow> expires_at e = None) then Some (Integer 0, st)
      else logged ops shard (Deadline key None)
        (\<lambda>st'. (Integer 1, with_dict (\<lambda>d. snd (set_deadline sip d key None)) st')) st)"

definition type_name :: "siphash \<Rightarrow> dict \<Rightarrow> bytes \<Rightarrow> bytes" where
  "type_name sip d key = (if dict_get sip d key \<noteq> None then ascii ''string'' else ascii ''none'')"

definition value_len :: "siphash \<Rightarrow> dict \<Rightarrow> bytes \<Rightarrow> i64" where
  "value_len sip d key =
     (case dict_get sip d key of None \<Rightarrow> 0 | Some e \<Rightarrow> try_i64 (length (entry_value e)))"

definition flush_db :: "'l log_ops \<Rightarrow> u16 \<Rightarrow> 'l handler" where
  "flush_db ops shard st =
     (if dict_is_empty (sh_dict st) then Some (Ok, st)
      else logged ops shard Flush (\<lambda>st'. (Ok, with_dict dict_clear st')) st)"

definition ttl_reply :: "siphash \<Rightarrow> dict \<Rightarrow> bytes \<Rightarrow> instant \<Rightarrow> (instant \<Rightarrow> instant \<Rightarrow> i64) \<Rightarrow> reply" where
  "ttl_reply sip d key t remaining =
     (case map_option expires_at (dict_get sip d key) of
        None \<Rightarrow> Integer (- 2)
      | Some None \<Rightarrow> Integer (- 1)
      | Some (Some at) \<Rightarrow> Integer (remaining at t))"

fun scan_steps :: "dict \<Rightarrow> bytes option \<Rightarrow> instant \<Rightarrow> nat \<Rightarrow> u64 \<Rightarrow> u64 \<times> bytes list \<times> nat" where
  "scan_steps d pattern t 0 cursor = (cursor, [], 0)"
| "scan_steps d pattern t (Suc n) cursor =
     (let (met, cursor') = dict_scan d cursor;
          keys = map fst (filter (\<lambda>(key, e). \<not> due_on_read (expires_at e) t \<and>
            (case pattern of None \<Rightarrow> True | Some p \<Rightarrow> glob_matches p key)) met)
      in if cursor' = 0 then (0, keys, 1)
         else let (last, more, visited) = scan_steps d pattern t n cursor' in (last, keys @ more, visited + 1))"

definition scan_step :: "dict \<Rightarrow> u64 \<Rightarrow> nat \<Rightarrow> bytes option \<Rightarrow> instant \<Rightarrow> reply" where
  "scan_step d cursor buckets pattern t =
     (let (last, keys, visited) = scan_steps d pattern t (max buckets 1) cursor in Scanned last keys visited)"

definition shard_stats_default :: shard_stats where
  "shard_stats_default =
     \<lparr>st_keys = 0, st_expires = 0, st_evicted = 0, st_hits = 0, st_misses = 0, st_expired = 0,
      st_calls = replicate KIND_SLOTS 0, st_usec = replicate KIND_SLOTS 0\<rparr>"

definition keyspace_stats :: "dict \<Rightarrow> shard_stats" where
  "keyspace_stats d = shard_stats_default
     \<lparr>st_keys := of_nat (d_len d), st_expires := of_nat (with_deadline d)\<rparr>"

section \<open>The dispatch\<close>

fun dispatch_cmd :: "'l log_ops \<Rightarrow> siphash \<Rightarrow> u16 \<Rightarrow> now \<Rightarrow> command \<Rightarrow> 'l handler" where
  "dispatch_cmd ops sip shard n (Get key) st =
     (let st' = with_dict (\<lambda>d. touch sip d key) st in
      Some (Bulk (map_option entry_value (lookup sip st' key)), st'))"
| "dispatch_cmd ops sip shard n (Set key v expiry cond keep_ttl want) st =
     set_cmd ops sip shard n \<lparr>sa_key = key, sa_value = v, sa_expiry = expiry, sa_cond = cond,
       sa_keep_ttl = keep_ttl, sa_get = want\<rparr> st"
| "dispatch_cmd ops sip shard n (SetEx key seconds v) st = set_cmd ops sip shard n (set_ex_args key v seconds) st"
| "dispatch_cmd ops sip shard n (SetNx key v) st = set_nx ops sip shard n key v st"
| "dispatch_cmd ops sip shard n (PSetEx key millis v) st = set_cmd ops sip shard n (pset_ex_args key v millis) st"
| "dispatch_cmd ops sip shard n (command.Del key) st = del ops sip shard key st"
| "dispatch_cmd ops sip shard n (IncrBy key delta) st = incr_by ops sip shard n key delta st"
| "dispatch_cmd ops sip shard n (Expire key seconds) st =
     set_expiry ops sip shard n key (span_deadline (now_instant n) seconds Ex) st"
| "dispatch_cmd ops sip shard n (PExpire key millis) st =
     set_expiry ops sip shard n key (span_deadline (now_instant n) millis Px) st"
| "dispatch_cmd ops sip shard n (ExpireAt key millis) st =
     set_expiry ops sip shard n key (span_deadline (now_instant n) millis Px) st"
| "dispatch_cmd ops sip shard n (PExpireAt key millis) st =
     set_expiry ops sip shard n key (span_deadline (now_instant n) millis Px) st"
| "dispatch_cmd ops sip shard n (Ttl key) st =
     Some (ttl_reply sip (sh_dict st) key (now_instant n) remaining_seconds, st)"
| "dispatch_cmd ops sip shard n (PTtl key) st =
     Some (ttl_reply sip (sh_dict st) key (now_instant n) remaining_millis, st)"
| "dispatch_cmd ops sip shard n (Persist key) st = persist ops sip shard key st"
| "dispatch_cmd ops sip shard n (Exists key) st =
     Some (Integer (if lookup sip st key \<noteq> None then 1 else 0), st)"
| "dispatch_cmd ops sip shard n (Type key) st = Some (Status (type_name sip (sh_dict st) key), st)"
| "dispatch_cmd ops sip shard n (StrLen key) st =
     (let st' = with_dict (\<lambda>d. touch sip d key) st in Some (Integer (value_len sip (sh_dict st') key), st'))"
| "dispatch_cmd ops sip shard n FlushDb st = flush_db ops shard st"
| "dispatch_cmd ops sip shard n DbSize st = Some (Integer (try_i64 (d_len (sh_dict st))), st)"
| "dispatch_cmd ops sip shard n (ScanStep cursor buckets pattern) st =
     Some (scan_step (sh_dict st) cursor buckets pattern (now_instant n), st)"
| "dispatch_cmd ops sip shard n Stats st = Some (StatsReply (keyspace_stats (sh_dict st)), st)"
| "dispatch_cmd ops sip shard n (Snapshot _) st = Some (Ok, st)"

definition reclaim :: "'l log_ops \<Rightarrow> siphash \<Rightarrow> u16 \<Rightarrow> bytes \<Rightarrow> instant \<Rightarrow> 'l shard_state \<Rightarrow>
    ((reply + bool) \<times> 'l shard_state) option" where
  "reclaim ops sip shard key t st =
     (if refusing st then (let (b, st') = remove_if_expired sip key t st in Some (Inr b, st'))
      else evict_if_expired ops sip shard key t st)"

definition apply_cmd :: "'l log_ops \<Rightarrow> siphash \<Rightarrow> u16 \<Rightarrow> now \<Rightarrow> command \<Rightarrow> 'l handler" where
  "apply_cmd ops sip shard n cmd st =
     (case route cmd of
        Key key \<Rightarrow>
          do {
            (outcome, st') \<leftarrow> reclaim ops sip shard key (now_instant n) st;
            case outcome of
              Inl failed \<Rightarrow> Some (failed, st')
            | Inr reclaimed \<Rightarrow>
                dispatch_cmd ops sip shard n cmd
                  (st'\<lparr>expired := expired st' + (if reclaimed then 1 else 0)\<rparr>)
          }
      | _ \<Rightarrow> dispatch_cmd ops sip shard n cmd st)"

end
