(* ===== verification/ApplyCorrect.thy ===== *)
theory ApplyCorrect
  imports Apply
begin

text \<open>
  What the interpreter guarantees. \<open>spec\<close> gives each keyed command over a plain
  map from keys to a value and a deadline: its reply and the mutations it makes.
  A handler refines it, or is refused by the log and changes nothing. The records
  it appends are exactly its mutations, in order and at consecutive positions, so
  the log and the keyspace cannot part; lazy expiry makes a key past its deadline
  absent to every keyed command.
\<close>

section \<open>Mutations and their records\<close>

datatype mutation =
    MPut bytes bytes "instant option"
  | MDel bytes
  | MDate bytes "instant option"
  | MFlush

type_synonym store = "bytes \<Rightarrow> item option"

fun mutate :: "mutation \<Rightarrow> store \<Rightarrow> store" where
  "mutate (MPut key v at) m = m(key \<mapsto> (v, at))"
| "mutate (MDel key) m = m(key := None)"
| "mutate (MDate key at) m = (case m key of None \<Rightarrow> m | Some (v, _) \<Rightarrow> m(key \<mapsto> (v, at)))"
| "mutate MFlush m = (\<lambda>_. None)"

fun recorded :: "now \<Rightarrow> mutation \<Rightarrow> effect" where
  "recorded n (MPut key v at) = Put key v (deadline_millis n at)"
| "recorded n (MDel key) = effect.Del key"
| "recorded n (MDate key at) = Deadline key (deadline_millis n at)"
| "recorded n MFlush = Flush"

text \<open>The records of a sequence of effects, numbered from \<open>s\<close>.\<close>

fun journal :: "u16 \<Rightarrow> u64 \<Rightarrow> effect list \<Rightarrow> log_record list option" where
  "journal shard s [] = Some []"
| "journal shard s (e # es) =
     do { p \<leftarrow> encode e; rs \<leftarrow> journal shard (s + 1) es;
          Some (\<lparr>rec_shard = shard, rec_seq = s, rec_payload = p\<rparr> # rs) }"

lemma journal_append:
  "journal shard s (es @ fs) =
    do { a \<leftarrow> journal shard s es; b \<leftarrow> journal shard (s + of_nat (length es)) fs; Some (a @ b) }"
  by (induction es arbitrary: s) (auto simp: add.assoc split: Option.bind_splits)

text \<open>\<open>advances\<close>: the step from \<open>st\<close> to \<open>st'\<close> makes exactly the mutations \<open>ms\<close> and has
  the log accept exactly their records.\<close>

definition advances :: "('l \<Rightarrow> log_record list \<Rightarrow> bool) \<Rightarrow> siphash \<Rightarrow> u16 \<Rightarrow> now \<Rightarrow>
    'l shard_state \<Rightarrow> mutation list \<Rightarrow> 'l shard_state \<Rightarrow> bool" where
  "advances holds sip shard n st ms st' =
     (dict_inv sip (sh_dict st') \<and> refusing st' = refusing st \<and>
      items (sh_dict st') = fold mutate ms (items (sh_dict st)) \<and>
      sh_seq st' = sh_seq st + of_nat (length ms) \<and>
      (\<forall>rs. holds (sh_log st) rs \<longrightarrow>
         (\<exists>new. journal shard (sh_seq st) (map (recorded n) ms) = Some new \<and> holds (sh_log st') (rs @ new))))"

lemma advances_trans:
  assumes "advances holds sip shard n a ms b" "advances holds sip shard n b ms' c"
  shows "advances holds sip shard n a (ms @ ms') c"
proof -
  have "\<exists>new. journal shard (sh_seq a) (map (recorded n) (ms @ ms')) = Some new \<and> holds (sh_log c) (rs @ new)"
    if r: "holds (sh_log a) rs" for rs
  proof -
    obtain x where x: "journal shard (sh_seq a) (map (recorded n) ms) = Some x" "holds (sh_log b) (rs @ x)"
      using assms(1) r by (auto simp: advances_def)
    obtain y where "journal shard (sh_seq b) (map (recorded n) ms') = Some y" "holds (sh_log c) ((rs @ x) @ y)"
      using assms(2) x(2) unfolding advances_def by blast
    then show ?thesis using assms(1) x(1) by (simp add: advances_def journal_append)
  qed
  then show ?thesis using assms by (simp add: advances_def add.assoc)
qed

text \<open>A step that leaves the log alone and the map unchanged.\<close>

lemma advances_none:
  assumes "dict_inv sip (sh_dict st')" "items (sh_dict st') = items (sh_dict st)" "sh_log st' = sh_log st"
    "sh_seq st' = sh_seq st" "refusing st' = refusing st"
  shows "advances holds sip shard n st [] st'"
  using assms by (simp add: advances_def)

lemma advances_refl [simp]: "dict_inv sip (sh_dict st) \<Longrightarrow> advances holds sip shard n st [] st"
  by (rule advances_none) simp_all

text \<open>\<open>refines\<close>: a handler answers as specified and makes the specified mutations, or
  the log refused it and the dict is untouched.\<close>

definition refines :: "('l \<Rightarrow> log_record list \<Rightarrow> bool) \<Rightarrow> siphash \<Rightarrow> u16 \<Rightarrow> now \<Rightarrow> 'l shard_state \<Rightarrow>
    reply \<times> mutation list \<Rightarrow> reply \<Rightarrow> 'l shard_state \<Rightarrow> bool" where
  "refines holds sip shard n st wanted r st' =
     (r = fst wanted \<and> advances holds sip shard n st (snd wanted) st' \<or>
      r = Error LogWriteFailed \<and> sh_dict st' = sh_dict st \<and> advances holds sip shard n st [] st')"

lemma refines_read:
  assumes "r = fst wanted" "snd wanted = []" "dict_inv sip (sh_dict st')" "items (sh_dict st') = items (sh_dict st)"
    "sh_log st' = sh_log st" "sh_seq st' = sh_seq st" "refusing st' = refusing st"
  shows "refines holds sip shard n st wanted r st'"
  using assms advances_none [of sip st' st holds shard n] by (simp add: refines_def)

lemma refines_same:
  "r = fst wanted \<Longrightarrow> snd wanted = [] \<Longrightarrow> dict_inv sip (sh_dict st) \<Longrightarrow> refines holds sip shard n st wanted r st"
  by (simp add: refines_def)

section \<open>Each command over a map\<close>

definition spec_set :: "now \<Rightarrow> set_args \<Rightarrow> store \<Rightarrow> reply \<times> mutation list" where
  "spec_set n args m =
     (let found = m (sa_key args); old = (if sa_get args then map_option fst found else None) in
      if sa_cond args = Some Nx \<and> found \<noteq> None then (Bulk old, [])
      else if sa_cond args = Some Xx \<and> found = None then (Bulk None, [])
      else
        (if sa_get args then Bulk old else Ok,
         [MPut (sa_key args) (sa_value args)
            (if sa_keep_ttl args then Option.bind found snd else deadline (now_instant n) (sa_expiry args))]))"

definition spec_expire :: "bytes \<Rightarrow> span \<Rightarrow> store \<Rightarrow> reply \<times> mutation list" where
  "spec_expire key at m =
     (case m key of
        None \<Rightarrow> (Integer 0, [])
      | Some _ \<Rightarrow> (Integer 1, [case at of Passed \<Rightarrow> MDel key | SpanAt a \<Rightarrow> MDate key a]))"

definition spec_ttl :: "(instant \<Rightarrow> i64) \<Rightarrow> item option \<Rightarrow> reply" where
  "spec_ttl remaining found =
     (case found of None \<Rightarrow> Integer (- 2) | Some (_, None) \<Rightarrow> Integer (- 1) | Some (_, Some at) \<Rightarrow> Integer (remaining at))"

fun spec :: "now \<Rightarrow> command \<Rightarrow> store \<Rightarrow> reply \<times> mutation list" where
  "spec n (Get key) m = (Bulk (map_option fst (m key)), [])"
| "spec n (Set key v expiry cond keep_ttl want) m =
     spec_set n \<lparr>sa_key = key, sa_value = v, sa_expiry = expiry, sa_cond = cond, sa_keep_ttl = keep_ttl, sa_get = want\<rparr> m"
| "spec n (SetEx key seconds v) m = spec_set n (set_ex_args key v seconds) m"
| "spec n (PSetEx key millis v) m = spec_set n (pset_ex_args key v millis) m"
| "spec n (SetNx key v) m =
     (case m key of Some _ \<Rightarrow> (Integer 0, []) | None \<Rightarrow> (Integer 1, [MPut key v None]))"
| "spec n (command.Del key) m =
     (case m key of None \<Rightarrow> (Removed False, []) | Some _ \<Rightarrow> (Removed True, [MDel key]))"
| "spec n (IncrBy key delta) m =
     (let current = (case m key of None \<Rightarrow> Some 0 | Some (v, _) \<Rightarrow> parse_i64 v) in
      case current of
        None \<Rightarrow> (Error NotAnInteger, [])
      | Some i \<Rightarrow>
          if is_i64 (i + delta)
          then (Integer (i + delta), [MPut key (i64_text (i + delta)) (Option.bind (m key) snd)])
          else (Error WouldOverflow, []))"
| "spec n (Expire key seconds) m = spec_expire key (span_deadline (now_instant n) seconds Ex) m"
| "spec n (PExpire key millis) m = spec_expire key (span_deadline (now_instant n) millis Px) m"
| "spec n (ExpireAt key millis) m = spec_expire key (span_deadline (now_instant n) millis Px) m"
| "spec n (PExpireAt key millis) m = spec_expire key (span_deadline (now_instant n) millis Px) m"
| "spec n (Ttl key) m = (spec_ttl (\<lambda>at. remaining_seconds at (now_instant n)) (m key), [])"
| "spec n (PTtl key) m = (spec_ttl (\<lambda>at. remaining_millis at (now_instant n)) (m key), [])"
| "spec n (Persist key) m =
     (case m key of Some (_, Some _) \<Rightarrow> (Integer 1, [MDate key None]) | _ \<Rightarrow> (Integer 0, []))"
| "spec n (Exists key) m = (Integer (if m key = None then 0 else 1), [])"
| "spec n (Type key) m = (Status (if m key = None then ascii ''none'' else ascii ''string''), [])"
| "spec n (StrLen key) m = (Integer (case m key of None \<Rightarrow> 0 | Some (v, _) \<Rightarrow> try_i64 (length v)), [])"
| "spec n FlushDb m = (Ok, [MFlush])"
| "spec n _ m = (Ok, [])"

text \<open>A keyed command looks at its own key only.\<close>

lemma spec_local: "route cmd = Key key \<Longrightarrow> m key = m' key \<Longrightarrow> spec n cmd m = spec n cmd m'"
  by (cases cmd) (simp_all add: Let_def spec_set_def spec_expire_def set_ex_args_def pset_ex_args_def split: option.split)

lemma spec_mutates_key:
  "route cmd = Key key \<Longrightarrow> k \<noteq> key \<Longrightarrow> fold mutate (snd (spec n cmd m)) m' k = m' k"
  by (cases cmd)
    (auto simp: Let_def spec_set_def spec_expire_def set_ex_args_def pset_ex_args_def split: option.split span.split prod.split)

lemma mutate_local: "m key = m' key \<Longrightarrow> mutate a m key = mutate a m' key"
proof (cases a)
  case (MDate k at)
  assume "m key = m' key"
  then show ?thesis using MDate by (cases "k = key"; cases "m k"; cases "m' k") auto
qed simp_all

lemma fold_mutate_local: "m key = m' key \<Longrightarrow> fold mutate ms m key = fold mutate ms m' key"
proof (induction ms arbitrary: m m')
  case (Cons a ms)
  have "mutate a m key = mutate a m' key" by (rule mutate_local) (rule Cons.prems)
  from Cons.IH [of "mutate a m" "mutate a m'", OF this] show ?case by simp
qed simp

lemma with_dict_simps [simp]:
  "sh_dict (with_dict f st) = f (sh_dict st)" "sh_log (with_dict f st) = sh_log st"
  "sh_seq (with_dict f st) = sh_seq st" "refusing (with_dict f st) = refusing st"
  "sh_log (put_touched sip key v at st) = sh_log st" "sh_seq (put_touched sip key v at st) = sh_seq st"
  "refusing (put_touched sip key v at st) = refusing st"
  by (simp_all add: with_dict_def put_touched_def)

lemma put_touched_ok:
  "dict_inv sip (sh_dict st) \<Longrightarrow> dict_inv sip (sh_dict (put_touched sip key v at st)) \<and>
    items (sh_dict (put_touched sip key v at st)) = (items (sh_dict st))(key \<mapsto> (v, at))"
  using dk.put_stamp [of sip "sh_dict st" key "\<lparr>entry_value = v, expires_at = at, touched = 0\<rparr>"]
  by (simp add: put_touched_def)

lemma lookup_items:
  "dict_inv sip (sh_dict st) \<Longrightarrow>
    items (sh_dict st) key = map_option (\<lambda>e. (entry_value e, expires_at e)) (lookup sip st key)"
  using dk.lookup_view [of sip "sh_dict st" key] by (cases "lookup sip st key") (auto simp: item_of_def)

section \<open>The logged step\<close>

context replication_log
begin

lemma append_cases:
  assumes "append ops shard eff st = Some (failed, st')"
  obtains (refused) l where "failed = Some (Error LogWriteFailed)" "st' = st\<lparr>sh_log := l\<rparr>"
      "\<And>rs. holds (sh_log st) rs \<Longrightarrow> holds l rs"
  | (accepted) l p where "failed = None" "st' = st\<lparr>sh_log := l, sh_seq := sh_seq st + 1\<rparr>"
      "encode eff = Some p"
      "\<And>rs. holds (sh_log st) rs \<Longrightarrow>
         holds l (rs @ [\<lparr>rec_shard = shard, rec_seq = sh_seq st, rec_payload = p\<rparr>])"
proof -
  obtain p ok l where p: "encode eff = Some p"
    "log_append ops (sh_log st) \<lparr>rec_shard = shard, rec_seq = sh_seq st, rec_payload = p\<rparr> = Some (ok, l)"
    "(failed, st') = (if ok then (None, st\<lparr>sh_log := l, sh_seq := sh_seq st + 1\<rparr>)
       else (Some (Error LogWriteFailed), st\<lparr>sh_log := l\<rparr>))"
    using assms keeps by (auto simp: append_def bind_eq_Some_conv split: if_splits)
  show thesis
  proof (cases ok)
    case True
    then show thesis using p append_accepts by (intro accepted [of l p]) auto
  next
    case False
    then show thesis using p append_refuses by (intro refused [of l]) auto
  qed
qed

text \<open>A logged change whose effect on the dict is one mutation either makes that
  mutation and appends its record, or is refused and leaves the dict alone.\<close>

lemma logged_advances:
  assumes "logged ops shard (recorded n a) change st = Some (r, st')" "dict_inv sip (sh_dict st)"
    and "\<And>s. sh_dict s = sh_dict st \<Longrightarrow> dict_inv sip (sh_dict (snd (change s))) \<and>
      items (sh_dict (snd (change s))) = mutate a (items (sh_dict s)) \<and>
      sh_log (snd (change s)) = sh_log s \<and> sh_seq (snd (change s)) = sh_seq s \<and>
      refusing (snd (change s)) = refusing s \<and> fst (change s) = r0"
  shows "refines holds sip shard n st (r0, [a]) r st'"
proof -
  obtain failed s where s: "append ops shard (recorded n a) st = Some (failed, s)"
    "(r, st') = (case failed of Some r \<Rightarrow> (r, s) | None \<Rightarrow> change s)"
    using assms(1) by (auto simp: logged_def bind_eq_Some_conv split: option.splits)
  from s(1) show ?thesis
  proof (cases rule: append_cases)
    case (refused l)
    then have "r = Error LogWriteFailed" "st' = st\<lparr>sh_log := l\<rparr>" using s(2) by auto
    then show ?thesis using refused(3) assms(2) by (simp add: refines_def advances_def)
  next
    case (accepted l p)
    have c: "change s = (r, st')" using s(2) accepted(1) by simp
    note ch = assms(3) [of s, unfolded c]
    have "sh_dict s = sh_dict st" using accepted(2) by simp
    then show ?thesis using ch accepted(2-4) by (simp add: refines_def advances_def)
  qed
qed

lemma set_refines:
  assumes "set_cmd ops sip shard n args st = Some (r, st')" "dict_inv sip (sh_dict st)"
  shows "refines holds sip shard n st (spec_set n args (items (sh_dict st))) r st'"
proof -
  let ?key = "sa_key args" let ?found = "lookup sip st (sa_key args)"
  let ?old = "if sa_get args then map_option entry_value ?found else None"
  let ?at = "if sa_keep_ttl args then Option.bind ?found expires_at else deadline (now_instant n) (sa_expiry args)"
  let ?r = "if sa_get args then Bulk ?old else Ok"
  have it: "items (sh_dict st) ?key = map_option (\<lambda>e. (entry_value e, expires_at e)) ?found"
    by (rule lookup_items [OF assms(2)])
  have old: "(if sa_get args then map_option fst (items (sh_dict st) ?key) else None) = ?old"
    by (simp add: it option.map_comp comp_def)
  have kept: "Option.bind (items (sh_dict st) ?key) snd = Option.bind ?found expires_at"
    unfolding it by (cases ?found) simp_all
  show ?thesis
  proof (cases "sa_cond args = Some Nx \<and> ?found \<noteq> None \<or> sa_cond args = Some Xx \<and> ?found = None")
    case True
    then have "st' = st" "r = fst (spec_set n args (items (sh_dict st)))" "snd (spec_set n args (items (sh_dict st))) = []"
      using assms(1) by (auto simp: set_cmd_def spec_set_def Let_def it option.map_comp comp_def)
    then show ?thesis using assms(2) refines_same by metis
  next
    case False
    then have spec: "spec_set n args (items (sh_dict st)) = (?r, [MPut ?key (sa_value args) ?at])"
      unfolding spec_set_def Let_def old kept by (auto simp: it)
    have "logged ops shard (recorded n (MPut ?key (sa_value args) ?at))
        (\<lambda>s. (?r, put_touched sip ?key (sa_value args) ?at s)) st = Some (r, st')"
      using assms(1) False by (auto simp: set_cmd_def Let_def)
    then show ?thesis
      unfolding spec by (rule logged_advances [OF _ assms(2)]) (simp add: put_touched_ok assms(2))
  qed
qed

lemma set_nx_refines:
  assumes "set_nx ops sip shard n key v st = Some (r, st')" "dict_inv sip (sh_dict st)"
  shows "refines holds sip shard n st (spec n (SetNx key v) (items (sh_dict st))) r st'"
proof -
  let ?map = "\<lambda>q. case q of Ok \<Rightarrow> Integer 1 | Bulk None \<Rightarrow> Integer 0 | other \<Rightarrow> other"
  obtain q where q: "set_cmd ops sip shard n (set_nx_args key v) st = Some (q, st')" "r = ?map q"
    using assms(1) by (auto simp: set_nx_def bind_eq_Some_conv)
  have "spec n (SetNx key v) m = (?map (fst (spec_set n (set_nx_args key v) m)), snd (spec_set n (set_nx_args key v) m))"
    for m by (simp add: set_nx_args_def spec_set_def deadline_def split: option.split)
  then show ?thesis using set_refines [OF q(1) assms(2)] q(2) by (auto simp: refines_def)
qed

lemma del_refines:
  assumes "del ops sip shard key st = Some (r, st')" "dict_inv sip (sh_dict st)"
  shows "refines holds sip shard n st (spec n (command.Del key) (items (sh_dict st))) r st'"
proof (cases "lookup sip st key")
  case None
  then show ?thesis
    using assms lookup_items [OF assms(2), of key] by (auto simp: del_def intro!: refines_same)
next
  case (Some e)
  then have spec: "spec n (command.Del key) (items (sh_dict st)) = (Removed True, [MDel key])"
    using lookup_items [OF assms(2), of key] by auto
  have "logged ops shard (recorded n (MDel key))
      (\<lambda>s. (Removed True, with_dict (\<lambda>d. snd (dict_remove sip d key)) s)) st = Some (r, st')"
    using assms(1) Some by (simp add: del_def)
  from logged_advances [OF this assms(2), of "Removed True"] show ?thesis
    unfolding spec using dk.del_ok assms(2) by simp
qed

lemma incr_by_refines:
  assumes "incr_by ops sip shard n key delta st = Some (r, st')" "dict_inv sip (sh_dict st)"
  shows "refines holds sip shard n st (spec n (IncrBy key delta) (items (sh_dict st))) r st'"
proof -
  let ?at = "Option.bind (items (sh_dict st) key) snd"
  let ?current = "case items (sh_dict st) key of None \<Rightarrow> Some 0 | Some (v, _) \<Rightarrow> parse_i64 v"
  have read: "(case lookup sip st key of None \<Rightarrow> Some (0, None)
      | Some e \<Rightarrow> map_option (\<lambda>i. (i, expires_at e)) (parse_i64 (entry_value e))) =
      map_option (\<lambda>i. (i, ?at)) ?current"
    using lookup_items [OF assms(2), of key] by (cases "lookup sip st key") auto
  show ?thesis
  proof (cases ?current)
    case None
    then have "r = Error NotAnInteger" "st' = st" using assms(1) unfolding incr_by_def read by auto
    then show ?thesis using None assms(2) by (auto intro!: refines_same)
  next
    case (Some i)
    show ?thesis
    proof (cases "is_i64 (i + delta)")
      case False
      then have "r = Error WouldOverflow" "st' = st" using assms(1) Some unfolding incr_by_def read by auto
      then show ?thesis using Some False assms(2) by (auto intro!: refines_same)
    next
      case True
      have "logged ops shard (recorded n (MPut key (i64_text (i + delta)) ?at))
          (\<lambda>s. (Integer (i + delta), put_touched sip key (i64_text (i + delta)) ?at s)) st = Some (r, st')"
        using assms(1) Some True unfolding incr_by_def read by (simp add: Let_def)
      from logged_advances [OF this assms(2), of "Integer (i + delta)"] show ?thesis
        using Some True assms(2) by (simp add: put_touched_ok)
    qed
  qed
qed

lemma set_expiry_refines:
  assumes "set_expiry ops sip shard n key at st = Some (r, st')" "dict_inv sip (sh_dict st)"
  shows "refines holds sip shard n st (spec_expire key at (items (sh_dict st))) r st'"
proof (cases "lookup sip st key")
  case None
  then show ?thesis
    using assms lookup_items [OF assms(2), of key]
    by (auto simp: set_expiry_def spec_expire_def intro!: refines_same)
next
  case (Some e)
  let ?a = "case at of Passed \<Rightarrow> MDel key | SpanAt a \<Rightarrow> MDate key a"
  let ?change = "\<lambda>s. (Integer 1, case at of Passed \<Rightarrow> with_dict (\<lambda>d. snd (dict_remove sip d key)) s
     | SpanAt a \<Rightarrow> with_dict (\<lambda>d. snd (set_deadline sip d key a)) s)"
  have spec: "spec_expire key at (items (sh_dict st)) = (Integer 1, [?a])"
    using Some lookup_items [OF assms(2), of key] by (auto simp: spec_expire_def)
  have "logged ops shard (recorded n ?a) ?change st = Some (r, st')"
    using assms(1) Some by (cases at) (simp_all add: set_expiry_def)
  from logged_advances [OF this assms(2), of "Integer 1"] show ?thesis
    unfolding spec using dk.del_ok dk.redate_ok assms(2) by (cases at) simp_all
qed

lemma persist_refines:
  assumes "persist ops sip shard key st = Some (r, st')" "dict_inv sip (sh_dict st)"
  shows "refines holds sip shard n st (spec n (Persist key) (items (sh_dict st))) r st'"
proof (cases "case lookup sip st key of None \<Rightarrow> True | Some e \<Rightarrow> expires_at e = None")
  case True
  then show ?thesis
    using assms lookup_items [OF assms(2), of key]
    by (auto simp: persist_def intro!: refines_same split: option.splits)
next
  case False
  then have spec: "spec n (Persist key) (items (sh_dict st)) = (Integer 1, [MDate key None])"
    using lookup_items [OF assms(2), of key] by (auto split: option.splits)
  have "logged ops shard (recorded n (MDate key None))
      (\<lambda>s. (Integer 1, with_dict (\<lambda>d. snd (set_deadline sip d key None)) s)) st = Some (r, st')"
    using assms(1) False by (simp add: persist_def deadline_millis_def split: option.splits)
  from logged_advances [OF this assms(2), of "Integer 1"] show ?thesis
    unfolding spec using dk.redate_ok assms(2) by simp
qed

text \<open>Every keyed command, and a flush of a shard that holds something.\<close>

lemma dispatch_refines:
  assumes "dispatch_cmd ops sip shard n cmd st = Some (r, st')" "dict_inv sip (sh_dict st)"
    and "route cmd = Key key"
  shows "refines holds sip shard n st (spec n cmd (items (sh_dict st))) r st'"
proof -
  note it = lookup_items [OF assms(2)] and inv = assms(2)
  have touched: "dict_inv sip (touch sip (sh_dict st) k)" "items (touch sip (sh_dict st) k) = items (sh_dict st)" for k
    using dk.stamp_ok [OF inv] by auto
  have read: "map_option (\<lambda>e. (entry_value e, expires_at e)) (dict_get sip (touch sip (sh_dict st) k) k) = items (sh_dict st) k" for k
    using dk.lookup_view [OF touched(1), of k k] touched(2) by (simp add: item_of_def [abs_def])
  have ttl: "ttl_reply sip (sh_dict st) k t f = spec_ttl (\<lambda>at. f at t) (items (sh_dict st) k)" for k t f
    using it [of k] by (cases "lookup sip st k") (auto simp: ttl_reply_def spec_ttl_def split: option.split)
  show ?thesis
  proof (cases cmd)
    case (Get k)
    have "r = Bulk (map_option fst (items (sh_dict st) k))"
      using assms(1) Get by (simp add: Let_def option.map_comp comp_def flip: read)
    then show ?thesis using assms(1) Get touched by (auto simp: Let_def intro!: refines_read)
  next
    case (StrLen k)
    have "r = fst (spec n cmd (items (sh_dict st)))"
      using assms(1) StrLen
      by (cases "dict_get sip (touch sip (sh_dict st) k) k") (auto simp: Let_def value_len_def simp flip: read)
    then show ?thesis using assms(1) StrLen touched by (auto simp: Let_def intro!: refines_read)
  next
    case (Ttl k)
    then show ?thesis using assms(1) inv ttl by (auto simp: refines_def)
  next
    case (PTtl k)
    then show ?thesis using assms(1) inv ttl by (auto simp: refines_def)
  next
    case (Exists k)
    then show ?thesis using assms(1) inv it [of k] by (auto simp: refines_def)
  next
    case (Type k)
    then show ?thesis using assms(1) inv it [of k] by (auto simp: type_name_def refines_def)
  qed (use assms set_refines set_nx_refines del_refines incr_by_refines set_expiry_refines persist_refines in simp_all)
qed

lemma reclaim_advances:
  assumes "reclaim ops sip shard key t st = Some (outcome, st')" "dict_inv sip (sh_dict st)" "\<not> refusing st"
  shows "(case outcome of
      Inl r \<Rightarrow> r = Error LogWriteFailed \<and> advances holds sip shard n st [] st'
    | Inr b \<Rightarrow> b = is_due sip (sh_dict st) key t \<and> advances holds sip shard n st (if b then [MDel key] else []) st')"
proof (cases "is_due sip (sh_dict st) key t")
  case False
  then show ?thesis using assms by (auto simp: reclaim_def evict_if_expired_def)
next
  case True
  have "logged ops shard (recorded n (MDel key)) (\<lambda>s. (Ok, with_dict (\<lambda>d. snd (dict_remove sip d key)) s)) st =
      map_option (\<lambda>(x, s). (case x of Inl r \<Rightarrow> r | Inr _ \<Rightarrow> Ok, s)) (reclaim ops sip shard key t st)"
    using True assms(3)
    by (simp add: reclaim_def evict_if_expired_def logged_def split: Option.bind_split option.split)
  moreover obtain r where r: "outcome = Inl r \<and> r = Error LogWriteFailed \<or> outcome = Inr True"
    using assms(1,3) True
    by (auto simp: reclaim_def evict_if_expired_def append_def bind_eq_Some_conv split: if_splits option.splits)
  ultimately have l: "logged ops shard (recorded n (MDel key))
      (\<lambda>s. (Ok, with_dict (\<lambda>d. snd (dict_remove sip d key)) s)) st =
      Some (case outcome of Inl r \<Rightarrow> r | Inr _ \<Rightarrow> Ok, st')"
    using assms(1) by simp
  have "refines holds sip shard n st (Ok, [MDel key]) (case outcome of Inl r \<Rightarrow> r | Inr _ \<Rightarrow> Ok) st'"
    by (rule logged_advances [OF l assms(2)]) (use dk.del_ok assms(2) in simp)
  then show ?thesis using r True by (auto simp: refines_def)
qed

end

section \<open>The whole interpreter\<close>

definition live :: "instant \<Rightarrow> store \<Rightarrow> store" where
  "live t m key = (case m key of None \<Rightarrow> None | Some (v, at) \<Rightarrow> if due_on_read at t then None else Some (v, at))"

definition due_in :: "instant \<Rightarrow> store \<Rightarrow> bytes \<Rightarrow> bool" where
  "due_in t m key = (case m key of None \<Rightarrow> False | Some (_, at) \<Rightarrow> due_on_read at t)"

lemma is_due_items:
  assumes "dict_inv sip d"
  shows "is_due sip d key t = due_in t (items d) key"
proof (cases "dict_map d key")
  case None
  then show ?thesis using dict_get_map [OF assms] by (simp add: is_due_def due_in_def items_def)
next
  case (Some e)
  have "expires_at e = None" if "\<not> may_hold_deadlines d"
    using that Some dict_invD(3) [OF assms] denotesD [OF denotes_dict_map [OF dict_invD(2) [OF assms]]]
    by (force simp: accounted_def)
  then show ?thesis
    using Some dict_get_map [OF assms, of key]
    by (auto simp: is_due_def due_in_def items_def item_of_def due_on_read_def takes_undated_def)
qed

lemma live_after_reclaim:
  "fold mutate (if due_in t m key then [MDel key] else []) m key = live t m key"
  by (auto simp: due_in_def live_def split: option.splits if_splits)

context replication_log
begin

lemma apply_refines:
  assumes "apply_cmd ops sip shard n cmd st = Some (r, st')" "dict_inv sip (sh_dict st)"
    and "\<not> refusing st" "route cmd = Key key"
  defines "wanted \<equiv> spec n cmd (live (now_instant n) (items (sh_dict st)))"
    and "dead \<equiv> (if due_in (now_instant n) (items (sh_dict st)) key then [MDel key] else [])"
  shows "r = fst wanted \<and> advances holds sip shard n st (dead @ snd wanted) st' \<or>
    r = Error LogWriteFailed \<and> (\<exists>ms. ms \<in> {[], dead} \<and> advances holds sip shard n st ms st')"
proof -
  obtain outcome s where s: "reclaim ops sip shard key (now_instant n) st = Some (outcome, s)"
    "(case outcome of Inl failed \<Rightarrow> Some (failed, s)
      | Inr b \<Rightarrow> dispatch_cmd ops sip shard n cmd (s\<lparr>expired := expired s + (if b then 1 else 0)\<rparr>)) = Some (r, st')"
    using assms(1,4) by (auto simp: apply_cmd_def bind_eq_Some_conv)
  note rec = reclaim_advances [OF s(1) assms(2,3), of n]
  show ?thesis
  proof (cases outcome)
    case (Inl failed)
    then show ?thesis using rec s(2) by auto
  next
    case (Inr b)
    let ?s = "s\<lparr>expired := expired s + (if b then 1 else 0)\<rparr>"
    have b: "b = due_in (now_instant n) (items (sh_dict st)) key"
      using rec Inr is_due_items [OF assms(2)] by simp
    have "advances holds sip shard n st dead s"
      using rec Inr b by (auto simp: dead_def split: if_splits)
    then have adv: "advances holds sip shard n st dead ?s" by (simp add: advances_def)
    have it: "items (sh_dict ?s) key = live (now_instant n) (items (sh_dict st)) key"
      using adv live_after_reclaim [of "now_instant n" "items (sh_dict st)" key] by (simp add: advances_def dead_def)
    have "refines holds sip shard n ?s (spec n cmd (items (sh_dict ?s))) r st'"
      by (rule dispatch_refines [OF _ _ assms(4)]) (use s(2) Inr adv in \<open>simp_all add: advances_def\<close>)
    moreover have "spec n cmd (items (sh_dict ?s)) = wanted"
      unfolding wanted_def by (rule spec_local [OF assms(4)]) (rule it)
    ultimately consider "r = fst wanted" "advances holds sip shard n ?s (snd wanted) st'"
      | "r = Error LogWriteFailed" "advances holds sip shard n ?s [] st'"
      unfolding refines_def by blast
    then show ?thesis
    proof cases
      case 1
      then show ?thesis using advances_trans [OF adv] by blast
    next
      case 2
      then show ?thesis using advances_trans [OF adv 2(2)] by auto
    qed
  qed
qed

end

section \<open>The encoder never panics on a command that fits\<close>

fun command_bytes :: "command \<Rightarrow> nat" where
  "command_bytes (Set key v _ _ _ _) = length key + length v"
| "command_bytes (SetEx key _ v) = length key + length v"
| "command_bytes (SetNx key v) = length key + length v"
| "command_bytes (PSetEx key _ v) = length key + length v"
| "command_bytes (IncrBy key _) = length key + 20"
| "command_bytes cmd = (case route cmd of Key key \<Rightarrow> length key | _ \<Rightarrow> 0)"

definition command_fits :: "command \<Rightarrow> bool" where
  "command_fits cmd = (command_bytes cmd + 28 < 2 ^ 32)"

lemma decimal_length: "n < 10 ^ k \<Longrightarrow> 0 < k \<Longrightarrow> length (decimal n) \<le> k"
proof (induction n arbitrary: k rule: decimal.induct)
  case (1 n)
  show ?case
  proof (cases "n < 10")
    case True
    then show ?thesis using "1.prems"(2) by (simp add: decimal.simps [of n])
  next
    case False
    obtain j where j: "k = Suc j" using "1.prems"(2) by (cases k) simp_all
    have "0 < j"
    proof (rule gr0I)
      assume "j = 0"
      then show False using "1.prems"(1) False j by simp
    qed
    have "n div 10 < 10 ^ j" using "1.prems"(1) j by (simp add: less_mult_imp_div_less)
    then have "length (decimal (n div 10)) \<le> j" using 1(1) False \<open>0 < j\<close> by blast
    then show ?thesis using False j by (subst decimal.simps) simp
  qed
qed

lemma i64_text_length: "is_i64 i \<Longrightarrow> length (i64_text i) \<le> 20"
proof -
  assume "is_i64 i"
  then have "nat (- i) < 10 ^ 19" "nat i < 10 ^ 19" by (auto simp: is_i64_def)
  then have "length (decimal (nat (- i))) \<le> 19" "length (decimal (nat i)) \<le> 19"
    using decimal_length [of _ 19] by simp_all
  then show ?thesis by (simp add: i64_text_def)
qed

lemma append_file_log:
  assumes "encoded_len eff + BODY_FIXED_LEN < 2 ^ 32"
  shows "\<exists>l. append file_log_ops shard eff st = Some (None, st\<lparr>sh_log := l, sh_seq := sh_seq st + 1\<rparr>)"
proof -
  have "fields_fit eff" using assms by (cases eff) auto
  then obtain p where p: "encode eff = Some p" "length p = encoded_len eff" using encode_fits by blast
  then have "\<exists>bs. encode_record \<lparr>rec_shard = shard, rec_seq = sh_seq st, rec_payload = p\<rparr> = Some bs"
    using assms by (simp add: encode_record_def Let_def)
  then show ?thesis
    using p by (auto simp: append_def file_log_ops_def file_log_append_def)
qed

lemma logged_file_log:
  "encoded_len eff + BODY_FIXED_LEN < 2 ^ 32 \<Longrightarrow>
    \<exists>s. logged file_log_ops shard eff change st = Some (change s) \<and> sh_dict s = sh_dict st"
  using append_file_log [of eff shard st] by (auto simp: logged_def)

lemma deadline_len_le: "deadline_len at \<le> 9"
  by (simp add: deadline_len_def)

lemma put_fits: "length key + length v + 28 < 2 ^ 32 \<Longrightarrow> encoded_len (Put key v at) + BODY_FIXED_LEN < 2 ^ 32"
  using deadline_len_le [of at] by (simp add: BODY_FIXED_LEN_def)

lemma key_fits:
  "length key + 28 < 2 ^ 32 \<Longrightarrow> encoded_len (effect.Del key) + BODY_FIXED_LEN < 2 ^ 32 \<and>
    encoded_len (Deadline key at) + BODY_FIXED_LEN < 2 ^ 32"
  using deadline_len_le [of at] by (simp add: BODY_FIXED_LEN_def)

lemma set_total:
  "length (sa_key args) + length (sa_value args) + 28 < 2 ^ 32 \<Longrightarrow>
    \<exists>r st'. set_cmd file_log_ops sip shard n args st = Some (r, st') \<and> r \<noteq> Error LogWriteFailed"
  using logged_file_log [OF put_fits, of "sa_key args" "sa_value args"]
  by (fastforce simp: set_cmd_def Let_def)

lemma set_expiry_total:
  assumes "length key + 28 < 2 ^ 32"
  shows "\<exists>r st'. set_expiry file_log_ops sip shard n key at st = Some (r, st') \<and> r \<noteq> Error LogWriteFailed"
proof -
  let ?eff = "case at of Passed \<Rightarrow> effect.Del key | SpanAt a \<Rightarrow> Deadline key (deadline_millis n a)"
  have "encoded_len ?eff + BODY_FIXED_LEN < 2 ^ 32" using key_fits [OF assms] by (cases at) simp_all
  from logged_file_log [OF this] show ?thesis by (fastforce simp: set_expiry_def)
qed

lemma dispatch_total:
  assumes "route cmd = Key key" "command_fits cmd"
  shows "\<exists>r st'. dispatch_cmd file_log_ops sip shard n cmd st = Some (r, st') \<and> r \<noteq> Error LogWriteFailed"
proof (cases cmd)
  case (SetNx k v)
  then obtain q st' where q: "set_cmd file_log_ops sip shard n (set_nx_args k v) st = Some (q, st')" "q \<noteq> Error LogWriteFailed"
    using set_total [of "set_nx_args k v" sip shard n st] assms(2) by (auto simp: command_fits_def set_nx_args_def)
  then show ?thesis using SetNx by (auto simp: set_nx_def split: reply.split option.split)
next
  case (IncrBy k delta)
  show ?thesis
  proof (cases "case lookup sip st k of None \<Rightarrow> Some (0, None)
      | Some e \<Rightarrow> map_option (\<lambda>i. (i, expires_at e)) (parse_i64 (entry_value e))")
    case None
    then show ?thesis using IncrBy by (simp add: incr_by_def)
  next
    case (Some x)
    obtain i at where x: "x = (i, at)" by (cases x)
    show ?thesis
    proof (cases "is_i64 (i + delta)")
      case True
      then have "length k + length (i64_text (i + delta)) + 28 < 2 ^ 32"
        using i64_text_length assms(2) IncrBy by (fastforce simp: command_fits_def)
      from logged_file_log [OF put_fits [OF this]] show ?thesis
        using IncrBy Some x True by (fastforce simp: incr_by_def Let_def)
    qed (use IncrBy Some x in \<open>simp add: incr_by_def\<close>)
  qed
next
  case (Del k)
  then have "length k + 28 < 2 ^ 32" using assms(2) by (simp add: command_fits_def)
  from logged_file_log [OF conjunct1 [OF key_fits [OF this]]] show ?thesis using Del by (fastforce simp: del_def)
next
  case (Persist k)
  then have "length k + 28 < 2 ^ 32" using assms(2) by (simp add: command_fits_def)
  from logged_file_log [OF conjunct2 [OF key_fits [OF this]]] show ?thesis using Persist by (fastforce simp: persist_def)
qed (use assms set_total set_expiry_total in
    \<open>simp_all add: command_fits_def Let_def set_ex_args_def pset_ex_args_def ttl_reply_def split: option.split\<close>)

lemma command_bytes_key: "route cmd = Key key \<Longrightarrow> length key \<le> command_bytes cmd"
  by (cases cmd) simp_all

lemma apply_total:
  assumes "route cmd = Key key" "command_fits cmd" "\<not> refusing st"
  shows "\<exists>r st'. apply_cmd file_log_ops sip shard n cmd st = Some (r, st') \<and> r \<noteq> Error LogWriteFailed"
proof -
  have "length key + 28 < 2 ^ 32"
    using command_bytes_key [OF assms(1)] assms(2) by (simp add: command_fits_def)
  then have "\<exists>l. append file_log_ops shard (effect.Del key) st = Some (None, st\<lparr>sh_log := l, sh_seq := sh_seq st + 1\<rparr>)"
    using key_fits append_file_log by blast
  then obtain b s where "reclaim file_log_ops sip shard key (now_instant n) st = Some (Inr b, s)"
    using assms(3) by (cases "is_due sip (sh_dict st) key (now_instant n)")
      (auto simp: reclaim_def evict_if_expired_def)
  then show ?thesis
    using dispatch_total [OF assms(1,2), of sip shard n "s\<lparr>expired := expired s + (if b then 1 else 0)\<rparr>"] assms(1)
    by (simp add: apply_cmd_def)
qed

section \<open>Properties\<close>

text \<open>C1. The interpreter implements its specification. On a shard in order, a keyed
  command that fits the log's fields always answers; the reply is the one the
  specification gives over the live map, in which a key past its deadline is not
  there. The keyspace moves by the specified mutations, after the deletion of the
  command's own key when it was due, and the log accepts exactly their records at
  the next positions of the shard's sequence.\<close>

theorem interpreter_refines_spec:
  assumes "dict_inv sip (sh_dict st)" "\<not> refusing st" "route cmd = Key key" "command_fits cmd"
    and "wanted = spec n cmd (live (now_instant n) (items (sh_dict st)))"
    and "dead = (if due_in (now_instant n) (items (sh_dict st)) key then [MDel key] else [])"
  shows "\<exists>st'. apply_cmd file_log_ops sip shard n cmd st = Some (fst wanted, st') \<and>
    advances file_log_holds sip shard n st (dead @ snd wanted) st'"
proof -
  obtain r st' where r: "apply_cmd file_log_ops sip shard n cmd st = Some (r, st')" "r \<noteq> Error LogWriteFailed"
    using apply_total [OF assms(3,4,2)] by blast
  from fl.apply_refines [OF r(1) assms(1-3)] r show ?thesis unfolding assms(5,6) by blast
qed


section \<open>Witnesses\<close>

definition a_shard :: "file_log shard_state" where
  "a_shard = shard_new one_key (file_log_new 0)"

definition past_five :: now where
  "past_five = \<lparr>now_instant = 9, unix_millis = 100\<rparr>"

lemma a_shard_ok: "dict_inv sip_const (sh_dict a_shard)" "\<not> refusing a_shard" "sh_seq a_shard = 0"
  "items (sh_dict a_shard) = [[1] \<mapsto> ([7], Some 5)]"
  using one_key_inv
  by (simp_all add: a_shard_def shard_new_def shard_recovered_def items_def [abs_def] one_key_map item_of_def fun_eq_iff)

theorem interpreter_refines_spec_witness:
  "\<exists>st'. apply_cmd file_log_ops sip_const 0 past_five (Get [1]) a_shard = Some (Bulk None, st') \<and>
    items (sh_dict st') = (\<lambda>_. None) \<and> sh_seq st' = 1"
proof -
  let ?m = "items (sh_dict a_shard)"
  have "due_in 9 ?m [1]" "live 9 ?m [1] = None"
    by (simp_all add: a_shard_ok due_in_def live_def due_on_read_def)
  then show ?thesis
    using interpreter_refines_spec [OF a_shard_ok(1,2), of "Get [1]" "[1]" _ past_five _ 0, OF _ _ refl refl]
    by (auto simp: past_five_def command_fits_def advances_def a_shard_ok)
qed

definition full_disk_ops :: "file_log log_ops" where
  "full_disk_ops = file_log_ops\<lparr>log_append := (\<lambda>l _. Some (False, l))\<rparr>"

lemma full_disk_log: "replication_log full_disk_ops file_log_holds"
proof unfold_locales
  fix l l' :: file_log and rs out out'
  assume "file_log_holds l rs" "log_flush_into full_disk_ops l out = (l', out')"
  then show "file_log_holds l' [] \<and> (\<exists>bs. wire rs = Some bs \<and> out' = out @ bs)"
    and "log_flushed_through full_disk_ops l' =
      (if rs = [] then log_flushed_through full_disk_ops l else Some (rec_seq (last rs)))"
    using fl.flush_moves [of l rs out l' out'] fl.flush_point [of l rs out l' out']
    by (simp_all add: full_disk_ops_def)
qed (simp_all add: full_disk_ops_def file_log_ops_def)


end
