(* ===== verification/Replay.thy ===== *)
theory Replay
  imports ApplyCorrect
begin

text \<open>
  Replaying a recovered prefix of the log into a dict: \<^verbatim>\<open>replay_into\<close> of
  \<^verbatim>\<open>crates/seedstone-core/src/shard/executor.rs\<close>. A deadline already passed is held
  as due now and its key removed only once the whole prefix is in, because a
  later record may have moved it. \<open>run_effect\<close> is the meaning of a record over a
  map from keys to a value and an absolute deadline; the replay computes the
  fold of it, and the last part shows that the records an interpreter run leaves
  behind rebuild the keyspace that run left.
\<close>

definition resolve :: "now \<Rightarrow> u64 option \<Rightarrow> instant option \<times> bool" where
  "resolve n millis =
     (case map_option (replay_deadline n) millis of
        None \<Rightarrow> (None, False)
      | Some (ReplayedAt at) \<Rightarrow> (at, False)
      | Some Past \<Rightarrow> (Some (now_instant n), True))"

fun replay_one :: "siphash \<Rightarrow> now \<Rightarrow> effect \<Rightarrow> dict \<times> bytes list \<Rightarrow> dict \<times> bytes list" where
  "replay_one sip n (Put key v millis) (d, due) =
     (let (at, passed) = resolve n millis in
      (dict_insert sip d key \<lparr>entry_value = v, expires_at = at, touched = 0\<rparr>,
       if passed then due @ [key] else due))"
| "replay_one sip n (effect.Del key) (d, due) = (snd (dict_remove sip d key), due)"
| "replay_one sip n (Deadline key millis) (d, due) =
     (let (at, passed) = resolve n millis; (present, d') = set_deadline sip d key at in
      (d', if present \<and> passed then due @ [key] else due))"
| "replay_one sip n Flush (d, due) = (dict_clear d, due)"
| "replay_one sip n Rebase (d, due) = (d, due)"

definition purge_one :: "siphash \<Rightarrow> now \<Rightarrow> bytes \<Rightarrow> dict \<Rightarrow> dict" where
  "purge_one sip n key d =
     (if (case dict_get sip d key of None \<Rightarrow> False
          | Some e \<Rightarrow> (case expires_at e of None \<Rightarrow> False | Some at \<Rightarrow> at \<le> now_instant n))
      then snd (dict_remove sip d key) else d)"

definition replay_into :: "siphash \<Rightarrow> dict \<Rightarrow> u64 \<Rightarrow> (u64 \<times> effect) list \<Rightarrow> now \<Rightarrow> bytes list \<Rightarrow> dict \<times> u64" where
  "replay_into sip d s records n due =
     (let (d', due') = fold (\<lambda>(_, e). replay_one sip n e) records (d, due);
          s' = fold (\<lambda>(at, _) _. at + 1) records s
      in (fold (purge_one sip n) due' d', s'))"

section \<open>The meaning of a log\<close>

type_synonym logged_store = "bytes \<Rightarrow> (bytes \<times> u64 option) option"

fun run_effect :: "effect \<Rightarrow> logged_store \<Rightarrow> logged_store" where
  "run_effect (Put key v millis) m = m(key \<mapsto> (v, millis))"
| "run_effect (effect.Del key) m = m(key := None)"
| "run_effect (Deadline key millis) m = (case m key of None \<Rightarrow> m | Some (v, _) \<Rightarrow> m(key \<mapsto> (v, millis)))"
| "run_effect Flush m = (\<lambda>_. None)"
| "run_effect Rebase m = m"

text \<open>What a key with its logged deadline is worth now: dead, or alive until an
  instant of this process's clock.\<close>

definition settle :: "now \<Rightarrow> bytes \<times> u64 option \<Rightarrow> item option" where
  "settle n x =
     (case snd x of
        None \<Rightarrow> Some (fst x, None)
      | Some millis \<Rightarrow> (case replay_deadline n millis of Past \<Rightarrow> None | ReplayedAt at \<Rightarrow> Some (fst x, at)))"

definition held :: "now \<Rightarrow> bytes \<times> u64 option \<Rightarrow> item" where
  "held n x = (fst x, fst (resolve n (snd x)))"

definition passed_in :: "now \<Rightarrow> logged_store \<Rightarrow> bytes \<Rightarrow> bool" where
  "passed_in n m key = (\<exists>v millis. m key = Some (v, Some millis) \<and> replay_deadline n millis = Past)"

text \<open>The invariant of the loop: the dict holds the log's map with every passed
  deadline held at now, and every key so held is on the list of the due.\<close>

definition replaying :: "siphash \<Rightarrow> now \<Rightarrow> logged_store \<Rightarrow> dict \<Rightarrow> bytes list \<Rightarrow> bool" where
  "replaying sip n m d due =
     (dict_inv sip d \<and> items d = (\<lambda>key. map_option (held n) (m key)) \<and>
      (\<forall>key. passed_in n m key \<longrightarrow> key \<in> set due))"

lemma replaying_upd:
  assumes "dict_inv sip d'" "items d' = (items d)(key := map_option (held n) x)"
    and "replaying sip n m d due" "set due \<subseteq> set due'"
    and "\<And>v millis. x = Some (v, Some millis) \<Longrightarrow> replay_deadline n millis = Past \<Longrightarrow> key \<in> set due'"
  shows "replaying sip n (m(key := x)) d' due'"
  using assms unfolding replaying_def passed_in_def by (auto simp: fun_eq_iff split: if_splits)

lemma resolve_passed: "snd (resolve n (Some millis)) \<longleftrightarrow> replay_deadline n millis = Past"
  by (simp add: resolve_def split: replayed.split)

lemma replay_one_replaying:
  assumes "replaying sip n m d due" "replay_one sip n e (d, due) = (d', due')"
  shows "replaying sip n (run_effect e m) d' due'"
proof (cases e)
  case (Put key v millis)
  obtain at passed where r: "resolve n millis = (at, passed)" by fastforce
  let ?e = "\<lparr>entry_value = v, expires_at = at, touched = 0\<rparr>"
  have d': "d' = dict_insert sip d key ?e" "due' = (if passed then due @ [key] else due)"
    using assms(2) Put r by auto
  have inv: "dict_inv sip d" using assms(1) by (simp add: replaying_def)
  have ins: "dict_inv sip d'" "items d' = (items d)(key \<mapsto> (v, at))"
    using dk.put_ok [OF inv, of key ?e] by (auto simp: d' item_of_def)
  have "replaying sip n (m(key \<mapsto> (v, millis))) d' due'"
  proof (rule replaying_upd [OF ins(1) _ assms(1)])
    show "items d' = (items d)(key := map_option (held n) (Some (v, millis)))"
      using ins(2) r by (simp add: held_def)
    show "key \<in> set due'" if "Some (v, millis) = Some (w, Some u)" "replay_deadline n u = Past" for w u
      using that resolve_passed [of n u] r d'(2) by auto
  qed (use d'(2) in auto)
  then show ?thesis using Put by simp
next
  case (Del key)
  have inv: "dict_inv sip d" using assms(1) by (simp add: replaying_def)
  have "replaying sip n (m(key := None)) d' due'"
    by (rule replaying_upd [OF _ _ assms(1)]) (use dk.del_ok [OF inv, of key] assms(2) Del in auto)
  then show ?thesis using Del by simp
next
  case (Deadline key millis)
  obtain at passed where r: "resolve n millis = (at, passed)" by fastforce
  have inv: "dict_inv sip d" using assms(1) by (simp add: replaying_def)
  note s = dk.redate_ok [OF inv, of key at]
  have d': "d' = snd (set_deadline sip d key at)"
      "due' = (if fst (set_deadline sip d key at) \<and> passed then due @ [key] else due)"
    using assms(2) Deadline r by (auto split: prod.splits)
  have it: "items d key = map_option (held n) (m key)" using assms(1) by (simp add: replaying_def)
  show ?thesis
  proof (cases "m key")
    case None
    then have "items d' = items d" "due' = due" "dict_inv sip d'" using s d' it by auto
    then show ?thesis using assms(1) Deadline None by (simp add: replaying_def)
  next
    case (Some x)
    obtain v dl where x: "x = (v, dl)" by (cases x)
    have m: "items d' = (items d)(key \<mapsto> (v, at))" "dict_inv sip d'" "fst (set_deadline sip d key at)"
      using s d'(1) it Some x by (auto simp: held_def)
    have "replaying sip n (m(key \<mapsto> (v, millis))) d' due'"
    proof (rule replaying_upd [OF m(2) _ assms(1)])
      show "items d' = (items d)(key := map_option (held n) (Some (v, millis)))"
        using m(1) r by (simp add: held_def)
      show "key \<in> set due'" if "Some (v, millis) = Some (w, Some u)" "replay_deadline n u = Past" for w u
        using that resolve_passed [of n u] r d'(2) m(3) by auto
    qed (use d'(2) in auto)
    then show ?thesis using Deadline Some x by simp
  qed
next
  case Flush
  then show ?thesis using assms(2) dk.wipe_ok [of sip d] by (auto simp: replaying_def passed_in_def)
next
  case Rebase
  then show ?thesis using assms by simp
qed

lemma replays_replaying:
  "replaying sip n m d due \<Longrightarrow> fold (\<lambda>(_, e). replay_one sip n e) records (d, due) = (d', due') \<Longrightarrow>
    replaying sip n (fold run_effect (map snd records) m) d' due'"
proof (induction records arbitrary: m d due)
  case (Cons r records)
  obtain d1 due1 where r: "replay_one sip n (snd r) (d, due) = (d1, due1)" by fastforce
  have "fold (\<lambda>(_, e). replay_one sip n e) records (d1, due1) = (d', due')"
    using Cons.prems(2) r by (cases r) simp
  with Cons.IH [OF replay_one_replaying [OF Cons.prems(1) r]] show ?case by simp
qed simp

lemma purge_one_ok:
  assumes "dict_inv sip d"
  shows "dict_inv sip (purge_one sip n key d) \<and>
    items (purge_one sip n key d) = (if due_in (now_instant n) (items d) key then (items d)(key := None) else items d)"
proof -
  have "(case dict_get sip d key of None \<Rightarrow> False
      | Some e \<Rightarrow> (case expires_at e of None \<Rightarrow> False | Some at \<Rightarrow> at \<le> now_instant n)) \<longleftrightarrow>
      due_in (now_instant n) (items d) key"
    using dk.lookup_view [OF assms, of key]
    by (cases "dict_get sip d key") (auto simp: due_in_def due_on_read_def item_of_def simp flip: dk.lookup_view [OF assms])
  then show ?thesis using dk.del_ok [OF assms, of key] assms by (simp add: purge_one_def)
qed

lemma purges_ok:
  "dict_inv sip d \<Longrightarrow> dict_inv sip (fold (purge_one sip n) due d) \<and>
    items (fold (purge_one sip n) due d) =
      (\<lambda>key. if key \<in> set due \<and> due_in (now_instant n) (items d) key then None else items d key)"
proof (induction due arbitrary: d)
  case (Cons key due)
  note p = purge_one_ok [OF Cons.prems, of n key]
  from Cons.IH [of "purge_one sip n key d"] p show ?case
    by (auto simp: due_in_def fun_eq_iff)
qed simp

lemma later_deadline: "replay_deadline n millis = ReplayedAt (Some at) \<Longrightarrow> now_instant n < at"
proof -
  assume "replay_deadline n millis = ReplayedAt (Some at)"
  then have "unat (unix_millis n) < unat millis" "at = now_instant n + from_millis (millis - unix_millis n)"
    by (auto simp: replay_deadline_def checked_add_def split: if_splits)
  moreover from this have "millis - unix_millis n \<noteq> 0" by auto
  ultimately show ?thesis by (simp add: from_millis_def unat_eq_zero [symmetric] del: unat_eq_zero)
qed

lemma settled:
  assumes "replaying sip n m d due"
  shows "(if key \<in> set due \<and> due_in (now_instant n) (items d) key then None else items d key) =
    Option.bind (m key) (settle n)"
proof -
  have it: "items d key = map_option (held n) (m key)" using assms by (simp add: replaying_def)
  show ?thesis
  proof (cases "m key")
    case None
    then show ?thesis using it by simp
  next
    case (Some x)
    obtain v dl where x: "x = (v, dl)" by (cases x)
    show ?thesis
    proof (cases dl)
      case None
      then show ?thesis using it Some x by (simp add: held_def settle_def resolve_def due_in_def due_on_read_def)
    next
      case (Some millis)
      show ?thesis
      proof (cases "replay_deadline n millis")
        case Past
        then have "key \<in> set due"
          using assms Some x \<open>m key = Some x\<close> unfolding replaying_def passed_in_def by blast
        then show ?thesis
          using it \<open>m key = Some x\<close> x Some Past
          by (simp add: held_def settle_def resolve_def due_in_def due_on_read_def)
      next
        case (ReplayedAt at)
        have "\<not> due_on_read at (now_instant n)"
          using later_deadline [of n millis] ReplayedAt by (auto simp: due_on_read_def not_le split: option.split)
        then show ?thesis
          using it \<open>m key = Some x\<close> x Some ReplayedAt by (simp add: held_def settle_def resolve_def due_in_def)
      qed
    qed
  qed
qed

lemma replay_into_items:
  assumes "replaying sip n m d due"
  shows "dict_inv sip (fst (replay_into sip d s records n due)) \<and>
    items (fst (replay_into sip d s records n due)) =
      (\<lambda>key. Option.bind (fold run_effect (map snd records) m key) (settle n))"
proof -
  obtain d' due' where f: "fold (\<lambda>(_, e). replay_one sip n e) records (d, due) = (d', due')" by fastforce
  have r: "replaying sip n (fold run_effect (map snd records) m) d' due'"
    by (rule replays_replaying [OF assms f])
  then have "dict_inv sip d'" by (simp add: replaying_def)
  from purges_ok [OF this, of n due'] settled [OF r] show ?thesis by (simp add: replay_into_def f)
qed

section \<open>What a run leaves behind rebuilds it\<close>

text \<open>\<open>mirrors\<close>: the log's map has the keyspace's keys and values, and each deadline
  as one of the clock readings \<open>N\<close> wrote it.\<close>

fun mirror_of :: "now set \<Rightarrow> (bytes \<times> u64 option) option \<Rightarrow> item option \<Rightarrow> bool" where
  "mirror_of N None None = True"
| "mirror_of N (Some (v, millis)) (Some (w, at)) = (v = w \<and> (\<exists>n \<in> N. millis = deadline_millis n at))"
| "mirror_of N _ _ = False"

definition mirrors :: "now set \<Rightarrow> logged_store \<Rightarrow> store \<Rightarrow> bool" where
  "mirrors N m st = (\<forall>key. mirror_of N (m key) (st key))"

lemma mirrorsD:
  assumes "mirrors N m st"
  shows "m key = None \<longleftrightarrow> st key = None"
    "st key = Some (v, at) \<Longrightarrow> \<exists>n \<in> N. m key = Some (v, deadline_millis n at)"
proof -
  have "mirror_of N (m key) (st key)" using assms by (simp add: mirrors_def)
  then show "m key = None \<longleftrightarrow> st key = None"
    "st key = Some (v, at) \<Longrightarrow> \<exists>n \<in> N. m key = Some (v, deadline_millis n at)"
    by (cases "(N, m key, st key)" rule: mirror_of.cases; auto)+
qed

lemma mirrors_mono:
  assumes "mirrors N m st" "N \<subseteq> M"
  shows "mirrors M m st"
  unfolding mirrors_def
proof
  fix key
  have "mirror_of N (m key) (st key)" using assms(1) by (simp add: mirrors_def)
  then show "mirror_of M (m key) (st key)"
    using assms(2) by (cases "(N, m key, st key)" rule: mirror_of.cases) auto
qed

lemma mirrors_upd:
  "mirrors N m st \<Longrightarrow> n \<in> N \<Longrightarrow> mirrors N (m(key \<mapsto> (v, deadline_millis n at))) (st(key \<mapsto> (v, at)))"
  unfolding mirrors_def by auto

lemma mirrors_mutate:
  assumes mm: "mirrors N m st" and "n \<in> N"
  shows "mirrors N (run_effect (recorded n a) m) (mutate a st)"
proof (cases a)
  case (MDate key at)
  show ?thesis
  proof (cases "st key")
    case None
    then show ?thesis using mm mirrorsD(1) [OF mm, of key] MDate by simp
  next
    case (Some x)
    obtain v at' where x: "x = (v, at')" by (cases x)
    obtain dl where "m key = Some (v, dl)" using mirrorsD(2) [OF mm] Some x by blast
    then show ?thesis using mirrors_upd [OF assms] Some x MDate by simp
  qed
qed (use assms in \<open>auto simp: mirrors_upd\<close>, auto simp: mirrors_def)

lemma mirrors_mutates:
  "mirrors N m st \<Longrightarrow> n \<in> N \<Longrightarrow> mirrors N (fold run_effect (map (recorded n) ms) m) (fold mutate ms st)"
  by (induction ms arbitrary: m st) (auto simp: mirrors_mutate)

fun run_commands :: "'l log_ops \<Rightarrow> siphash \<Rightarrow> u16 \<Rightarrow> (now \<times> command) list \<Rightarrow> 'l shard_state \<Rightarrow>
    (reply list \<times> 'l shard_state) option" where
  "run_commands ops sip shard [] st = Some ([], st)"
| "run_commands ops sip shard ((n, cmd) # steps) st =
     do { (r, st') \<leftarrow> apply_cmd ops sip shard n cmd st;
          (rs, st'') \<leftarrow> run_commands ops sip shard steps st';
          Some (r # rs, st'') }"

definition keyed :: "command \<Rightarrow> bool" where
  "keyed cmd = (case route cmd of Key _ \<Rightarrow> True | _ \<Rightarrow> False)"

text \<open>The effects a shard has logged so far, with the keyspace they describe.\<close>

definition chronicle :: "('l \<Rightarrow> log_record list \<Rightarrow> bool) \<Rightarrow> siphash \<Rightarrow> u16 \<Rightarrow> now set \<Rightarrow> effect list \<Rightarrow> 'l shard_state \<Rightarrow> bool"
  where
  "chronicle holds sip shard N es st =
     (dict_inv sip (sh_dict st) \<and> \<not> refusing st \<and> sh_seq st = of_nat (length es) \<and>
      (\<exists>rs. journal shard 0 es = Some rs \<and> holds (sh_log st) rs) \<and>
      mirrors N (fold run_effect es (\<lambda>_. None)) (items (sh_dict st)))"

lemma chronicle_advances:
  assumes "chronicle holds sip shard N es st" "advances holds sip shard n st ms st'" "n \<in> N"
  shows "chronicle holds sip shard N (es @ map (recorded n) ms) st'"
proof -
  obtain rs where rs: "journal shard 0 es = Some rs" "holds (sh_log st) rs"
    using assms(1) by (auto simp: chronicle_def)
  obtain new where "journal shard (sh_seq st) (map (recorded n) ms) = Some new" "holds (sh_log st') (rs @ new)"
    using assms(2) rs(2) by (auto simp: advances_def)
  then have "journal shard 0 (es @ map (recorded n) ms) = Some (rs @ new) \<and> holds (sh_log st') (rs @ new)"
    using rs(1) assms(1) by (simp add: journal_append chronicle_def)
  moreover have "mirrors N (fold run_effect (map (recorded n) ms) (fold run_effect es (\<lambda>_. None)))
      (fold mutate ms (items (sh_dict st)))"
    using assms(1,3) by (intro mirrors_mutates) (simp_all add: chronicle_def)
  ultimately show ?thesis using assms(1,2) by (auto simp: chronicle_def advances_def)
qed

context replication_log
begin

lemma run_chronicle:
  "run_commands ops sip shard steps st = Some (rs, st') \<Longrightarrow> chronicle holds sip shard N es st \<Longrightarrow>
    fst ` set steps \<subseteq> N \<Longrightarrow> list_all (\<lambda>(_, cmd). keyed cmd) steps \<Longrightarrow>
    \<exists>fs. chronicle holds sip shard N (es @ fs) st'"
proof (induction steps arbitrary: st rs es)
  case Nil
  then show ?case by (auto intro: exI [of _ "[]"])
next
  case (Cons step steps)
  obtain n cmd where step: "step = (n, cmd)" by (cases step)
  obtain r s qs where s: "apply_cmd ops sip shard n cmd st = Some (r, s)" "run_commands ops sip shard steps s = Some (qs, st')"
    using Cons.prems(1) step by (auto simp: bind_eq_Some_conv)
  obtain key where key: "route cmd = Key key"
    using Cons.prems(4) step by (auto simp: keyed_def split: command_route.splits)
  have st: "dict_inv sip (sh_dict st)" "\<not> refusing st" using Cons.prems(2) by (simp_all add: chronicle_def)
  obtain ms where "advances holds sip shard n st ms s" using apply_refines [OF s(1) st key] by blast
  then have "chronicle holds sip shard N (es @ map (recorded n) ms) s"
    using chronicle_advances [OF Cons.prems(2)] Cons.prems(3) step by simp
  from Cons.IH [OF s(2) this] Cons.prems(3,4) step show ?case by auto
qed

end

lemma chronicle_new:
  "chronicle file_log_holds sip shard N [] (shard_new (with_seed seed) (file_log_new shard))"
  using with_seed_ok(1) [of sip seed] with_seed_ok(2) [of seed] file_log_new_holds
  by (simp add: chronicle_def shard_new_def shard_recovered_def mirrors_def items_def)

lemma journal_decodes:
  "journal shard s es = Some rs \<Longrightarrow> map (\<lambda>r. decode (rec_payload r)) rs = map Some es"
  by (induction es arbitrary: s rs) (auto simp: bind_eq_Some_conv decode_encode)

lemma journal_seqs:
  "journal shard s es = Some rs \<Longrightarrow> map rec_seq rs = map (\<lambda>i. s + of_nat i) [0..<length es]"
proof (induction es arbitrary: s rs)
  case (Cons e es)
  then obtain p qs where p: "journal shard (s + 1) es = Some qs"
    "rs = \<lparr>rec_shard = shard, rec_seq = s, rec_payload = p\<rparr> # qs" by (auto simp: bind_eq_Some_conv)
  have "map (\<lambda>i. s + of_nat i) [0..<length (e # es)] = s # map (\<lambda>i. s + of_nat (Suc i)) [0..<length es]"
    by (simp add: upt_conv_Cons map_Suc_upt [symmetric] comp_def del: upt_Suc)
  then show ?case using Cons.IH [OF p(1)] p(2) by (simp add: add.assoc)
qed simp

text \<open>The records of a log as recovery hands them to the replay.\<close>

definition replay_list :: "log_record list \<Rightarrow> (u64 \<times> effect) list" where
  "replay_list rs = map (\<lambda>r. (rec_seq r, the (decode (rec_payload r)))) rs"

lemma replay_list_effects:
  assumes "journal shard s es = Some rs"
  shows "map snd (replay_list rs) = es" "map fst (replay_list rs) = map (\<lambda>i. s + of_nat i) [0..<length es]"
proof -
  have "map snd (replay_list rs) = map (the \<circ> Some) es"
    using arg_cong [OF journal_decodes [OF assms], of "map the"] by (simp add: replay_list_def comp_def)
  then show "map snd (replay_list rs) = es" by (simp add: comp_def)
  show "map fst (replay_list rs) = map (\<lambda>i. s + of_nat i) [0..<length es]"
    using journal_seqs [OF assms] by (simp add: replay_list_def comp_def)
qed

lemma replay_seq: "snd (replay_into sip d s records n due) = (if records = [] then s else fst (last records) + 1)"
proof -
  have "fold (\<lambda>(at, _) _. at + 1) records s = (if records = [] then s else fst (last records) + 1)"
    by (induction records arbitrary: s) auto
  then show ?thesis by (simp add: replay_into_def split: prod.split)
qed

lemma replaying_new: "replaying sip n (\<lambda>_. None) (with_seed seed) []"
  using with_seed_ok by (simp add: replaying_def passed_in_def items_def fun_eq_iff)

section \<open>Properties\<close>

text \<open>C15. Replaying a prefix computes the meaning of its records. A key ends with the
  value and deadline its last record gave it; it is absent just when the fold of
  the effects leaves it absent or leaves it a deadline that has passed by now, and
  a deadline that passed but was moved by a later record costs the key nothing.\<close>

theorem replay_into_exact:
  "items (fst (replay_into sip (with_seed seed) s records n [])) =
    (\<lambda>key. Option.bind (fold run_effect (map snd records) (\<lambda>_. None) key) (settle n))"
  using replay_into_items [OF replaying_new] by blast

text \<open>C2. The log a shard writes rebuilds it. After any run of keyed commands on a new
  shard, the records its log holds, replayed into an empty dict of any seed at any
  clock, resume at the shard's own sequence number and give every key of the
  shard its value, dead or dated as the deadline logged for it resolves, and no
  other key.\<close>

theorem recovery_rebuilds:
  assumes "run_commands file_log_ops sip shard steps (shard_new (with_seed seed) (file_log_new shard)) = Some (replies, st)"
    and "list_all (\<lambda>(_, cmd). keyed cmd) steps"
  shows "\<exists>rs. file_log_holds (sh_log st) rs \<and>
    snd (replay_into sip (with_seed seed') 0 (replay_list rs) n []) = sh_seq st \<and>
    (\<forall>key. case items (sh_dict st) key of
        None \<Rightarrow> items (fst (replay_into sip (with_seed seed') 0 (replay_list rs) n [])) key = None
      | Some (v, at) \<Rightarrow> \<exists>m \<in> fst ` set steps.
          items (fst (replay_into sip (with_seed seed') 0 (replay_list rs) n [])) key =
            settle n (v, deadline_millis m at))"
proof -
  obtain es where "chronicle file_log_holds sip shard (fst ` set steps) es st"
    using fl.run_chronicle [OF assms(1) chronicle_new _ assms(2)] by fastforce
  then obtain rs where rs: "journal shard 0 es = Some rs" "file_log_holds (sh_log st) rs" "sh_seq st = of_nat (length es)"
    and mm: "mirrors (fst ` set steps) (fold run_effect es (\<lambda>_. None)) (items (sh_dict st))"
    by (auto simp: chronicle_def)
  note l = replay_list_effects [OF rs(1)]
  have len: "length (replay_list rs) = length es" using arg_cong [OF l(1), of length] by simp
  have last: "fst (last (replay_list rs)) + 1 = of_nat (length es)" if "es \<noteq> []"
  proof -
    have "fst (last (replay_list rs)) = last (map fst (replay_list rs))"
      using that len by (intro last_map [symmetric]) auto
    then show ?thesis using that unfolding l(2) by (cases es) (simp_all add: last_map add.commute)
  qed
  have seq: "snd (replay_into sip (with_seed seed') 0 (replay_list rs) n []) = sh_seq st"
    unfolding replay_seq rs(3) using last len by (cases "es = []") auto
  have it: "items (fst (replay_into sip (with_seed seed') 0 (replay_list rs) n [])) =
      (\<lambda>key. Option.bind (fold run_effect es (\<lambda>_. None) key) (settle n))"
    using replay_into_items [OF replaying_new] l(1) by simp
  have keys: "case items (sh_dict st) key of
        None \<Rightarrow> Option.bind (fold run_effect es (\<lambda>_. None) key) (settle n) = None
      | Some (v, at) \<Rightarrow> \<exists>m \<in> fst ` set steps.
          Option.bind (fold run_effect es (\<lambda>_. None) key) (settle n) = settle n (v, deadline_millis m at)" for key
  proof (cases "items (sh_dict st) key")
    case None
    then show ?thesis using mirrorsD(1) [OF mm, of key] by simp
  next
    case (Some x)
    obtain v at where x: "x = (v, at)" by (cases x)
    obtain m where "m \<in> fst ` set steps" "fold run_effect es (\<lambda>_. None) key = Some (v, deadline_millis m at)"
      using mirrorsD(2) [OF mm] Some x by blast
    then show ?thesis using Some x by auto
  qed
  show ?thesis
    by (intro exI [of _ rs] conjI allI rs(2) seq) (unfold it, rule keys)
qed

theorem recovery_rebuilds_witness:
  "\<exists>replies st rs. run_commands file_log_ops sip_const 3 [(past_five, SetNx [1] [2])]
      (shard_new (with_seed seed_zero) (file_log_new 3)) = Some (replies, st) \<and>
    file_log_holds (sh_log st) rs \<and>
    items (fst (replay_into sip_const (with_seed seed_zero) 0 (replay_list rs) past_five [])) [1] = Some ([2], None)"
proof -
  let ?st = "shard_new (with_seed seed_zero) (file_log_new 3)"
  have st: "dict_inv sip_const (sh_dict ?st)" "\<not> refusing ?st" "items (sh_dict ?st) = (\<lambda>_. None)"
    using with_seed_ok by (simp_all add: shard_new_def shard_recovered_def items_def fun_eq_iff)
  obtain r s where a: "apply_cmd file_log_ops sip_const 3 past_five (SetNx [1] [2]) ?st = Some (r, s)" "r \<noteq> Error LogWriteFailed"
    using apply_total [of "SetNx [1] [2]" "[1]" ?st sip_const 3 past_five] st(2) by (auto simp: command_fits_def)
  then have run: "run_commands file_log_ops sip_const 3 [(past_five, SetNx [1] [2])] ?st = Some ([r], s)" by simp
  have "items (sh_dict s) [1] = Some ([2], None)"
    using fl.apply_refines [OF a(1) st(1,2), of "[1]"] a(2)
    by (auto simp: st(3) live_def due_in_def advances_def)
  moreover have "list_all (\<lambda>(_, cmd). keyed cmd) [(past_five, SetNx [1] [2])]" by (simp add: keyed_def)
  ultimately obtain rs m where rs: "file_log_holds (sh_log s) rs"
    "items (fst (replay_into sip_const (with_seed seed_zero) 0 (replay_list rs) past_five [])) [1] =
       settle past_five ([2], deadline_millis m None)"
    using recovery_rebuilds [OF run, of seed_zero past_five] by (auto dest!: spec [where x = "[1]"])
  then have "items (fst (replay_into sip_const (with_seed seed_zero) 0 (replay_list rs) past_five [])) [1] = Some ([2], None)"
    by (simp add: settle_def deadline_millis_def)
  then show ?thesis using run rs(1) by blast
qed

end
