(* ===== verification/Resp.thy ===== *)
theory Resp
  imports Command
begin

text \<open>
  The RESP2 codec, \<^verbatim>\<open>crates/seedstone-resp/src/lib.rs\<close>: the encoder with its explicit
  stack, and the resumable decoder. The decoder's state is the code's: offsets
  into the buffer, what is half read, the arrays still owed elements, and the
  price of what was parsed. A call either delivers a frame, asks for more bytes,
  or refuses; a refusal ends the connection, so no state follows it. The texts of
  refusals are constructors here. Offsets are \<open>usize\<close> and naturals.
\<close>

datatype frame =
    Simple bytes
  | ErrorText bytes
  | Number i64
  | BulkString bytes
  | Null
  | Array "frame list"

datatype parse_error =
    EmptyInteger
  | InvalidInteger
  | IntegerOutOfRange
  | UnknownType byte
  | NotUtf8
  | NegativeBulk
  | BulkTooLong
  | MissingTerminator
  | NegativeArray
  | TooDeep
  | ArrayTooLong
  | OverMemory
  | OverBuffer

abbreviation CRLF :: bytes where "CRLF \<equiv> [13, 10]"

section \<open>Encoding\<close>

definition encode_line :: "byte \<Rightarrow> bytes \<Rightarrow> bytes" where
  "encode_line t text = t # text @ CRLF"

fun encode_one :: "frame \<Rightarrow> bytes \<times> frame list" where
  "encode_one (Simple s) = (encode_line 43 s, [])"
| "encode_one (ErrorText e) = (encode_line 45 e, [])"
| "encode_one (Number i) = (encode_line 58 (i64_text i), [])"
| "encode_one (BulkString b) = (encode_line 36 (decimal (length b)) @ b @ CRLF, [])"
| "encode_one Null = (encode_line 36 (ascii ''-1''), [])"
| "encode_one (Array frames) = (encode_line 42 (decimal (length frames)), frames)"

text \<open>The loop over the stack of frames still to be written, the next one first.\<close>

function encode_pending :: "frame list \<Rightarrow> bytes" where
  "encode_pending [] = []"
| "encode_pending (f # pending) = (let (out, children) = encode_one f in out @ encode_pending (children @ pending))"
  by pat_completeness auto
termination
proof (relation "measure (\<lambda>fs. sum_list (map (\<lambda>f. Suc (size f)) fs))")
  fix f :: frame and pending x out children
  assume x: "x = encode_one f" "(out, children) = x"
  then have "sum_list (map (\<lambda>f. Suc (size f)) children) < Suc (size f)"
    by (cases f) (auto simp: size_list_conv_sum_list sum_list_Suc)
  then show "(children @ pending, f # pending) \<in> measure (\<lambda>fs. sum_list (map (\<lambda>f. Suc (size f)) fs))" by simp
qed simp

definition encode_frame :: "frame \<Rightarrow> bytes" where
  "encode_frame f = encode_pending [f]"

section \<open>Decoding\<close>

definition MAX_ARRAY_DEPTH :: nat where "MAX_ARRAY_DEPTH = 64"
definition MAX_BULK_LEN :: nat where "MAX_BULK_LEN = 16 * 1024 * 1024"
definition MAX_ARRAY_LEN :: nat where "MAX_ARRAY_LEN = 1024 * 1024"
definition FRAME_SIZE :: nat where "FRAME_SIZE = 40"

record decoder_limits =
  max_frame_bytes :: nat
  max_in_memory :: nat

definition default_limits :: decoder_limits where
  "default_limits = \<lparr>max_frame_bytes = 64 * 1024 * 1024, max_in_memory = 64 * 1024 * 1024\<rparr>"

text \<open>An integer field: an optional minus and at least one digit, in the range of \<open>i64\<close>.\<close>

definition parse_integer :: "bytes \<Rightarrow> parse_error + i64" where
  "parse_integer field =
     (if field = [] then Inl EmptyInteger
      else
        let digits = (if hd field = 45 then tl field else field) in
        if digits = [] \<or> \<not> list_all is_digit digits then Inl InvalidInteger
        else case digits_value 0 digits of
          None \<Rightarrow> Inl InvalidInteger
        | Some n \<Rightarrow> let i = (if hd field = 45 then - int n else int n) in
            if is_i64 i then Inr i else Inl IntegerOutOfRange)"

text \<open>\<^verbatim>\<open>String::from_utf8\<close>: the well-formed sequences of the standard, overlong forms,
  surrogates and values past the last code point refused.\<close>

definition continuation :: "byte \<Rightarrow> bool" where
  "continuation b = (128 \<le> b \<and> b \<le> 191)"

fun valid_utf8 :: "bytes \<Rightarrow> bool" where
  "valid_utf8 [] = True"
| "valid_utf8 (a # bs) =
     (if a < 128 then valid_utf8 bs
      else case bs of
        [] \<Rightarrow> False
      | b # cs \<Rightarrow>
          if 194 \<le> a \<and> a \<le> 223 then continuation b \<and> valid_utf8 cs
          else case cs of
            [] \<Rightarrow> False
          | c # ds \<Rightarrow>
              if 224 \<le> a \<and> a \<le> 239
              then continuation b \<and> continuation c \<and> (a = 224 \<longrightarrow> 160 \<le> b) \<and> (a = 237 \<longrightarrow> b \<le> 159) \<and> valid_utf8 ds
              else case ds of
                [] \<Rightarrow> False
              | d # es \<Rightarrow>
                  240 \<le> a \<and> a \<le> 244 \<and> continuation b \<and> continuation c \<and> continuation d \<and>
                  (a = 240 \<longrightarrow> 144 \<le> b) \<and> (a = 244 \<longrightarrow> b \<le> 143) \<and> valid_utf8 es)"

record pending_array =
  remaining :: nat
  elements :: "frame list"

datatype element = Value frame | ArrayHeader nat

datatype kind_byte = KSimple | KError | KInteger | KBulk | KArray

datatype partial = Start | Line nat | BulkBody nat nat

text \<open>The innermost array is the head of the stack.\<close>

record decoding =
  frame_start :: nat
  scan :: nat
  partial :: partial
  stack :: "pending_array list"
  in_memory :: nat

definition decoding_new :: decoding where
  "decoding_new = \<lparr>frame_start = 0, scan = 0, partial = Start, stack = [], in_memory = 0\<rparr>"

definition finish_frame :: "decoding \<Rightarrow> decoding" where
  "finish_frame st = st\<lparr>frame_start := scan st, partial := Start, in_memory := 0\<rparr>"

definition shift_back :: "nat \<Rightarrow> decoding \<Rightarrow> decoding" where
  "shift_back n st =
     st\<lparr>frame_start := frame_start st - n, scan := scan st - n,
        partial := (case partial st of Line s \<Rightarrow> Line (s - n) | p \<Rightarrow> p)\<rparr>"

definition headroom :: "decoder_limits \<Rightarrow> nat \<Rightarrow> nat" where
  "headroom limits used = max_in_memory limits - used"

definition payload_bytes :: "frame \<Rightarrow> nat" where
  "payload_bytes f = (case f of Simple t \<Rightarrow> length t | ErrorText t \<Rightarrow> length t | BulkString p \<Rightarrow> length p | _ \<Rightarrow> 0)"

text \<open>\<open>charge\<close> answers the memory used once the frame is counted, or refuses it.\<close>

definition charge :: "decoder_limits \<Rightarrow> frame \<Rightarrow> nat \<Rightarrow> nat option" where
  "charge limits f used =
     (let cost = FRAME_SIZE + payload_bytes f in
      if cost > headroom limits used then None else Some (used + cost))"

text \<open>The search for a terminator: \<open>Inl\<close> where it is, \<open>Inr\<close> where to resume.\<close>

function crlf_from :: "bytes \<Rightarrow> nat \<Rightarrow> nat + nat" where
  "crlf_from buf i =
     (if i + 1 < length buf
      then if buf ! i = 13 \<and> buf ! (i + 1) = 10 then Inl i else crlf_from buf (i + 1)
      else Inr i)"
  by pat_completeness auto
termination by (relation "measure (\<lambda>(buf, i). length buf - i)") auto

declare crlf_from.simps [simp del]

definition find_crlf :: "bytes \<Rightarrow> partial \<Rightarrow> nat \<Rightarrow> (nat \<times> nat) option \<times> partial" where
  "find_crlf buf p start =
     (let resume = (case p of Line s \<Rightarrow> if s > start then s else start | _ \<Rightarrow> start) in
      case crlf_from buf resume of
        Inl i \<Rightarrow> (Some (i, i + 2), Start)
      | Inr i \<Rightarrow> (None, Line i))"

definition array_header :: "bytes \<Rightarrow> decoder_limits \<Rightarrow> decoding \<Rightarrow> parse_error + nat" where
  "array_header field limits st =
     (case parse_integer field of
        Inl e \<Rightarrow> Inl e
      | Inr n \<Rightarrow>
          if n < 0 then Inl NegativeArray
          else if length (stack st) + 1 > MAX_ARRAY_DEPTH then Inl TooDeep
          else if n > int MAX_ARRAY_LEN then Inl ArrayTooLong
          else if nat n * FRAME_SIZE > headroom limits (in_memory st) then Inl OverMemory
          else Inr (nat n))"

definition finish_bulk :: "bytes \<Rightarrow> nat \<Rightarrow> nat \<Rightarrow> decoding \<Rightarrow> parse_error + (frame option \<times> decoding)" where
  "finish_bulk buf header len st =
     (let stop = scan st + (header + len + 2); payload_start = scan st + header; payload_end = payload_start + len in
      if stop > length buf then Inr (None, st)
      else if drop payload_end (take stop buf) \<noteq> CRLF then Inl MissingTerminator
      else Inr (Some (BulkString (drop payload_start (take payload_end buf))), st\<lparr>scan := stop, partial := Start\<rparr>))"

definition finish_value :: "bytes \<Rightarrow> nat \<Rightarrow> nat \<Rightarrow> decoding \<Rightarrow> parse_error + (element option \<times> decoding)" where
  "finish_value buf header len st =
     (case finish_bulk buf header len st of Inl e \<Rightarrow> Inl e | Inr (f, st') \<Rightarrow> Inr (map_option Value f, st'))"

text \<open>Blank lines between frames: where reading starts, and whether a lone carriage
  return at the end has to wait.\<close>

function skip_blank :: "bytes \<Rightarrow> nat \<Rightarrow> nat \<times> bool" where
  "skip_blank buf i =
     (if get buf i = Some 13
      then case get buf (i + 1) of
        None \<Rightarrow> (i, True)
      | Some b \<Rightarrow> if b = 10 then skip_blank buf (i + 2) else (i, False)
      else (i, False))"
  by pat_completeness auto
termination by (relation "measure (\<lambda>(buf, i). length buf - i)") (auto simp: get_def split: if_splits)

declare skip_blank.simps [simp del]

definition kind_of :: "byte \<Rightarrow> kind_byte option" where
  "kind_of b =
     (if b = 43 then Some KSimple else if b = 45 then Some KError else if b = 58 then Some KInteger
      else if b = 36 then Some KBulk else if b = 42 then Some KArray else None)"

definition text_frame :: "(bytes \<Rightarrow> frame) \<Rightarrow> bytes \<Rightarrow> parse_error + element" where
  "text_frame build field = (if valid_utf8 field then Inr (Value (build field)) else Inl NotUtf8)"

text \<open>What a complete line means: \<open>next\<close> is the offset after its terminator.\<close>

definition read_line :: "bytes \<Rightarrow> decoder_limits \<Rightarrow> kind_byte \<Rightarrow> bytes \<Rightarrow> nat \<Rightarrow> decoding \<Rightarrow>
    parse_error + (element option \<times> decoding)" where
  "read_line buf limits kb field after st =
     (let plain = (\<lambda>r. case r of Inl e \<Rightarrow> Inl e | Inr el \<Rightarrow> Inr (Some el, st\<lparr>scan := after\<rparr>)) in
      case kb of
        KSimple \<Rightarrow> plain (text_frame Simple field)
      | KError \<Rightarrow> plain (text_frame ErrorText field)
      | KInteger \<Rightarrow> plain (case parse_integer field of Inl e \<Rightarrow> Inl e | Inr i \<Rightarrow> Inr (Value (Number i)))
      | KArray \<Rightarrow> plain (case array_header field limits st of Inl e \<Rightarrow> Inl e | Inr n \<Rightarrow> Inr (ArrayHeader n))
      | KBulk \<Rightarrow>
          (case parse_integer field of
             Inl e \<Rightarrow> Inl e
           | Inr len \<Rightarrow>
               if len = - 1 then Inr (Some (Value Null), st\<lparr>scan := after\<rparr>)
               else if len < - 1 then Inl NegativeBulk
               else if len > int MAX_BULK_LEN then Inl BulkTooLong
               else if FRAME_SIZE + nat len > headroom limits (in_memory st) then Inl OverMemory
               else
                 let header = after - scan st in
                 finish_value buf header (nat len) (st\<lparr>partial := BulkBody header (nat len)\<rparr>)))"

text \<open>The element whose type byte is at the read position.\<close>

definition read_at :: "bytes \<Rightarrow> decoder_limits \<Rightarrow> decoding \<Rightarrow> parse_error + (element option \<times> decoding)" where
  "read_at buf limits st =
     (case get buf (scan st) of
        None \<Rightarrow> Inr (None, st)
      | Some b \<Rightarrow>
          (case kind_of b of
             None \<Rightarrow> Inl (UnknownType b)
           | Some kb \<Rightarrow>
               (case find_crlf buf (partial st) (scan st + 1) of
                  (None, p) \<Rightarrow> Inr (None, st\<lparr>partial := p\<rparr>)
                | (Some (line_end, after), p) \<Rightarrow>
                    read_line buf limits kb (drop (scan st + 1) (take line_end buf)) after (st\<lparr>partial := p\<rparr>))))"

definition blanks_skipped :: "bytes \<Rightarrow> decoding \<Rightarrow> decoding \<times> bool" where
  "blanks_skipped buf st =
     (if stack st = [] \<and> partial st = Start
      then let (at, wait) = skip_blank buf (scan st) in
        (if at = scan st then st else st\<lparr>scan := at, frame_start := at\<rparr>, wait)
      else (st, False))"

definition read_element :: "bytes \<Rightarrow> decoder_limits \<Rightarrow> decoding \<Rightarrow> parse_error + (element option \<times> decoding)" where
  "read_element buf limits st0 =
     (case partial st0 of
        BulkBody header len \<Rightarrow> finish_value buf header len st0
      | _ \<Rightarrow>
          let (st, wait) = blanks_skipped buf st0 in
          if wait then Inr (None, st) else read_at buf limits st)"

text \<open>A finished value against the arrays still owed elements, from the innermost
  out: \<open>Inr\<close> with the frame that completed at top level, if one did.\<close>

fun cascade :: "decoder_limits \<Rightarrow> frame \<Rightarrow> nat \<Rightarrow> pending_array list \<Rightarrow>
    parse_error + (frame option \<times> pending_array list \<times> nat)" where
  "cascade limits v used [] =
     (case charge limits v used of None \<Rightarrow> Inl OverMemory | Some _ \<Rightarrow> Inr (Some v, [], 0))"
| "cascade limits v used (inner # rest) =
     (case charge limits v used of
        None \<Rightarrow> Inl OverMemory
      | Some used' \<Rightarrow>
          let inner' = inner\<lparr>elements := elements inner @ [v], remaining := remaining inner - 1\<rparr> in
          if remaining inner' = 0 then cascade limits (Array (elements inner')) used' rest
          else Inr (None, inner' # rest, used'))"

fun place :: "decoder_limits \<Rightarrow> element \<Rightarrow> decoding \<Rightarrow> parse_error + (frame option \<times> decoding)" where
  "place limits (Value v) st =
     (case cascade limits v (in_memory st) (stack st) of
        Inl e \<Rightarrow> Inl e
      | Inr (f, s, used) \<Rightarrow> Inr (f, st\<lparr>stack := s, in_memory := used\<rparr>))"
| "place limits (ArrayHeader n) st =
     (if n = 0 then
        (case cascade limits (Array []) (in_memory st) (stack st) of
           Inl e \<Rightarrow> Inl e
         | Inr (f, s, used) \<Rightarrow> Inr (f, st\<lparr>stack := s, in_memory := used\<rparr>))
      else Inr (None, st\<lparr>stack := \<lparr>remaining = n, elements = []\<rparr> # stack st\<rparr>))"

definition check_frame_bytes :: "nat \<Rightarrow> decoder_limits \<Rightarrow> bool" where
  "check_frame_bytes wire_bytes limits = (wire_bytes \<le> max_frame_bytes limits)"

lemma crlf_fromD: "crlf_from buf i = Inl j \<Longrightarrow> i \<le> j \<and> j + 1 < length buf \<and> buf ! j = 13 \<and> buf ! (j + 1) = 10"
proof (induction buf i rule: crlf_from.induct)
  case (1 buf i)
  then show ?case by (subst (asm) crlf_from.simps) (auto split: if_splits)
qed

lemma find_crlf_Some:
  "find_crlf buf p start = (Some (a, b), q) \<Longrightarrow> start \<le> a \<and> b = a + 2 \<and> b \<le> length buf \<and> q = Start"
  by (auto simp: find_crlf_def Let_def split: sum.splits partial.splits if_splits dest!: crlf_fromD)

lemma finish_value_Some:
  "finish_value buf header len st = Inr (Some el, st') \<Longrightarrow> scan st < scan st' \<and> scan st' \<le> length buf"
  by (auto simp: finish_value_def finish_bulk_def Let_def split: if_splits)

lemma read_line_Some:
  "read_line buf limits kb field after st = Inr (Some el, st') \<Longrightarrow> scan st < after \<Longrightarrow> after \<le> length buf \<Longrightarrow>
    scan st < scan st' \<and> scan st' \<le> length buf"
  by (auto simp: read_line_def Let_def split: kind_byte.splits sum.splits prod.splits if_splits dest!: finish_value_Some)

lemma skip_blank_ge: "i \<le> fst (skip_blank buf i)"
proof (induction buf i rule: skip_blank.induct)
  case (1 buf i)
  show ?case
  proof (cases "get buf i = Some 13 \<and> get buf (i + 1) = Some 10")
    case True
    then have "skip_blank buf i = skip_blank buf (i + 2)" by (subst skip_blank.simps) simp
    then show ?thesis using 1 True by simp
  next
    case False
    then show ?thesis by (subst skip_blank.simps) (auto split: option.split)
  qed
qed

lemma blanks_skipped_scan: "scan st \<le> scan (fst (blanks_skipped buf st))"
  using skip_blank_ge [of "scan st" buf] by (auto simp: blanks_skipped_def split: prod.split)

lemma read_at_Some:
  "read_at buf limits st = Inr (Some el, st') \<Longrightarrow> scan st < scan st' \<and> scan st' \<le> length buf"
  by (auto simp: read_at_def split: option.splits prod.splits dest!: find_crlf_Some read_line_Some)

lemma read_element_Some:
  assumes "read_element buf limits st = Inr (Some el, st')"
  shows "scan st < scan st' \<and> scan st' \<le> length buf"
proof (cases "\<exists>header len. partial st = BulkBody header len")
  case True
  then show ?thesis
    using assms by (auto simp: read_element_def split: sum.splits prod.splits dest!: finish_value_Some)
next
  case False
  obtain s wait where s: "blanks_skipped buf st = (s, wait)" by fastforce
  then have "read_at buf limits s = Inr (Some el, st')"
    using assms False by (auto simp: read_element_def split: partial.splits if_splits)
  from read_at_Some [OF this] blanks_skipped_scan [of st buf] s show ?thesis by simp
qed

lemma place_scan: "place limits el st = Inr (f, st') \<Longrightarrow> scan st' = scan st \<and> frame_start st' = frame_start st \<and> partial st' = partial st"
  by (cases el) (auto split: sum.splits prod.splits if_splits)

text \<open>One call: elements are read and placed until a frame completes or the bytes
  run out.\<close>

function step :: "bytes \<Rightarrow> decoder_limits \<Rightarrow> decoding \<Rightarrow> parse_error + (frame option \<times> decoding)" where
  "step buf limits st =
     (case read_element buf limits st of
        Inl e \<Rightarrow> Inl e
      | Inr (None, st1) \<Rightarrow>
          if check_frame_bytes (length buf - frame_start st1) limits then Inr (None, st1) else Inl OverBuffer
      | Inr (Some el, st1) \<Rightarrow>
          (case place limits el st1 of
             Inl e \<Rightarrow> Inl e
           | Inr (Some f, st2) \<Rightarrow>
               if check_frame_bytes (scan st2 - frame_start st2) limits then Inr (Some f, st2) else Inl OverBuffer
           | Inr (None, st2) \<Rightarrow> step buf limits st2))"
  by pat_completeness auto
termination
  by (relation "measure (\<lambda>(buf, limits, st). length buf - scan st)") (auto dest!: read_element_Some place_scan)

declare step.simps [simp del]

record decoder =
  dec_buf :: bytes
  dec_state :: decoding
  dec_limits :: decoder_limits

definition decoder_new :: "decoder_limits \<Rightarrow> decoder" where
  "decoder_new limits = \<lparr>dec_buf = [], dec_state = decoding_new, dec_limits = limits\<rparr>"

text \<open>Compaction drops the bytes of delivered frames. The capacity the vector gives
  back is not part of the model.\<close>

definition compact :: "decoder \<Rightarrow> decoder" where
  "compact d =
     (let n = frame_start (dec_state d) in
      if n = 0 then d
      else d\<lparr>dec_buf := drop n (dec_buf d), dec_state := shift_back n (dec_state d)\<rparr>)"

definition feed :: "bytes \<Rightarrow> decoder \<Rightarrow> decoder" where
  "feed bs d = (let d' = compact d in d'\<lparr>dec_buf := dec_buf d' @ bs\<rparr>)"

definition try_next :: "decoder \<Rightarrow> parse_error + (frame option \<times> decoder)" where
  "try_next d =
     (case step (dec_buf d) (dec_limits d) (dec_state d) of
        Inl e \<Rightarrow> Inl e
      | Inr (None, st) \<Rightarrow> Inr (None, compact (d\<lparr>dec_state := st\<rparr>))
      | Inr (Some f, st) \<Rightarrow> Inr (Some f, d\<lparr>dec_state := finish_frame st\<rparr>))"

definition parse :: "bytes \<Rightarrow> parse_error + (frame \<times> nat) option" where
  "parse buf =
     (case step buf default_limits decoding_new of
        Inl e \<Rightarrow> Inl e
      | Inr (f, st) \<Rightarrow> Inr (map_option (\<lambda>f. (f, scan st)) f))"

end
