(* ===== verification/RespCorrect.thy ===== *)
theory RespCorrect
  imports Resp "HOL-Library.Sublist"
begin

text \<open>
  What the RESP codec promises: a frame that fits the limits decodes to itself from
  the bytes the encoder writes, whatever follows them, and a stream of bytes gives
  the same frames and the same verdict however it is split into reads.
\<close>

section \<open>The encoding as a recursion\<close>

fun frame_wire :: "frame \<Rightarrow> bytes" where
  "frame_wire (Simple s) = encode_line 43 s"
| "frame_wire (ErrorText e) = encode_line 45 e"
| "frame_wire (Number i) = encode_line 58 (i64_text i)"
| "frame_wire (BulkString b) = encode_line 36 (decimal (length b)) @ b @ CRLF"
| "frame_wire Null = encode_line 36 (ascii ''-1'')"
| "frame_wire (Array fs) = encode_line 42 (decimal (length fs)) @ concat (map frame_wire fs)"

lemma encode_pending_wire: "encode_pending fs = concat (map frame_wire fs)"
proof (induction fs rule: encode_pending.induct)
  case (2 f pending)
  then show ?case by (cases f) auto
qed simp

lemma encode_frame_wire: "encode_frame f = frame_wire f"
  by (simp add: encode_frame_def encode_pending_wire)

section \<open>Reading one element\<close>

text \<open>What a frame costs in memory, and the frames that survive the wire.\<close>

fun frame_cost :: "frame \<Rightarrow> nat" where
  "frame_cost (Array fs) = FRAME_SIZE + sum_list (map frame_cost fs)"
| "frame_cost f = FRAME_SIZE + payload_bytes f"

fun sendable :: "nat \<Rightarrow> frame \<Rightarrow> bool" where
  "sendable d (Simple s) = (valid_utf8 s \<and> \<not> sublist CRLF s)"
| "sendable d (ErrorText e) = (valid_utf8 e \<and> \<not> sublist CRLF e)"
| "sendable d (Number i) = is_i64 i"
| "sendable d (BulkString b) = (length b \<le> MAX_BULK_LEN)"
| "sendable d Null = True"
| "sendable d (Array fs) = (0 < d \<and> length fs \<le> MAX_ARRAY_LEN \<and> list_all (sendable (d - 1)) fs)"

definition kids_cost :: "frame \<Rightarrow> nat" where
  "kids_cost f = (case f of Array fs \<Rightarrow> sum_list (map frame_cost fs) | _ \<Rightarrow> 0)"

lemma frame_cost_split: "frame_cost f = FRAME_SIZE + payload_bytes f + kids_cost f"
  by (cases f) (auto simp: kids_cost_def payload_bytes_def)

lemma frame_cost_ge: "FRAME_SIZE \<le> frame_cost f"
  by (simp add: frame_cost_split)

lemma costs_ge: "length fs * FRAME_SIZE \<le> sum_list (map frame_cost fs)"
proof (induction fs)
  case (Cons f fs)
  then show ?case using frame_cost_ge [of f] by simp
qed simp

lemma digit_facts: "is_digit b \<Longrightarrow> b \<noteq> 13 \<and> b \<noteq> 45 \<and> b < 128"
  by (auto simp: is_digit_def word_le_nat_alt word_less_nat_alt)

lemma no_cr_no_crlf: "13 \<notin> set s \<Longrightarrow> \<not> sublist CRLF s"
  by (auto dest: set_mono_sublist)

lemma decimal_no_crlf: "\<not> sublist CRLF (decimal n)"
  using decimal_digits [of n] by (intro no_cr_no_crlf) (auto simp: list_all_iff dest: digit_facts)

lemma i64_text_no_crlf: "\<not> sublist CRLF (i64_text i)"
  using decimal_digits by (intro no_cr_no_crlf) (auto simp: i64_text_def list_all_iff dest: digit_facts)

lemma parse_integer_text: "is_i64 i \<Longrightarrow> parse_integer (i64_text i) = Inr i"
proof -
  assume i: "is_i64 i"
  show ?thesis
  proof (cases "i < 0")
    case True
    then show ?thesis using i decimal_digits by (simp add: parse_integer_def i64_text_def Let_def)
  next
    case False
    have "hd (decimal (nat i)) \<noteq> 45" using decimal_hd [of "nat i"] by (auto dest: digit_facts)
    then show ?thesis using i False decimal_digits by (simp add: parse_integer_def i64_text_def Let_def)
  qed
qed

lemma parse_integer_decimal: "n < 2 ^ 63 \<Longrightarrow> parse_integer (decimal n) = Inr (int n)"
  using parse_integer_text [of "int n"] by (simp add: i64_text_def is_i64_def)

lemma parse_integer_null: "parse_integer (ascii ''-1'') = Inr (- 1)"
  by (code_simp)

lemma crlf_from_line:
  "\<not> sublist CRLF line \<Longrightarrow> crlf_from (pre @ line @ CRLF @ rest) (length pre) = Inl (length pre + length line)"
proof (induction line arbitrary: pre)
  case Nil
  then show ?case by (subst crlf_from.simps) (simp add: nth_append)
next
  case (Cons c line)
  have no: "\<not> sublist CRLF line" using Cons.prems by (meson sublist_Cons_right)
  have c: "\<not> (c = 13 \<and> (line @ CRLF @ rest) ! 0 = 10)"
    using Cons.prems by (cases line) (auto simp: sublist_Cons_right)
  have n: "(pre @ (c # line) @ CRLF @ rest) ! (length pre + 1) = (line @ CRLF @ rest) ! 0"
    by (simp add: nth_append)
  have "crlf_from (pre @ (c # line) @ CRLF @ rest) (length pre)
      = crlf_from (pre @ (c # line) @ CRLF @ rest) (length pre + 1)"
    using c n by (subst crlf_from.simps) (auto simp: nth_append)
  then show ?case using Cons.IH [OF no, of "pre @ [c]"] by simp
qed

lemma kind_of_not_cr: "kind_of b = Some kb \<Longrightarrow> b \<noteq> 13"
  by (auto simp: kind_of_def split: if_splits)

lemma read_element_line:
  assumes buf: "buf = pre @ encode_line t line @ rest" and st: "scan st = length pre" "partial st = Start"
    and t: "kind_of t = Some kb" and no: "\<not> sublist CRLF line"
  shows "read_element buf limits st = read_line buf limits kb line (length pre + length line + 3) st"
proof -
  have g: "get buf (length pre) = Some t" by (simp add: buf get_def encode_line_def nth_append)
  have skip: "skip_blank buf (length pre) = (length pre, False)"
    using kind_of_not_cr [OF t] by (subst skip_blank.simps) (simp add: g)
  have "crlf_from buf (length pre + 1) = Inl (length pre + 1 + length line)"
    using crlf_from_line [OF no, of "pre @ [t]" rest] by (simp add: buf encode_line_def)
  then have find: "find_crlf buf Start (length pre + 1) = (Some (length pre + 1 + length line, length pre + length line + 3), Start)"
    by (simp add: find_crlf_def)
  have field: "drop (length pre + 1) (take (length pre + 1 + length line) buf) = line"
    by (simp add: buf encode_line_def)
  have same: "st\<lparr>partial := Start\<rparr> = st" using st(2) by simp
  show ?thesis using st t
    by (simp add: same read_element_def blanks_skipped_def read_at_def skip g find [simplified] field [simplified] Let_def)
qed

section \<open>The round trip\<close>

text \<open>What the loop does with a value: place it, and go on unless it completes a frame.\<close>

definition after_value :: "bytes \<Rightarrow> decoder_limits \<Rightarrow> frame \<Rightarrow> decoding \<Rightarrow> parse_error + (frame option \<times> decoding)" where
  "after_value buf limits v st =
     (case place limits (Value v) st of
        Inl e \<Rightarrow> Inl e
      | Inr (Some f, st2) \<Rightarrow>
          if check_frame_bytes (scan st2 - frame_start st2) limits then Inr (Some f, st2) else Inl OverBuffer
      | Inr (None, st2) \<Rightarrow> step buf limits st2)"

lemma step_value:
  "read_element buf limits st = Inr (Some (Value v), st1) \<Longrightarrow> step buf limits st = after_value buf limits v st1"
  by (subst step.simps) (simp add: after_value_def)

lemma step_header:
  "read_element buf limits st = Inr (Some (ArrayHeader n), st1) \<Longrightarrow>
    step buf limits st = (if n = 0 then after_value buf limits (Array []) st1
      else step buf limits (st1\<lparr>stack := \<lparr>remaining = n, elements = []\<rparr> # stack st1\<rparr>))"
  by (subst step.simps) (simp add: after_value_def)

lemma charge_ok: "used + FRAME_SIZE + payload_bytes f \<le> max_in_memory limits \<Longrightarrow>
    charge limits f used = Some (used + FRAME_SIZE + payload_bytes f)"
  by (simp add: charge_def headroom_def Let_def)

text \<open>A frame's encoding at the read position is read as that frame: the loop arrives
  at the frame's value, its elements paid for.\<close>

definition reads_as :: "decoder_limits \<Rightarrow> frame \<Rightarrow> bool" where
  "reads_as limits f \<longleftrightarrow>
     (\<forall>pre rest st. scan st = length pre \<longrightarrow> partial st = Start \<longrightarrow>
        sendable (MAX_ARRAY_DEPTH - length (stack st)) f \<longrightarrow>
        in_memory st + frame_cost f \<le> max_in_memory limits \<longrightarrow>
        step (pre @ frame_wire f @ rest) limits st =
          after_value (pre @ frame_wire f @ rest) limits f
            (st\<lparr>scan := length pre + length (frame_wire f), in_memory := in_memory st + kids_cost f\<rparr>))"

lemma length_encode_line [simp]: "length (encode_line t s) = length s + 3"
  by (simp add: encode_line_def)

lemma step_line:
  assumes "scan st = length pre" "partial st = Start" "kind_of t = Some kb" "\<not> sublist CRLF s"
    and "read_line (pre @ encode_line t s @ rest) limits kb s (length pre + length s + 3) st = Inr (Some (Value f), st')"
  shows "step (pre @ encode_line t s @ rest) limits st = after_value (pre @ encode_line t s @ rest) limits f st'"
  using read_element_line [OF refl assms(1-4)] assms(5) by (intro step_value) simp

lemma kind_of_simps [simp]:
  "kind_of 43 = Some KSimple" "kind_of 45 = Some KError" "kind_of 58 = Some KInteger" "kind_of 36 = Some KBulk"
  "kind_of 42 = Some KArray"
  by (simp_all add: kind_of_def)

lemma reads_as_leaf:
  "reads_as limits (Simple s)" "reads_as limits (ErrorText s)" "reads_as limits (Number i)" "reads_as limits Null"
  unfolding reads_as_def
  by (auto simp: kids_cost_def add.assoc read_line_def text_frame_def parse_integer_text i64_text_no_crlf
      parse_integer_null [simplified] no_cr_no_crlf intro!: step_line [simplified add.assoc])

lemma reads_as_Bulk: "reads_as limits (BulkString b)"
  unfolding reads_as_def
proof (intro allI impI)
  fix pre rest :: bytes and st :: decoding
  assume st: "scan st = length pre" "partial st = Start"
    and b: "sendable (MAX_ARRAY_DEPTH - length (stack st)) (BulkString b)"
      "in_memory st + frame_cost (BulkString b) \<le> max_in_memory limits"
  let ?d = "decimal (length b)"
  let ?buf = "pre @ encode_line 36 ?d @ b @ CRLF @ rest"
  have len: "length b < 2 ^ 63" using b(1) by (simp add: MAX_BULK_LEN_def)
  have slices: "drop (length pre + (length ?d + 3) + length b) (take (length pre + (length ?d + 3 + length b + 2)) ?buf) = CRLF"
    "drop (length pre + (length ?d + 3)) (take (length pre + (length ?d + 3) + length b) ?buf) = b"
    by simp_all
  have "finish_bulk ?buf (length ?d + 3) (length b) (st\<lparr>partial := BulkBody (length ?d + 3) (length b)\<rparr>)
     = Inr (Some (BulkString b), st\<lparr>scan := length pre + (length ?d + 3 + length b + 2)\<rparr>)"
    unfolding finish_bulk_def Let_def using st slices by simp
  then have "read_line ?buf limits KBulk ?d (length pre + length ?d + 3) st
     = Inr (Some (Value (BulkString b)), st\<lparr>scan := length pre + (length ?d + 3 + length b + 2)\<rparr>)"
    using st b by (simp add: read_line_def parse_integer_decimal [OF len] headroom_def payload_bytes_def finish_value_def)
  from step_line [OF st _ decimal_no_crlf this]
  have "step ?buf limits st = after_value ?buf limits (BulkString b) (st\<lparr>scan := length pre + (length ?d + 3 + length b + 2)\<rparr>)"
    by simp
  then show "step (pre @ frame_wire (BulkString b) @ rest) limits st =
      after_value (pre @ frame_wire (BulkString b) @ rest) limits (BulkString b)
        (st\<lparr>scan := length pre + length (frame_wire (BulkString b)), in_memory := in_memory st + kids_cost (BulkString b)\<rparr>)"
    by (simp add: kids_cost_def add.assoc)
qed

lemma reads_elements:
  assumes "\<forall>f\<in>set fs. reads_as limits f" "fs \<noteq> []" "scan st = length pre" "partial st = Start"
    and "stack st = \<lparr>remaining = length fs, elements = es\<rparr> # stk"
    and "list_all (sendable (MAX_ARRAY_DEPTH - Suc (length stk))) fs"
    and "in_memory st + sum_list (map frame_cost fs) \<le> max_in_memory limits"
  shows "step (pre @ concat (map frame_wire fs) @ rest) limits st =
    after_value (pre @ concat (map frame_wire fs) @ rest) limits (Array (es @ fs))
      (st\<lparr>scan := length pre + length (concat (map frame_wire fs)), stack := stk,
          in_memory := in_memory st + sum_list (map frame_cost fs)\<rparr>)"
  using assms
proof (induction fs arbitrary: pre es st)
  case (Cons f fs)
  let ?buf = "pre @ frame_wire f @ concat (map frame_wire fs) @ rest"
  let ?used = "in_memory st + frame_cost f"
  let ?st1 = "st\<lparr>scan := length pre + length (frame_wire f), in_memory := in_memory st + kids_cost f\<rparr>"
  let ?st2 = "?st1\<lparr>stack := \<lparr>remaining = length fs, elements = es @ [f]\<rparr> # stk, in_memory := ?used\<rparr>"
  have step: "step ?buf limits st = after_value ?buf limits f ?st1"
    using Cons.prems unfolding reads_as_def by simp
  have "charge limits f (in_memory ?st1) = Some ?used"
    using charge_ok [of "in_memory ?st1" f limits] Cons.prems(7) by (simp add: frame_cost_split)
  then have place: "place limits (Value f) ?st1 =
     (if fs = [] then place limits (Value (Array (es @ [f]))) (?st1\<lparr>stack := stk, in_memory := ?used\<rparr>) else Inr (None, ?st2))"
    using Cons.prems(5) by (simp split: sum.split)
  show ?case
  proof (cases "fs = []")
    case True
    then show ?thesis using step place by (simp add: after_value_def)
  next
    case False
    have "step ?buf limits st = step ?buf limits ?st2" using step place False by (simp add: after_value_def)
    also have "\<dots> = step ((pre @ frame_wire f) @ concat (map frame_wire fs) @ rest) limits ?st2" by simp
    also have "\<dots> = after_value ((pre @ frame_wire f) @ concat (map frame_wire fs) @ rest) limits (Array ((es @ [f]) @ fs))
      (?st2\<lparr>scan := length (pre @ frame_wire f) + length (concat (map frame_wire fs)), stack := stk,
          in_memory := in_memory ?st2 + sum_list (map frame_cost fs)\<rparr>)"
      using Cons.prems False by (intro Cons.IH) simp_all
    finally show ?thesis by (simp add: add.assoc)
  qed
qed simp

lemma reads_as_Array:
  assumes kids: "\<forall>f\<in>set fs. reads_as limits f"
  shows "reads_as limits (Array fs)"
  unfolding reads_as_def
proof (intro allI impI)
  fix pre rest :: bytes and st :: decoding
  assume st: "scan st = length pre" "partial st = Start"
    and s: "sendable (MAX_ARRAY_DEPTH - length (stack st)) (Array fs)"
      "in_memory st + frame_cost (Array fs) \<le> max_in_memory limits"
  let ?line = "encode_line 42 (decimal (length fs))"
  let ?buf = "pre @ ?line @ concat (map frame_wire fs) @ rest"
  let ?st1 = "st\<lparr>scan := length pre + length ?line\<rparr>"
  let ?st2 = "?st1\<lparr>stack := \<lparr>remaining = length fs, elements = []\<rparr> # stack st\<rparr>"
  have len: "length fs < 2 ^ 63" using s(1) by (simp add: MAX_ARRAY_LEN_def)
  have "array_header (decimal (length fs)) limits st = Inr (length fs)"
    using s costs_ge [of fs] by (simp add: array_header_def parse_integer_decimal [OF len] headroom_def)
  then have "read_element ?buf limits st = Inr (Some (ArrayHeader (length fs)), ?st1)"
    by (simp add: read_element_line [OF refl st kind_of_simps(5) decimal_no_crlf] read_line_def add.assoc)
  then have step: "step ?buf limits st =
     (if fs = [] then after_value ?buf limits (Array []) ?st1 else step ?buf limits ?st2)"
    by (simp add: step_header)
  show "step (pre @ frame_wire (Array fs) @ rest) limits st =
      after_value (pre @ frame_wire (Array fs) @ rest) limits (Array fs)
        (st\<lparr>scan := length pre + length (frame_wire (Array fs)), in_memory := in_memory st + kids_cost (Array fs)\<rparr>)"
  proof (cases "fs = []")
    case True
    then show ?thesis using step by (simp add: kids_cost_def add.assoc)
  next
    case False
    have "step ((pre @ ?line) @ concat (map frame_wire fs) @ rest) limits ?st2 =
      after_value ((pre @ ?line) @ concat (map frame_wire fs) @ rest) limits (Array ([] @ fs))
        (?st2\<lparr>scan := length (pre @ ?line) + length (concat (map frame_wire fs)), stack := stack st,
          in_memory := in_memory ?st2 + sum_list (map frame_cost fs)\<rparr>)"
      using st s kids False by (intro reads_elements) simp_all
    then show ?thesis using step False by (simp add: kids_cost_def add.assoc)
  qed
qed

lemma every_frame_reads: "reads_as limits f"
  by (induction f) (auto intro: reads_as_leaf reads_as_Bulk reads_as_Array)

lemma step_encoded:
  assumes st: "scan st = length pre" "partial st = Start" "stack st = []" "in_memory st = 0" "frame_start st = scan st"
    and f: "sendable MAX_ARRAY_DEPTH f" "frame_cost f \<le> max_in_memory limits" "length (encode_frame f) \<le> max_frame_bytes limits"
  shows "step (pre @ encode_frame f @ rest) limits st =
    Inr (Some f, st\<lparr>scan := length pre + length (encode_frame f)\<rparr>)"
proof -
  have "charge limits f (kids_cost f) = Some (frame_cost f)"
    using charge_ok [of "kids_cost f" f limits] f(2) by (simp add: frame_cost_split)
  then show ?thesis
    using every_frame_reads [of limits f] st f
    by (simp add: reads_as_def encode_frame_wire after_value_def check_frame_bytes_def)
qed

section \<open>More bytes\<close>

text \<open>Bytes appended to the buffer change nothing that was already decided, and a read
  that ran out can be taken up again from where it stopped.\<close>

lemma get_append: "get xs i = Some x \<Longrightarrow> get (xs @ ys) i = Some x"
  by (auto simp: get_def nth_append split: if_splits)

lemma crlf_from_append: "crlf_from buf i = Inl j \<Longrightarrow> crlf_from (buf @ ys) i = Inl j"
proof (induction buf i rule: crlf_from.induct)
  case (1 buf i)
  show ?case
    using 1 by (subst (asm) (2) crlf_from.simps, subst crlf_from.simps) (auto simp: nth_append split: if_splits)
qed

lemma crlf_from_resume:
  "crlf_from buf i = Inr j \<Longrightarrow> i \<le> j \<and> length buf \<le> j + 1 \<and> crlf_from (buf @ ys) i = crlf_from (buf @ ys) j"
proof (induction buf i rule: crlf_from.induct)
  case (1 buf i)
  show ?case
  proof (cases "i + 1 < length buf \<and> \<not> (buf ! i = 13 \<and> buf ! (i + 1) = 10)")
    case True
    then have "crlf_from buf i = crlf_from buf (i + 1)" by (subst crlf_from.simps) auto
    moreover have "crlf_from (buf @ ys) i = crlf_from (buf @ ys) (i + 1)"
      using True by (subst crlf_from.simps) (auto simp: nth_append)
    ultimately show ?thesis using 1 True by auto
  next
    case False
    then have "j = i \<and> length buf \<le> i + 1"
      using 1(2) by (subst (asm) crlf_from.simps) (auto split: if_splits)
    then show ?thesis by simp
  qed
qed

lemma find_crlf_append: "find_crlf buf p a = (Some r, q) \<Longrightarrow> find_crlf (buf @ ys) p a = (Some r, q)"
  by (auto simp: find_crlf_def Let_def crlf_from_append split: sum.splits)

lemma find_crlf_resume:
  assumes "find_crlf buf p a = (None, q)"
  shows "\<exists>j. q = Line j \<and> a \<le> j \<and> length buf \<le> j + 1 \<and> find_crlf (buf @ ys) p a = find_crlf (buf @ ys) q a"
proof -
  define i where "i = (case p of Line s \<Rightarrow> if s > a then s else a | _ \<Rightarrow> a)"
  obtain j where j: "crlf_from buf i = Inr j" "q = Line j"
    using assms by (auto simp: find_crlf_def Let_def i_def split: sum.splits)
  have "a \<le> i" by (auto simp: i_def split: partial.split)
  then have "(if a < j then j else a) = j" using crlf_from_resume [OF j(1), of ys] by simp
  with \<open>a \<le> i\<close> crlf_from_resume [OF j(1), of ys] j show ?thesis
    by (auto simp: find_crlf_def Let_def simp flip: i_def)
qed

lemma finish_value_append:
  "finish_value buf h l st = Inr (Some el, st') \<Longrightarrow> finish_value (buf @ ys) h l st = Inr (Some el, st')"
  "finish_value buf h l st = Inl e \<Longrightarrow> finish_value (buf @ ys) h l st = Inl e"
  by (auto simp: finish_value_def finish_bulk_def Let_def split: if_splits)

lemma finish_value_None:
  "finish_value buf h l st = Inr (None, st') \<longleftrightarrow> st' = st \<and> length buf < scan st + (h + l + 2)"
  by (auto simp: finish_value_def finish_bulk_def Let_def)

lemma read_line_shape:
  "(\<exists>r. (\<forall>buf. read_line buf limits kb field after st = r) \<and> (\<forall>s. r \<noteq> Inr (None, s))) \<or>
   (\<exists>h l. \<forall>buf. read_line buf limits kb field after st = finish_value buf h l (st\<lparr>partial := BulkBody h l\<rparr>))"
proof (cases "kb = KBulk \<and> (\<exists>len. parse_integer field = Inr len \<and> len \<ge> 0 \<and> len \<le> int MAX_BULK_LEN \<and>
    FRAME_SIZE + nat len \<le> headroom limits (in_memory st))")
  case True
  then obtain len where "kb = KBulk" "parse_integer field = Inr len" "len \<ge> 0" "len \<le> int MAX_BULK_LEN"
    "FRAME_SIZE + nat len \<le> headroom limits (in_memory st)" by auto
  then show ?thesis
    by (intro disjI2 exI [of _ "after - scan st"] exI [of _ "nat len"]) (simp add: read_line_def Let_def)
next
  case False
  then show ?thesis
    by (intro disjI1 exI [of _ "read_line [] limits kb field after st"], cases kb)
       (auto simp: read_line_def Let_def split: sum.split)
qed

lemma skip_blank_stop:
  "skip_blank buf i = (a, wait) \<Longrightarrow>
    i \<le> a \<and> skip_blank (buf @ ys) i = skip_blank (buf @ ys) a \<and>
    (wait \<longrightarrow> length buf = a + 1) \<and> (\<not> wait \<longrightarrow> a < length buf \<longrightarrow> skip_blank (buf @ ys) a = (a, False))"
proof (induction buf i rule: skip_blank.induct)
  case (1 buf i)
  show ?case
  proof (cases "get buf i = Some 13 \<and> get buf (i + 1) = Some 10")
    case True
    then have "skip_blank buf i = skip_blank buf (i + 2)" by (subst skip_blank.simps) simp
    moreover have "skip_blank (buf @ ys) i = skip_blank (buf @ ys) (i + 2)"
      using True get_append by (subst skip_blank.simps) fastforce
    ultimately show ?thesis using 1 True by auto
  next
    case False
    then have a: "a = i" "wait \<longleftrightarrow> get buf i = Some 13 \<and> get buf (i + 1) = None"
      using 1(2) by (subst (asm) skip_blank.simps; auto split: option.splits if_splits)+
    have "skip_blank (buf @ ys) i = (i, False)" if "\<not> wait" "i < length buf"
      using that False a by (subst skip_blank.simps) (auto simp: get_def nth_append split: option.splits if_splits)
    then show ?thesis using a by (auto simp: get_def split: if_splits)
  qed
qed

lemma read_line_append:
  "read_line buf limits kb field after st = Inr (Some el, st') \<Longrightarrow> read_line (buf @ ys) limits kb field after st = Inr (Some el, st')"
  "read_line buf limits kb field after st = Inl e \<Longrightarrow> read_line (buf @ ys) limits kb field after st = Inl e"
  using read_line_shape [of limits kb field after st] by (auto simp: finish_value_append)

lemma read_line_None:
  assumes "read_line buf limits kb field after st = Inr (None, st1)"
  shows "\<exists>h l. st1 = st\<lparr>partial := BulkBody h l\<rparr> \<and> length buf < scan st + (h + l + 2) \<and>
    (\<forall>buf. read_line buf limits kb field after st = finish_value buf h l st1)"
  using read_line_shape [of limits kb field after st]
proof (elim disjE exE conjE)
  fix h l assume *: "\<forall>buf. read_line buf limits kb field after st = finish_value buf h l (st\<lparr>partial := BulkBody h l\<rparr>)"
  with assms have "finish_value buf h l (st\<lparr>partial := BulkBody h l\<rparr>) = Inr (None, st1)" by simp
  with * show ?thesis by (auto simp: finish_value_None)
qed (use assms in auto)

lemma take_find_append: "find_crlf buf p i = (Some (a, b), q) \<Longrightarrow> take a (buf @ ys) = take a buf"
  using find_crlf_Some [of buf p i a b q] by simp

lemma read_at_append:
  assumes "read_at buf limits st = r" "\<forall>s. r \<noteq> Inr (None, s)"
  shows "read_at (buf @ ys) limits st = r"
proof -
  obtain b where b: "get buf (scan st) = Some b"
    using assms by (cases "get buf (scan st)") (auto simp: read_at_def)
  show ?thesis
  proof (cases "kind_of b")
    case None
    then show ?thesis using assms b get_append [OF b, of ys] by (simp add: read_at_def)
  next
    case (Some kb)
    obtain a c p where f: "find_crlf buf (partial st) (scan st + 1) = (Some (a, c), p)"
      using assms b Some
      by (cases "find_crlf buf (partial st) (scan st + 1)") (auto simp: read_at_def split: option.splits)
    have "read_line buf limits kb (drop (scan st + 1) (take a buf)) c (st\<lparr>partial := p\<rparr>) = r"
      using assms(1) b Some f by (simp add: read_at_def)
    then have "read_line (buf @ ys) limits kb (drop (scan st + 1) (take a buf)) c (st\<lparr>partial := p\<rparr>) = r"
      using assms(2) read_line_append by (metis not_None_eq old.sum.exhaust prod.exhaust)
    then show ?thesis
      using Some get_append [OF b, of ys] find_crlf_append [OF f, of ys] find_crlf_Some [OF f]
      by (simp add: read_at_def)
  qed
qed

lemma read_line_after:
  "read_line buf limits kb field after st = Inr (Some el, st') \<Longrightarrow> after \<le> scan st'"
  by (auto simp: read_line_def Let_def finish_value_def finish_bulk_def split: kind_byte.splits sum.splits prod.splits if_splits)

lemma find_crlf_Line: "find_crlf buf (Line j) i = (Some (a, c), q) \<Longrightarrow> j + 2 \<le> c"
  by (auto simp: find_crlf_def Let_def split: sum.splits if_splits dest!: crlf_fromD)

text \<open>The three ways to run out: no type byte, no end of line, no whole bulk.\<close>

lemma read_at_None:
  assumes "read_at buf limits st = Inr (None, st1)" "partial st = Start \<or> (\<exists>i. partial st = Line i)"
  shows "st1 = st \<and> length buf \<le> scan st \<or>
    scan st < length buf \<and> (\<exists>p. p \<noteq> Start \<and> st1 = st\<lparr>partial := p\<rparr>) \<and>
    read_at (buf @ ys) limits st = read_element (buf @ ys) limits st1 \<and>
    (\<forall>el st'. read_element (buf @ ys) limits st1 = Inr (Some el, st') \<longrightarrow> length buf \<le> scan st')"
proof (cases "get buf (scan st)")
  case None
  then show ?thesis using assms(1) by (auto simp: read_at_def get_def split: if_splits)
next
  case (Some b)
  then have g: "get (buf @ ys) (scan st) = Some b" and lt: "scan st < length buf"
    by (auto simp: get_append get_eq_Some_iff nth_append)
  obtain kb where kb: "kind_of b = Some kb"
    using assms(1) Some by (auto simp: read_at_def split: option.splits)
  obtain r p where r: "find_crlf buf (partial st) (scan st + 1) = (r, p)" by fastforce
  show ?thesis
  proof (cases r)
    case None
    obtain j where j: "p = Line j" "length buf \<le> j + 1"
        "find_crlf (buf @ ys) (partial st) (scan st + 1) = find_crlf (buf @ ys) (Line j) (scan st + 1)"
      using find_crlf_resume r None by blast
    have st1: "st1 = st\<lparr>partial := Line j\<rparr>" using assms(1) Some kb r None j(1) by (simp add: read_at_def)
    have same: "read_at (buf @ ys) limits st = read_element (buf @ ys) limits st1"
      using g kb j st1 by (auto simp: read_element_def blanks_skipped_def read_at_def split: prod.split option.split)
    have "length buf \<le> scan st'" if el: "read_at (buf @ ys) limits st = Inr (Some el, st')" for el st'
    proof -
      obtain a c q where f: "find_crlf (buf @ ys) (Line j) (scan st + 1) = (Some (a, c), q)"
        using el g kb j(3) by (cases "find_crlf (buf @ ys) (Line j) (scan st + 1)") (auto simp: read_at_def split: option.splits)
      with el g kb j(3) have "c \<le> scan st'"
        using find_crlf_Some [OF f] by (auto simp: read_at_def dest: read_line_after)
      then show ?thesis using f j(2) by (auto dest: find_crlf_Line)
    qed
    then show ?thesis using lt st1 same by auto
  next
    case (Some ends)
    obtain a c where ends: "ends = (a, c)" by fastforce
    have f: "find_crlf buf (partial st) (scan st + 1) = (Some (a, c), p)" using r Some ends by simp
    have rl: "read_line buf limits kb (drop (scan st + 1) (take a buf)) c (st\<lparr>partial := p\<rparr>) = Inr (None, st1)"
      using assms(1) \<open>get buf (scan st) = Some b\<close> kb f by (simp add: read_at_def)
    obtain h l where "st1 = st\<lparr>partial := BulkBody h l\<rparr>"
      "length buf < scan st + (h + l + 2)"
      "\<And>b. read_line b limits kb (drop (scan st + 1) (take a (buf @ ys))) c (st\<lparr>partial := p\<rparr>) = finish_value b h l st1"
      using read_line_None [OF rl] take_find_append [OF f, of ys] by auto
    then show ?thesis
      using lt g kb find_crlf_append [OF f, of ys]
      by (auto simp: read_element_def read_at_def finish_value_def finish_bulk_def Let_def intro!: exI [of _ "BulkBody h l"]
          split: if_splits)
  qed
qed

lemma blanks_skipped_stop:
  assumes "blanks_skipped buf st = (s, wait)"
  shows "blanks_skipped (buf @ ys) st = blanks_skipped (buf @ ys) s"
    "\<not> wait \<Longrightarrow> scan s < length buf \<Longrightarrow> blanks_skipped (buf @ ys) st = (s, False)"
    "wait \<Longrightarrow> length buf = scan s + 1 \<and> stack s = [] \<and> partial s = Start"
    "partial s = partial st" "stack s = stack st" "scan st \<le> scan s"
proof -
  obtain a w where a: "skip_blank buf (scan st) = (a, w)" by fastforce
  note stop = skip_blank_stop [OF a, of ys]
  note s = assms a
  show "partial s = partial st" "stack s = stack st" "scan st \<le> scan s"
      "wait \<Longrightarrow> length buf = scan s + 1 \<and> stack s = [] \<and> partial s = Start"
    using s stop by (auto simp: blanks_skipped_def split: if_splits)
  show "\<not> wait \<Longrightarrow> scan s < length buf \<Longrightarrow> blanks_skipped (buf @ ys) st = (s, False)"
    using s stop by (auto simp: blanks_skipped_def split: if_splits)
  obtain a' w' where a': "skip_blank (buf @ ys) a = (a', w')" by fastforce
  have "a \<le> a'" using skip_blank_ge [of a "buf @ ys"] a' by simp
  then show "blanks_skipped (buf @ ys) st = blanks_skipped (buf @ ys) s"
    using s stop a' by (auto simp: blanks_skipped_def split: if_splits)
qed

lemma read_element_skips:
  "(\<And>h l. partial st \<noteq> BulkBody h l) \<Longrightarrow> read_element buf limits st =
    (let (s, wait) = blanks_skipped buf st in if wait then Inr (None, s) else read_at buf limits s)"
  by (simp add: read_element_def split: partial.split)

lemma read_element_append:
  assumes r: "read_element buf limits st = r" "\<forall>s. r \<noteq> Inr (None, s)"
  shows "read_element (buf @ ys) limits st = r"
proof (cases "\<exists>h l. partial st = BulkBody h l")
  case True
  then obtain h l where p: "partial st = BulkBody h l" by auto
  then have "finish_value buf h l st = r" using r(1) by (simp add: read_element_def)
  then have "finish_value (buf @ ys) h l st = r"
    using r(2) finish_value_append by (metis not_None_eq old.sum.exhaust prod.exhaust)
  then show ?thesis using p by (simp add: read_element_def)
next
  case False
  obtain s wait where s: "blanks_skipped buf st = (s, wait)" by fastforce
  have "\<not> wait" and at: "read_at buf limits s = r"
    using r False s by (auto simp: read_element_skips split: if_splits)
  moreover from this r(2) have "scan s < length buf" by (auto simp: read_at_def get_def split: if_splits)
  ultimately show ?thesis
    using blanks_skipped_stop(2) [OF s, of ys] False read_at_append [OF at r(2), of ys] by (simp add: read_element_skips)
qed

text \<open>Where a call runs out, and the state it leaves: reading on from that state with more
  bytes is reading on from the old one, and the next element ends past the old buffer,
  unless the decoder stands between two frames.\<close>

lemma read_element_resume:
  assumes none: "read_element buf limits st = Inr (None, st1)"
  shows "read_element (buf @ ys) limits st = read_element (buf @ ys) limits st1"
    and "stack st1 = [] \<and> partial st1 = Start \<and> length buf \<le> scan st1 + 1 \<or>
      \<not> (stack st1 = [] \<and> partial st1 = Start) \<and>
      (\<forall>el st'. read_element (buf @ ys) limits st1 = Inr (Some el, st') \<longrightarrow> length buf \<le> scan st')"
proof -
  have "read_element (buf @ ys) limits st = read_element (buf @ ys) limits st1 \<and>
     (stack st1 = [] \<and> partial st1 = Start \<and> length buf \<le> scan st1 + 1 \<or>
      \<not> (stack st1 = [] \<and> partial st1 = Start) \<and>
      (\<forall>el st'. read_element (buf @ ys) limits st1 = Inr (Some el, st') \<longrightarrow> length buf \<le> scan st'))"
  proof (cases "\<exists>h l. partial st = BulkBody h l")
    case True
    then show ?thesis
      using none by (auto simp: read_element_def finish_value_None)
        (auto simp: finish_value_def finish_bulk_def Let_def split: if_splits)
  next
    case False
    obtain s wait where s: "blanks_skipped buf st = (s, wait)" by fastforce
    note stop = blanks_skipped_stop(1,2) [OF s, of ys] blanks_skipped_stop(3-6) [OF s]
    have nb: "\<And>h l. partial s \<noteq> BulkBody h l" using False stop(4) by simp
    then have ps: "partial s = Start \<or> (\<exists>i. partial s = Line i)" by (cases "partial s") auto
    have same: "read_element (buf @ ys) limits st = read_element (buf @ ys) limits s"
      using False nb stop(1) by (simp add: read_element_skips)
    show ?thesis
    proof (cases wait)
      case True
      then have "st1 = s" using none False s by (simp add: read_element_skips)
      then show ?thesis using same stop(3) True by simp
    next
      case nowait: False
      then have at: "read_at buf limits s = Inr (None, st1)" using none False s by (simp add: read_element_skips)
      from read_at_None [OF at ps, of ys] show ?thesis
      proof (elim disjE conjE exE)
        assume e: "st1 = s" "length buf \<le> scan s"
        have "length buf \<le> scan st'" if "read_element (buf @ ys) limits st1 = Inr (Some el, st')" for el st'
          using read_element_Some [OF that] e by simp
        then show ?thesis using e same by auto
      next
        fix p
        assume e: "scan s < length buf" "p \<noteq> Start" "st1 = s\<lparr>partial := p\<rparr>"
          "read_at (buf @ ys) limits s = read_element (buf @ ys) limits st1"
          "\<forall>el st'. read_element (buf @ ys) limits st1 = Inr (Some el, st') \<longrightarrow> length buf \<le> scan st'"
        have "read_element (buf @ ys) limits st = read_at (buf @ ys) limits s"
          using False stop(2) [OF nowait e(1)] by (simp add: read_element_skips)
        then show ?thesis using e by simp
      qed
    qed
  qed
  then show "read_element (buf @ ys) limits st = read_element (buf @ ys) limits st1"
    and "stack st1 = [] \<and> partial st1 = Start \<and> length buf \<le> scan st1 + 1 \<or>
      \<not> (stack st1 = [] \<and> partial st1 = Start) \<and>
      (\<forall>el st'. read_element (buf @ ys) limits st1 = Inr (Some el, st') \<longrightarrow> length buf \<le> scan st')"
    by auto
qed

section \<open>A call over more bytes\<close>

text \<open>Between two frames nothing is half read, and the next frame starts at the read
  position.\<close>

definition between :: "decoding \<Rightarrow> bool" where
  "between st \<longleftrightarrow> stack st = [] \<and> partial st = Start"

definition in_order :: "decoding \<Rightarrow> bool" where
  "in_order st \<longleftrightarrow> frame_start st \<le> scan st \<and> (between st \<longrightarrow> frame_start st = scan st) \<and>
     (\<forall>i. partial st = Line i \<longrightarrow> frame_start st \<le> i)"

text \<open>The loop by its outcomes, and induction over its turns.\<close>

lemma step_outcomes:
  obtains (unreadable) e where "read_element buf limits st = Inl e" "step buf limits st = Inl e"
  | (dry) st1 where "read_element buf limits st = Inr (None, st1)"
      "step buf limits st = (if check_frame_bytes (length buf - frame_start st1) limits then Inr (None, st1) else Inl OverBuffer)"
  | (refused) el st1 e where "read_element buf limits st = Inr (Some el, st1)" "place limits el st1 = Inl e"
      "step buf limits st = Inl e"
  | (complete) el st1 f st2 where "read_element buf limits st = Inr (Some el, st1)" "place limits el st1 = Inr (Some f, st2)"
      "step buf limits st = (if check_frame_bytes (scan st2 - frame_start st2) limits then Inr (Some f, st2) else Inl OverBuffer)"
  | (more) el st1 st2 where "read_element buf limits st = Inr (Some el, st1)" "place limits el st1 = Inr (None, st2)"
      "step buf limits st = step buf limits st2"
proof (cases "read_element buf limits st")
  case (Inl e)
  then show ?thesis by (intro unreadable, assumption, subst step.simps) simp
next
  case (Inr rs)
  obtain r st1 where r: "read_element buf limits st = Inr (r, st1)" using Inr by (cases rs) auto
  show ?thesis
  proof (cases r)
    case None
    show ?thesis using r None by (intro dry [of st1], simp, subst step.simps) simp
  next
    case (Some el)
    show ?thesis
    proof (cases "place limits el st1")
      case (Inl e)
      show ?thesis using r Some Inl by (intro refused [of el st1 e], simp, simp, subst step.simps) simp
    next
      case (Inr gs)
      obtain g st2 where g: "place limits el st1 = Inr (g, st2)" using Inr by (cases gs) auto
      show ?thesis
      proof (cases g)
        case None
        show ?thesis using r Some g None by (intro more [of el st1 st2], simp, simp, subst step.simps) simp
      next
        case (Some f)
        show ?thesis using r \<open>r = Some el\<close> g Some by (intro complete [of el st1 f st2], simp, simp, subst step.simps) simp
      qed
    qed
  qed
qed

lemma step_turns:
  assumes "\<And>st. (\<And>el st1 st2. read_element buf limits st = Inr (Some el, st1) \<Longrightarrow> place limits el st1 = Inr (None, st2) \<Longrightarrow> P st2) \<Longrightarrow> P st"
  shows "P st"
proof (induction st rule: measure_induct_rule [of "\<lambda>st. length buf - scan st"])
  case (less st)
  show ?case
  proof (rule assms)
    fix el st1 st2
    assume "read_element buf limits st = Inr (Some el, st1)" "place limits el st1 = Inr (None, st2)"
    then have "length buf - scan st2 < length buf - scan st" by (auto dest!: read_element_Some place_scan)
    then show "P st2" by (rule less.IH)
  qed
qed

lemma step_same: "read_element buf limits st = read_element buf limits st' \<Longrightarrow> step buf limits st = step buf limits st'"
  by (simp add: step.simps [of _ _ st] step.simps [of _ _ st'])

lemma step_more:
  "read_element buf limits st = Inr (Some el, st1) \<Longrightarrow> place limits el st1 = Inr (None, st2) \<Longrightarrow> step buf limits st = step buf limits st2"
  by (subst step.simps) simp

lemmas read_some_append = read_element_append [of _ _ _ "Inr (Some el, st1)" for el st1, simplified]

lemma step_append_Some:
  "step buf limits st = Inr (Some f, st') \<Longrightarrow> step (buf @ ys) limits st = Inr (Some f, st')"
proof (induction st rule: step_turns [of buf limits])
  case (1 st)
  from step_outcomes [of buf limits st] show ?case
  proof cases
    case (complete el st1 g st2)
    then show ?thesis using "1.prems" by (subst step.simps) (simp add: read_some_append split: if_splits)
  next
    case (more el st1 st2)
    then show ?thesis using 1 by (simp add: read_some_append step_more)
  qed (use "1.prems" in \<open>auto split: if_splits\<close>)
qed

lemma step_resume:
  "step buf limits st = Inr (None, st1) \<Longrightarrow> step (buf @ ys) limits st = step (buf @ ys) limits st1"
proof (induction st rule: step_turns [of buf limits])
  case (1 st)
  from step_outcomes [of buf limits st] show ?case
  proof cases
    case (dry s)
    then have "s = st1" using "1.prems" by (simp split: if_splits)
    then show ?thesis using read_element_resume(1) [OF dry(1)] by (intro step_same) simp
  next
    case (more el st1' st2)
    then show ?thesis using 1 by (simp add: read_some_append step_more)
  qed (use "1.prems" in \<open>auto split: if_splits\<close>)
qed

lemma finish_value_frame:
  "finish_value buf h l st = Inr (r, st') \<Longrightarrow> frame_start st' = frame_start st \<and> stack st' = stack st \<and>
    (r \<noteq> None \<longrightarrow> partial st' = Start) \<and> (r = None \<longrightarrow> st' = st)"
  by (auto simp: finish_value_def finish_bulk_def Let_def split: if_splits)

lemma read_line_frame:
  assumes "read_line buf limits kb field after st = Inr (r, st')" "partial st = Start"
  shows "frame_start st' = frame_start st \<and> stack st' = stack st \<and> (r \<noteq> None \<longrightarrow> partial st' = Start) \<and>
    (r = None \<longrightarrow> scan st' = scan st \<and> (\<exists>h l. partial st' = BulkBody h l))"
  using assms
  by (auto simp: read_line_def Let_def split: kind_byte.splits sum.splits prod.splits if_splits dest!: finish_value_frame)

lemma read_at_frame:
  assumes "read_at buf limits st = Inr (r, st')"
  shows "frame_start st' = frame_start st \<and> stack st' = stack st \<and> (r \<noteq> None \<longrightarrow> partial st' = Start) \<and>
    (r = None \<longrightarrow> st' = st \<or> scan st' = scan st \<and> partial st' \<noteq> Start \<and> (\<forall>i. partial st' = Line i \<longrightarrow> scan st < i))"
proof (cases "\<exists>b. get buf (scan st) = Some b \<and> kind_of b \<noteq> None")
  case True
  then obtain b kb where b: "get buf (scan st) = Some b" "kind_of b = Some kb" by auto
  obtain ends p where f: "find_crlf buf (partial st) (scan st + 1) = (ends, p)" by fastforce
  show ?thesis
  proof (cases ends)
    case None
    then show ?thesis using assms b f find_crlf_resume [of buf "partial st" "scan st + 1" p "[]"] by (auto simp: read_at_def)
  next
    case (Some ac)
    obtain a c where ac: "ac = (a, c)" by fastforce
    have "p = Start" using f Some ac find_crlf_Some by blast
    then have "read_line buf limits kb (drop (scan st + 1) (take a buf)) c (st\<lparr>partial := Start\<rparr>) = Inr (r, st')"
      using assms b f Some ac by (simp add: read_at_def)
    from read_line_frame [OF this] show ?thesis by auto
  qed
next
  case False
  then show ?thesis using assms by (auto simp: read_at_def split: option.splits)
qed

lemma blanks_skipped_order:
  assumes "blanks_skipped buf st = (s, wait)" "in_order st"
  shows "in_order s" "\<not> between st \<Longrightarrow> s = st"
  using assms by (auto simp: blanks_skipped_def in_order_def between_def split: if_splits prod.splits)

lemma read_element_order:
  assumes r: "read_element buf limits st = Inr (r, st')" "in_order st"
  shows "stack st' = stack st \<and> (\<not> between st \<longrightarrow> frame_start st' = frame_start st) \<and>
    (r = None \<longrightarrow> in_order st') \<and> (r \<noteq> None \<longrightarrow> partial st' = Start \<and> frame_start st' \<le> scan st')"
proof (cases "\<exists>h l. partial st = BulkBody h l")
  case True
  then obtain h l where p: "partial st = BulkBody h l" by auto
  then have f: "finish_value buf h l st = Inr (r, st')" using r(1) by (simp add: read_element_def)
  have "scan st \<le> scan st'"
    using f finish_value_Some finish_value_frame [OF f] by (cases r) fastforce+
  then show ?thesis using finish_value_frame [OF f] r(2) by (auto simp: in_order_def)
next
  case False
  obtain s wait where s: "blanks_skipped buf st = (s, wait)" by fastforce
  note order = blanks_skipped_order [OF s r(2)]
  show ?thesis
  proof (cases wait)
    case True
    then show ?thesis
      using r False s order blanks_skipped_stop(5) [OF s] by (auto simp: read_element_skips)
  next
    case nowait: False
    then have at: "read_at buf limits s = Inr (r, st')" using r False s by (simp add: read_element_skips)
    have "scan s \<le> scan st'" using at read_at_Some read_at_frame [OF at] by (cases r) fastforce+
    then show ?thesis
      using read_at_frame [OF at] order blanks_skipped_stop(5) [OF s] by (fastforce simp: in_order_def between_def)
  qed
qed

lemma cascade_None: "cascade limits v used stk = Inr (None, stk', used') \<Longrightarrow> stk' \<noteq> []"
  by (induction limits v used stk rule: cascade.induct) (auto simp: Let_def split: option.splits if_splits)

lemma cascade_Some: "cascade limits v used stk = Inr (Some f, stk', used') \<Longrightarrow> stk' = [] \<and> used' = 0"
  by (induction limits v used stk rule: cascade.induct) (auto simp: Let_def split: option.splits if_splits)

lemma place_stack:
  "place limits el st = Inr (None, st') \<Longrightarrow> stack st' \<noteq> []"
  "place limits el st = Inr (Some f, st') \<Longrightarrow> stack st' = []"
  by (cases el; auto split: sum.splits if_splits dest: cascade_None cascade_Some)+

lemma place_order:
  assumes "read_element buf limits st = Inr (Some el, st1)" "in_order st" "place limits el st1 = Inr (None, st2)"
  shows "in_order st2" "\<not> between st2" "\<not> between st \<Longrightarrow> frame_start st2 = frame_start st"
  using read_element_order [OF assms(1,2)] place_scan [OF assms(3)] place_stack(1) [OF assms(3)]
  by (auto simp: in_order_def between_def)

lemma step_advances:
  "step buf limits st = Inr (Some f, st') \<Longrightarrow> scan st < scan st' \<and> scan st' \<le> length buf"
proof (induction st rule: step_turns [of buf limits])
  case (1 st)
  from step_outcomes [of buf limits st] show ?case
  proof cases
    case (complete el st1 g st2)
    then show ?thesis using "1.prems" place_scan read_element_Some by (fastforce split: if_splits)
  next
    case (more el st1 st2)
    then show ?thesis using 1 place_scan [OF more(2)] read_element_Some [OF more(1)] by fastforce
  qed (use "1.prems" in \<open>auto split: if_splits\<close>)
qed

lemma step_order:
  "step buf limits st = Inr (r, st') \<Longrightarrow> in_order st \<Longrightarrow>
    (r = None \<longrightarrow> in_order st') \<and> (r \<noteq> None \<longrightarrow> in_order (finish_frame st'))"
proof (induction st rule: step_turns [of buf limits])
  case (1 st)
  from step_outcomes [of buf limits st] show ?case
  proof cases
    case (dry st1)
    then show ?thesis using 1 read_element_order [OF dry(1)] by (simp split: if_splits)
  next
    case (complete el st1 f st2)
    then show ?thesis using 1 place_stack(2) by (auto simp: in_order_def finish_frame_def between_def split: if_splits)
  next
    case (more el st1 st2)
    then show ?thesis using 1 place_order(1) by simp
  qed (use 1 in auto)
qed

text \<open>A frame already past the limit is refused whatever follows.\<close>

lemma step_too_large:
  "\<not> between st \<Longrightarrow> in_order st \<Longrightarrow> (\<forall>el st'. read_element buf limits st = Inr (Some el, st') \<longrightarrow> n \<le> scan st') \<Longrightarrow>
    max_frame_bytes limits < n - frame_start st \<Longrightarrow> n \<le> length buf \<Longrightarrow> \<exists>e. step buf limits st = Inl e"
proof (induction st rule: step_turns [of buf limits])
  case (1 st)
  from step_outcomes [of buf limits st] show ?case
  proof cases
    case (dry st1)
    then show ?thesis using 1 read_element_order [OF dry(1)] by (simp add: check_frame_bytes_def)
  next
    case (complete el st1 f st2)
    then show ?thesis
      using 1 read_element_order [OF complete(1)] place_scan [OF complete(2)] by (simp add: check_frame_bytes_def)
  next
    case (more el st1 st2)
    have "\<forall>el st'. read_element buf limits st2 = Inr (Some el, st') \<longrightarrow> n \<le> scan st'"
      using more "1.prems"(3) place_scan [OF more(2)] by (auto dest!: read_element_Some)
    then show ?thesis using 1 more place_order [OF more(1) _ more(2)] by simp
  qed auto
qed

lemma step_error:
  "step buf limits st = Inl e \<Longrightarrow> in_order st \<Longrightarrow> 0 < max_frame_bytes limits \<Longrightarrow> \<exists>e'. step (buf @ ys) limits st = Inl e'"
proof (induction st rule: step_turns [of buf limits])
  case (1 st)
  from step_outcomes [of buf limits st] show ?case
  proof cases
    case (unreadable e')
    then show ?thesis using read_element_append [OF unreadable(1), of ys] by (subst step.simps) simp
  next
    case (dry st1)
    note resume = read_element_resume [OF dry(1), of ys]
    have order: "in_order st1" using read_element_order [OF dry(1)] "1.prems"(2) by simp
    have over: "max_frame_bytes limits < length buf - frame_start st1"
      using "1.prems"(1) dry by (simp add: check_frame_bytes_def split: if_splits)
    then have "\<not> between st1" "\<forall>el st'. read_element (buf @ ys) limits st1 = Inr (Some el, st') \<longrightarrow> length buf \<le> scan st'"
      using resume(2) order "1.prems"(3) by (auto simp: in_order_def between_def)
    then have "\<exists>e. step (buf @ ys) limits st1 = Inl e" using order over by (intro step_too_large) auto
    then show ?thesis using step_same [OF resume(1)] by simp
  next
    case (refused el st1 e')
    then show ?thesis by (subst step.simps) (simp add: read_some_append)
  next
    case (complete el st1 f st2)
    then show ?thesis using "1.prems"(1) by (subst step.simps) (simp add: read_some_append split: if_splits)
  next
    case (more el st1 st2)
    then show ?thesis using 1 place_order [OF more(1) _ more(2)] by (simp add: read_some_append step_more)
  qed
qed

section \<open>The position in the buffer\<close>

text \<open>Offsets move with the bytes in front of them.\<close>

definition shift_on :: "nat \<Rightarrow> decoding \<Rightarrow> decoding" where
  "shift_on n st =
     st\<lparr>frame_start := frame_start st + n, scan := scan st + n,
        partial := (case partial st of Line s \<Rightarrow> Line (s + n) | p \<Rightarrow> p)\<rparr>"


lemma shift_on_simps [simp]:
  "frame_start (shift_on n st) = frame_start st + n" "scan (shift_on n st) = scan st + n"
  "stack (shift_on n st) = stack st" "in_memory (shift_on n st) = in_memory st"
  "partial (shift_on n st) = (case partial st of Line s \<Rightarrow> Line (s + n) | p \<Rightarrow> p)"
  by (simp_all add: shift_on_def)

definition shifted :: "nat \<Rightarrow> parse_error + ('a \<times> decoding) \<Rightarrow> parse_error + ('a \<times> decoding)" where
  "shifted n r = map_sum id (map_prod id (shift_on n)) r"

lemma shifted_simps [simp]:
  "shifted n (Inl e) = Inl e" "shifted n (Inr (r, st)) = Inr (r, shift_on n st)"
  by (simp_all add: shifted_def)

lemma get_shift: "get (pre @ buf) (i + length pre) = get buf i"
  by (simp add: get_def nth_append)

lemma crlf_from_shift:
  "crlf_from (pre @ buf) (i + length pre) = map_sum (\<lambda>j. j + length pre) (\<lambda>j. j + length pre) (crlf_from buf i)"
proof (induction buf i rule: crlf_from.induct)
  case (1 buf i)
  have *: "(pre @ buf) ! (i + length pre) = buf ! i" "(pre @ buf) ! (i + length pre + 1) = buf ! (i + 1)"
    by (simp_all add: nth_append)
  show ?case
    using 1 by (simp add: crlf_from.simps [of buf i] crlf_from.simps [of "pre @ buf" "i + length pre"] * [simplified])
qed

lemma find_crlf_shift:
  "find_crlf (pre @ buf) (case p of Line s \<Rightarrow> Line (s + length pre) | p \<Rightarrow> p) (i + length pre) =
    map_prod (map_option (map_prod (\<lambda>j. j + length pre) (\<lambda>j. j + length pre)))
      (\<lambda>p. case p of Line s \<Rightarrow> Line (s + length pre) | p \<Rightarrow> p) (find_crlf buf p i)"
  by (cases p) (auto simp: find_crlf_def crlf_from_shift split: sum.split)

lemma skip_blank_shift: "skip_blank (pre @ buf) (i + length pre) = apfst (\<lambda>j. j + length pre) (skip_blank buf i)"
proof (induction buf i rule: skip_blank.induct)
  case (1 buf i)
  have *: "get (pre @ buf) (i + length pre + 1) = get buf (i + 1)" using get_shift [of pre buf "i + 1"] by simp
  have **: "skip_blank (pre @ buf) (i + length pre + 2) = skip_blank (pre @ buf) (i + 2 + length pre)" by (simp add: add.commute add.left_commute)
  show ?case
  proof (cases "get buf i = Some 13 \<and> get buf (i + 1) = Some 10")
    case True
    then have "skip_blank buf i = skip_blank buf (i + 2)"
      "skip_blank (pre @ buf) (i + length pre) = skip_blank (pre @ buf) (i + 2 + length pre)"
      using * ** get_shift [of pre buf i] by (subst skip_blank.simps; simp)+
    then show ?thesis using 1 True by simp
  next
    case False
    then show ?thesis
      using * get_shift [of pre buf i] by (subst (1 2) skip_blank.simps) (auto split: option.split)
  qed
qed

lemma finish_value_shift:
  "finish_value (pre @ buf) h l (shift_on (length pre) st) = shifted (length pre) (finish_value buf h l st)"
proof -
  have "take (scan st + length pre + m) (pre @ buf) = pre @ take (scan st + m) buf" for m by simp
  then show ?thesis
    by (auto simp: finish_value_def finish_bulk_def Let_def shift_on_def add.assoc add.left_commute [of "length pre"])
qed

lemma read_line_shift:
  "read_line (pre @ buf) limits kb field (after + length pre) (shift_on (length pre) st) =
    shifted (length pre) (read_line buf limits kb field after st)"
proof -
  have *: "(shift_on (length pre) st)\<lparr>partial := BulkBody h l\<rparr> = shift_on (length pre) (st\<lparr>partial := BulkBody h l\<rparr>)"
    "(shift_on (length pre) st)\<lparr>scan := after + length pre\<rparr> = shift_on (length pre) (st\<lparr>scan := after\<rparr>)" for h l
    by (simp_all add: shift_on_def)
  show ?thesis
    by (simp add: read_line_def Let_def * finish_value_shift array_header_def text_frame_def split: kind_byte.split sum.split)
qed

lemma read_at_shift:
  "read_at (pre @ buf) limits (shift_on (length pre) st) = shifted (length pre) (read_at buf limits st)"
proof -
  have *: "(shift_on (length pre) st)\<lparr>partial := case p of Line s \<Rightarrow> Line (s + length pre) | p \<Rightarrow> p\<rparr>
      = shift_on (length pre) (st\<lparr>partial := p\<rparr>)" for p
    by (simp add: shift_on_def)
  show ?thesis
    using find_crlf_shift [of pre buf "partial st" "scan st + 1"]
    by (auto simp: read_at_def get_shift * read_line_shift split: option.split prod.split)
qed

lemma read_element_shift:
  "read_element (pre @ buf) limits (shift_on (length pre) st) = shifted (length pre) (read_element buf limits st)"
proof -
  have "blanks_skipped (pre @ buf) (shift_on (length pre) st) = apfst (shift_on (length pre)) (blanks_skipped buf st)"
    by (auto simp: blanks_skipped_def skip_blank_shift split: prod.split partial.splits)
  then show ?thesis
    by (auto simp: read_element_def finish_value_shift read_at_shift split: partial.split prod.split)
qed

lemma place_shift: "place limits el (shift_on n st) = shifted n (place limits el st)"
  by (cases el) (auto simp: shift_on_def split: sum.split)

lemma step_shift: "step (pre @ buf) limits (shift_on (length pre) st) = shifted (length pre) (step buf limits st)"
proof (induction st rule: step_turns [of buf limits])
  case (1 st)
  note rd = read_element_shift [of pre buf limits st]
  from step_outcomes [of buf limits st] show ?case
  proof cases
    case (more el st1 st2)
    then show ?thesis using 1 rd step_more [of "pre @ buf" limits "shift_on (length pre) st"] by (simp add: place_shift)
  qed (use rd in \<open>subst step.simps; simp add: place_shift\<close>)+
qed

section \<open>Sessions\<close>

text \<open>What a connection does with a read: feed it, and take frames until the decoder asks
  for more or refuses.\<close>

function drain :: "decoder \<Rightarrow> frame list \<times> (parse_error + decoder)" where
  "drain d =
     (case try_next d of
        Inl e \<Rightarrow> ([], Inl e)
      | Inr (None, d') \<Rightarrow> ([], Inr d')
      | Inr (Some f, d') \<Rightarrow> apfst (Cons f) (drain d'))"
  by pat_completeness auto
termination
proof (relation "measure (\<lambda>d. length (dec_buf d) - scan (dec_state d))")
  fix d :: decoder and x x' f d'
  assume "try_next d = Inr x" "(x', d') = x" "x' = Some f"
  then have *: "try_next d = Inr (Some f, d')" by simp
  then obtain st where st: "step (dec_buf d) (dec_limits d) (dec_state d) = Inr (Some f, st)"
      "d' = d\<lparr>dec_state := finish_frame st\<rparr>"
    by (auto simp: try_next_def split: sum.splits option.splits)
  from st(1) have "scan (dec_state d) < scan st \<and> scan st \<le> length (dec_buf d)"
    by (rule step_advances)
  then show "(d', d) \<in> measure (\<lambda>d. length (dec_buf d) - scan (dec_state d))"
    using st(2) by (auto simp: finish_frame_def)
qed simp

declare drain.simps [simp del]

fun session :: "decoder \<Rightarrow> bytes list \<Rightarrow> frame list \<times> (parse_error + decoder)" where
  "session d [] = ([], Inr d)"
| "session d (c # cs) =
     (case drain (feed c d) of
        (fs, Inl e) \<Rightarrow> (fs, Inl e)
      | (fs, Inr d') \<Rightarrow> apfst (append fs) (session d' cs))"

text \<open>The same over one buffer that is never compacted.\<close>

function run :: "bytes \<Rightarrow> decoder_limits \<Rightarrow> decoding \<Rightarrow> frame list \<times> (parse_error + decoding)" where
  "run buf limits st =
     (case step buf limits st of
        Inl e \<Rightarrow> ([], Inl e)
      | Inr (None, st') \<Rightarrow> ([], Inr st')
      | Inr (Some f, st') \<Rightarrow> apfst (Cons f) (run buf limits (finish_frame st')))"
  by pat_completeness auto
termination
  by (relation "measure (\<lambda>(buf, limits, st). length buf - scan st)") (auto simp: finish_frame_def dest!: step_advances)

declare run.simps [simp del]

definition inside :: "bytes \<Rightarrow> decoding \<Rightarrow> bool" where
  "inside buf st \<longleftrightarrow> in_order st \<and> scan st \<le> length buf"

lemma skip_blank_le: "skip_blank buf i = (a, wait) \<Longrightarrow> i \<le> length buf \<Longrightarrow> a \<le> length buf"
proof (induction buf i rule: skip_blank.induct)
  case (1 buf i)
  show ?case
  proof (cases "get buf i = Some 13 \<and> get buf (i + 1) = Some 10")
    case True
    then have "skip_blank buf i = skip_blank buf (i + 2)" by (subst skip_blank.simps) simp
    then show ?thesis using 1 True by (simp add: get_eq_Some_iff)
  next
    case False
    then show ?thesis using 1(2,3) by (subst (asm) skip_blank.simps) (auto split: option.splits if_splits)
  qed
qed

lemma read_element_dry:
  assumes "read_element buf limits st = Inr (None, st1)" "scan st \<le> length buf"
  shows "scan st1 \<le> length buf"
proof (cases "\<exists>h l. partial st = BulkBody h l")
  case True
  then show ?thesis using assms by (auto simp: read_element_def dest!: finish_value_frame)
next
  case False
  obtain s wait where s: "blanks_skipped buf st = (s, wait)" by fastforce
  have "scan s \<le> length buf"
    using s assms(2) skip_blank_le by (auto simp: blanks_skipped_def split: if_splits prod.splits)
  moreover have "scan st1 = scan s"
    using assms(1) False s by (auto simp: read_element_skips split: if_splits dest!: read_at_frame)
  ultimately show ?thesis by simp
qed

lemma step_dry: "step buf limits st = Inr (None, st1) \<Longrightarrow> scan st \<le> length buf \<Longrightarrow> scan st1 \<le> length buf"
proof (induction st rule: step_turns [of buf limits])
  case (1 st)
  from step_outcomes [of buf limits st] show ?case
  proof cases
    case (dry s)
    then show ?thesis using 1 read_element_dry by (auto split: if_splits)
  next
    case (more el st1' st2)
    then show ?thesis using 1 read_element_Some [OF more(1)] place_scan [OF more(2)] by simp
  qed (use "1.prems" in \<open>auto split: if_splits\<close>)
qed

lemma run_outcomes:
  obtains (refused) e where "step buf limits st = Inl e" "run buf limits st = ([], Inl e)"
  | (dry) st1 where "step buf limits st = Inr (None, st1)" "run buf limits st = ([], Inr st1)"
  | (frame) f st1 where "step buf limits st = Inr (Some f, st1)"
      "run buf limits st = apfst (Cons f) (run buf limits (finish_frame st1))"
  using run.simps [of buf limits st] by (auto split: sum.splits prod.splits option.splits)

lemma run_induct:
  assumes "\<And>st. (\<And>f st1. step buf limits st = Inr (Some f, st1) \<Longrightarrow> P (finish_frame st1)) \<Longrightarrow> P st"
  shows "P st"
proof (induction st rule: measure_induct_rule [of "\<lambda>st. length buf - scan st"])
  case (less st)
  show ?case
  proof (rule assms)
    fix f st1
    assume "step buf limits st = Inr (Some f, st1)"
    then have "length buf - scan (finish_frame st1) < length buf - scan st"
      by (auto simp: finish_frame_def dest!: step_advances)
    then show "P (finish_frame st1)" by (rule less.IH)
  qed
qed

lemma inside_step:
  assumes "inside buf st" "step buf limits st = Inr (r, st1)"
  shows "r = None \<Longrightarrow> inside buf st1" "r \<noteq> None \<Longrightarrow> inside buf (finish_frame st1)"
  using assms step_order step_dry step_advances by (fastforce simp: inside_def finish_frame_def)+

lemma apfst_Cons_append: "apfst (Cons f) (apfst (append fs) r) = apfst (append (f # fs)) r"
  by (cases r) simp

lemma run_append:
  "inside buf st \<Longrightarrow> 0 < max_frame_bytes limits \<Longrightarrow>
    (case run buf limits st of
       (fs, Inl e) \<Rightarrow> \<exists>e'. run (buf @ ys) limits st = (fs, Inl e')
     | (fs, Inr st1) \<Rightarrow> inside buf st1 \<and> run (buf @ ys) limits st = apfst (append fs) (run (buf @ ys) limits st1))"
proof (induction st rule: run_induct [of buf limits])
  case (1 st)
  from run_outcomes [of buf limits st] show ?case
  proof cases
    case (refused e)
    then show ?thesis
      using step_error [of buf limits st e ys] 1 by (auto simp: inside_def run.simps [of "buf @ ys"])
  next
    case (dry st1)
    have "run (buf @ ys) limits st = run (buf @ ys) limits st1"
      using step_resume [OF dry(1), of ys] by (simp add: run.simps [of _ _ st] run.simps [of _ _ st1])
    then show ?thesis using dry inside_step(1) [OF "1.prems"(1) dry(1)] by (cases "run (buf @ ys) limits st1") simp
  next
    case (frame f st1)
    have "run (buf @ ys) limits st = apfst (Cons f) (run (buf @ ys) limits (finish_frame st1))"
      using step_append_Some [OF frame(1), of ys] by (subst run.simps) simp
    then show ?thesis
      using "1.IH" [OF frame(1)] "1.prems" inside_step(2) [OF "1.prems"(1) frame(1)] frame
      by (auto simp: apfst_Cons_append split: prod.splits sum.splits)
  qed
qed

lemma run_shift:
  "run (pre @ buf) limits (shift_on (length pre) st) = map_prod id (map_sum id (shift_on (length pre))) (run buf limits st)"
proof (induction st rule: run_induct [of buf limits])
  case (1 st)
  note shift = step_shift [of pre buf limits st]
  from run_outcomes [of buf limits st] show ?case
  proof cases
    case (frame f st1)
    have "finish_frame (shift_on (length pre) st1) = shift_on (length pre) (finish_frame st1)"
      by (simp add: finish_frame_def shift_on_def)
    then show ?thesis using "1.IH" [OF frame(1)] frame shift
      by (subst run.simps, cases "run buf limits (finish_frame st1)") (simp add: id_def)
  qed (use shift in \<open>subst run.simps; simp\<close>)+
qed

lemma run_idle: "run buf limits st = (fs, Inr st1) \<Longrightarrow> run buf limits st1 = ([], Inr st1)"
proof (induction st arbitrary: fs rule: run_induct [of buf limits])
  case (1 st)
  from run_outcomes [of buf limits st] show ?case
  proof cases
    case (dry s)
    have "step buf limits s = Inr (None, s)" using dry(1) step_resume [OF dry(1), of "[]"] by simp
    then show ?thesis using "1.prems" dry(2) by (subst run.simps) simp
  next
    case (frame f s)
    then show ?thesis using 1 by (cases "run buf limits (finish_frame s)") auto
  qed (use "1.prems" in auto)
qed

lemma drain_run:
  "drain d = map_prod id (map_sum id (\<lambda>st. compact (d\<lparr>dec_state := st\<rparr>))) (run (dec_buf d) (dec_limits d) (dec_state d))"
proof (induction d rule: drain.induct)
  case (1 d)
  from run_outcomes [of "dec_buf d" "dec_limits d" "dec_state d"] show ?case
  proof cases
    case (frame f st1)
    then have "drain d = apfst (Cons f) (drain (d\<lparr>dec_state := finish_frame st1\<rparr>))"
      by (subst drain.simps) (simp add: try_next_def)
    then show ?thesis
      using 1 frame by (cases "run (dec_buf d) (dec_limits d) (finish_frame st1)") (auto simp: try_next_def)
  qed (subst drain.simps; simp add: try_next_def)+
qed

text \<open>Compaction is a shift.\<close>

lemma compact_shift:
  assumes "inside (dec_buf d) (dec_state d)"
  shows "\<exists>pre. dec_buf d = pre @ dec_buf (compact d) \<and> dec_state d = shift_on (length pre) (dec_state (compact d)) \<and>
    dec_limits (compact d) = dec_limits d"
proof -
  define n where "n = frame_start (dec_state d)"
  have "n \<le> scan (dec_state d)" "n \<le> length (dec_buf d)" "\<And>i. partial (dec_state d) = Line i \<Longrightarrow> n \<le> i"
    using assms by (auto simp: inside_def in_order_def n_def)
  then have "shift_on n (shift_back n (dec_state d)) = dec_state d"
    by (auto simp: shift_on_def shift_back_def n_def split: partial.split)
  then show ?thesis using \<open>n \<le> length (dec_buf d)\<close>
    by (intro exI [of _ "take n (dec_buf d)"]) (auto simp: compact_def n_def [symmetric] Let_def shift_on_def split: partial.split)
qed

lemma inside_compact:
  assumes "inside (dec_buf d) (dec_state d)"
  shows "inside (dec_buf (compact d)) (dec_state (compact d))"
proof -
  obtain pre where "dec_buf d = pre @ dec_buf (compact d)" "dec_state d = shift_on (length pre) (dec_state (compact d))"
    using compact_shift [OF assms] by auto
  then show ?thesis using assms by (auto simp: inside_def in_order_def between_def split: partial.splits)
qed

text \<open>Two outcomes agree when they delivered the same frames and both refused or both
  wait for more.\<close>

definition agree :: "frame list \<times> (parse_error + 'a) \<Rightarrow> frame list \<times> (parse_error + 'b) \<Rightarrow> bool" where
  "agree a b \<longleftrightarrow> fst a = fst b \<and> isl (snd a) = isl (snd b)"

lemma agree_compact:
  assumes "inside (dec_buf d) (dec_state d)"
  shows "agree (run (dec_buf (compact d) @ ys) (dec_limits d) (dec_state (compact d))) (run (dec_buf d @ ys) (dec_limits d) (dec_state d))"
proof -
  obtain pre where pre: "dec_buf d = pre @ dec_buf (compact d)" "dec_state d = shift_on (length pre) (dec_state (compact d))"
    using compact_shift [OF assms] by auto
  have "run (dec_buf d @ ys) (dec_limits d) (dec_state d) =
      map_prod id (map_sum id (shift_on (length pre))) (run (dec_buf (compact d) @ ys) (dec_limits d) (dec_state (compact d)))"
    using run_shift [of pre "dec_buf (compact d) @ ys" "dec_limits d" "dec_state (compact d)"] pre by simp
  then show ?thesis
    by (cases "run (dec_buf (compact d) @ ys) (dec_limits d) (dec_state (compact d))")
       (auto simp: agree_def isl_map_sum)
qed

text \<open>A decoder is idle when it has delivered all it can.\<close>

definition idle :: "decoder \<Rightarrow> bool" where
  "idle d \<longleftrightarrow> inside (dec_buf d) (dec_state d) \<and> agree (run (dec_buf d) (dec_limits d) (dec_state d)) ([], Inr ())"

lemma drain_idle:
  assumes "inside (dec_buf d) (dec_state d)" "0 < max_frame_bytes (dec_limits d)" "drain d = (fs, Inr d')"
  shows "idle d' \<and> dec_limits d' = dec_limits d \<and>
    agree (apfst (append fs) (run (dec_buf d' @ ys) (dec_limits d) (dec_state d'))) (run (dec_buf d @ ys) (dec_limits d) (dec_state d))"
proof -
  obtain st where st: "run (dec_buf d) (dec_limits d) (dec_state d) = (fs, Inr st)" "d' = compact (d\<lparr>dec_state := st\<rparr>)"
    using assms(3) drain_run [of d]
    by (cases "run (dec_buf d) (dec_limits d) (dec_state d)"; cases "snd (run (dec_buf d) (dec_limits d) (dec_state d))") auto
  let ?d = "d\<lparr>dec_state := st\<rparr>"
  have ins: "inside (dec_buf ?d) (dec_state ?d)"
    and more: "run (dec_buf d @ ys) (dec_limits d) (dec_state d) = apfst (append fs) (run (dec_buf ?d @ ys) (dec_limits ?d) (dec_state ?d))"
    using run_append [OF assms(1,2), of ys] st(1) by simp_all
  have "agree (run (dec_buf d' @ []) (dec_limits ?d) (dec_state d')) (run (dec_buf ?d @ []) (dec_limits ?d) (dec_state ?d))"
    unfolding st(2) by (rule agree_compact [OF ins])
  moreover have "dec_limits d' = dec_limits d" using compact_shift [OF ins] st(2) by auto
  ultimately show ?thesis
    using run_idle [OF st(1)] inside_compact [OF ins] more agree_compact [OF ins, of ys] st(2)
    by (simp add: idle_def agree_def)
qed

lemma session_run:
  "idle d \<Longrightarrow> 0 < max_frame_bytes (dec_limits d) \<Longrightarrow>
    agree (session d cs) (run (dec_buf d @ concat cs) (dec_limits d) (dec_state d))"
proof (induction cs arbitrary: d)
  case Nil
  then show ?case by (simp add: idle_def agree_def)
next
  case (Cons c cs)
  let ?d = "feed c d"
  have d: "dec_buf ?d = dec_buf (compact d) @ c" "dec_state ?d = dec_state (compact d)" "dec_limits ?d = dec_limits d"
    using compact_shift [of d] Cons.prems by (auto simp: feed_def Let_def idle_def)
  have ins: "inside (dec_buf ?d) (dec_state ?d)"
    using inside_compact [of d] Cons.prems d by (simp add: idle_def inside_def)
  have whole: "agree (run (dec_buf ?d @ concat cs) (dec_limits d) (dec_state ?d)) (run (dec_buf d @ concat (c # cs)) (dec_limits d) (dec_state d))"
    using agree_compact [of d "c @ concat cs"] Cons.prems d by (simp add: idle_def)
  obtain fs r where dr: "drain ?d = (fs, r)" by fastforce
  show ?case
  proof (cases r)
    case (Inl e)
    then have "run (dec_buf ?d) (dec_limits ?d) (dec_state ?d) = (fs, Inl e)"
      using dr drain_run [of ?d]
      by (cases "run (dec_buf ?d) (dec_limits ?d) (dec_state ?d)"; cases "snd (run (dec_buf ?d) (dec_limits ?d) (dec_state ?d))") auto
    then show ?thesis
      using run_append [OF ins, of "dec_limits ?d" "concat cs"] Cons.prems d(3) dr Inl whole by (auto simp: agree_def)
  next
    case (Inr d')
    note idle = drain_idle [OF ins _ dr [unfolded Inr], of "concat cs"]
    have "agree (session d' cs) (run (dec_buf d' @ concat cs) (dec_limits d) (dec_state d'))"
      using Cons.IH [of d'] idle Cons.prems d(3) by simp
    then show ?thesis using idle Cons.prems d(3) dr Inr whole by (simp add: agree_def)
  qed
qed

lemma idle_new: "idle (decoder_new limits)"
proof -
  have "read_element [] limits decoding_new = Inr (None, decoding_new)"
    by (simp add: read_element_def decoding_new_def blanks_skipped_def skip_blank.simps get_def read_at_def)
  then have "run [] limits decoding_new = ([], Inr decoding_new)"
    by (subst run.simps, subst step.simps) (simp add: check_frame_bytes_def)
  then show ?thesis
    by (simp add: idle_def decoder_new_def agree_def inside_def in_order_def between_def decoding_new_def)
qed

section \<open>Properties\<close>

text \<open>C18. A frame that fits the limits reads back as itself from the bytes the encoder
  writes, whatever follows them, and the byte count reported is the encoding's length.
  The limits are the decoder's: text that is UTF-8 and holds no line end, integers of 64
  bits, bulks and arrays under their ceilings, at most 64 levels of arrays, and the whole
  frame within the budgets of wire bytes and of memory.\<close>

theorem frame_roundtrip:
  assumes "sendable MAX_ARRAY_DEPTH f" "frame_cost f \<le> max_in_memory default_limits"
    and "length (encode_frame f) \<le> max_frame_bytes default_limits"
  shows "parse (encode_frame f @ rest) = Inr (Some (f, length (encode_frame f)))"
  using step_encoded [of decoding_new "[]" f default_limits rest] assms by (simp add: parse_def decoding_new_def)

text \<open>C17. The same bytes give the same frames and the same verdict however they are split
  into reads: a connection that feeds the decoder any chunks of a stream, taking every
  frame after each, gets the frames it would get from the stream in one read, and one
  refuses the stream if and only if the other does.\<close>

theorem chunking_irrelevant:
  assumes "0 < max_frame_bytes limits"
  shows "fst (session (decoder_new limits) chunks) = fst (session (decoder_new limits) [concat chunks]) \<and>
    (isl (snd (session (decoder_new limits) chunks)) \<longleftrightarrow> isl (snd (session (decoder_new limits) [concat chunks])))"
  using session_run [OF idle_new, of limits chunks] session_run [OF idle_new, of limits "[concat chunks]"] assms
  by (simp add: agree_def decoder_new_def)

section \<open>Witnesses\<close>

definition a_request :: frame where
  "a_request = Array [BulkString (ascii ''GET''), BulkString (ascii ''k'')]"

lemma a_request_encoded: "encode_frame a_request = ascii ''*2'' @ CRLF @ ascii ''$3'' @ CRLF @ ascii ''GET'' @ CRLF @ ascii ''$1'' @ CRLF @ ascii ''k'' @ CRLF"
  by (code_simp)

theorem frame_roundtrip_witness:
  "parse (encode_frame a_request @ [43]) = Inr (Some (a_request, length (encode_frame a_request)))"
proof (rule frame_roundtrip)
  show "sendable MAX_ARRAY_DEPTH a_request"
    by (simp add: a_request_def MAX_ARRAY_DEPTH_def MAX_BULK_LEN_def MAX_ARRAY_LEN_def)
  show "frame_cost a_request \<le> max_in_memory default_limits"
    by (simp add: a_request_def FRAME_SIZE_def payload_bytes_def default_limits_def)
  show "length (encode_frame a_request) \<le> max_frame_bytes default_limits"
    by (simp add: a_request_encoded default_limits_def)
qed

definition small_limits :: decoder_limits where
  "small_limits = \<lparr>max_frame_bytes = 20, max_in_memory = 60\<rparr>"

theorem chunking_irrelevant_witness:
  "0 < max_frame_bytes small_limits \<and>
   fst (session (decoder_new small_limits) [[43, 79], [75, 13], [10, 43]]) = [Simple [79, 75]]"
proof -
  have "0 < max_frame_bytes small_limits" by (simp add: small_limits_def)
  moreover have "fst (session (decoder_new small_limits) [[43, 79, 75, 13, 10, 43]]) = [Simple [79, 75]]"
    by (code_simp)
  ultimately show ?thesis
    using chunking_irrelevant [of small_limits "[[43, 79], [75, 13], [10, 43]]"] by simp
qed

end
