(* ===== verification/Memory.thy ===== *)
theory Memory
  imports Prelude
begin

text \<open>
  What the keyspace is accounted at and what happens at the ceiling:
  \<^verbatim>\<open>crates/seedstone-core/src/memory.rs\<close>. The gauge is a wrapping 64-bit
  counter; sizes are read the way \<^verbatim>\<open>redis.conf\<close> writes them.
\<close>

type_synonym memory_gauge = u64

definition gauge_apply :: "memory_gauge \<Rightarrow> u64 \<Rightarrow> u64 \<Rightarrow> memory_gauge" where
  "gauge_apply g before after =
     (if after > before then g + (after - before)
      else if before > after then g - (before - after)
      else g)"

datatype eviction_mode = AllKeysLru | NoEviction

definition mode_name :: "eviction_mode \<Rightarrow> bytes" where
  "mode_name m = (case m of AllKeysLru \<Rightarrow> ascii ''allkeys-lru'' | NoEviction \<Rightarrow> ascii ''noeviction'')"

definition mode_from_name :: "bytes \<Rightarrow> eviction_mode option" where
  "mode_from_name name = find (\<lambda>m. mode_name m = name) [AllKeysLru, NoEviction]"

record memory_limit =
  ceiling :: "u64 option"
  mode :: eviction_mode

definition past_ceiling :: "u64 \<Rightarrow> u64 option \<Rightarrow> bool" where
  "past_ceiling used c = (case c of Some c \<Rightarrow> used > c | None \<Rightarrow> False)"

definition exceeded :: "memory_limit \<Rightarrow> u64 \<Rightarrow> bool" where
  "exceeded limit used = past_ceiling used (ceiling limit)"

definition size_suffixes :: "(bytes \<times> nat) list" where
  "size_suffixes =
     [(ascii ''gb'', 2 ^ 30), (ascii ''mb'', 2 ^ 20), (ascii ''kb'', 2 ^ 10),
      (ascii ''g'', 1000000000), (ascii ''m'', 1000000), (ascii ''k'', 1000), (ascii ''b'', 1)]"

fun find_suffix :: "(bytes \<times> nat) list \<Rightarrow> bytes \<Rightarrow> bytes \<times> nat" where
  "find_suffix [] t = (t, 1)"
| "find_suffix ((suf, scale) # rest) t =
     (case strip_suffix suf t of Some digits \<Rightarrow> (digits, scale) | None \<Rightarrow> find_suffix rest t)"

definition parse_bytes :: "bytes \<Rightarrow> u64 option" where
  "parse_bytes text =
     (let (digits, scale) = find_suffix size_suffixes (to_ascii_lowercase text) in
      do {
        n \<leftarrow> parse_std_u64 digits;
        if unat n * scale < 2 ^ 64 then Some (of_nat (unat n * scale)) else None
      })"

section \<open>The gauge\<close>

lemma gauge_apply_eq: "gauge_apply g before after = g - before + after"
  by (simp add: gauge_apply_def)

lemma mode_from_name_name: "mode_from_name (mode_name m) = Some m"
  by (cases m) (simp_all add: mode_from_name_def mode_name_def)

section \<open>Sizes\<close>

lemma lower_digit: "is_digit b \<Longrightarrow> ascii_lower b = b"
  by (auto simp: is_digit_def ascii_lower_def word_le_nat_alt)

lemma lower_append [simp]:
  "to_ascii_lowercase (a @ b) = to_ascii_lowercase a @ to_ascii_lowercase b"
  by (simp add: to_ascii_lowercase_def)

lemma lower_decimal [simp]: "to_ascii_lowercase (decimal n) = decimal n"
  using decimal_digits [of n]
  by (auto simp: to_ascii_lowercase_def list_all_iff lower_digit intro: map_idI)

lemma decimal_snoc: obtains ds d where "decimal n = ds @ [d]" "is_digit d"
proof -
  have "decimal n = butlast (decimal n) @ [last (decimal n)]" by simp
  moreover have "is_digit (last (decimal n))"
    using decimal_digits [of n] by (simp add: list_all_iff)
  ultimately show thesis by (rule that)
qed

lemma find_suffix_decimal:
  "find_suffix size_suffixes (decimal n) = (decimal n, 1)"
  "(suf, scale) \<in> set size_suffixes \<Longrightarrow> find_suffix size_suffixes (decimal n @ suf) = (decimal n, scale)"
proof -
  obtain ds d where d: "decimal n = ds @ [d]" "is_digit d" by (rule decimal_snoc)
  then have ne: "d \<noteq> 98" "d \<noteq> 103" "d \<noteq> 107" "d \<noteq> 109" by (auto simp: is_digit_def)
  have two: "strip_suffix [z, y] (ds @ [d, x]) = (if x = y \<and> z = d then Some ds else None)" for x y z
    using strip_suffix_2 [of z y "ds @ [d]" x] strip_suffix_1 [of z ds d] by auto
  have unit: "strip_suffix [y] (ds @ [d, x]) = (if x = y then Some (ds @ [d]) else None)" for x y
    using strip_suffix_1 [of y "ds @ [d]" x] by simp
  have pair: "strip_suffix [z, y] (ds @ [d, w, x]) = (if x = y \<and> w = z then Some (ds @ [d]) else None)"
    for w x y z
    using strip_suffix_2 [of z y "ds @ [d, w]" x] strip_suffix_1 [of z "ds @ [d]" w] by auto
  show "find_suffix size_suffixes (decimal n) = (decimal n, 1)"
    using ne by (simp add: d size_suffixes_def strip_suffix_1 strip_suffix_2)
  show "(suf, scale) \<in> set size_suffixes \<Longrightarrow>
      find_suffix size_suffixes (decimal n @ suf) = (decimal n, scale)"
    using ne by (auto simp: d size_suffixes_def two unit pair)
qed

lemma suffix_lower: "(suf, scale) \<in> set size_suffixes \<Longrightarrow> to_ascii_lowercase suf = suf"
  by (auto simp: size_suffixes_def to_ascii_lowercase_def ascii_lower_def)

text \<open>C39. A size is read as its digits times the scale of its suffix: a bare
  number is bytes, every suffix of the table scales by its own factor, and a
  figure that does not fit 64 bits is no size. In particular \<open>kb\<close> is never read
  as \<open>k\<close> with a stray letter.\<close>

theorem parse_bytes_scaled:
  "parse_bytes (decimal n) = (if n < 2 ^ 64 then Some (of_nat n) else None) \<and>
    (\<forall>(suf, scale) \<in> set size_suffixes.
      parse_bytes (decimal n @ suf) =
      (if n < 2 ^ 64 \<and> n * scale < 2 ^ 64 then Some (of_nat (n * scale)) else None))"
proof (intro conjI ballI)
  show "parse_bytes (decimal n) = (if n < 2 ^ 64 then Some (of_nat n) else None)"
    by (simp add: parse_bytes_def find_suffix_decimal parse_std_u64_decimal unsigned_of_nat
        take_bit_nat_eq_self)
next
  fix entry assume e: "entry \<in> set size_suffixes"
  obtain suf scale where p: "entry = (suf, scale)" by (cases entry)
  have "to_ascii_lowercase (decimal n @ suf) = decimal n @ suf"
    using suffix_lower e p by simp
  then show "case entry of (suf, scale) \<Rightarrow> parse_bytes (decimal n @ suf) =
      (if n < 2 ^ 64 \<and> n * scale < 2 ^ 64 then Some (of_nat (n * scale)) else None)"
    using e p by (simp add: parse_bytes_def find_suffix_decimal parse_std_u64_decimal unsigned_of_nat
        take_bit_nat_eq_self)
qed

theorem parse_bytes_scaled_witness:
  "parse_bytes (decimal 4 @ ascii ''kb'') = Some 4096 \<and> parse_bytes (decimal 4 @ ascii ''k'') = Some 4000"
  using parse_bytes_scaled [of 4] by (simp add: size_suffixes_def)

text \<open>The documentation says that a sign is no size; the standard library's
  parser takes a leading plus, so a signed figure is one.\<close>

lemma parse_bytes_takes_a_plus:
  "parse_bytes (ascii ''+5'') = Some 5" "parse_bytes (ascii ''+1kb'') = Some 1024"
  by (simp_all add: parse_bytes_def to_ascii_lowercase_def ascii_lower_def size_suffixes_def
      strip_suffix_def parse_std_u64_def get_def is_digit_def digit_value_def)

end
