(* ===== verification/Sweep.thy ===== *)
theory Sweep
  imports ApplyCorrect Memory
begin

text \<open>
  What an executor does to a shard of its own accord, \<^verbatim>\<open>crates/seedstone-core/src/shard/executor.rs\<close>:
  the sweep of expired keys, eviction down to the memory ceiling, and the counters
  kept per command. The memory gauge is a value threaded through; the trace, which
  only the simulator reads, is left out. A run of the eviction loop that panicked
  or did not end is \<open>None\<close>.
\<close>

definition REHASH_BUCKETS_PER_TICK :: nat where "REHASH_BUCKETS_PER_TICK = 1024"
definition EXPIRE_BUCKETS_PER_TICK :: nat where "EXPIRE_BUCKETS_PER_TICK = 256"
definition EVICTION_SAMPLES :: nat where "EVICTION_SAMPLES = 5"

definition must_evict :: "u64 \<Rightarrow> u64 option \<Rightarrow> bool" where
  "must_evict used c = past_ceiling used c"

section \<open>The sweep\<close>

text \<open>The deletions of a sweep; the flag says whether the log took them all.\<close>

fun sweep_dead :: "'l log_ops \<Rightarrow> siphash \<Rightarrow> u16 \<Rightarrow> bytes list \<Rightarrow> 'l shard_state \<Rightarrow> (bool \<times> 'l shard_state) option" where
  "sweep_dead ops sip shard [] st = Some (True, st)"
| "sweep_dead ops sip shard (key # dead) st =
     do {
       (failed, st') \<leftarrow> append ops shard (effect.Del key) st;
       case failed of
         Some _ \<Rightarrow> Some (False, st')
       | None \<Rightarrow>
           sweep_dead ops sip shard dead
             ((with_dict (\<lambda>d. snd (dict_remove sip d key)) st')\<lparr>expired := expired st' + 1\<rparr>)
     }"

definition sweep_expired :: "'l log_ops \<Rightarrow> siphash \<Rightarrow> u16 \<Rightarrow> instant \<Rightarrow> 'l shard_state \<Rightarrow> 'l shard_state option" where
  "sweep_expired ops sip shard t st =
     (let (after, dead) = expire_step (sh_dict st) (expire_cursor st) EXPIRE_BUCKETS_PER_TICK
            (\<lambda>at. due_on_sweep at t) takes_undated in
      do {
        (all, st') \<leftarrow> sweep_dead ops sip shard dead st;
        Some (if all then st'\<lparr>expire_cursor := after\<rparr> else st')
      })"

section \<open>Eviction\<close>

partial_function (option) evict_until_fits :: "'l log_ops \<Rightarrow> siphash \<Rightarrow> u16 \<Rightarrow> u64 option \<Rightarrow> bytes option \<Rightarrow>
    'l shard_state \<Rightarrow> memory_gauge \<Rightarrow> ('l shard_state \<times> memory_gauge) option" where
  "evict_until_fits ops sip shard limit spared st g =
     (if must_evict g limit then
        (case sample_oldest (sh_dict st) (evict_cursor st) EVICTION_SAMPLES spared of
           (None, cursor) \<Rightarrow> Some (st\<lparr>evict_cursor := cursor\<rparr>, g)
         | (Some victim, cursor) \<Rightarrow>
             do {
               (failed, st1) \<leftarrow> append ops shard (effect.Del victim) (st\<lparr>evict_cursor := cursor\<rparr>);
               case failed of
                 Some _ \<Rightarrow> Some (st1, g)
               | None \<Rightarrow>
                   let st2 = with_dict (\<lambda>d. snd (dict_remove sip d victim)) st1 in
                   evict_until_fits ops sip shard limit spared (st2\<lparr>evicted := evicted st2 + 1\<rparr>)
                     (gauge_apply g (used_bytes (sh_dict st1)) (used_bytes (sh_dict st2)))
             })
      else Some (st, g))"

section \<open>Counters\<close>

definition read_outcome :: "siphash \<Rightarrow> dict \<Rightarrow> command \<Rightarrow> reply \<Rightarrow> bool option" where
  "read_outcome sip d cmd r =
     (case cmd of
        Get _ \<Rightarrow> (case r of Bulk v \<Rightarrow> Some (v \<noteq> None) | _ \<Rightarrow> None)
      | Exists _ \<Rightarrow> (case r of Integer found \<Rightarrow> Some (found = 1) | _ \<Rightarrow> None)
      | Ttl _ \<Rightarrow> (case r of Integer remaining \<Rightarrow> Some (remaining \<noteq> - 2) | _ \<Rightarrow> None)
      | PTtl _ \<Rightarrow> (case r of Integer remaining \<Rightarrow> Some (remaining \<noteq> - 2) | _ \<Rightarrow> None)
      | Type _ \<Rightarrow> (case r of Status name \<Rightarrow> Some (name \<noteq> ascii ''none'') | _ \<Rightarrow> None)
      | StrLen key \<Rightarrow> (case r of Integer len \<Rightarrow> Some (len > 0 \<or> dict_get sip d key \<noteq> None) | _ \<Rightarrow> None)
      | _ \<Rightarrow> None)"

definition add_at :: "nat \<Rightarrow> u64 \<Rightarrow> u64 list \<Rightarrow> u64 list" where
  "add_at i x xs = xs[i := xs ! i + x]"

definition count_call :: "siphash \<Rightarrow> command \<Rightarrow> reply \<Rightarrow> u64 \<Rightarrow> 'l shard_state \<Rightarrow> 'l shard_state" where
  "count_call sip cmd r spent st =
     (let k = unat (kind cmd);
          st1 = (if route cmd \<noteq> Every
                 then st\<lparr>calls := add_at k 1 (calls st), usec := add_at k spent (usec st)\<rparr> else st)
      in case read_outcome sip (sh_dict st) cmd r of
           Some True \<Rightarrow> st1\<lparr>hits := hits st1 + 1\<rparr>
         | Some False \<Rightarrow> st1\<lparr>misses := misses st1 + 1\<rparr>
         | None \<Rightarrow> st1)"

definition stats_of :: "'l shard_state \<Rightarrow> shard_stats" where
  "stats_of st =
     (keyspace_stats (sh_dict st))\<lparr>st_evicted := evicted st, st_hits := hits st, st_misses := misses st,
        st_expired := expired st, st_calls := calls st, st_usec := usec st\<rparr>"

section \<open>Tables only grow by insertion\<close>

definition largest_table :: "dict \<Rightarrow> nat" where
  "largest_table d = max (length (old_table d)) (case new_table d of None \<Rightarrow> 0 | Some t \<Rightarrow> length t)"

lemma largest_rehash_step:
  assumes "dict_inv sip d"
  shows "largest_table (rehash_step d n) \<le> largest_table d"
proof (cases "new_table d")
  case None
  then show ?thesis by (simp add: rehash_step_def)
next
  case (Some new)
  from rehash_step_cases [OF dict_invD(1) [OF assms] Some, of n] show ?thesis
    by cases (use Some in \<open>simp_all add: largest_table_def\<close>)
qed

lemma largest_dict_remove:
  assumes "dict_inv sip d"
  shows "largest_table (snd (dict_remove sip d key)) \<le> largest_table d"
proof -
  define d1 where "d1 = (if is_rehashing d then rehash_step d 1 else d)"
  let ?h = "hash_in sip d1 key"
  have len: "length t' = length t" if "remove_from t ?h key = (r, t')" for t r t'
    using that length_remove_from [of t ?h key] by simp
  obtain r t where r: "remove_from (old_table d1) ?h key = (r, t)" by fastforce
  have "largest_table (snd (dict_remove sip d key)) = largest_table d1"
  proof (cases r)
    case (Some e)
    then show ?thesis using r len [OF r] by (simp add: dict_remove_def Let_def largest_table_def flip: d1_def)
  next
    case none: None
    show ?thesis
    proof (cases "new_table d1")
      case None
      then show ?thesis using r none by (simp add: dict_remove_def Let_def largest_table_def flip: d1_def)
    next
      case (Some new)
      obtain r' t' where r': "remove_from new ?h key = (r', t')" by fastforce
      show ?thesis
        by (cases r') (use r none Some r' len [OF r'] in \<open>simp_all add: dict_remove_def Let_def largest_table_def flip: d1_def\<close>)
    qed
  qed
  then show ?thesis using largest_rehash_step [OF assms] by (simp add: d1_def)
qed

lemma largest_addressable: "largest_table d < 2 ^ 63 \<Longrightarrow> addressable d"
  by (simp add: largest_table_def addressable_def)

section \<open>Deletions in the log\<close>

lemma with_dict_more [simp]:
  "expired (with_dict f st) = expired st" "evicted (with_dict f st) = evicted st"
  "sh_dict (with_dict f st) = f (sh_dict st)"
  by (simp_all add: with_dict_def)

text \<open>Counters and cursors are no part of a step's meaning.\<close>

lemma advances_cong:
  "advances holds sip shard n st ms s \<Longrightarrow> sh_dict s' = sh_dict s \<Longrightarrow> sh_log s' = sh_log s \<Longrightarrow> sh_seq s' = sh_seq s \<Longrightarrow>
    refusing s' = refusing s \<Longrightarrow> advances holds sip shard n st ms s'"
  "advances holds sip shard n s ms st \<Longrightarrow> sh_dict s' = sh_dict s \<Longrightarrow> sh_log s' = sh_log s \<Longrightarrow> sh_seq s' = sh_seq s \<Longrightarrow>
    refusing s' = refusing s \<Longrightarrow> advances holds sip shard n s' ms st"
  by (simp_all add: advances_def)

text \<open>One logged deletion on a log that takes every record that fits.\<close>

lemma delete_logged:
  assumes "dict_inv sip (sh_dict st)" "length key + 28 < 2 ^ 32"
  obtains l where "append file_log_ops shard (effect.Del key) st = Some (None, st\<lparr>sh_log := l, sh_seq := sh_seq st + 1\<rparr>)"
    "advances file_log_holds sip shard n st [MDel key]
        (with_dict (\<lambda>d. snd (dict_remove sip d key)) (st\<lparr>sh_log := l, sh_seq := sh_seq st + 1\<rparr>))"
proof -
  obtain l where l: "append file_log_ops shard (effect.Del key) st = Some (None, st\<lparr>sh_log := l, sh_seq := sh_seq st + 1\<rparr>)"
    using append_file_log [OF conjunct1 [OF key_fits [OF assms(2)]]] by blast
  then have "advances file_log_holds sip shard n st [MDel key]
      (with_dict (\<lambda>d. snd (dict_remove sip d key)) (st\<lparr>sh_log := l, sh_seq := sh_seq st + 1\<rparr>))"
  proof (cases rule: fl.append_cases)
    case (accepted l' p)
    then show ?thesis using dk.del_ok [OF assms(1), of key] by (simp add: advances_def)
  qed simp
  then show ?thesis using l that by blast
qed

lemma sweep_dead_advances:
  assumes "dict_inv sip (sh_dict st)" "\<forall>key\<in>set dead. length key + 28 < 2 ^ 32"
  shows "\<exists>st'. sweep_dead file_log_ops sip shard dead st = Some (True, st') \<and>
    advances file_log_holds sip shard n st (map MDel dead) st' \<and> expired st' = expired st + of_nat (length dead)"
  using assms
proof (induction dead arbitrary: st)
  case (Cons key dead)
  have fit: "length key + 28 < 2 ^ 32" using Cons.prems(2) by simp
  obtain l where l: "append file_log_ops shard (effect.Del key) st = Some (None, st\<lparr>sh_log := l, sh_seq := sh_seq st + 1\<rparr>)"
    and one: "advances file_log_holds sip shard n st [MDel key]
        (with_dict (\<lambda>d. snd (dict_remove sip d key)) (st\<lparr>sh_log := l, sh_seq := sh_seq st + 1\<rparr>))"
    using delete_logged [OF Cons.prems(1) fit] by blast
  let ?st = "(with_dict (\<lambda>d. snd (dict_remove sip d key)) (st\<lparr>sh_log := l, sh_seq := sh_seq st + 1\<rparr>))\<lparr>expired := expired st + 1\<rparr>"
  have one': "advances file_log_holds sip shard n st [MDel key] ?st" by (rule advances_cong(1) [OF one]) simp_all
  then have inv: "dict_inv sip (sh_dict ?st)" by (simp add: advances_def)
  obtain st' where st': "sweep_dead file_log_ops sip shard dead ?st = Some (True, st')"
    "advances file_log_holds sip shard n ?st (map MDel dead) st'" "expired st' = expired ?st + of_nat (length dead)"
    using Cons.IH [OF inv] Cons.prems(2) by auto
  have "sweep_dead file_log_ops sip shard (key # dead) st = Some (True, st')" using l st'(1) by simp
  moreover have "advances file_log_holds sip shard n st (map MDel (key # dead)) st'"
    using advances_trans [OF one' st'(2)] by simp
  ultimately show ?case using st'(3) by auto
qed simp

lemma fold_deletions: "fold mutate (map MDel keys) m key = (if key \<in> set keys then None else m key)"
  by (induction keys arbitrary: m) auto

section \<open>The sweep is invisible\<close>

text \<open>Keys the sweep found are due.\<close>

lemma expire_loop_due:
  "dict_inv sip d \<Longrightarrow> expire_loop d due n cursor = (final, dead) \<Longrightarrow> key \<in> set dead \<Longrightarrow>
    \<exists>e. dict_map d key = Some e \<and> due (expires_at e)"
proof (induction n arbitrary: cursor dead final)
  case (Suc n)
  obtain met c where met: "dict_scan d cursor = (met, c)" by fastforce
  obtain x rest where rest: "expire_loop d due n c = (x, rest)" by fastforce
  have sound: "\<And>k e. (k, e) \<in> set met \<Longrightarrow> dict_map d k = Some e"
    using dict_scan_sound [OF Suc.prems(1), of _ _ cursor] met by simp
  show ?case
    using Suc.prems Suc.IH [OF Suc.prems(1)] met sound rest by (auto simp: Let_def split: if_splits)
qed simp

definition storable :: "store \<Rightarrow> bool" where
  "storable m = (\<forall>key \<in> dom m. length key + 28 < 2 ^ 32)"

lemma sweep_advances:
  assumes "dict_inv sip (sh_dict st)" "storable (items (sh_dict st))"
  shows "\<exists>st' dead. sweep_expired file_log_ops sip shard t st = Some st' \<and>
    advances file_log_holds sip shard n st (map MDel dead) st' \<and> expired st' = expired st + of_nat (length dead) \<and>
    (expire_cursor st', dead) = expire_step (sh_dict st) (expire_cursor st) EXPIRE_BUCKETS_PER_TICK (\<lambda>at. due_on_sweep at t) takes_undated \<and>
    (\<forall>key\<in>set dead. due_in t (items (sh_dict st)) key)"
proof -
  obtain after dead where e: "expire_step (sh_dict st) (expire_cursor st) EXPIRE_BUCKETS_PER_TICK
      (\<lambda>at. due_on_sweep at t) takes_undated = (after, dead)" by fastforce
  have due: "\<exists>x. dict_map (sh_dict st) key = Some x \<and> due_on_sweep (expires_at x) t" if "key \<in> set dead" for key
    using expire_loop_due [OF assms(1)] that e by (auto simp: expire_step_def split: if_splits)
  then have fit: "\<forall>key\<in>set dead. length key + 28 < 2 ^ 32" "\<forall>key\<in>set dead. due_in t (items (sh_dict st)) key"
    using assms(2) by (fastforce simp: storable_def items_def due_in_def item_of_def due_on_sweep_def due_on_read_def)+
  obtain s where s: "sweep_dead file_log_ops sip shard dead st = Some (True, s)"
    "advances file_log_holds sip shard n st (map MDel dead) s" "expired s = expired st + of_nat (length dead)"
    using sweep_dead_advances [OF assms(1) fit(1)] by blast
  have "advances file_log_holds sip shard n st (map MDel dead) (s\<lparr>expire_cursor := after\<rparr>)"
    by (rule advances_cong(1) [OF s(2)]) simp_all
  then show ?thesis using e s fit(2)
    by (intro exI [of _ "s\<lparr>expire_cursor := after\<rparr>"] exI [of _ dead]) (simp add: sweep_expired_def)
qed

lemma live_after_deletions:
  assumes "\<forall>key\<in>set dead. due_in t m key"
  shows "live t (fold mutate (map MDel dead) m) = live t m"
  using assms by (intro ext) (auto simp: live_def fold_deletions due_in_def split: option.splits)

section \<open>Eviction ends\<close>

lemma evict_advances:
  assumes "dict_inv sip (sh_dict st)" "largest_table (sh_dict st) < 2 ^ 63" "storable (items (sh_dict st))"
  shows "\<exists>st' g' victims. evict_until_fits file_log_ops sip shard limit spared st g = Some (st', g') \<and>
    advances file_log_holds sip shard n st (map MDel victims) st' \<and>
    evicted st' = evicted st + of_nat (length victims) \<and>
    g' = g + (used_bytes (sh_dict st') - used_bytes (sh_dict st)) \<and>
    (must_evict g' limit \<longrightarrow> dom (items (sh_dict st')) \<subseteq> set_option spared) \<and>
    set_option spared \<inter> set victims = {} \<and> distinct victims \<and> set victims \<subseteq> dom (items (sh_dict st)) \<and>
    (\<not> must_evict g limit \<longrightarrow> victims = [] \<and> st' = st)"
  using assms
proof (induction "card (dom (items (sh_dict st)))" arbitrary: st g rule: less_induct)
  case less
  note inv = less.prems(1)
  have dom: "dom (items (sh_dict st)) = dom (dict_map (sh_dict st))" by (auto simp: items_def)
  show ?case
  proof (cases "must_evict g limit")
    case False
    then have "evict_until_fits file_log_ops sip shard limit spared st g = Some (st, g)"
      by (subst evict_until_fits.simps) simp
    then show ?thesis using False inv by (intro exI [of _ st] exI [of _ g] exI [of _ "[]"]) simp
  next
    case must: True
    obtain found cursor where f: "sample_oldest (sh_dict st) (evict_cursor st) EVICTION_SAMPLES spared = (found, cursor)"
      by fastforce
    note answers = sample_oldest_total [OF inv largest_addressable [OF less.prems(2)], where samples = EVICTION_SAMPLES and v = "evict_cursor st" and spared = spared,
        unfolded f fst_conv]
    let ?st0 = "st\<lparr>evict_cursor := cursor\<rparr>"
    show ?thesis
    proof (cases found)
      case None
      then have "evict_until_fits file_log_ops sip shard limit spared st g = Some (?st0, g)"
        using must f by (subst evict_until_fits.simps) simp
      moreover have "dom (items (sh_dict st)) \<subseteq> set_option spared"
        using answers None dom by (auto simp: EVICTION_SAMPLES_def)
      moreover have "advances file_log_holds sip shard n st [] ?st0"
        by (rule advances_none) (use inv in simp_all)
      ultimately show ?thesis using must by (intro exI [of _ ?st0] exI [of _ g] exI [of _ "[]"]) simp
    next
      case (Some victim)
      then have v: "victim \<in> dom (items (sh_dict st))" "spared \<noteq> Some victim"
        using answers dom by (auto simp: EVICTION_SAMPLES_def)
      then have fit: "length victim + 28 < 2 ^ 32" using less.prems(3) by (auto simp: storable_def)
      have inv0: "dict_inv sip (sh_dict ?st0)" using inv by simp
      obtain l where l: "append file_log_ops shard (effect.Del victim) ?st0 = Some (None, ?st0\<lparr>sh_log := l, sh_seq := sh_seq ?st0 + 1\<rparr>)"
        and adv: "advances file_log_holds sip shard n ?st0 [MDel victim]
          (with_dict (\<lambda>d. snd (dict_remove sip d victim)) (?st0\<lparr>sh_log := l, sh_seq := sh_seq ?st0 + 1\<rparr>))"
        using delete_logged [OF inv0 fit] by blast
      let ?st1 = "?st0\<lparr>sh_log := l, sh_seq := sh_seq ?st0 + 1\<rparr>"
      let ?st2 = "with_dict (\<lambda>d. snd (dict_remove sip d victim)) ?st1"
      let ?st3 = "?st2\<lparr>evicted := evicted ?st2 + 1\<rparr>"
      let ?g = "gauge_apply g (used_bytes (sh_dict ?st1)) (used_bytes (sh_dict ?st2))"
      have one: "advances file_log_holds sip shard n st [MDel victim] ?st3"
        by (rule advances_cong(1) [OF advances_cong(2) [OF adv]]) simp_all
      then have it: "items (sh_dict ?st3) = (items (sh_dict st))(victim := None)" "dict_inv sip (sh_dict ?st3)"
        by (simp_all add: advances_def)
      have fin: "finite (dom (items (sh_dict st)))" using dict_figures(1) [OF inv] dom by simp
      have smaller: "card (dom (items (sh_dict ?st3))) < card (dom (items (sh_dict st)))"
        unfolding it(1) using card_Diff1_less [OF fin v(1)] by simp
      have large: "largest_table (sh_dict ?st3) < 2 ^ 63"
        using largest_dict_remove [OF inv, of victim] less.prems(2) by simp
      have stor: "storable (items (sh_dict ?st3))" using less.prems(3) unfolding it(1) by (auto simp: storable_def)
      obtain st' g' victims where r: "evict_until_fits file_log_ops sip shard limit spared ?st3 ?g = Some (st', g')"
        "advances file_log_holds sip shard n ?st3 (map MDel victims) st'" "evicted st' = evicted ?st3 + of_nat (length victims)"
        "g' = ?g + (used_bytes (sh_dict st') - used_bytes (sh_dict ?st3))"
        "must_evict g' limit \<longrightarrow> dom (items (sh_dict st')) \<subseteq> set_option spared"
        "set_option spared \<inter> set victims = {}" "distinct victims" "set victims \<subseteq> dom (items (sh_dict ?st3))"
        using less.hyps [OF smaller it(2) large stor, of ?g] by (elim exE conjE) (rule that)
      have "evict_until_fits file_log_ops sip shard limit spared st g = Some (st', g')"
        using must f Some l r(1) by (subst evict_until_fits.simps) simp
      moreover have "advances file_log_holds sip shard n st (map MDel (victim # victims)) st'"
        using advances_trans [OF one r(2)] by simp
      moreover have "g' = g + (used_bytes (sh_dict st') - used_bytes (sh_dict st))"
        using r(4) by (simp add: gauge_apply_eq)
      moreover have "distinct (victim # victims)" "set (victim # victims) \<subseteq> dom (items (sh_dict st))"
        using r(7,8) v(1) unfolding it(1) by auto
      moreover have "set_option spared \<inter> set (victim # victims) = {}" using r(6) v(2) by (cases spared) auto
      moreover have "evicted st' = evicted st + of_nat (length (victim # victims))" using r(3) by simp
      ultimately show ?thesis using r(5) must by blast
    qed
  qed
qed

section \<open>Properties\<close>

text \<open>C37. The sweep is invisible to readers and complete within its budget. On a shard in
  order it always ends; it deletes only keys past their deadline, has the log accept
  exactly those deletions and counts them, so what a reader can see is what it could
  see before. A sweep that starts a cycle on a table of at most 256 buckets leaves no
  key past its deadline.\<close>

theorem sweep_reclaims_due:
  assumes "dict_inv sip (sh_dict st)" "storable (items (sh_dict st))"
  shows "\<exists>st' dead. sweep_expired file_log_ops sip shard t st = Some st' \<and>
    advances file_log_holds sip shard n st (map MDel dead) st' \<and>
    expired st' = expired st + of_nat (length dead) \<and>
    live t (items (sh_dict st')) = live t (items (sh_dict st)) \<and>
    (expire_cursor st = 0 \<and> length (old_table (sh_dict st)) \<le> EXPIRE_BUCKETS_PER_TICK \<longrightarrow>
      items (sh_dict st') = live t (items (sh_dict st)) \<and> expire_cursor st' = 0)"
proof -
  obtain st' dead where s: "sweep_expired file_log_ops sip shard t st = Some st'"
    "advances file_log_holds sip shard n st (map MDel dead) st'" "expired st' = expired st + of_nat (length dead)"
    "(expire_cursor st', dead) = expire_step (sh_dict st) (expire_cursor st) EXPIRE_BUCKETS_PER_TICK (\<lambda>at. due_on_sweep at t) takes_undated"
    "\<forall>key\<in>set dead. due_in t (items (sh_dict st)) key"
    using sweep_advances [OF assms] by blast
  have it: "items (sh_dict st') = fold mutate (map MDel dead) (items (sh_dict st))" using s(2) by (simp add: advances_def)
  have "items (sh_dict st') = live t (items (sh_dict st)) \<and> expire_cursor st' = 0"
    if "expire_cursor st = 0" and len: "length (old_table (sh_dict st)) \<le> EXPIRE_BUCKETS_PER_TICK"
  proof -
    have a: "addressable (sh_dict st)" using len by (simp add: addressable_def EXPIRE_BUCKETS_PER_TICK_def)
    have e: "expire_step (sh_dict st) 0 EXPIRE_BUCKETS_PER_TICK (\<lambda>at. due_on_sweep at t) False = (expire_cursor st', dead)"
      using s(4) that(1) by (simp add: takes_undated_def)
    from expire_step_all [OF assms(1) a len _ e]
    have "expire_cursor st' = 0 \<and> set dead = {key. \<exists>e. dict_map (sh_dict st) key = Some e \<and> due_on_sweep (expires_at e) t}"
      by (simp add: due_on_sweep_def)
    then show ?thesis
      by (auto simp: it fold_deletions live_def items_def item_of_def due_on_read_def due_on_sweep_def intro!: ext split: option.split)
  qed
  then show ?thesis using s live_after_deletions [OF s(5)] it by auto
qed

text \<open>C19. Eviction ends and makes room. On a shard in order it always returns; unless
  the gauge is then under the ceiling, no key is left but the one the command had to
  keep. That key is never a victim; every victim was stored, is evicted once, is deleted
  in the log and counted, and the gauge moves by exactly what the dict gave back. Under
  the ceiling nothing happens.\<close>

theorem eviction_makes_room:
  assumes "dict_inv sip (sh_dict st)" "largest_table (sh_dict st) < 2 ^ 63" "storable (items (sh_dict st))"
  shows "\<exists>st' g' victims. evict_until_fits file_log_ops sip shard limit spared st g = Some (st', g') \<and>
    advances file_log_holds sip shard n st (map MDel victims) st' \<and>
    evicted st' = evicted st + of_nat (length victims) \<and>
    g' = g + (used_bytes (sh_dict st') - used_bytes (sh_dict st)) \<and>
    (must_evict g' limit \<longrightarrow> dom (items (sh_dict st')) \<subseteq> set_option spared) \<and>
    set_option spared \<inter> set victims = {} \<and> distinct victims \<and> set victims \<subseteq> dom (items (sh_dict st)) \<and>
    (\<not> must_evict g limit \<longrightarrow> victims = [] \<and> st' = st)"
  by (rule evict_advances [OF assms])

section \<open>Witnesses\<close>

lemma a_shard_shape:
  "sh_dict a_shard = one_key" "expire_cursor a_shard = 0" "expired a_shard = 0" "evicted a_shard = 0"
  by (simp_all add: a_shard_def shard_new_def shard_recovered_def)

lemma one_key_storable: "storable (items one_key)"
  by (auto simp: storable_def items_def one_key_map split: if_splits)

lemma one_key_live: "live 5 (items one_key) = (\<lambda>_. None)"
  by (auto simp: live_def items_def one_key_map item_of_def due_on_read_def)

theorem sweep_reclaims_due_witness:
  "\<exists>st'. sweep_expired file_log_ops sip_const 0 5 a_shard = Some st' \<and> items (sh_dict st') = (\<lambda>_. None)"
proof -
  have "dict_inv sip_const (sh_dict a_shard)" "storable (items (sh_dict a_shard))"
    using a_shard_ok one_key_storable by (simp_all add: a_shard_shape)
  from sweep_reclaims_due [OF this, of 0 5] show ?thesis
    using one_key_live by (auto simp: a_shard_shape one_key_shape EXPIRE_BUCKETS_PER_TICK_def)
qed

theorem eviction_makes_room_witness:
  "\<exists>st' g'. evict_until_fits file_log_ops sip_const 0 (Some 100) None a_shard 290 = Some (st', g') \<and>
    (must_evict g' (Some 100) \<longrightarrow> items (sh_dict st') = (\<lambda>_. None))"
proof -
  have "dict_inv sip_const (sh_dict a_shard)" "storable (items (sh_dict a_shard))" "largest_table (sh_dict a_shard) < 2 ^ 63"
    using a_shard_ok one_key_storable by (simp_all add: a_shard_shape largest_table_def one_key_shape)
  from eviction_makes_room [OF this(1,3,2), where n = past_five and shard = 0 and limit = "Some 100" and spared = None and g = 290]
  show ?thesis by (elim exE conjE) auto
qed

end
