(* ===== verification/Growth.thy ===== *)
theory Growth
  imports Sweep
begin

text \<open>
  How each operation of a shard moves its log: the records it has the log accept stand at
  the shard's next sequence numbers, one after another, and their number is bounded by
  the keys the step removed. Commands, the sweep and eviction are all such steps.
\<close>

section \<open>What a shard appends\<close>

text \<open>Records of one shard at consecutive positions.\<close>

fun numbered :: "u16 \<Rightarrow> u64 \<Rightarrow> log_record list \<Rightarrow> bool" where
  "numbered shard s [] = True"
| "numbered shard s (r # rs) = (rec_shard r = shard \<and> rec_seq r = s \<and> numbered shard (s + 1) rs)"

lemma numbered_append:
  "numbered shard s (rs @ qs) \<longleftrightarrow> numbered shard s rs \<and> numbered shard (s + of_nat (length rs)) qs"
  by (induction rs arbitrary: s) (auto simp: add.assoc)

lemma numbered_shard: "numbered shard s rs \<Longrightarrow> r \<in> set rs \<Longrightarrow> rec_shard r = shard"
  by (induction rs arbitrary: s) auto

text \<open>\<open>grows\<close>: a step on a shard that has the log accept exactly the records \<open>new\<close>, at the
  shard's next positions, and keeps the dictionary in order. The bound ties the records
  to the keys: a step appends no more of them than it can delete keys, up to \<open>extra\<close>.\<close>

definition grows :: "('l \<Rightarrow> log_record list \<Rightarrow> bool) \<Rightarrow> siphash \<Rightarrow> u16 \<Rightarrow> nat \<Rightarrow> 'l shard_state \<Rightarrow> log_record list \<Rightarrow>
    'l shard_state \<Rightarrow> bool" where
  "grows holds sip shard extra st new st' \<longleftrightarrow>
     numbered shard (sh_seq st) new \<and> sh_seq st' = sh_seq st + of_nat (length new) \<and> refusing st' = refusing st \<and>
     (\<forall>rs. holds (sh_log st) rs \<longrightarrow> holds (sh_log st') (rs @ new)) \<and>
     (dict_inv sip (sh_dict st) \<longrightarrow>
        dict_inv sip (sh_dict st') \<and> length new + d_len (sh_dict st') \<le> d_len (sh_dict st) + extra)"

lemma grows_trans:
  assumes a: "grows holds sip shard x a n b" and b: "grows holds sip shard y b m c"
  shows "grows holds sip shard (x + y) a (n @ m) c"
proof -
  have "holds (sh_log c) (rs @ n @ m)" if "holds (sh_log a) rs" for rs
    using a b that by (metis append.assoc grows_def)
  moreover have "dict_inv sip (sh_dict c) \<and> length (n @ m) + d_len (sh_dict c) \<le> d_len (sh_dict a) + (x + y)"
    if "dict_inv sip (sh_dict a)" using a b that by (simp add: grows_def)
  ultimately show ?thesis using a b by (simp add: grows_def numbered_append add.assoc)
qed

lemma grows_more: "grows holds sip shard x a n b \<Longrightarrow> x \<le> y \<Longrightarrow> grows holds sip shard y a n b"
  by (auto simp: grows_def)

text \<open>A step that touches only the dictionary, and how each dictionary operation moves it.\<close>

definition dict_moves :: "siphash \<Rightarrow> nat \<Rightarrow> dict \<Rightarrow> dict \<Rightarrow> bool" where
  "dict_moves sip extra d d' \<longleftrightarrow> (dict_inv sip d \<longrightarrow> dict_inv sip d' \<and> d_len d' \<le> d_len d + extra)"

lemma grows_quiet:
  "sh_seq st' = sh_seq st \<Longrightarrow> sh_log st' = sh_log st \<Longrightarrow> refusing st' = refusing st \<Longrightarrow>
    dict_moves sip x (sh_dict st) (sh_dict st') \<Longrightarrow> grows holds sip shard x st [] st'"
  by (simp add: grows_def dict_moves_def)

lemma dict_moves_refl [simp]: "dict_moves sip x d d"
  by (simp add: dict_moves_def)

lemma d_len_card: "dict_inv sip d \<Longrightarrow> d_len d = card (dom (dict_map d))"
  by (rule dict_figures(2))

lemma d_len_le:
  assumes "dict_inv sip d" "dict_inv sip d'" "dom (dict_map d') \<subseteq> insert key (dom (dict_map d))"
  shows "d_len d' \<le> d_len d + 1"
proof -
  have "card (dom (dict_map d')) \<le> card (insert key (dom (dict_map d)))"
    using assms dict_figures(1) by (intro card_mono) auto
  also have "\<dots> \<le> card (dom (dict_map d)) + 1" by (simp add: card_insert_le_m1 card_insert_if)
  finally show ?thesis using assms d_len_card by metis
qed

lemma moves_one_key:
  assumes "dict_inv sip d \<Longrightarrow> dict_inv sip d' \<and> dom (dict_map d') \<subseteq> insert key (dom (dict_map d))"
  shows "dict_moves sip (Suc x) d d'"
proof -
  have "d_len d' \<le> d_len d + Suc x" if "dict_inv sip d"
    using d_len_le [OF that, of d' key] assms [OF that] by simp
  then show ?thesis using assms by (simp add: dict_moves_def)
qed

lemma remove_moves: "dict_moves sip x d (snd (dict_remove sip d key))"
proof -
  have "card (dom ((dict_map d)(key := None))) \<le> card (dom (dict_map d))" if "dict_inv sip d"
    using dict_figures(1) [OF that] by (intro card_mono) auto
  then show ?thesis
    using dict_remove_ok [of sip d key, OF _ prod.collapse [symmetric]]
    by (fastforce simp: dict_moves_def d_len_card)
qed

lemma removed_len:
  assumes "dict_inv sip d" "key \<in> dom (dict_map d)"
  shows "dict_inv sip (snd (dict_remove sip d key)) \<and> d_len (snd (dict_remove sip d key)) + 1 = d_len d"
proof -
  obtain e d' where r: "dict_remove sip d key = (e, d')" by fastforce
  note ok = dict_remove_ok [OF assms(1) r]
  have "dom (dict_map d') = dom (dict_map d) - {key}" using ok by auto
  then have "card (dom (dict_map d')) + 1 = card (dom (dict_map d))"
    using card_Suc_Diff1 [OF dict_figures(1) [OF assms(1)] assms(2)] by simp
  then show ?thesis using ok r assms(1) by (simp add: dict_figures(2) [of sip])
qed

lemma redate_moves: "dict_moves sip (Suc x) d (snd (set_deadline sip d key at))"
proof -
  have "dict_inv sip d \<Longrightarrow> dict_inv sip (snd (set_deadline sip d key at)) \<and>
      dom (dict_map (snd (set_deadline sip d key at))) \<subseteq> insert key (dom (dict_map d))"
    using set_deadline_ok [of sip d key at, OF _ prod.collapse [symmetric]] by (auto split: option.splits)
  then show ?thesis by (rule moves_one_key)
qed

lemma touch_moves: "dict_moves sip (Suc x) d (touch sip d key)"
proof -
  have "dict_inv sip d \<Longrightarrow> dict_inv sip (touch sip d key) \<and> dom (dict_map (touch sip d key)) \<subseteq> insert key (dom (dict_map d))"
    using touch_ok [of sip d key] by (auto split: option.splits)
  then show ?thesis by (rule moves_one_key)
qed

lemma put_moves: "dict_moves sip (Suc x) d (touch sip (dict_insert sip d key e) key)"
proof -
  have "dict_inv sip d \<Longrightarrow> dict_inv sip (touch sip (dict_insert sip d key e) key) \<and>
      dom (dict_map (touch sip (dict_insert sip d key e) key)) \<subseteq> insert key (dom (dict_map d))"
    using dict_insert_ok [of sip d key e] touch_ok [of sip "dict_insert sip d key e" key] by (auto split: option.splits)
  then show ?thesis by (rule moves_one_key)
qed

lemma clear_moves: "dict_moves sip (Suc x) d (dict_clear d)"
  by (simp add: dict_moves_def d_len_card dict_clear_ok)

text \<open>A change that leaves the log and the sequence alone.\<close>

definition quiet :: "siphash \<Rightarrow> nat \<Rightarrow> 'l shard_state \<Rightarrow> 'l shard_state \<Rightarrow> bool" where
  "quiet sip x st st' \<longleftrightarrow> sh_seq st' = sh_seq st \<and> sh_log st' = sh_log st \<and> refusing st' = refusing st \<and>
     dict_moves sip x (sh_dict st) (sh_dict st')"

lemma quiet_refl [simp]: "quiet sip x st st"
  by (simp add: quiet_def)

lemma quiet_changes:
  "quiet sip (Suc x) st (put_touched sip key v at st)"
  "quiet sip (Suc x) st (with_dict (\<lambda>d. touch sip d key) st)"
  "quiet sip (Suc x) st (with_dict (\<lambda>d. snd (set_deadline sip d key at)) st)"
  "quiet sip x st (with_dict (\<lambda>d. snd (dict_remove sip d key)) st)"
  "quiet sip (Suc x) st (with_dict dict_clear st)"
  by (simp_all add: quiet_def remove_moves put_touched_def put_moves touch_moves redate_moves clear_moves)

lemma quiet_grows: "quiet sip x st st' \<Longrightarrow> \<exists>new. grows holds sip shard x st new st'"
  using grows_quiet [of st' st sip x holds shard] unfolding quiet_def by blast

lemma grows_cong:
  "grows holds sip shard x st new st' \<Longrightarrow> sh_seq b = sh_seq st' \<Longrightarrow> sh_log b = sh_log st' \<Longrightarrow> refusing b = refusing st' \<Longrightarrow>
    sh_dict b = sh_dict st' \<Longrightarrow> grows holds sip shard x st new b"
  by (simp add: grows_def)

lemma sample_in:
  assumes "sample_oldest d v samples spared = (Some key, w)" "dict_inv sip d"
  shows "key \<in> dom (dict_map d)"
proof -
  let ?n = "length (old_table d) + (case new_table d of None \<Rightarrow> 0 | Some t \<Rightarrow> length t)"
  have "map_option snd (fst (sample_loop d samples spared ?n 0 v None)) = Some key"
    using assms(1) by (simp add: sample_oldest_def Let_def split: if_splits prod.splits)
  then obtain stamp where "fst (sample_loop d samples spared ?n 0 v None) = Some (stamp, key)" by auto
  from sample_loop_in [OF this] dict_scan_sound [OF assms(2)] show ?thesis by force
qed

context replication_log
begin

lemma append_grows:
  assumes "append ops shard eff st = Some (failed, s)"
    and "failed = None \<Longrightarrow> quiet sip x s st'" and "failed \<noteq> None \<Longrightarrow> st' = s"
  shows "\<exists>new. grows holds sip shard (Suc x) st new st'"
  using assms(1)
proof (cases rule: append_cases)
  case (refused l)
  then show ?thesis using assms(3) by (intro exI [of _ "[]"]) (simp add: grows_def)
next
  case (accepted l p)
  then show ?thesis using assms(2)
    by (intro exI [of _ "[\<lparr>rec_shard = shard, rec_seq = sh_seq st, rec_payload = p\<rparr>]"])
       (auto simp: grows_def quiet_def dict_moves_def)
qed

lemma logged_grows:
  assumes "logged ops shard eff change st = Some (r, st')" and "\<And>s. quiet sip x s (snd (change s))"
  shows "\<exists>new. grows holds sip shard (Suc x) st new st'"
proof -
  obtain failed s where s: "append ops shard eff st = Some (failed, s)"
    "(r, st') = (case failed of Some r \<Rightarrow> (r, s) | None \<Rightarrow> change s)"
    using assms(1) by (auto simp: logged_def bind_eq_Some_conv split: option.splits)
  have "st' = snd (case failed of Some r \<Rightarrow> (r, s) | None \<Rightarrow> change s)" by (simp flip: s(2))
  then show ?thesis using append_grows [OF s(1), of sip x st'] assms(2) by (auto split: option.splits)
qed

lemma set_grows:
  assumes "set_cmd ops sip shard n args st = Some (r, st')"
  shows "\<exists>new. grows holds sip shard (Suc (Suc 0)) st new st'"
proof (cases "st' = st")
  case False
  then obtain eff f at where "logged ops shard eff (\<lambda>s. (f, put_touched sip (sa_key args) (sa_value args) at s)) st = Some (r, st')"
    using assms by (auto simp: set_cmd_def Let_def split: if_splits)
  then have "\<exists>new. grows holds sip shard (Suc (Suc 0)) st new st'" by (rule logged_grows) (simp add: quiet_changes)
  then show ?thesis .
qed (simp add: quiet_grows)

lemma dispatch_grows:
  assumes "dispatch_cmd ops sip shard n cmd st = Some (r, st')"
  shows "\<exists>new. grows holds sip shard (Suc (Suc 0)) st new st'"
proof (cases cmd)
  case (SetNx key v)
  then show ?thesis using assms set_grows by (auto simp: set_nx_def bind_eq_Some_conv)
next
  case (IncrBy key delta)
  then show ?thesis using assms
    by (auto simp: incr_by_def Let_def quiet_changes quiet_grows elim!: logged_grows split: if_splits option.splits)
qed (use assms in \<open>auto simp: del_def set_expiry_def persist_def flush_db_def Let_def set_grows quiet_changes quiet_grows
   elim!: logged_grows split: if_splits option.splits span.splits\<close>)

lemma reclaim_grows:
  assumes "reclaim ops sip shard key t st = Some (outcome, st')"
  shows "\<exists>new. grows holds sip shard (Suc 0) st new st'"
proof -
  let ?remove = "with_dict (\<lambda>d. snd (dict_remove sip d key))"
  consider "quiet sip (Suc 0) st st'"
    | failed s where "append ops shard (effect.Del key) st = Some (failed, s)" "st' = (if failed = None then ?remove s else s)"
    using assms by (auto simp: reclaim_def remove_if_expired_def evict_if_expired_def quiet_changes bind_eq_Some_conv
        split: if_splits option.splits)
  then show ?thesis
  proof cases
    case 2
    show ?thesis by (rule append_grows [OF 2(1)]) (use 2(2) in \<open>simp_all add: quiet_changes split: if_splits\<close>)
  qed (rule quiet_grows)
qed

lemma apply_grows:
  assumes "apply_cmd ops sip shard n cmd st = Some (r, st')"
  shows "\<exists>new. grows holds sip shard 3 st new st'"
proof -
  have whole: ?thesis if "dispatch_cmd ops sip shard n cmd st = Some (r, st')"
    using dispatch_grows [OF that] grows_more [of holds sip shard "Suc (Suc 0)" st _ st' 3] by (auto simp: numeral_3_eq_3)
  show ?thesis
  proof (cases "route cmd")
    case (Key key)
    then obtain outcome s where s: "reclaim ops sip shard key (now_instant n) st = Some (outcome, s)"
      "(case outcome of Inl failed \<Rightarrow> Some (failed, s)
       | Inr b \<Rightarrow> dispatch_cmd ops sip shard n cmd (s\<lparr>expired := expired s + (if b then 1 else 0)\<rparr>)) = Some (r, st')"
      using assms by (simp add: apply_cmd_def bind_eq_Some_conv) blast
    obtain new where new: "grows holds sip shard (Suc 0) st new s" using reclaim_grows [OF s(1)] by blast
    show ?thesis
    proof (cases outcome)
      case (Inl _)
      then show ?thesis using s(2) grows_more [OF new, of 3] by auto
    next
      case (Inr b)
      let ?s = "s\<lparr>expired := expired s + (if b then 1 else 0)\<rparr>"
      have a: "grows holds sip shard (Suc 0) st new ?s" using new by (rule grows_cong) simp_all
      have "dispatch_cmd ops sip shard n cmd ?s = Some (r, st')" using s(2) Inr by simp
      then obtain more where "grows holds sip shard (Suc (Suc 0)) ?s more st'" using dispatch_grows by blast
      from grows_trans [OF a this] show ?thesis by (auto simp: numeral_3_eq_3)
    qed
  qed (use assms whole in \<open>simp_all add: apply_cmd_def\<close>)
qed

lemma deletion_grows:
  assumes "append ops shard (effect.Del key) st = Some (None, s)"
    and "dict_inv sip (sh_dict st) \<Longrightarrow> key \<in> dom (dict_map (sh_dict st))"
  shows "\<exists>new. grows holds sip shard 0 st new (with_dict (\<lambda>d. snd (dict_remove sip d key)) s)"
  using assms(1)
proof (cases rule: append_cases)
  case (accepted l p)
  then show ?thesis using removed_len [OF _ assms(2)]
    by (intro exI [of _ "[\<lparr>rec_shard = shard, rec_seq = sh_seq st, rec_payload = p\<rparr>]"]) (auto simp: grows_def)
qed simp

lemma sweep_dead_grows:
  assumes "sweep_dead ops sip shard dead st = Some (b, st')"
  shows "\<exists>x new. grows holds sip shard x st new st'"
  using assms
proof (induction dead arbitrary: st)
  case Nil
  then show ?case using quiet_grows [OF quiet_refl] by fastforce
next
  case (Cons key dead)
  then obtain failed s where s: "append ops shard (effect.Del key) st = Some (failed, s)"
    by (auto simp: bind_eq_Some_conv)
  let ?s = "(with_dict (\<lambda>d. snd (dict_remove sip d key)) s)\<lparr>expired := expired s + 1\<rparr>"
  have q: "quiet sip 0 s ?s" using quiet_changes(4) [of sip 0 s key] by (simp add: quiet_def)
  show ?case
  proof (cases failed)
    case None
    obtain new where a: "grows holds sip shard (Suc 0) st new ?s" using append_grows [OF s, of sip 0 ?s] q None by auto
    have "sweep_dead ops sip shard dead ?s = Some (b, st')" using Cons.prems s None by simp
    then obtain y more where "grows holds sip shard y ?s more st'" using Cons.IH by blast
    from grows_trans [OF a this] show ?thesis by blast
  next
    case (Some e)
    then have "st' = s" using Cons.prems s by simp
    then show ?thesis using append_grows [OF s, of sip 0 st'] Some by auto
  qed
qed

lemma sweep_grows:
  assumes "sweep_expired ops sip shard t st = Some st'"
  shows "\<exists>x new. grows holds sip shard x st new st'"
proof -
  obtain b dead s cursor where s: "sweep_dead ops sip shard dead st = Some (b, s)"
    "st' = (if b then s\<lparr>expire_cursor := cursor\<rparr> else s)"
    using assms by (auto simp: sweep_expired_def bind_eq_Some_conv split: prod.splits)
  obtain x new where "grows holds sip shard x st new s" using sweep_dead_grows [OF s(1)] by blast
  then have "grows holds sip shard x st new st'" by (rule grows_cong) (simp_all add: s(2))
  then show ?thesis by blast
qed

end

lemma evict_grows_any:
  fixes ops :: "'l log_ops" and st :: "'l shard_state"
  assumes "evict_until_fits ops sip shard lim spared st g = Some out"
  shows "replication_log ops holds \<longrightarrow> (\<exists>new. grows holds sip shard (Suc 0) st new (fst out))"
proof (rule evict_until_fits.raw_induct [OF _ assms,
    where P = "\<lambda>ops sip shard _ _ st _ out. replication_log ops holds \<longrightarrow> (\<exists>new. grows holds sip shard (Suc 0) st new (fst out))"],
    intro impI)
  fix f :: "'l log_ops \<Rightarrow> siphash \<Rightarrow> u16 \<Rightarrow> u64 option \<Rightarrow> bytes option \<Rightarrow> 'l shard_state \<Rightarrow> memory_gauge \<Rightarrow>
      ('l shard_state \<times> memory_gauge) option"
    and ops :: "'l log_ops" and sip shard lim spared and st :: "'l shard_state" and g out
  assume IH: "\<And>ops sip shard lim spared st g out. f ops sip shard lim spared st g = Some out \<Longrightarrow>
      replication_log ops holds \<longrightarrow> (\<exists>new. grows holds sip shard (Suc 0) st new (fst out))"
    and log: "replication_log ops holds"
  let ?sample = "sample_oldest (sh_dict st) (evict_cursor st) EVICTION_SAMPLES spared"
  assume run: "(if must_evict g lim
     then case ?sample of
       (None, cursor) \<Rightarrow> Some (st\<lparr>evict_cursor := cursor\<rparr>, g)
     | (Some victim, cursor) \<Rightarrow>
         append ops shard (effect.Del victim) (st\<lparr>evict_cursor := cursor\<rparr>) \<bind> (\<lambda>(failed, st1). case failed of
           None \<Rightarrow> let st2 = with_dict (\<lambda>d. snd (dict_remove sip d victim)) st1 in
             f ops sip shard lim spared (st2\<lparr>evicted := evicted st2 + 1\<rparr>)
               (gauge_apply g (used_bytes (sh_dict st1)) (used_bytes (sh_dict st2)))
         | Some x \<Rightarrow> Some (st1, g))
     else Some (st, g)) = Some out"
  show "\<exists>new. grows holds sip shard (Suc 0) st new (fst out)"
  proof (cases "must_evict g lim")
    case must: True
    obtain found cursor where f: "?sample = (found, cursor)" by fastforce
    let ?st = "st\<lparr>evict_cursor := cursor\<rparr>"
    have q: "quiet sip (Suc 0) st ?st" "quiet sip 0 st ?st" by (simp_all add: quiet_def)
    show ?thesis
    proof (cases found)
      case None
      then have "fst out = ?st" using run must f by auto
      then show ?thesis using quiet_grows [OF q(1)] by simp
    next
      case (Some victim)
      obtain failed s where s: "append ops shard (effect.Del victim) ?st = Some (failed, s)"
        "(case failed of
           None \<Rightarrow> let st2 = with_dict (\<lambda>d. snd (dict_remove sip d victim)) s in
             f ops sip shard lim spared (st2\<lparr>evicted := evicted st2 + 1\<rparr>)
               (gauge_apply g (used_bytes (sh_dict s)) (used_bytes (sh_dict st2)))
         | Some x \<Rightarrow> Some (s, g)) = Some out"
        using run must f Some by (simp add: bind_eq_Some_conv) blast
      obtain a where a: "grows holds sip shard 0 st a ?st" using quiet_grows [OF q(2)] by blast
      show ?thesis
      proof (cases failed)
        case None
        let ?st2 = "with_dict (\<lambda>d. snd (dict_remove sip d victim)) s"
        let ?st3 = "?st2\<lparr>evicted := evicted ?st2 + 1\<rparr>"
        have "\<exists>new. grows holds sip shard 0 ?st new ?st2"
          using replication_log.deletion_grows [OF log s(1) [unfolded None]] sample_in [OF f [unfolded Some]] by simp
        then obtain b where "grows holds sip shard 0 ?st b ?st2" by blast
        then have b: "grows holds sip shard 0 ?st b ?st3" by (rule grows_cong) simp_all
        have "f ops sip shard lim spared ?st3 (gauge_apply g (used_bytes (sh_dict s)) (used_bytes (sh_dict ?st2))) = Some out"
          using s(2) None by (simp add: Let_def)
        then obtain c where "grows holds sip shard (Suc 0) ?st3 c (fst out)" using IH log by blast
        from grows_trans [OF grows_trans [OF a b] this] show ?thesis by auto
      next
        case (Some e)
        then have "fst out = s" using s(2) by auto
        then obtain b where "grows holds sip shard (Suc 0) ?st b (fst out)"
          using replication_log.append_grows [OF log s(1), of sip 0 "fst out"] Some by auto
        from grows_trans [OF a this] show ?thesis by auto
      qed
    qed
  qed (use run in \<open>auto intro!: quiet_grows\<close>)
qed

end
