(* ===== verification/Durability.thy ===== *)
theory Durability
  imports Command "HOL-Library.Option_ord"
begin

text \<open>
  One executor's side of its link to the log writer, \<^verbatim>\<open>crates/seedstone-core/src/shard/durability.rs\<close>:
  the sync policies, the batches sent and not yet durable, and the replies held
  for a sync. The messages of the link are those of \<^verbatim>\<open>log/writer.rs\<close>. The numbers of
  batches and of bytes handed over since the process started are naturals: a run
  that wraps a 64-bit counter of either is outside the model. Whoever waits for an
  envelope's replies is a \<open>reply_to\<close>; the operations return what they send.
\<close>

definition HOUSEKEEPING_TICK :: nat where "HOUSEKEEPING_TICK = 100 * 10 ^ 6"
definition WRITER_BUDGET :: nat where "WRITER_BUDGET = 4 * 1024 * 1024"

section \<open>Policies\<close>

record sync_policy =
  min_interval :: "nat option"
  hold_acks :: bool

definition ALWAYS :: sync_policy where "ALWAYS = \<lparr>min_interval = Some 0, hold_acks = True\<rparr>"
definition INTERVAL :: sync_policy where "INTERVAL = \<lparr>min_interval = Some HOUSEKEEPING_TICK, hold_acks = False\<rparr>"
definition NEVER :: sync_policy where "NEVER = \<lparr>min_interval = None, hold_acks = False\<rparr>"

definition policy_name :: "sync_policy \<Rightarrow> bytes" where
  "policy_name p =
     (if min_interval p = Some 0 \<and> hold_acks p then ascii ''always''
      else if min_interval p = None then ascii ''never''
      else ascii ''interval'')"

definition policy_from_name :: "bytes \<Rightarrow> sync_policy option" where
  "policy_from_name name =
     (if name = ascii ''always'' then Some ALWAYS
      else if name = ascii ''interval'' then Some INTERVAL
      else if name = ascii ''never'' then Some NEVER
      else None)"

section \<open>Messages\<close>

datatype to_writer =
    Submit u16 nat bytes
  | Covered u16 u32 "nat option" nat
  | SyncNow
  | StopWriter u16

datatype progress =
    Written nat
  | Durable "nat option" nat u64
  | Fault
  | Nudge
  | Stopped

type_synonym reply_to = nat

section \<open>The state\<close>

record sent_batch =
  sent_number :: nat
  sent_shards :: "(nat \<times> u64) list"

record held_batch =
  held_number :: nat
  held_to :: reply_to
  held_replies :: "reply list"
  held_wrote :: "bool list"

datatype ex_mode = Serving | Refusing u64 u64

record sync_state =
  sy_policy :: sync_policy
  acks_while_refusing :: bool
  sy_link :: "u16 option"
  staging :: bytes
  sent :: "sent_batch list"
  sent_bytes :: nat
  acked_bytes :: nat
  held :: "held_batch list"
  batch :: nat
  durable_batch :: "nat option"
  sy_mode :: ex_mode
  writer_lost :: bool

definition sync_new :: "sync_policy \<Rightarrow> bool \<Rightarrow> u16 option \<Rightarrow> sync_state" where
  "sync_new policy plants link =
     \<lparr>sy_policy = policy, acks_while_refusing = plants, sy_link = link, staging = [], sent = [], sent_bytes = 0,
      acked_bytes = 0, held = [], batch = 0, durable_batch = None, sy_mode = Serving, writer_lost = False\<rparr>"

definition over_budget :: "sync_state \<Rightarrow> bool" where
  "over_budget s = (sent_bytes s - acked_bytes s > WRITER_BUDGET)"

definition holds_replies :: "sync_state \<Rightarrow> bool" where
  "holds_replies s = (hold_acks (sy_policy s) \<and> sy_link s \<noteq> None)"

definition track :: "sent_batch \<Rightarrow> sync_state \<Rightarrow> sync_state" where
  "track b s = (if min_interval (sy_policy s) \<noteq> None then s\<lparr>sent := sent s @ [b]\<rparr> else s)"

definition is_refusing :: "sync_state \<Rightarrow> bool" where
  "is_refusing s = (case sy_mode s of Refusing _ _ \<Rightarrow> True | Serving \<Rightarrow> False)"

text \<open>What is sent: to whom, the replies, which commands had written the log, and the batch
  whose records the reply vouches for, if it was held for one. Only the first two
  go over the channel.\<close>

record delivery =
  dv_to :: reply_to
  dv_replies :: "reply list"
  dv_wrote :: "bool list"
  dv_batch :: "nat option"

definition is_error :: "reply \<Rightarrow> bool" where
  "is_error r = (case r of Error _ \<Rightarrow> True | _ \<Rightarrow> False)"

fun fail_replies :: "reply \<Rightarrow> reply list \<Rightarrow> bool list \<Rightarrow> reply list" where
  "fail_replies e (r # rs) (w # ws) = (if w \<and> \<not> is_error r then e else r) # fail_replies e rs ws"
| "fail_replies e rs [] = rs"
| "fail_replies e [] ws = []"

definition fail_all :: "reply \<Rightarrow> sync_state \<Rightarrow> delivery list \<times> nat \<times> sync_state" where
  "fail_all e s =
     (map (\<lambda>h. \<lparr>dv_to = held_to h, dv_replies = fail_replies e (held_replies h) (held_wrote h),
                dv_wrote = held_wrote h, dv_batch = Some (held_number h)\<rparr>) (held s),
      sum_list (map (\<lambda>h. length (filter id (map snd (zip (held_replies h) (held_wrote h))))) (held s)),
      s\<lparr>held := []\<rparr>)"

definition release_through :: "nat \<Rightarrow> sync_state \<Rightarrow> delivery list \<times> nat \<times> sync_state" where
  "release_through through s =
     (let released = takeWhile (\<lambda>h. held_number h \<le> through) (held s) in
      (map (\<lambda>h. \<lparr>dv_to = held_to h, dv_replies = held_replies h, dv_wrote = held_wrote h,
                 dv_batch = Some (held_number h)\<rparr>) released,
       sum_list (map (\<lambda>h. length (filter id (held_wrote h))) released),
       s\<lparr>held := dropWhile (\<lambda>h. held_number h \<le> through) (held s)\<rparr>))"

section \<open>Names\<close>

lemma policy_from_name_iff: "policy_from_name name = Some p \<longleftrightarrow> p \<in> {ALWAYS, INTERVAL, NEVER} \<and> name = policy_name p"
  by (auto simp: policy_from_name_def policy_name_def ALWAYS_def INTERVAL_def NEVER_def HOUSEKEEPING_TICK_def)

end
