(* ===== verification/Persistence.thy ===== *)
theory Persistence
  imports Prelude
begin

text \<open>
  The node's persistence counters, \<^verbatim>\<open>crates/seedstone-core/src/shard/persistence.rs\<close>, as values:
  each is an atomic \<open>u64\<close> in the code, written by one thread and read by \<^verbatim>\<open>INFO\<close>.
\<close>

record executor_cell =
  cycle_open :: u64
  saves_done :: u64
  last_save_unix :: u64
  last_save_ticks :: u64
  last_save_failed :: u64
  changes :: u64

record persistence_stats =
  log_bytes :: u64
  log_segments :: u64
  sync_in_flight :: u64
  syncs_total :: u64
  delayed_syncs :: u64
  last_sync_micros :: u64
  refusing_executors :: u64
  lossy_shards :: u64
  keys_loaded :: u64
  cells :: "executor_cell list"

definition cell_default :: executor_cell where
  "cell_default = \<lparr>cycle_open = 0, saves_done = 0, last_save_unix = 0, last_save_ticks = 0, last_save_failed = 0, changes = 0\<rparr>"

definition stats_new :: "u16 \<Rightarrow> persistence_stats" where
  "stats_new executors =
     \<lparr>log_bytes = 0, log_segments = 0, sync_in_flight = 0, syncs_total = 0, delayed_syncs = 0, last_sync_micros = 0,
      refusing_executors = 0, lossy_shards = 0, keys_loaded = 0, cells = replicate (unat executors) cell_default\<rparr>"

text \<open>The oldest of several times, nothing while one is missing or there are none: the fold
  \<open>last_save_unix\<close> and \<open>newest_images_secs\<close> share.\<close>

fun oldest_time :: "u64 \<Rightarrow> u64 option list \<Rightarrow> u64 option" where
  "oldest_time acc [] = Some acc"
| "oldest_time acc (None # ts) = None"
| "oldest_time acc (Some t # ts) = oldest_time (min acc t) ts"

definition oldest_of_all :: "u64 option list \<Rightarrow> u64 option" where
  "oldest_of_all ts = (if ts = [] then None else oldest_time U64_MAX ts)"

definition stats_last_save :: "persistence_stats \<Rightarrow> u64 option" where
  "stats_last_save s = oldest_of_all (map (\<lambda>c. if last_save_unix c \<noteq> 0 then Some (last_save_unix c) else None) (cells s))"

definition sum_cells :: "(executor_cell \<Rightarrow> u64) \<Rightarrow> persistence_stats \<Rightarrow> u64" where
  "sum_cells f s = sum_list (map f (cells s))"

definition stats_saves :: "persistence_stats \<Rightarrow> u64" where
  "stats_saves s = sum_cells saves_done s"

definition changes_since_save :: "persistence_stats \<Rightarrow> u64" where
  "changes_since_save s = sum_cells changes s"

definition any_cycle_open :: "persistence_stats \<Rightarrow> bool" where
  "any_cycle_open s = list_ex (\<lambda>c. cycle_open c \<noteq> 0) (cells s)"

definition longest_save_ticks :: "persistence_stats \<Rightarrow> u64" where
  "longest_save_ticks s = foldr max (map last_save_ticks (cells s)) 0"

definition any_save_failed :: "persistence_stats \<Rightarrow> bool" where
  "any_save_failed s = list_ex (\<lambda>c. last_save_failed c \<noteq> 0) (cells s)"

lemma oldest_time_Some:
  "oldest_time acc ts = Some t \<longleftrightarrow> None \<notin> set ts \<and> t = fold min (map the ts) acc"
  by (induction acc ts rule: oldest_time.induct) (auto simp: min.commute)

text \<open>The time reported is one of the times, and none is older.\<close>

lemma oldest_of_all_Min: "oldest_of_all ts = Some t \<longleftrightarrow> ts \<noteq> [] \<and> None \<notin> set ts \<and> t = Min (set (map the ts))"
proof (cases "ts = []")
  case False
  have "fold min (map the ts) U64_MAX = Min (insert U64_MAX (set (map the ts)))"
    using Min.set_eq_fold [of U64_MAX "map the ts"] by simp
  also have "\<dots> = Min (set (map the ts))"
    using False Min_insert [of "set (map the ts)" U64_MAX] min_absorb2 [OF U64_MAX_ge] by simp
  finally show ?thesis using False by (simp add: oldest_of_all_def oldest_time_Some)
qed (simp add: oldest_of_all_def)

end
