(* ===== verification/Executor.thy ===== *)
theory Executor
  imports Sweep Durability Persistence
begin

text \<open>
  The executor, \<^verbatim>\<open>crates/seedstone-core/src/shard/executor.rs\<close>: one thread that owns a range of
  shards, serves envelopes of commands, hands what they appended to the log writer,
  holds replies for the sync when the policy says so, and keeps house. The checkpoint
  is the trait of \<^verbatim>\<open>log/checkpoint.rs\<close> as a record of operations. Channels are lists of
  what was sent, in order: \<open>outbox\<close> to clients, \<open>mailbox\<close> to the writer. The clock readings
  of a call are its arguments; the trace, which only the simulator reads, is left out.
  \<open>None\<close> is a panic or an eviction loop that does not end.
\<close>

section \<open>The checkpoint's interface\<close>

record log_position =
  lp_bytes :: nat
  lp_batch :: "nat option"
  lp_durable :: "nat option"

record completed =
  cm_cycle :: u32
  cm_through :: "nat option"
  cm_bytes :: nat
  cm_ticks :: u64
  cm_cleared :: u64

record tick_outcome =
  tk_completed :: "completed option"
  tk_faulted :: bool
  tk_wants_sync :: bool

definition tick_none :: tick_outcome where
  "tick_none = \<lparr>tk_completed = None, tk_faulted = False, tk_wants_sync = False\<rparr>"

record ('l, 'c) checkpoint_ops =
  ck_tick :: "u16 \<Rightarrow> 'l shard_state list \<Rightarrow> now \<Rightarrow> log_position \<Rightarrow> 'c \<Rightarrow>
    (tick_outcome \<times> 'l shard_state list \<times> 'c) option"
  ck_force :: "'c \<Rightarrow> 'c"
  ck_nudge :: "'c \<Rightarrow> 'c"
  ck_is_open :: "'c \<Rightarrow> bool"

definition no_checkpoint_ops :: "('l, unit) checkpoint_ops" where
  "no_checkpoint_ops =
     \<lparr>ck_tick = (\<lambda>_ states _ _ c. Some (tick_none, states, c)), ck_force = id, ck_nudge = id, ck_is_open = (\<lambda>_. False)\<rparr>"

section \<open>The state\<close>

record ('l, 'c) executor =
  first_shard :: u16
  states :: "'l shard_state list"
  gauge :: memory_gauge
  limit :: memory_limit
  checkpoint :: 'c
  sync :: sync_state
  cell :: executor_cell
  node_refusing :: u64
  node_lossy :: u64
  changes_at_open :: "u64 option"
  snapshot_asked :: bool
  saves :: "(reply_to \<times> reply list) list"
  saves_after :: "(reply_to \<times> reply list) list"
  outbox :: "delivery list"
  mailbox :: "to_writer list"

definition newest_images_secs :: "'l shard_state list \<Rightarrow> u64" where
  "newest_images_secs sts =
     (case oldest_of_all (map image_unix_millis sts) of None \<Rightarrow> 0 | Some millis \<Rightarrow> max (millis div 1000) 1)"

definition executor_new :: "u16 \<Rightarrow> 'l shard_state list \<Rightarrow> memory_gauge \<Rightarrow> memory_limit \<Rightarrow> 'c \<Rightarrow> sync_policy \<Rightarrow> bool \<Rightarrow>
    u16 option \<Rightarrow> ('l, 'c) executor" where
  "executor_new first sts g lim c policy plants link =
     \<lparr>first_shard = first, states = sts, gauge = g, limit = lim, checkpoint = c, sync = sync_new policy plants link,
      cell = cell_default\<lparr>last_save_unix := newest_images_secs sts\<rparr>, node_refusing = 0, node_lossy = 0,
      changes_at_open = None, snapshot_asked = False, saves = [], saves_after = [], outbox = [], mailbox = []\<rparr>"

definition with_sync :: "(sync_state \<Rightarrow> sync_state) \<Rightarrow> ('l, 'c) executor \<Rightarrow> ('l, 'c) executor" where
  "with_sync f e = e\<lparr>sync := f (sync e)\<rparr>"

text \<open>\<open>send\<close> of \<^verbatim>\<open>durability.rs\<close>; a direct answer vouches for no batch.\<close>

definition deliver :: "delivery list \<Rightarrow> ('l, 'c) executor \<Rightarrow> ('l, 'c) executor" where
  "deliver ds e = e\<lparr>outbox := outbox e @ ds\<rparr>"

definition direct :: "reply_to \<Rightarrow> reply list \<Rightarrow> bool list \<Rightarrow> delivery" where
  "direct to replies wrote = \<lparr>dv_to = to, dv_replies = replies, dv_wrote = wrote, dv_batch = None\<rparr>"

definition post :: "to_writer \<Rightarrow> ('l, 'c) executor \<Rightarrow> ('l, 'c) executor" where
  "post m e = e\<lparr>mailbox := mailbox e @ [m]\<rparr>"

section \<open>Handing records to the writer\<close>

text \<open>One shard's buffer to the staging buffer, with its flushed point when it had anything.\<close>

definition stage_shard :: "'l log_ops \<Rightarrow> nat \<Rightarrow> ('l, 'c) executor \<times> (nat \<times> u64) list \<Rightarrow> ('l, 'c) executor \<times> (nat \<times> u64) list"
  where
  "stage_shard ops offset et =
     (let (e, touched) = et; st = states e ! offset;
          (l, out) = log_flush_into ops (sh_log st) (staging (sync e));
          e' = with_sync (\<lambda>s. s\<lparr>staging := out\<rparr>) (e\<lparr>states := (states e)[offset := st\<lparr>sh_log := l\<rparr>]\<rparr>)
      in (e', if length out > length (staging (sync e))
              then (case log_flushed_through ops l of Some through \<Rightarrow> touched @ [(offset, through)] | None \<Rightarrow> touched)
              else touched))"

definition stage_all :: "'l log_ops \<Rightarrow> ('l, 'c) executor \<Rightarrow> ('l, 'c) executor \<times> (nat \<times> u64) list" where
  "stage_all ops e = fold (stage_shard ops) [0..<length (states e)] (e, [])"

definition submit :: "(nat \<times> u64) list \<Rightarrow> ('l, 'c) executor \<Rightarrow> bool \<times> ('l, 'c) executor" where
  "submit shards e =
     (let s = sync e in
      if staging s = [] then (False, e)
      else
        let bytes = staging s; n = batch s;
            s1 = s\<lparr>staging := [], sent_bytes := sent_bytes s + length bytes, batch := n + 1\<rparr> in
        case sy_link s of
          Some x \<Rightarrow> (True, post (Submit x n bytes) (e\<lparr>sync := track \<lparr>sent_number = n, sent_shards = shards\<rparr> s1\<rparr>))
        | None \<Rightarrow> (True, e\<lparr>sync := s1\<lparr>acked_bytes := sent_bytes s1\<rparr>\<rparr>))"

section \<open>The writer's word\<close>

definition refuse :: "('l, 'c) checkpoint_ops \<Rightarrow> ('l, 'c) executor \<Rightarrow> ('l, 'c) executor" where
  "refuse ck e =
     (let (ds, _, s) = fail_all (Error LogWriteFailed) (sync e);
          s1 = s\<lparr>sent := [], acked_bytes := sent_bytes s\<rparr>;
          e1 = deliver ds (e\<lparr>sync := s1\<rparr>);
          e2 = (if is_refusing s1 then e1
                else e1\<lparr>node_refusing := node_refusing e1 + 1, sync := s1\<lparr>sy_mode := Refusing 0 0\<rparr>,
                        states := map (\<lambda>st. st\<lparr>refusing := True\<rparr>) (states e1)\<rparr>)
      in e2\<lparr>checkpoint := ck_force ck (checkpoint e2), saves := saves e2 @ saves_after e2, saves_after := []\<rparr>)"

text \<open>A completed sync reported to the shards of the batches it covered.\<close>

definition prove_shard :: "'l log_ops \<Rightarrow> u64 \<Rightarrow> nat \<times> u64 \<Rightarrow> 'l shard_state list \<Rightarrow> 'l shard_state list" where
  "prove_shard ops round os sts =
     (case os of (offset, s) \<Rightarrow>
        sts[offset := (sts ! offset)\<lparr>sh_log := snd (log_sync_completed ops (sh_log (sts ! offset)) (Some s) round)\<rparr>])"

fun on_progress :: "'l log_ops \<Rightarrow> ('l, 'c) checkpoint_ops \<Rightarrow> progress \<Rightarrow> ('l, 'c) executor \<Rightarrow> ('l, 'c) executor" where
  "on_progress ops ck (Written bytes) e = with_sync (\<lambda>s. s\<lparr>acked_bytes := max (acked_bytes s) bytes\<rparr>) e"
| "on_progress ops ck (Durable through bytes round) e =
     (let e1 = with_sync (\<lambda>s. s\<lparr>acked_bytes := max (acked_bytes s) bytes, durable_batch := max (durable_batch s) through\<rparr>) e in
      case through of
        None \<Rightarrow> e1
      | Some b \<Rightarrow>
          (let s = sync e1; proven = takeWhile (\<lambda>x. sent_number x \<le> b) (sent s);
               e2 = e1\<lparr>states := fold (prove_shard ops round) (concat (map sent_shards proven)) (states e1),
                       sync := s\<lparr>sent := dropWhile (\<lambda>x. sent_number x \<le> b) (sent s)\<rparr>\<rparr>;
               (ds, _, s') = release_through b (sync e2)
           in deliver ds (e2\<lparr>sync := s'\<rparr>)))"
| "on_progress ops ck Fault e = refuse ck e"
| "on_progress ops ck Nudge e = e\<lparr>checkpoint := ck_nudge ck (checkpoint e)\<rparr>"
| "on_progress ops ck Stopped e = e"

definition writer_gone :: "('l, 'c) checkpoint_ops \<Rightarrow> ('l, 'c) executor \<Rightarrow> ('l, 'c) executor" where
  "writer_gone ck e = refuse ck (with_sync (\<lambda>s. s\<lparr>sy_link := None, writer_lost := True\<rparr>) e)"

section \<open>Serving\<close>

definition ask_for_snapshot :: "('l, 'c) checkpoint_ops \<Rightarrow> ('l, 'c) executor \<Rightarrow> ('l, 'c) executor" where
  "ask_for_snapshot ck e =
     (if snapshot_asked e then e else e\<lparr>checkpoint := ck_nudge ck (checkpoint e), snapshot_asked := True\<rparr>)"

definition snapshot :: "('l, 'c) checkpoint_ops \<Rightarrow> bool \<Rightarrow> nat \<Rightarrow> reply_to \<Rightarrow> ('l, 'c) executor \<Rightarrow> ('l, 'c) executor" where
  "snapshot ck wait copies to e =
     (let is_open = ck_is_open ck (checkpoint e) in
      if \<not> wait then
        if is_open \<or> snapshot_asked e
        then deliver [direct to (replicate copies (Error SaveInProgress)) (replicate copies False)] e
        else deliver [direct to (replicate copies (Status (ascii ''Background saving started''))) (replicate copies False)]
               (ask_for_snapshot ck e)
      else if is_open then e\<lparr>saves_after := saves_after e @ [(to, replicate copies Ok)]\<rparr>
      else let e1 = ask_for_snapshot ck e in e1\<lparr>saves := saves e1 @ [(to, replicate copies Ok)]\<rparr>)"

definition save_delivery :: "reply_to \<times> reply list \<Rightarrow> delivery" where
  "save_delivery x = direct (fst x) (snd x) (replicate (length (snd x)) False)"

definition answer_saves :: "('l, 'c) checkpoint_ops \<Rightarrow> bool \<Rightarrow> bool \<Rightarrow> ('l, 'c) executor \<Rightarrow> ('l, 'c) executor" where
  "answer_saves ck finished faulted e =
     (if finished then
        let e1 = (deliver (map save_delivery (saves e)) e)\<lparr>saves := []\<rparr> in
        if saves_after e1 = [] then e1
        else ask_for_snapshot ck (e1\<lparr>saves := saves_after e1, saves_after := []\<rparr>)
      else if faulted then
        (deliver (map (\<lambda>(to, rs). save_delivery (to, replicate (length rs) (Error SnapshotFailed)))
           (saves e @ saves_after e)) e)\<lparr>saves := [], saves_after := []\<rparr>
      else e)"

definition micros_between :: "instant \<Rightarrow> instant \<Rightarrow> u64" where
  "micros_between after before = saturate_u64 ((after - before) div 1000)"

definition spared_key :: "command \<Rightarrow> bytes option" where
  "spared_key cmd = (case route cmd of Key key \<Rightarrow> Some key | _ \<Rightarrow> None)"

text \<open>The three ways a command is answered; only the last reaches a handler.\<close>

definition run_allowed :: "'l log_ops \<Rightarrow> siphash \<Rightarrow> now \<Rightarrow> u16 \<Rightarrow> command \<Rightarrow> 'l shard_state \<Rightarrow> ('l, 'c) executor \<Rightarrow>
    (reply \<times> 'l shard_state \<times> ('l, 'c) executor) option" where
  "run_allowed ops sip n shard cmd st e =
     (if mode (limit e) = NoEviction \<and> denied_when_full cmd \<and> exceeded (limit e) (gauge e)
      then Some (Error OutOfMemory, st, e)
      else do {
        (r, st1) \<leftarrow> apply_cmd ops sip shard n cmd st;
        let g = gauge_apply (gauge e) (used_bytes (sh_dict st)) (used_bytes (sh_dict st1));
        if mode (limit e) = AllKeysLru \<and> \<not> is_refusing (sync e)
        then do {
          (st2, g2) \<leftarrow> evict_until_fits ops sip shard (ceiling (limit e)) (spared_key cmd) st1 g;
          Some (r, st2, e\<lparr>gauge := g2\<rparr>)
        }
        else Some (r, st1, e\<lparr>gauge := g\<rparr>)
      })"

definition run_command :: "'l log_ops \<Rightarrow> siphash \<Rightarrow> now \<Rightarrow> u16 \<Rightarrow> command \<Rightarrow> 'l shard_state \<Rightarrow> ('l, 'c) executor \<Rightarrow>
    (reply \<times> 'l shard_state \<times> ('l, 'c) executor) option" where
  "run_command ops sip n shard cmd st e =
     (if cmd = Stats then Some (StatsReply (stats_of st), st, e)
      else case sy_mode (sync e) of
        Refusing refused ticks \<Rightarrow>
          if writes_the_log cmd \<and> \<not> acks_while_refusing (sync e)
          then Some (Error LogWriteFailed, st, with_sync (\<lambda>s. s\<lparr>sy_mode := Refusing (refused + 1) ticks\<rparr>) e)
          else run_allowed ops sip n shard cmd st e
      | Serving \<Rightarrow> run_allowed ops sip n shard cmd st e)"

text \<open>One command of an envelope, answered and counted; and whether it appended.\<close>

definition answer :: "'l log_ops \<Rightarrow> siphash \<Rightarrow> now \<Rightarrow> u16 \<Rightarrow> command \<Rightarrow> u64 \<Rightarrow> ('l, 'c) executor \<Rightarrow>
    (reply \<times> bool \<times> ('l, 'c) executor) option" where
  "answer ops sip n shard cmd spent e =
     (let offset = unat (shard - first_shard e) in
      do {
        st \<leftarrow> get (states e) offset;
        (r, st1, e1) \<leftarrow> run_command ops sip n shard cmd st e;
        let st2 = count_call sip cmd r spent st1;
        Some (r, sh_seq st2 \<noteq> sh_seq st, e1\<lparr>states := (states e1)[offset := st2]\<rparr>)
      })"

text \<open>The commands of an envelope, each with the clock reading taken after it.\<close>

type_synonym request = "u16 \<times> command \<times> instant"

fun answer_all :: "'l log_ops \<Rightarrow> siphash \<Rightarrow> now \<Rightarrow> instant \<Rightarrow> request list \<Rightarrow> ('l, 'c) executor \<Rightarrow>
    (reply list \<times> bool list \<times> ('l, 'c) executor) option" where
  "answer_all ops sip n before [] e = Some ([], [], e)"
| "answer_all ops sip n before ((shard, cmd, after) # cmds) e =
     do {
       (r, appended, e1) \<leftarrow> answer ops sip n shard cmd (micros_between after before) e;
       (rs, as, e2) \<leftarrow> answer_all ops sip n after cmds e1;
       Some (r # rs, appended # as, e2)
     }"

text \<open>What the commands appended, staged in command order and counted.\<close>

definition stage_commands :: "'l log_ops \<Rightarrow> request list \<Rightarrow> bool list \<Rightarrow> ('l, 'c) executor \<Rightarrow>
    ('l, 'c) executor \<times> (nat \<times> u64) list" where
  "stage_commands ops cmds appended e =
     (if True \<in> set appended
      then fold (stage_shard ops) (map (\<lambda>(shard, _, _). unat (shard - first_shard e)) cmds)
             (e\<lparr>cell := (cell e)\<lparr>changes := changes (cell e) + of_nat (length (filter id appended))\<rparr>\<rparr>, [])
      else (e, []))"

definition hold_or_send :: "bool \<Rightarrow> nat \<Rightarrow> reply_to \<Rightarrow> reply list \<Rightarrow> bool list \<Rightarrow> ('l, 'c) executor \<Rightarrow> ('l, 'c) executor" where
  "hold_or_send wait number to replies wrote e =
     (if wait \<and> True \<in> set wrote
      then with_sync (\<lambda>s. s\<lparr>held := held s @ [\<lparr>held_number = number, held_to = to, held_replies = replies,
             held_wrote = wrote\<rparr>]\<rparr>) e
      else deliver [direct to replies wrote] e)"

definition serve_commands :: "'l log_ops \<Rightarrow> siphash \<Rightarrow> now \<Rightarrow> request list \<Rightarrow> reply_to \<Rightarrow> ('l, 'c) executor \<Rightarrow>
    ('l, 'c) executor option" where
  "serve_commands ops sip n cmds to e =
     do {
       (replies, appended, e1) \<leftarrow> answer_all ops sip n (now_instant n) cmds e;
       let wrote = map2 (\<lambda>(_, cmd, _) a. a \<and> writes_the_log cmd) cmds appended;
       let holds = holds_replies (sync e) \<and> \<not> is_refusing (sync e);
       let (e2, touched) = stage_commands ops cmds appended e1;
       let (submitted, e3) = submit touched e2;
       Some (hold_or_send (submitted \<and> holds) (batch (sync e2)) to replies wrote e3)
     }"

fun serve :: "'l log_ops \<Rightarrow> ('l, 'c) checkpoint_ops \<Rightarrow> siphash \<Rightarrow> now \<Rightarrow> request list \<Rightarrow> reply_to \<Rightarrow> ('l, 'c) executor \<Rightarrow>
    ('l, 'c) executor option" where
  "serve ops ck sip n ((shard, Snapshot wait, after) # cmds) to e = Some (snapshot ck wait (Suc (length cmds)) to e)"
| "serve ops ck sip n cmds to e = serve_commands ops sip n cmds to e"

section \<open>Housekeeping\<close>

definition keep_shard :: "'l log_ops \<Rightarrow> siphash \<Rightarrow> instant \<Rightarrow> nat \<Rightarrow> ('l, 'c) executor \<Rightarrow> ('l, 'c) executor option" where
  "keep_shard ops sip t offset e =
     (let st = states e ! offset;
          st1 = with_dict (\<lambda>d. rehash_step d REHASH_BUCKETS_PER_TICK) st
      in do {
        st2 \<leftarrow> (if is_refusing (sync e) then Some st1 else sweep_expired ops sip (first_shard e + of_nat offset) t st1);
        Some (e\<lparr>states := (states e)[offset := st2],
                gauge := gauge_apply (gauge e) (used_bytes (sh_dict st)) (used_bytes (sh_dict st2))\<rparr>)
      })"

fun keep_shards :: "'l log_ops \<Rightarrow> siphash \<Rightarrow> instant \<Rightarrow> nat list \<Rightarrow> ('l, 'c) executor \<Rightarrow> ('l, 'c) executor option" where
  "keep_shards ops sip t [] e = Some e"
| "keep_shards ops sip t (i # is) e = do { e1 \<leftarrow> keep_shard ops sip t i e; keep_shards ops sip t is e1 }"

definition log_position_of :: "sync_state \<Rightarrow> log_position" where
  "log_position_of s =
     (let b = (if batch s = 0 then None else Some (batch s - 1)) in
      \<lparr>lp_bytes = sent_bytes s, lp_batch = b, lp_durable = (if sy_link s \<noteq> None then durable_batch s else b)\<rparr>)"

definition end_refusal :: "('l, 'c) executor \<Rightarrow> ('l, 'c) executor" where
  "end_refusal e =
     (if is_refusing (sync e) \<and> \<not> writer_lost (sync e)
      then e\<lparr>sync := (sync e)\<lparr>sy_mode := Serving\<rparr>, node_refusing := node_refusing e - 1,
             states := map (\<lambda>st. st\<lparr>refusing := False\<rparr>) (states e)\<rparr>
      else e)"

definition image_done :: "completed \<Rightarrow> ('l, 'c) executor \<Rightarrow> ('l, 'c) executor" where
  "image_done c e =
     (let covered = (case changes_at_open e of Some n \<Rightarrow> n | None \<Rightarrow> changes (cell e));
          e1 = e\<lparr>node_lossy := node_lossy e - cm_cleared c, changes_at_open := None,
                 cell := (cell e)\<lparr>changes := changes (cell e) - covered, saves_done := saves_done (cell e) + 1,
                   last_save_unix := newest_images_secs (states e), last_save_ticks := cm_ticks c, last_save_failed := 0\<rparr>\<rparr>;
          e2 = (case sy_link (sync e1) of
                  Some x \<Rightarrow> post (Covered x (cm_cycle c) (cm_through c) (cm_bytes c)) e1
                | None \<Rightarrow> e1)
      in end_refusal e2)"

definition run_checkpoint :: "('l, 'c) checkpoint_ops \<Rightarrow> now \<Rightarrow> ('l, 'c) executor \<Rightarrow> ('l, 'c) executor option" where
  "run_checkpoint ck n e =
     (let e0 = (if ck_is_open ck (checkpoint e) then e else e\<lparr>changes_at_open := None\<rparr>) in
      do {
        (tick, sts, c) \<leftarrow> ck_tick ck (first_shard e0) (states e0) n (log_position_of (sync e0)) (checkpoint e0);
        let e1 = e0\<lparr>states := sts, checkpoint := c, snapshot_asked := False,
                    cell := (cell e0)\<lparr>cycle_open := (if ck_is_open ck c then 1 else 0),
                      last_save_failed := (if tk_faulted tick then 1 else last_save_failed (cell e0))\<rparr>\<rparr>;
        let e2 = (if tk_wants_sync tick \<and> sy_link (sync e1) \<noteq> None then post SyncNow e1 else e1);
        let e3 = (case tk_completed tick of Some done_c \<Rightarrow> image_done done_c e2 | None \<Rightarrow> e2);
        let e4 = answer_saves ck (tk_completed tick \<noteq> None) (tk_faulted tick) e3;
        Some (if ck_is_open ck (checkpoint e4) \<and> changes_at_open e4 = None
              then e4\<lparr>changes_at_open := Some (changes (cell e4))\<rparr> else e4)
      })"

definition count_tick :: "sync_state \<Rightarrow> sync_state" where
  "count_tick s = (case sy_mode s of Refusing refused ticks \<Rightarrow> s\<lparr>sy_mode := Refusing refused (ticks + 1)\<rparr> | Serving \<Rightarrow> s)"

definition housekeeping :: "'l log_ops \<Rightarrow> ('l, 'c) checkpoint_ops \<Rightarrow> siphash \<Rightarrow> now \<Rightarrow> ('l, 'c) executor \<Rightarrow>
    ('l, 'c) executor option" where
  "housekeeping ops ck sip n e =
     do {
       e1 \<leftarrow> keep_shards ops sip (now_instant n) [0..<length (states e)] e;
       let (e2, touched) = stage_all ops e1;
       let e3 = snd (submit touched e2);
       run_checkpoint ck n (with_sync count_tick e3)
     }"

section \<open>The loop\<close>

text \<open>What wakes the loop: the writer's word, or \<open>None\<close> when the writer is gone; an envelope,
  with the clock readings of its commands and of the housekeeping that may follow;
  the tick, with its clock reading and the one the next tick is set from. The second
  component of the state is \<open>next_tick\<close>.\<close>

datatype wake =
    Heard "progress option"
  | Inbox now "request list" reply_to now
  | TickDue now instant

definition ready :: "wake \<Rightarrow> ('l, 'c) executor \<Rightarrow> bool" where
  "ready w e = (case w of
      Heard _ \<Rightarrow> sy_link (sync e) \<noteq> None
    | Inbox _ _ _ _ \<Rightarrow> \<not> over_budget (sync e)
    | TickDue _ _ \<Rightarrow> True)"

definition asks_snapshot :: "request list \<Rightarrow> bool" where
  "asks_snapshot cmds = (case cmds of (_, Snapshot _, _) # _ \<Rightarrow> True | _ \<Rightarrow> False)"

fun turn :: "'l log_ops \<Rightarrow> ('l, 'c) checkpoint_ops \<Rightarrow> siphash \<Rightarrow> wake \<Rightarrow> ('l, 'c) executor \<times> instant \<Rightarrow>
    (('l, 'c) executor \<times> instant) option" where
  "turn ops ck sip (Heard (Some m)) (e, due) = Some (on_progress ops ck m e, due)"
| "turn ops ck sip (Heard None) (e, due) = Some (writer_gone ck e, due)"
| "turn ops ck sip (Inbox n cmds to later) (e, due) =
     do {
       e1 \<leftarrow> serve ops ck sip n cmds to e;
       if \<not> asks_snapshot cmds \<and> due \<le> now_instant n
       then do { e2 \<leftarrow> housekeeping ops ck sip later e1; Some (e2, now_instant n + HOUSEKEEPING_TICK) }
       else Some (e1, due)
     }"
| "turn ops ck sip (TickDue n after) (e, due) =
     do { e1 \<leftarrow> housekeeping ops ck sip n e; Some (e1, after + HOUSEKEEPING_TICK) }"

section \<open>The last round\<close>

text \<open>What the writer still says once the executor has asked to stop: everything up to
  \<open>Stopped\<close>, or the end of the channel.\<close>

fun settle_writer :: "'l log_ops \<Rightarrow> ('l, 'c) checkpoint_ops \<Rightarrow> progress list \<Rightarrow> ('l, 'c) executor \<Rightarrow> ('l, 'c) executor" where
  "settle_writer ops ck [] e = writer_gone ck e"
| "settle_writer ops ck (Stopped # ms) e = e"
| "settle_writer ops ck (m # ms) e = settle_writer ops ck ms (on_progress ops ck m e)"

fun serve_queued :: "'l log_ops \<Rightarrow> ('l, 'c) checkpoint_ops \<Rightarrow> siphash \<Rightarrow> (now \<times> request list \<times> reply_to) list \<Rightarrow>
    ('l, 'c) executor \<Rightarrow> ('l, 'c) executor option" where
  "serve_queued ops ck sip [] e = Some e"
| "serve_queued ops ck sip ((n, cmds, to) # queue) e =
     do { e1 \<leftarrow> serve ops ck sip n cmds to e; serve_queued ops ck sip queue e1 }"

definition stop :: "'l log_ops \<Rightarrow> ('l, 'c) checkpoint_ops \<Rightarrow> siphash \<Rightarrow> (now \<times> request list \<times> reply_to) list \<Rightarrow>
    progress list \<Rightarrow> ('l, 'c) executor \<Rightarrow> (bool \<times> ('l, 'c) executor) option" where
  "stop ops ck sip queue messages e =
     do {
       e1 \<leftarrow> serve_queued ops ck sip queue e;
       let (e2, touched) = stage_all ops e1;
       let e3 = snd (submit touched e2);
       case sy_link (sync e3) of
         None \<Rightarrow>
           let (ds, _, s) = release_through (batch (sync e3)) (sync e3) in
           Some (\<not> is_refusing s, deliver ds (e3\<lparr>sync := s\<rparr>))
       | Some x \<Rightarrow>
           let e4 = settle_writer ops ck messages (post (StopWriter x) e3);
               (ds, _, s) = fail_all (Error LogWriteFailed) (sync e4) in
           Some (\<not> is_refusing s, deliver ds (e4\<lparr>sync := s\<rparr>))
     }"

end
