(* ===== verification/ExecutorCorrect.thy ===== *)
theory ExecutorCorrect
  imports Growth Executor "HOL-Library.Multiset"
begin

text \<open>
  What the executor guarantees over any sequence of envelopes, messages from the writer
  and ticks: what the writer receives is every record of every shard, once and in
  sequence; under a policy that holds acknowledgements no write is acknowledged before
  the sync that covers its record; a refusing executor changes nothing; the memory gauge
  follows the dictionaries; every envelope is answered exactly once.
\<close>

section \<open>One command\<close>

text \<open>A command that is not one of \<^const>\<open>writes_the_log\<close> has the log accept nothing but
  the deletion of a due key, and not even that on a refusing shard.\<close>

lemma dispatch_quiet:
  assumes "dispatch_cmd ops sip shard n cmd st = Some (r, st')" "\<not> writes_the_log cmd"
  shows "quiet sip (Suc x) st st'"
  using assms by (cases cmd) (auto simp: Let_def quiet_changes)

lemma quiet_trans:
  assumes "quiet sip x a b" "quiet sip y b c"
  shows "quiet sip (x + y) a c"
  using assms by (auto simp: quiet_def dict_moves_def)

lemma apply_quiet:
  assumes "apply_cmd ops sip shard n cmd st = Some (r, st')" "\<not> writes_the_log cmd" "refusing st"
  shows "quiet sip (Suc x) st st'"
proof (cases "route cmd")
  case (Key key)
  obtain b s where s: "remove_if_expired sip key (now_instant n) st = (b, s)" by fastforce
  let ?s = "s\<lparr>expired := expired s + (if b then 1 else 0)\<rparr>"
  have "quiet sip 0 st s" using s by (auto simp: remove_if_expired_def quiet_changes split: if_splits)
  then have "quiet sip 0 st ?s" by (simp add: quiet_def)
  moreover have "dispatch_cmd ops sip shard n cmd ?s = Some (r, st')"
    using assms(1,3) Key s by (simp add: apply_cmd_def reclaim_def)
  ultimately show ?thesis using dispatch_quiet [OF _ assms(2), of ops sip shard n ?s r st' x] quiet_trans by fastforce
qed (use assms dispatch_quiet in \<open>simp_all add: apply_cmd_def\<close>)

lemma quiet_grows_nil: "quiet sip x st st' \<Longrightarrow> grows holds sip shard x st [] st'"
  unfolding quiet_def by (intro grows_quiet) simp_all

lemma count_call_same [simp]:
  "sh_dict (count_call sip cmd r spent st) = sh_dict st" "sh_seq (count_call sip cmd r spent st) = sh_seq st"
  "sh_log (count_call sip cmd r spent st) = sh_log st" "refusing (count_call sip cmd r spent st) = refusing st"
  by (simp_all add: count_call_def Let_def split: option.splits bool.splits)

text \<open>\<open>silenced\<close>: the executor refuses, its shards know, and nothing overrides it.\<close>

definition silenced :: "sync_state \<Rightarrow> 'l shard_state \<Rightarrow> bool" where
  "silenced s st \<longleftrightarrow> is_refusing s \<and> refusing st \<and> \<not> acks_while_refusing s"

context replication_log
begin

lemma run_allowed_grows:
  assumes "run_allowed ops sip n shard cmd st e = Some (r, st', e')"
  shows "\<exists>new g. e' = e\<lparr>gauge := g\<rparr> \<and> grows holds sip shard 4 st new st' \<and>
    (silenced (sync e) st \<and> \<not> writes_the_log cmd \<longrightarrow> new = [])"
proof (cases "mode (limit e) = NoEviction \<and> denied_when_full cmd \<and> exceeded (limit e) (gauge e)")
  case True
  then have "st' = st" "e' = e" using assms by (auto simp: run_allowed_def)
  then show ?thesis using quiet_grows_nil [OF quiet_refl] by (intro exI [of _ "[]"] exI [of _ "gauge e"]) simp
next
  case False
  let ?g = "\<lambda>s. gauge_apply (gauge e) (used_bytes (sh_dict st)) (used_bytes (sh_dict s))"
  let ?evicts = "mode (limit e) = AllKeysLru \<and> \<not> is_refusing (sync e)"
  obtain r0 s where s: "apply_cmd ops sip shard n cmd st = Some (r0, s)"
    "(if ?evicts then do { (st2, g2) \<leftarrow> evict_until_fits ops sip shard (ceiling (limit e)) (spared_key cmd) s (?g s);
        Some (r0, st2, e\<lparr>gauge := g2\<rparr>) } else Some (r0, s, e\<lparr>gauge := ?g s\<rparr>)) = Some (r, st', e')"
    using assms False by (auto simp: run_allowed_def bind_eq_Some_conv [of "apply_cmd ops sip shard n cmd st"] Let_def)
  obtain new where new: "grows holds sip shard 3 st new s" using apply_grows [OF s(1)] by blast
  show ?thesis
  proof (cases ?evicts)
    case True
    then obtain g2 where g2: "evict_until_fits ops sip shard (ceiling (limit e)) (spared_key cmd) s (?g s) = Some (st', g2)"
      "e' = e\<lparr>gauge := g2\<rparr>" using s(2) by (auto simp: bind_eq_Some_conv)
    obtain more where "grows holds sip shard (Suc 0) s more st'"
      using evict_grows_any [OF g2(1), of holds] replication_log_axioms by auto
    from grows_trans [OF new this] g2(2) True show ?thesis by (auto simp: silenced_def)
  next
    case False
    then have e: "st' = s" "e' = e\<lparr>gauge := ?g s\<rparr>" using s(2) by auto
    show ?thesis
    proof (cases "silenced (sync e) st \<and> \<not> writes_the_log cmd")
      case True
      then have "quiet sip 4 st s" using apply_quiet [OF s(1), where x = 3] by (simp add: silenced_def)
      from quiet_grows_nil [OF this] show ?thesis unfolding e by auto
    next
      case False
      then show ?thesis unfolding e using grows_more [OF new, of 4] by auto
    qed
  qed
qed

lemma answer_grows:
  assumes "answer ops sip n shard cmd spent e = Some (r, appended, e')"
  obtains st st' new g m where "unat (shard - first_shard e) < length (states e)" "st = states e ! unat (shard - first_shard e)"
    "e' = e\<lparr>states := (states e)[unat (shard - first_shard e) := st'], gauge := g, sync := (sync e)\<lparr>sy_mode := m\<rparr>\<rparr>"
    "is_refusing ((sync e)\<lparr>sy_mode := m\<rparr>) = is_refusing (sync e)"
    "grows holds sip shard 4 st new st'" "appended \<longleftrightarrow> sh_seq st' \<noteq> sh_seq st" "silenced (sync e) st \<Longrightarrow> new = []"
proof -
  let ?i = "unat (shard - first_shard e)"
  obtain s e1 where s: "?i < length (states e)" "run_command ops sip n shard cmd (states e ! ?i) e = Some (r, s, e1)"
    "appended = (sh_seq s \<noteq> sh_seq (states e ! ?i))" "e' = e1\<lparr>states := (states e1)[?i := count_call sip cmd r spent s]\<rparr>"
    using assms by (auto simp: answer_def Let_def bind_eq_Some_conv get_eq_Some_iff)
  have "\<exists>new g m. e1 = e\<lparr>gauge := g, sync := (sync e)\<lparr>sy_mode := m\<rparr>\<rparr> \<and> is_refusing ((sync e)\<lparr>sy_mode := m\<rparr>) = is_refusing (sync e) \<and>
      grows holds sip shard 4 (states e ! ?i) new s \<and> (silenced (sync e) (states e ! ?i) \<longrightarrow> new = [])"
    (is "\<exists>new g m. ?P new g m")
  proof (cases "cmd = Stats")
    case True
    then have "?P [] (gauge e) (sy_mode (sync e))" using s(2) by (auto simp: run_command_def quiet_grows_nil)
    then show ?thesis by blast
  next
    case not_stats: False
    show ?thesis
    proof (cases "is_refusing (sync e) \<and> writes_the_log cmd \<and> \<not> acks_while_refusing (sync e)")
      case True
      then obtain a b where m: "sy_mode (sync e) = Refusing a b" by (auto simp: is_refusing_def split: ex_mode.splits)
      then have "?P [] (gauge e) (Refusing (a + 1) b)" using s(2) True not_stats
        by (auto simp: run_command_def quiet_grows_nil with_sync_def is_refusing_def)
      then show ?thesis by blast
    next
      case False
      then have "run_allowed ops sip n shard cmd (states e ! ?i) e = Some (r, s, e1)"
        using s(2) not_stats by (auto simp: run_command_def is_refusing_def split: ex_mode.splits)
      from run_allowed_grows [OF this] obtain new g where "e1 = e\<lparr>gauge := g\<rparr>" "grows holds sip shard 4 (states e ! ?i) new s"
        "silenced (sync e) (states e ! ?i) \<and> \<not> writes_the_log cmd \<longrightarrow> new = []" by blast
      then have "?P new g (sy_mode (sync e))" using False by (auto simp: silenced_def)
      then show ?thesis by blast
    qed
  qed
  then obtain new g m where "?P new g m" by blast
  then have p: "?P new g m" .
  show thesis
  proof (rule that [OF s(1) refl])
    show "e' = e\<lparr>states := (states e)[?i := count_call sip cmd r spent s], gauge := g, sync := (sync e)\<lparr>sy_mode := m\<rparr>\<rparr>"
      using s(4) p by simp
    show "grows holds sip shard 4 (states e ! ?i) new (count_call sip cmd r spent s)"
      by (rule grows_cong [where st' = s]) (use p in simp_all)
  qed (use s(3) p in simp_all)
qed

end

section \<open>One envelope\<close>

text \<open>Every shard of a range has grown, shard \<open>i\<close> by the records \<open>news i\<close>.\<close>

definition all_grow :: "('l \<Rightarrow> log_record list \<Rightarrow> bool) \<Rightarrow> siphash \<Rightarrow> u16 \<Rightarrow> nat \<Rightarrow> 'l shard_state list \<Rightarrow>
    (nat \<Rightarrow> log_record list) \<Rightarrow> 'l shard_state list \<Rightarrow> bool" where
  "all_grow holds sip first x sts news sts' \<longleftrightarrow> length sts' = length sts \<and> (\<forall>i. news i \<noteq> [] \<longrightarrow> i < length sts) \<and>
     (\<forall>i < length sts. grows holds sip (first + of_nat i) x (sts ! i) (news i) (sts' ! i))"

lemma all_grow_refl: "all_grow holds sip first x sts (\<lambda>_. []) sts"
  by (simp add: all_grow_def quiet_grows_nil)

lemma all_grow_trans:
  "all_grow holds sip first x a n b \<Longrightarrow> all_grow holds sip first y b m c \<Longrightarrow> all_grow holds sip first (x + y) a (\<lambda>i. n i @ m i) c"
  unfolding all_grow_def by (auto intro: grows_trans)

lemma all_grow_one:
  assumes "i < length sts" "grows holds sip (first + of_nat i) x (sts ! i) new st'"
  shows "all_grow holds sip first x sts ((\<lambda>_. [])(i := new)) (sts[i := st'])"
  using assms by (simp add: all_grow_def quiet_grows_nil nth_list_update)

text \<open>Room for a batch: the counters of the dictionaries cannot wrap within it.\<close>

definition roomy :: "siphash \<Rightarrow> nat \<Rightarrow> 'l shard_state list \<Rightarrow> bool" where
  "roomy sip k sts \<longleftrightarrow> (\<forall>st \<in> set sts. dict_inv sip (sh_dict st) \<and> d_len (sh_dict st) + 4 * k < 2 ^ 64)"

lemma roomy_one:
  assumes "roomy sip (Suc k) sts" "i < length sts" "grows holds sip shard 4 (sts ! i) new st'"
  shows "roomy sip k (sts[i := st'])" "new = [] \<longleftrightarrow> sh_seq st' = sh_seq (sts ! i)"
proof -
  have st: "dict_inv sip (sh_dict (sts ! i))" "d_len (sh_dict (sts ! i)) + 4 * Suc k < 2 ^ 64"
    using assms(1,2) by (auto simp: roomy_def)
  then have st': "dict_inv sip (sh_dict st')" "length new + d_len (sh_dict st') \<le> d_len (sh_dict (sts ! i)) + 4"
    using assms(3) by (auto simp: grows_def)
  have "roomy sip k sts" using assms(1) by (auto simp: roomy_def)
  moreover have "d_len (sh_dict st') + 4 * k < 2 ^ 64" using st(2) st'(2) by simp
  ultimately show "roomy sip k (sts[i := st'])"
    using st'(1) set_update_subset_insert [of sts i st'] unfolding roomy_def by blast
  have "length new < 2 ^ 64" using st(2) st'(2) by simp
  then have "(of_nat (length new) :: u64) = 0 \<longleftrightarrow> new = []"
    by (simp add: word_of_nat_eq_0_iff) (metis dvd_imp_le length_0_conv length_greater_0_conv not_less dvd_0_right)
  then show "new = [] \<longleftrightarrow> sh_seq st' = sh_seq (sts ! i)" using assms(3) by (simp add: grows_def)
qed

definition offsets :: "('l, 'c) executor \<Rightarrow> request list \<Rightarrow> nat list" where
  "offsets e cmds = map (\<lambda>(shard, _, _). unat (shard - first_shard e)) cmds"

context replication_log
begin

lemma answer_all_grows:
  assumes "answer_all ops sip n t cmds e = Some (rs, as, e')" "roomy sip (length cmds) (states e)"
  shows "\<exists>news g m. e' = e\<lparr>states := states e', gauge := g, sync := (sync e)\<lparr>sy_mode := m\<rparr>\<rparr> \<and>
    is_refusing ((sync e)\<lparr>sy_mode := m\<rparr>) = is_refusing (sync e) \<and>
    all_grow holds sip (first_shard e) (4 * length cmds) (states e) news (states e') \<and>
    (\<forall>i. news i \<noteq> [] \<longrightarrow> i \<in> set (offsets e cmds)) \<and> set (offsets e cmds) \<subseteq> {..<length (states e)} \<and>
    (True \<in> set as \<longleftrightarrow> (\<exists>i. news i \<noteq> [])) \<and> length rs = length cmds \<and> length as = length cmds \<and>
    ((\<forall>st \<in> set (states e). silenced (sync e) st) \<longrightarrow> (\<forall>i. news i = []))"
  using assms
proof (induction cmds arbitrary: t e rs as)
  case Nil
  then show ?case using all_grow_refl [of holds sip "first_shard e" 0 "states e"]
    by (intro exI [of _ "\<lambda>_. []"] exI [of _ "gauge e"] exI [of _ "sy_mode (sync e)"]) (simp add: offsets_def)
next
  case (Cons c cmds)
  obtain shard cmd after where c: "c = (shard, cmd, after)" by (cases c)
  obtain r a e1 rs' as' where one: "answer ops sip n shard cmd (micros_between after t) e = Some (r, a, e1)"
    and rest: "answer_all ops sip n after cmds e1 = Some (rs', as', e')" and out: "rs = r # rs'" "as = a # as'"
    using Cons.prems(1) by (auto simp: c bind_eq_Some_conv)
  let ?i = "unat (shard - first_shard e)"
  show ?case
  proof (rule answer_grows [OF one])
    fix st st' new g m
    assume i: "?i < length (states e)" and st: "st = states e ! ?i"
      and e1: "e1 = e\<lparr>states := (states e)[?i := st'], gauge := g, sync := (sync e)\<lparr>sy_mode := m\<rparr>\<rparr>"
      and m: "is_refusing ((sync e)\<lparr>sy_mode := m\<rparr>) = is_refusing (sync e)"
      and new: "grows holds sip shard 4 st new st'" and a: "a \<longleftrightarrow> sh_seq st' \<noteq> sh_seq st"
      and silent: "silenced (sync e) st \<Longrightarrow> new = []"
    have room: "roomy sip (length cmds) (states e1)" and a_new: "a \<longleftrightarrow> new \<noteq> []"
      using roomy_one [of sip "length cmds" "states e" ?i holds shard new st'] Cons.prems(2) i new a by (simp_all add: e1 st)
    obtain news g' m' where IH: "e' = e1\<lparr>states := states e', gauge := g', sync := (sync e1)\<lparr>sy_mode := m'\<rparr>\<rparr>"
      "is_refusing ((sync e1)\<lparr>sy_mode := m'\<rparr>) = is_refusing (sync e1)"
      "all_grow holds sip (first_shard e1) (4 * length cmds) (states e1) news (states e')"
      "\<forall>i. news i \<noteq> [] \<longrightarrow> i \<in> set (offsets e1 cmds)" "set (offsets e1 cmds) \<subseteq> {..<length (states e1)}"
      "True \<in> set as' \<longleftrightarrow> (\<exists>i. news i \<noteq> [])" "length rs' = length cmds" "length as' = length cmds"
      "(\<forall>st \<in> set (states e1). silenced (sync e1) st) \<longrightarrow> (\<forall>i. news i = [])"
      using Cons.IH [OF rest room] by (elim exE conjE) (rule that)
    let ?news = "\<lambda>j. ((\<lambda>_. [])(?i := new)) j @ news j"
    have shard: "first_shard e + of_nat ?i = shard" by simp
    have one: "all_grow holds sip (first_shard e) 4 (states e) ((\<lambda>_. [])(?i := new)) (states e1)"
      using all_grow_one [OF i, of holds sip "first_shard e" 4 new st'] new by (simp add: e1 st shard)
    have f: "first_shard e1 = first_shard e" "length (states e1) = length (states e)" by (simp_all add: e1)
    have grow: "all_grow holds sip (first_shard e) (4 * length (c # cmds)) (states e) ?news (states e')"
      using all_grow_trans [OF one IH(3) [unfolded f]] by simp
    have eq: "e' = e\<lparr>states := states e', gauge := g', sync := (sync e)\<lparr>sy_mode := m'\<rparr>\<rparr>"
      by (subst IH(1)) (simp add: e1)
    have ref: "is_refusing ((sync e)\<lparr>sy_mode := m'\<rparr>) = is_refusing (sync e)"
      using IH(2) m by (simp add: e1)
    have offs: "offsets e (c # cmds) = ?i # offsets e1 cmds" by (simp add: offsets_def c f)
    have quiet: "?news j = []" if s: "\<forall>st \<in> set (states e). silenced (sync e) st" for j
    proof -
      have new: "new = []" using silent s i st by simp
      have "silenced (sync e1) x" if "x \<in> set (states e1)" for x
      proof -
        have "x = st' \<or> x \<in> set (states e)" using that set_update_subset_insert [of "states e" ?i st'] by (auto simp: e1)
        moreover have "silenced (sync e) st" using s i st by simp
        moreover have "refusing st' = refusing st" using \<open>grows holds sip shard 4 st new st'\<close> by (simp add: grows_def)
        ultimately show ?thesis using s m by (auto simp: silenced_def e1)
      qed
      then show ?thesis using IH(9) new by auto
    qed
    have quiet': "(\<forall>st \<in> set (states e). silenced (sync e) st) \<longrightarrow> (\<forall>j. ?news j = [])" using quiet by blast
    have named: "\<forall>j. ?news j \<noteq> [] \<longrightarrow> j \<in> set (offsets e (c # cmds))" using IH(4) offs by auto
    have inside: "set (offsets e (c # cmds)) \<subseteq> {..<length (states e)}" using IH(5) offs f i by auto
    have "(\<exists>j. ?news j \<noteq> []) \<longleftrightarrow> new \<noteq> [] \<or> (\<exists>j. news j \<noteq> [])" by (metis Nil_is_append_conv fun_upd_apply)
    then have any: "True \<in> set as \<longleftrightarrow> (\<exists>j. ?news j \<noteq> [])" using IH(6) a_new out by auto
    have len: "length rs = length (c # cmds)" "length as = length (c # cmds)" using IH(7,8) out by simp_all
    show ?thesis
      by (intro exI [of _ ?news] exI [of _ g'] exI [of _ m'] conjI) (fact eq ref grow named inside any len quiet')+
  qed
qed

end

section \<open>Handing over\<close>

text \<open>What shards \<open>is\<close> hand over in turn when shard \<open>i\<close> has accepted \<open>news i\<close>: a shard named
  twice has nothing the second time.\<close>

fun drained :: "(nat \<Rightarrow> log_record list) \<Rightarrow> nat list \<Rightarrow> log_record list" where
  "drained news [] = []"
| "drained news (i # is) = news i @ drained (news(i := [])) is"

lemma drained_Nil: "\<forall>i. news i = [] \<Longrightarrow> drained news is = []"
  by (induction "is" arbitrary: news) auto

lemma drained_eq_Nil: "drained news is = [] \<longleftrightarrow> (\<forall>i \<in> set is. news i = [])"
  by (induction "is" arbitrary: news) (auto simp: fun_upd_def)

lemma drained_set: "set (drained news is) = (\<Union>i \<in> set is. set (news i))"
  by (induction "is" arbitrary: news) (auto split: if_splits)

lemma drained_filter:
  assumes "\<forall>j r. r \<in> set (news j) \<longrightarrow> (P r \<longleftrightarrow> j = i)"
  shows "filter P (drained news is) = (if i \<in> set is then news i else [])"
  using assms
proof (induction "is" arbitrary: news)
  case (Cons j "is")
  have "filter P (news j) = (if j = i then news i else [])"
    using Cons.prems by (auto simp: filter_id_conv filter_empty_conv)
  moreover have "filter P (drained (news(j := [])) is) = (if i \<in> set is then (news(j := [])) i else [])"
    by (rule Cons.IH) (use Cons.prems in auto)
  ultimately show ?case by auto
qed simp

definition relogged :: "('l \<Rightarrow> log_record list \<Rightarrow> bool) \<Rightarrow> 'l shard_state list \<Rightarrow> (nat \<Rightarrow> log_record list) \<Rightarrow> 'l shard_state list \<Rightarrow> bool" where
  "relogged holds sts left sts' \<longleftrightarrow> length sts' = length sts \<and>
     (\<forall>i < length sts. \<exists>l. sts' ! i = (sts ! i)\<lparr>sh_log := l\<rparr> \<and> holds l (left i))"

context replication_log
begin

lemma stage_fold:
  assumes "\<And>i. i < length (states e) \<Longrightarrow> holds (sh_log (states e ! i)) (news i)" "set is \<subseteq> {..<length (states e)}"
    and "fold (stage_shard ops) is (e, tch) = (e', tch')"
  shows "\<exists>bs. wire (drained news is) = Some bs \<and>
    e' = e\<lparr>states := states e', sync := (sync e)\<lparr>staging := staging (sync e) @ bs\<rparr>\<rparr> \<and>
    relogged holds (states e) (\<lambda>i. if i \<in> set is then [] else news i) (states e')"
  using assms
proof (induction "is" arbitrary: e tch news)
  case Nil
  then show ?case by (auto simp: relogged_def intro!: exI [of _ "[]"] exI [of _ "sh_log (states e ! _)"])
next
  case (Cons i "is")
  have i: "i < length (states e)" using Cons.prems(2) by simp
  obtain l out where f: "log_flush_into ops (sh_log (states e ! i)) (staging (sync e)) = (l, out)" by fastforce
  obtain bs where bs: "holds l []" "wire (news i) = Some bs" "out = staging (sync e) @ bs"
    using flush_moves [OF Cons.prems(1) [OF i] f] by blast
  let ?e = "e\<lparr>states := (states e)[i := (states e ! i)\<lparr>sh_log := l\<rparr>], sync := (sync e)\<lparr>staging := out\<rparr>\<rparr>"
  obtain t where t: "stage_shard ops i (e, tch) = (?e, t)"
    by (auto simp: stage_shard_def f with_sync_def Let_def)
  have h: "holds (sh_log (states ?e ! j)) ((news(i := [])) j)" if "j < length (states ?e)" for j
    using that Cons.prems(1) bs(1) by (simp add: nth_list_update)
  obtain cs where IH: "wire (drained (news(i := [])) is) = Some cs"
    "e' = ?e\<lparr>states := states e', sync := (sync ?e)\<lparr>staging := staging (sync ?e) @ cs\<rparr>\<rparr>"
    "relogged holds (states ?e) (\<lambda>j. if j \<in> set is then [] else (news(i := [])) j) (states e')"
  proof -
    have "set is \<subseteq> {..<length (states ?e)}" "fold (stage_shard ops) is (?e, t) = (e', tch')"
      using Cons.prems(2,3) t by simp_all
    then show thesis using Cons.IH [where e = ?e and news = "news(i := [])" and tch = t] h that by blast
  qed
  have "wire (drained news (i # is)) = Some (bs @ cs)" using bs(2) IH(1) by (simp add: wire_append)
  moreover have "e' = e\<lparr>states := states e', sync := (sync e)\<lparr>staging := staging (sync e) @ bs @ cs\<rparr>\<rparr>"
    by (subst IH(2)) (simp add: bs(3))
  moreover have "relogged holds (states e) (\<lambda>j. if j \<in> set (i # is) then [] else news j) (states e')"
    unfolding relogged_def
  proof (intro conjI allI impI)
    show "length (states e') = length (states e)" using IH(3) by (simp add: relogged_def)
    fix j
    assume j: "j < length (states e)"
    then obtain l' where l': "states e' ! j = ((states e)[i := (states e ! i)\<lparr>sh_log := l\<rparr>] ! j)\<lparr>sh_log := l'\<rparr>"
      "holds l' (if j \<in> set is then [] else (news(i := [])) j)" using IH(3) by (auto simp: relogged_def)
    then show "\<exists>l'. states e' ! j = (states e ! j)\<lparr>sh_log := l'\<rparr> \<and> holds l' (if j \<in> set (i # is) then [] else news j)"
      using j by (intro exI [of _ l']) (cases "j = i"; simp split: if_splits)
  qed
  ultimately show ?case by blast
qed

end

text \<open>One submission.\<close>

lemma submit_empty: "staging (sync e) = [] \<Longrightarrow> submit t e = (False, e)"
  by (simp add: submit_def Let_def)

lemma submit_linked:
  assumes "staging (sync e) \<noteq> []" "sy_link (sync e) = Some x"
  shows "\<exists>sent'. submit t e = (True, e\<lparr>mailbox := mailbox e @ [Submit x (batch (sync e)) (staging (sync e))],
    sync := (sync e)\<lparr>staging := [], sent_bytes := sent_bytes (sync e) + length (staging (sync e)), batch := batch (sync e) + 1,
      sent := sent'\<rparr>\<rparr>)"
  using assms
  by (intro exI [of _ "if min_interval (sy_policy (sync e)) = None then sent (sync e)
      else sent (sync e) @ [\<lparr>sent_number = batch (sync e), sent_shards = t\<rparr>]"])
     (simp add: submit_def Let_def post_def track_def)

section \<open>The records the writer has received\<close>

fun submissions :: "to_writer list \<Rightarrow> (nat \<times> bytes) list" where
  "submissions [] = []"
| "submissions (Submit x b bytes # ms) = (b, bytes) # submissions ms"
| "submissions (m # ms) = submissions ms"

lemma submissions_append [simp]: "submissions (ms @ ns) = submissions ms @ submissions ns"
  by (induction ms rule: submissions.induct) simp_all

abbreviation of_shard :: "u16 \<Rightarrow> log_record list \<Rightarrow> log_record list" where
  "of_shard shard rs \<equiv> filter (\<lambda>r. rec_shard r = shard) rs"

text \<open>\<open>complete\<close>: \<open>rs\<close> is, shard by shard, every record from the shard's starting point to its
  sequence number, in order and once.\<close>

definition complete :: "u16 \<Rightarrow> u64 list \<Rightarrow> 'l shard_state list \<Rightarrow> log_record list \<Rightarrow> bool" where
  "complete first starts sts rs \<longleftrightarrow> length starts = length sts \<and>
     (\<forall>i < length sts. numbered (first + of_nat i) (starts ! i) (of_shard (first + of_nat i) rs) \<and>
        sh_seq (sts ! i) = starts ! i + of_nat (length (of_shard (first + of_nat i) rs))) \<and>
     (\<forall>r \<in> set rs. \<exists>i < length sts. rec_shard r = first + of_nat i)"

lemma shard_ids_distinct:
  fixes first :: u16
  assumes "i < n" "j < n" "n \<le> 2 ^ 16"
  shows "first + of_nat i = first + of_nat j \<longleftrightarrow> i = j"
  using assms by (auto simp: word_of_nat_eq_iff take_bit_nat_eq_self)

lemma complete_grows:
  assumes "complete first starts sts rs" "all_grow holds sip first x sts news sts'"
    and "set is \<subseteq> {..<length sts}" "\<And>i. news i \<noteq> [] \<Longrightarrow> i \<in> set is" "length sts \<le> 2 ^ 16"
  shows "complete first starts sts' (rs @ drained news is)"
proof -
  have len: "length sts' = length sts" and small: "\<And>i. news i \<noteq> [] \<Longrightarrow> i < length sts"
    and grow: "\<And>i. i < length sts \<Longrightarrow> grows holds sip (first + of_nat i) x (sts ! i) (news i) (sts' ! i)"
    using assms(2) by (auto simp: all_grow_def)
  have mine: "rec_shard r = first + of_nat j" if "r \<in> set (news j)" for r j
    using grow [of j] small [of j] that numbered_shard by (fastforce simp: grows_def)
  have unnamed: "news i = []" if "i \<notin> set is" for i using assms(4) that by blast
  have filt: "of_shard (first + of_nat i) (drained news is) = news i" if i: "i < length sts" for i
  proof -
    have "rec_shard r = first + of_nat i \<longleftrightarrow> j = i" if r: "r \<in> set (news j)" for r j
    proof -
      have "j < length sts" using small [of j] r by (cases "news j") auto
      then show ?thesis using mine [OF r] shard_ids_distinct [OF _ i assms(5), of j first] by simp
    qed
    then show ?thesis using drained_filter [of news "\<lambda>r. rec_shard r = first + of_nat i" i "is"] unnamed by auto
  qed
  have "\<exists>i < length sts. rec_shard r = first + of_nat i" if "r \<in> set (drained news is)" for r
    using that mine assms(3) by (fastforce simp: drained_set)
  then show ?thesis using assms(1) grow len filt
    by (auto simp: complete_def numbered_append grows_def add.assoc)
qed

definition duties :: "sync_state \<Rightarrow> sync_policy \<times> bool \<times> u16 option \<times> held_batch list \<times> nat option \<times> bool \<times> bool" where
  "duties s = (sy_policy s, acks_while_refusing s, sy_link s, held s, durable_batch s, writer_lost s, is_refusing s)"

text \<open>What holds of an executor between two events: its shards have handed over all they
  accepted, and the writer has received the whole log so far, batch by batch.\<close>

definition in_step :: "('l \<Rightarrow> log_record list \<Rightarrow> bool) \<Rightarrow> siphash \<Rightarrow> u64 list \<Rightarrow> ('l, 'c) executor \<Rightarrow> bool" where
  "in_step holds sip starts e \<longleftrightarrow>
     length (states e) \<le> 2 ^ 16 \<and> staging (sync e) = [] \<and> \<not> acks_while_refusing (sync e) \<and>
     (sy_link (sync e) = None \<longrightarrow> writer_lost (sync e) \<and> is_refusing (sync e)) \<and>
     (\<forall>st \<in> set (states e). dict_inv sip (sh_dict st) \<and> holds (sh_log st) [] \<and> refusing st = is_refusing (sync e)) \<and>
     map fst (submissions (mailbox e)) = [0..<batch (sync e)] \<and>
     (\<exists>ws. map wire ws = map (Some \<circ> snd) (submissions (mailbox e)) \<and> [] \<notin> set ws \<and>
        complete (first_shard e) starts (states e) (concat ws))"

context replication_log
begin

lemma hand_over:
  assumes inv: "in_step holds sip starts e"
    and grow: "all_grow holds sip (first_shard e) x (states e) news (states e1)"
    and e1: "first_shard e1 = first_shard e" "mailbox e1 = mailbox e" "staging (sync e1) = []" "batch (sync e1) = batch (sync e)"
      "duties (sync e1) = duties (sync e)"
    and offs: "set is \<subseteq> {..<length (states e)}" "\<And>i. news i \<noteq> [] \<Longrightarrow> i \<in> set is"
    and silent: "is_refusing (sync e) \<Longrightarrow> \<forall>i. news i = []"
    and run: "fold (stage_shard ops) is (e1, []) = (e2, t)" "submit t e2 = (sub, e3)"
  shows "in_step holds sip starts e3" "sub \<longleftrightarrow> (\<exists>i. news i \<noteq> [])" "batch (sync e2) = batch (sync e)"
    "first_shard e3 = first_shard e" "outbox e3 = outbox e1" "saves e3 = saves e1" "saves_after e3 = saves_after e1"
    "duties (sync e3) = duties (sync e)" "batch (sync e3) = (if sub then batch (sync e) + 1 else batch (sync e))"
proof -
  have len: "length (states e1) = length (states e)" and small: "length (states e) \<le> 2 ^ 16"
    using grow inv by (simp_all add: all_grow_def in_step_def)
  have step: "\<And>i. i < length (states e) \<Longrightarrow> grows holds sip (first_shard e + of_nat i) x (states e ! i) (news i) (states e1 ! i)"
    using grow by (simp add: all_grow_def)
  have old: "\<And>i. i < length (states e) \<Longrightarrow> dict_inv sip (sh_dict (states e ! i)) \<and> holds (sh_log (states e ! i)) [] \<and>
      refusing (states e ! i) = is_refusing (sync e)"
    using inv by (simp add: in_step_def)
  have h: "holds (sh_log (states e1 ! i)) (news i)" if "i < length (states e1)" for i
    using step [of i] old [of i] that len by (force simp: grows_def)
  have range: "set is \<subseteq> {..<length (states e1)}" using offs(1) len by simp
  obtain bs where bs: "wire (drained news is) = Some bs"
    "e2 = e1\<lparr>states := states e2, sync := (sync e1)\<lparr>staging := staging (sync e1) @ bs\<rparr>\<rparr>"
    "relogged holds (states e1) (\<lambda>i. if i \<in> set is then [] else news i) (states e2)"
    using stage_fold [OF h range run(1)] by blast
  have stag: "staging (sync e2) = bs" using e1(3) by (subst bs(2)) simp
  have e2: "first_shard e2 = first_shard e" "mailbox e2 = mailbox e" "batch (sync e2) = batch (sync e)" "outbox e2 = outbox e1"
    "saves e2 = saves e1" "saves_after e2 = saves_after e1" "duties (sync e2) = duties (sync e)"
    using e1 by (subst bs(2), simp add: duties_def is_refusing_def)+
  have unnamed: "(if i \<in> set is then [] else news i) = []" for i using offs(2) by auto
  have same2: "sh_dict (states e2 ! i) = sh_dict (states e1 ! i) \<and> sh_seq (states e2 ! i) = sh_seq (states e1 ! i) \<and>
      refusing (states e2 ! i) = refusing (states e1 ! i) \<and> holds (sh_log (states e2 ! i)) []" if "i < length (states e)" for i
    using bs(3) that len by (auto simp: relogged_def unnamed)
  have len2: "length (states e2) = length (states e)" using bs(3) len by (simp add: relogged_def)
  have shards: "dict_inv sip (sh_dict st) \<and> holds (sh_log st) [] \<and> refusing st = is_refusing (sync e)" if "st \<in> set (states e2)" for st
    using that same2 step old len2 by (auto simp: in_set_conv_nth grows_def)
  obtain ws where ws: "map wire ws = map (Some \<circ> snd) (submissions (mailbox e))" "[] \<notin> set ws"
    "complete (first_shard e) starts (states e) (concat ws)" and numbers: "map fst (submissions (mailbox e)) = [0..<batch (sync e)]"
    using inv by (auto simp: in_step_def)
  have "complete (first_shard e) starts (states e1) (concat ws @ drained news is)"
    by (rule complete_grows [OF ws(3) grow offs small])
  then have compl: "complete (first_shard e) starts (states e2) (concat ws @ drained news is)"
    using same2 len len2 by (simp add: complete_def)
  have any: "bs = [] \<longleftrightarrow> (\<forall>i. news i = [])" using bs(1) wire_eq_Nil drained_eq_Nil [of news "is"] offs(2) by auto
  have inv3: "in_step holds sip starts e3" if "states e3 = states e2" "first_shard e3 = first_shard e"
      "duties (sync e3) = duties (sync e)" "staging (sync e3) = []"
      "submissions (mailbox e3) = submissions (mailbox e) @ (if bs = [] then [] else [(batch (sync e), bs)])"
      "batch (sync e3) = (if bs = [] then batch (sync e) else batch (sync e) + 1)"
  proof -
    let ?ws = "ws @ (if bs = [] then [] else [drained news is])"
    have nil: "drained news is = [] \<longleftrightarrow> bs = []" using bs(1) wire_eq_Nil [of "drained news is"] by auto
    have "map wire ?ws = map (Some \<circ> snd) (submissions (mailbox e3))" using ws(1) that(5) bs(1) by simp
    moreover have "[] \<notin> set ?ws" using ws(2) nil by auto
    moreover have "complete (first_shard e3) starts (states e3) (concat ?ws)" using compl nil that(1,2) by auto
    ultimately have "\<exists>ws. map wire ws = map (Some \<circ> snd) (submissions (mailbox e3)) \<and> [] \<notin> set ws \<and>
        complete (first_shard e3) starts (states e3) (concat ws)" by blast
    moreover have "map fst (submissions (mailbox e3)) = [0..<batch (sync e3)]" using numbers that(5,6) by simp
    moreover have "\<not> acks_while_refusing (sync e3)" "sy_link (sync e3) = None \<longrightarrow> writer_lost (sync e3) \<and> is_refusing (sync e3)"
      "is_refusing (sync e3) = is_refusing (sync e)" using that(3) inv by (simp_all add: duties_def in_step_def)
    ultimately show ?thesis using shards that(1,4) small len2 by (simp add: in_step_def)
  qed
  have out: "in_step holds sip starts e3 \<and> (sub \<longleftrightarrow> (\<exists>i. news i \<noteq> [])) \<and> first_shard e3 = first_shard e \<and>
    outbox e3 = outbox e1 \<and> saves e3 = saves e1 \<and> saves_after e3 = saves_after e1 \<and>
    duties (sync e3) = duties (sync e) \<and> batch (sync e3) = (if sub then batch (sync e) + 1 else batch (sync e))"
  proof (cases "bs = []")
    case True
    then have "e3 = e2" "\<not> sub" using submit_empty [of e2 t] stag run(2) by auto
    then show ?thesis using inv3 e2 stag True any by simp
  next
    case False
    then have "\<not> is_refusing (sync e)" using any silent by blast
    then obtain a where "sy_link (sync e) = Some a" using inv by (auto simp: in_step_def)
    then have "sy_link (sync e2) = Some a" using e2(7) by (simp add: duties_def)
    then obtain sent' where e3: "sub" "e3 = e2\<lparr>mailbox := mailbox e2 @ [Submit a (batch (sync e2)) (staging (sync e2))],
        sync := (sync e2)\<lparr>staging := [], sent_bytes := sent_bytes (sync e2) + length (staging (sync e2)), batch := batch (sync e2) + 1,
        sent := sent'\<rparr>\<rparr>"
      using submit_linked [of e2 a t] stag False run(2) by auto
    then have "duties (sync e3) = duties (sync e)" using e2(7) by (simp add: duties_def is_refusing_def)
    then show ?thesis using inv3 e2 stag False any e3 by simp
  qed
  then show "in_step holds sip starts e3" "sub \<longleftrightarrow> (\<exists>i. news i \<noteq> [])"
    "first_shard e3 = first_shard e" "outbox e3 = outbox e1" "saves e3 = saves e1" "saves_after e3 = saves_after e1"
    "duties (sync e3) = duties (sync e)" "batch (sync e3) = (if sub then batch (sync e) + 1 else batch (sync e))"
    by blast+
  show "batch (sync e2) = batch (sync e)" by (rule e2(3))
qed

lemma serve_commands_step:
  assumes inv: "in_step holds sip starts e" and room: "roomy sip (length cmds) (states e)"
    and run: "serve_commands ops sip n cmds to e = Some e'"
  shows "\<exists>rs wrote sub e3.
    e' = hold_or_send (sub \<and> holds_replies (sync e) \<and> \<not> is_refusing (sync e)) (batch (sync e)) to rs wrote e3 \<and>
    in_step holds sip starts e3 \<and> duties (sync e3) = duties (sync e) \<and> outbox e3 = outbox e \<and>
    saves e3 = saves e \<and> saves_after e3 = saves_after e \<and>
    batch (sync e3) = (if sub then batch (sync e) + 1 else batch (sync e)) \<and>
    (True \<in> set wrote \<longrightarrow> sub \<and> \<not> is_refusing (sync e)) \<and> length rs = length cmds \<and> length wrote = length cmds"
proof -
  obtain rs as e1 where a: "answer_all ops sip n (now_instant n) cmds e = Some (rs, as, e1)"
    using run by (auto simp: serve_commands_def bind_eq_Some_conv)
  obtain news g m where A: "e1 = e\<lparr>states := states e1, gauge := g, sync := (sync e)\<lparr>sy_mode := m\<rparr>\<rparr>"
    "is_refusing ((sync e)\<lparr>sy_mode := m\<rparr>) = is_refusing (sync e)"
    "all_grow holds sip (first_shard e) (4 * length cmds) (states e) news (states e1)"
    "\<forall>i. news i \<noteq> [] \<longrightarrow> i \<in> set (offsets e cmds)" "set (offsets e cmds) \<subseteq> {..<length (states e)}"
    "True \<in> set as \<longleftrightarrow> (\<exists>i. news i \<noteq> [])" "length rs = length cmds" "length as = length cmds"
    "(\<forall>st \<in> set (states e). silenced (sync e) st) \<longrightarrow> (\<forall>i. news i = [])"
    using answer_all_grows [OF a room] by (elim exE conjE) (rule that)
  let ?wrote = "map2 (\<lambda>(_, cmd, _) a. a \<and> writes_the_log cmd) cmds as"
  let ?c = "(cell e1)\<lparr>changes := changes (cell e1) + of_nat (length (filter id as))\<rparr>"
  let ?e1 = "if True \<in> set as then e1\<lparr>cell := ?c\<rparr> else e1"
  let ?is = "if True \<in> set as then offsets e cmds else []"
  have first: "first_shard e1 = first_shard e" by (subst A(1)) simp
  obtain e2 t where st: "fold (stage_shard ops) ?is (?e1, []) = (e2, t)" by fastforce
  obtain sub e3 where sb: "submit t e2 = (sub, e3)" by fastforce
  have "stage_commands ops cmds as e1 = (e2, t)"
    using st by (cases "True \<in> set as") (simp_all add: stage_commands_def offsets_def first)
  then have out: "e' = hold_or_send (sub \<and> holds_replies (sync e) \<and> \<not> is_refusing (sync e)) (batch (sync e2)) to rs ?wrote e3"
    using run a sb by (simp add: serve_commands_def)
  obtain sts where e: "e1 = e\<lparr>states := sts, gauge := g, sync := (sync e)\<lparr>sy_mode := m\<rparr>\<rparr>" using A(1) by blast
  have "first_shard ?e1 = first_shard e" "mailbox ?e1 = mailbox e" "staging (sync ?e1) = []" "batch (sync ?e1) = batch (sync e)"
    "duties (sync ?e1) = duties (sync e)" "outbox ?e1 = outbox e" "saves ?e1 = saves e" "saves_after ?e1 = saves_after e" "states ?e1 = states e1"
    using A(2) inv by (simp_all add: e duties_def in_step_def)
  note e1 = this
  have silent: "is_refusing (sync e) \<Longrightarrow> \<forall>i. news i = []" using A(9) inv by (auto simp: silenced_def in_step_def)
  have offs: "set ?is \<subseteq> {..<length (states e)}" "\<And>i. news i \<noteq> [] \<Longrightarrow> i \<in> set ?is" using A(4,5,6) by auto
  have grow: "all_grow holds sip (first_shard e) (4 * length cmds) (states e) news (states ?e1)" using A(3) by simp
  note H = hand_over [where news = news and x = "4 * length cmds", OF inv grow e1(1-5) offs silent st sb]
  have "True \<in> set as" if "True \<in> set ?wrote" using that by (auto dest: set_zip_rightD)
  then have "True \<in> set ?wrote \<longrightarrow> sub \<and> \<not> is_refusing (sync e)" using A(6) H(2) silent by blast
  then show ?thesis
    using out H(1,3,8,9) A(7,8) trans [OF H(5) e1(6)] trans [OF H(6) e1(7)] trans [OF H(7) e1(8)]
    by (intro exI [of _ rs] exI [of _ ?wrote] exI [of _ sub] exI [of _ e3]) simp
qed

end

section \<open>Acknowledgements\<close>

text \<open>A delivery vouches for its writes: every write in it was answered with an error, or the
  sync of its batch has completed.\<close>

definition vouched :: "nat option \<Rightarrow> delivery \<Rightarrow> bool" where
  "vouched durable d \<longleftrightarrow>
     (\<forall>(r, w) \<in> set (zip (dv_replies d) (dv_wrote d)). w \<longrightarrow> is_error r \<or> (\<exists>b. dv_batch d = Some b \<and> Some b \<le> durable))"

definition honest :: "('l, 'c) executor \<Rightarrow> bool" where
  "honest e \<longleftrightarrow> (\<forall>d \<in> set (outbox e). vouched (durable_batch (sync e)) d)"

lemma vouched_mono: "vouched a d \<Longrightarrow> a \<le> b \<Longrightarrow> vouched b d"
  unfolding vouched_def by (fastforce intro: order_trans)

lemma vouched_direct: "True \<notin> set wrote \<Longrightarrow> vouched durable (direct to rs wrote)"
  by (auto simp: vouched_def direct_def dest!: set_zip_rightD)

lemma vouched_failed: "dv_replies d = fail_replies (Error x) rs ws \<Longrightarrow> dv_wrote d = ws \<Longrightarrow> vouched durable d"
proof -
  have "is_error r" if "(r, True) \<in> set (zip (fail_replies (Error x) rs ws) ws)" for r
    using that by (induction "Error x" rs ws rule: fail_replies.induct) (auto simp: is_error_def split: if_splits reply.splits)
  then show "dv_replies d = fail_replies (Error x) rs ws \<Longrightarrow> dv_wrote d = ws \<Longrightarrow> vouched durable d"
    by (auto simp: vouched_def)
qed

text \<open>Everything an executor owes an answer, by whom it is owed.\<close>

definition owed :: "('l, 'c) executor \<Rightarrow> reply_to multiset" where
  "owed e = mset (map held_to (held (sync e))) + mset (map fst (saves e)) + mset (map fst (saves_after e))"

definition answered :: "('l, 'c) executor \<Rightarrow> reply_to multiset" where
  "answered e = mset (map dv_to (outbox e))"

lemma in_step_cong:
  assumes "in_step holds sip starts e" "states e' = states e" "first_shard e' = first_shard e" "staging (sync e') = staging (sync e)"
    "acks_while_refusing (sync e') = acks_while_refusing (sync e)" "sy_link (sync e') = sy_link (sync e)"
    "writer_lost (sync e') = writer_lost (sync e)" "is_refusing (sync e') = is_refusing (sync e)" "batch (sync e') = batch (sync e)"
    "submissions (mailbox e') = submissions (mailbox e)"
  shows "in_step holds sip starts e'"
  using assms by (simp add: in_step_def)

text \<open>A step of the executor, in which the envelopes \<open>asked\<close> came in: it stays in step, stays
  honest under a policy that holds acknowledgements, and owes or has answered just
  what it was asked.\<close>

definition sound_step :: "('l \<Rightarrow> log_record list \<Rightarrow> bool) \<Rightarrow> siphash \<Rightarrow> u64 list \<Rightarrow> reply_to multiset \<Rightarrow>
    ('l, 'c) executor \<Rightarrow> ('l, 'c) executor \<Rightarrow> bool" where
  "sound_step holds sip starts asked e e' \<longleftrightarrow>
     in_step holds sip starts e' \<and> sy_policy (sync e') = sy_policy (sync e) \<and>
     (hold_acks (sy_policy (sync e)) \<longrightarrow> honest e \<longrightarrow> honest e') \<and> answered e' + owed e' = answered e + owed e + asked"

lemma sound_step_trans:
  "sound_step holds sip starts x a b \<Longrightarrow> sound_step holds sip starts y b c \<Longrightarrow> sound_step holds sip starts (x + y) a c"
  by (simp add: sound_step_def add.assoc)

lemma sound_step_refl: "in_step holds sip starts e \<Longrightarrow> sound_step holds sip starts {#} e e"
  by (simp add: sound_step_def)

text \<open>Steps that touch nothing the claims are about.\<close>

lemma sound_step_idle:
  assumes "in_step holds sip starts e'" "duties (sync e') = duties (sync e)" "outbox e' = outbox e" "saves e' = saves e"
    "saves_after e' = saves_after e"
  shows "sound_step holds sip starts {#} e e'"
  using assms by (simp add: sound_step_def honest_def answered_def owed_def duties_def)

lemma hold_or_send_sound:
  assumes "in_step holds sip starts e3" "duties (sync e3) = duties (sync e)" "outbox e3 = outbox e" "saves e3 = saves e"
    "saves_after e3 = saves_after e" "hold_acks (sy_policy (sync e)) \<Longrightarrow> True \<in> set wrote \<Longrightarrow> wait"
  shows "sound_step holds sip starts {#to#} e (hold_or_send wait number to rs wrote e3)"
proof (cases "wait \<and> True \<in> set wrote")
  case True
  then have e': "hold_or_send wait number to rs wrote e3 = e3\<lparr>sync := (sync e3)\<lparr>held := held (sync e3) @ [\<lparr>held_number = number, held_to = to,
      held_replies = rs, held_wrote = wrote\<rparr>]\<rparr>\<rparr>" by (simp add: hold_or_send_def with_sync_def)
  have "in_step holds sip starts (hold_or_send wait number to rs wrote e3)"
    unfolding e' by (rule in_step_cong [OF assms(1)]) (simp_all add: is_refusing_def)
  then show ?thesis using assms(2-5) unfolding e' by (simp add: sound_step_def duties_def honest_def answered_def owed_def)
next
  case False
  then have e': "hold_or_send wait number to rs wrote e3 = e3\<lparr>outbox := outbox e3 @ [direct to rs wrote]\<rparr>"
    by (auto simp: hold_or_send_def deliver_def)
  have "in_step holds sip starts (hold_or_send wait number to rs wrote e3)"
    unfolding e' by (rule in_step_cong [OF assms(1)]) simp_all
  moreover have "vouched durable (direct to rs wrote)" if "hold_acks (sy_policy (sync e))" for durable
    using False assms(6) [OF that] vouched_direct by blast
  ultimately show ?thesis using assms(2-5) unfolding e'
    by (simp add: sound_step_def duties_def honest_def answered_def owed_def direct_def)
qed

text \<open>Steps that only answer or queue: nothing they send acknowledges a write.\<close>

lemma sound_step_sends:
  assumes "in_step holds sip starts e'" "duties (sync e') = duties (sync e)" "outbox e' = outbox e @ ds"
    "\<And>d durable. d \<in> set ds \<Longrightarrow> vouched durable d"
    "mset (map dv_to ds) + mset (map fst (saves e')) + mset (map fst (saves_after e')) =
       mset (map fst (saves e)) + mset (map fst (saves_after e)) + asked"
  shows "sound_step holds sip starts asked e e'"
proof -
  have "answered e' + owed e' = mset (map dv_to (outbox e)) + mset (map held_to (held (sync e))) +
      (mset (map dv_to ds) + mset (map fst (saves e')) + mset (map fst (saves_after e')))"
    using assms(2,3) by (simp add: answered_def owed_def duties_def)
  also have "\<dots> = answered e + owed e + asked" unfolding assms(5) by (simp add: answered_def owed_def)
  finally show ?thesis using assms(1-4) by (auto simp: sound_step_def honest_def duties_def)
qed

lemma ask_for_snapshot_eq:
  "ask_for_snapshot ck e =
     e\<lparr>checkpoint := (if snapshot_asked e then checkpoint e else ck_nudge ck (checkpoint e)), snapshot_asked := True\<rparr>"
  by (cases "snapshot_asked e") (simp_all add: ask_for_snapshot_def)

lemma direct_to [simp]: "dv_to (direct to rs wrote) = to"
  by (simp add: direct_def)

lemma vouched_unwritten: "vouched durable (direct to rs (replicate k False))"
  by (rule vouched_direct) simp

lemma snapshot_sound:
  assumes "in_step holds sip starts e"
  shows "sound_step holds sip starts {#to#} e (snapshot ck wait copies to e)"
proof -
  have "in_step holds sip starts (snapshot ck wait copies to e)"
    by (rule in_step_cong [OF assms]) (simp_all add: snapshot_def Let_def deliver_def ask_for_snapshot_eq)
  then show ?thesis
    by (rule sound_step_sends [where ds = "drop (length (outbox e)) (outbox (snapshot ck wait copies to e))"])
       (auto simp: snapshot_def Let_def deliver_def ask_for_snapshot_eq vouched_unwritten split: if_splits)
qed

context replication_log
begin

lemma serve_sound:
  assumes "in_step holds sip starts e" "roomy sip (length cmds) (states e)" "serve ops ck sip n cmds to e = Some e'"
  shows "sound_step holds sip starts {#to#} e e'"
proof -
  consider wait copies where "e' = snapshot ck wait copies to e" | "serve_commands ops sip n cmds to e = Some e'"
    using assms(3) by (cases "(ops, ck, sip, n, cmds, to, e)" rule: serve.cases) auto
  then show ?thesis
  proof cases
    case 2
    obtain rs wrote sub e3 where s: "e' = hold_or_send (sub \<and> holds_replies (sync e) \<and> \<not> is_refusing (sync e)) (batch (sync e)) to rs wrote e3"
      "in_step holds sip starts e3" "duties (sync e3) = duties (sync e)" "outbox e3 = outbox e" "saves e3 = saves e"
      "saves_after e3 = saves_after e" "True \<in> set wrote \<longrightarrow> sub \<and> \<not> is_refusing (sync e)"
      using serve_commands_step [OF assms(1,2) 2] by (elim exE conjE) (rule that)
    show ?thesis unfolding s(1)
      by (rule hold_or_send_sound [OF s(2-6)]) (use s(7) assms(1) in \<open>auto simp: holds_replies_def in_step_def\<close>)
  qed (use snapshot_sound assms(1) in simp)
qed

end

section \<open>The writer's word\<close>

lemma in_stepD:
  assumes "in_step holds sip starts e"
  shows "staging (sync e) = []" "\<not> acks_while_refusing (sync e)"
    "sy_link (sync e) = None \<Longrightarrow> writer_lost (sync e) \<and> is_refusing (sync e)"
    "i < length (states e) \<Longrightarrow> dict_inv sip (sh_dict (states e ! i))"
    "i < length (states e) \<Longrightarrow> holds (sh_log (states e ! i)) []"
    "i < length (states e) \<Longrightarrow> refusing (states e ! i) = is_refusing (sync e)"
  using assms by (simp_all add: in_step_def)

lemma in_step_shards:
  assumes "in_step holds sip starts e" "first_shard e' = first_shard e" "length (states e') = length (states e)"
    "staging (sync e') = []" "\<not> acks_while_refusing (sync e')" "batch (sync e') = batch (sync e)"
    "submissions (mailbox e') = submissions (mailbox e)" "sy_link (sync e') = None \<Longrightarrow> writer_lost (sync e') \<and> is_refusing (sync e')"
    "\<And>i. i < length (states e) \<Longrightarrow> sh_dict (states e' ! i) = sh_dict (states e ! i) \<and> sh_seq (states e' ! i) = sh_seq (states e ! i) \<and>
      holds (sh_log (states e' ! i)) [] \<and> refusing (states e' ! i) = is_refusing (sync e')"
  shows "in_step holds sip starts e'"
proof -
  have "dict_inv sip (sh_dict st) \<and> holds (sh_log st) [] \<and> refusing st = is_refusing (sync e')" if "st \<in> set (states e')" for st
    using that assms(3,9) in_stepD(4) [OF assms(1)] by (auto simp: in_set_conv_nth)
  moreover have "complete (first_shard e') starts (states e') rs = complete (first_shard e) starts (states e) rs" for rs
    using assms(2,3,9) by (simp add: complete_def)
  ultimately show ?thesis using assms(1,3-8) by (simp add: in_step_def)
qed

lemma refuse_sound:
  assumes "in_step holds sip starts e" "sy_link (sync e') = None \<longrightarrow> writer_lost (sync e')"
    and e': "e' = e\<lparr>sync := (sync e)\<lparr>sy_link := l, writer_lost := b\<rparr>\<rparr>"
  shows "sound_step holds sip starts {#} e (refuse ck e')"
proof -
  let ?ds = "map (\<lambda>h. \<lparr>dv_to = held_to h, dv_replies = fail_replies (Error LogWriteFailed) (held_replies h) (held_wrote h),
                dv_wrote = held_wrote h, dv_batch = Some (held_number h)\<rparr>) (held (sync e))"
  let ?m = "if is_refusing (sync e) then sy_mode (sync e) else Refusing 0 0"
  let ?sts = "if is_refusing (sync e) then states e else map (\<lambda>st. st\<lparr>refusing := True\<rparr>) (states e)"
  let ?s = "(sync e')\<lparr>held := [], sent := [], acked_bytes := sent_bytes (sync e), sy_mode := ?m\<rparr>"
  have "refuse ck e' = e'\<lparr>outbox := outbox e @ ?ds, sync := ?s,
      node_refusing := (if is_refusing (sync e) then node_refusing e else node_refusing e + 1), states := ?sts,
      checkpoint := ck_force ck (checkpoint e), saves := saves e @ saves_after e, saves_after := []\<rparr>"
    by (cases "is_refusing (sync e)") (simp_all add: e' refuse_def fail_all_def Let_def deliver_def is_refusing_def)
  note r = this [unfolded e']
  have ref: "is_refusing ?s" by (auto simp: is_refusing_def e' split: ex_mode.splits)
  have "in_step holds sip starts (refuse ck e')"
    unfolding e' r by (rule in_step_shards [OF assms(1)]) (use in_stepD [OF assms(1)] assms(2) ref in \<open>simp_all add: e'\<close>)
  moreover have "honest e \<longrightarrow> honest (refuse ck e')"
    using vouched_failed by (auto simp: honest_def r e')
  moreover have "answered (refuse ck e') + owed (refuse ck e') = answered e + owed e"
    by (simp add: answered_def owed_def e' r comp_def)
  ultimately show ?thesis by (simp add: sound_step_def r e')
qed

context durable_log
begin

lemma prove_keeps:
  assumes "\<And>i. i < length sts \<Longrightarrow> holds (sh_log (sts ! i)) []"
  shows "length (fold (prove_shard ops round) os sts) = length sts \<and>
    (\<forall>i < length sts. \<exists>l. fold (prove_shard ops round) os sts ! i = (sts ! i)\<lparr>sh_log := l\<rparr> \<and> holds l [])"
  using assms
proof (induction os arbitrary: sts)
  case Nil
  then show ?case by (auto intro!: exI [of _ "sh_log (sts ! _)"])
next
  case (Cons x os)
  obtain i q where x: "x = (i, q)" by fastforce
  let ?sts = "prove_shard ops round x sts"
  have len: "length ?sts = length sts" by (simp add: x prove_shard_def)
  have one: "\<exists>l. ?sts ! j = (sts ! j)\<lparr>sh_log := l\<rparr> \<and> holds l []" if "j < length sts" for j
  proof (cases "j = i")
    case True
    then show ?thesis using that sync_keeps [OF Cons.prems [OF that]] by (auto simp: x prove_shard_def)
  next
    case False
    then show ?thesis using that Cons.prems by (auto simp: x prove_shard_def intro!: exI [of _ "sh_log (sts ! j)"])
  qed
  then have "holds (sh_log (?sts ! j)) []" if "j < length ?sts" for j using that len by fastforce
  from Cons.IH [OF this] one len show ?case by fastforce
qed

lemma on_progress_sound:
  assumes "in_step holds sip starts e" "sy_link (sync e) \<noteq> None"
  shows "sound_step holds sip starts {#} e (on_progress ops ck m e)"
proof (cases m)
  case (Written bytes)
  have "in_step holds sip starts (on_progress ops ck m e)"
    by (rule in_step_cong [OF assms(1)]) (simp_all add: Written with_sync_def is_refusing_def)
  then show ?thesis by (rule sound_step_idle) (simp_all add: Written with_sync_def duties_def is_refusing_def)
next
  case Fault
  have "e = e\<lparr>sync := (sync e)\<lparr>sy_link := sy_link (sync e), writer_lost := writer_lost (sync e)\<rparr>\<rparr>" by simp
  then show ?thesis using refuse_sound [OF assms(1), where e' = e and l = "sy_link (sync e)" and b = "writer_lost (sync e)"] assms(2) Fault by simp
next
  case Nudge
  have "in_step holds sip starts (on_progress ops ck m e)" by (rule in_step_cong [OF assms(1)]) (simp_all add: Nudge)
  then show ?thesis by (rule sound_step_idle) (simp_all add: Nudge)
next
  case Stopped
  then show ?thesis using sound_step_refl [OF assms(1)] by simp
next
  case (Durable through bytes round)
  let ?e1 = "with_sync (\<lambda>s. s\<lparr>acked_bytes := max (acked_bytes s) bytes, durable_batch := max (durable_batch s) through\<rparr>) e"
  show ?thesis
  proof (cases through)
    case None
    have "in_step holds sip starts (on_progress ops ck m e)"
      by (rule in_step_cong [OF assms(1)]) (simp_all add: Durable None with_sync_def is_refusing_def)
    then show ?thesis by (rule sound_step_idle) (simp_all add: Durable None with_sync_def duties_def is_refusing_def)
  next
    case (Some b)
    let ?h = "held (sync e)" and ?f = "\<lambda>h. held_number h \<le> b"
    let ?ds = "map (\<lambda>h. \<lparr>dv_to = held_to h, dv_replies = held_replies h, dv_wrote = held_wrote h, dv_batch = Some (held_number h)\<rparr>)
      (takeWhile ?f ?h)"
    obtain os ss where r: "on_progress ops ck m e = e\<lparr>states := fold (prove_shard ops round) os (states e),
        sync := (sync e)\<lparr>acked_bytes := max (acked_bytes (sync e)) bytes, durable_batch := max (durable_batch (sync e)) (Some b),
          sent := ss, held := dropWhile ?f ?h\<rparr>, outbox := outbox e @ ?ds\<rparr>"
      by (auto simp: Durable Some Let_def release_through_def deliver_def with_sync_def intro: that)
    have h: "\<And>i. i < length (states e) \<Longrightarrow> holds (sh_log (states e ! i)) []" using assms(1) by (simp add: in_step_def)
    note k = prove_keeps [OF h, of round os]
    let ?sts = "fold (prove_shard ops round) os (states e)"
    have shard: "sh_dict (?sts ! i) = sh_dict (states e ! i) \<and> sh_seq (?sts ! i) = sh_seq (states e ! i) \<and>
      holds (sh_log (?sts ! i)) [] \<and> refusing (?sts ! i) = refusing (states e ! i)" if "i < length (states e)" for i
      using k that by fastforce
    have "in_step holds sip starts (on_progress ops ck m e)"
      by (rule in_step_shards [OF assms(1)]) (use in_stepD [OF assms(1)] assms(2) k shard in \<open>simp_all add: r is_refusing_def\<close>)
    moreover have "honest (on_progress ops ck m e)" if "honest e"
    proof -
      have "vouched (max (durable_batch (sync e)) (Some b)) d" if "d \<in> set ?ds" for d
      proof -
        from that obtain h where h: "h \<in> set (takeWhile ?f ?h)" "dv_batch d = Some (held_number h)" by auto
        have "held_number h \<le> b" using set_takeWhileD [OF h(1)] by simp
        then have "Some (held_number h) \<le> max (durable_batch (sync e)) (Some b)" by (simp add: le_max_iff_disj)
        then show ?thesis using h(2) by (auto simp: vouched_def)
      qed
      then show ?thesis using \<open>honest e\<close> vouched_mono [OF _ max.cobounded1] by (auto simp: honest_def r)
    qed
    moreover have "answered (on_progress ops ck m e) + owed (on_progress ops ck m e) = answered e + owed e"
    proof -
      have "map held_to (takeWhile ?f ?h) @ map held_to (dropWhile ?f ?h) = map held_to ?h"
        by (metis map_append takeWhile_dropWhile_id)
      then have "mset (map held_to (takeWhile ?f ?h)) + mset (map held_to (dropWhile ?f ?h)) = mset (map held_to ?h)"
        by (metis mset_append)
      then show ?thesis by (simp add: answered_def owed_def r comp_def)
    qed
    ultimately show ?thesis by (simp add: sound_step_def r)
  qed
qed

end

lemma writer_gone_sound:
  "in_step holds sip starts e \<Longrightarrow> sound_step holds sip starts {#} e (writer_gone ck e)"
  unfolding writer_gone_def with_sync_def
  by (rule refuse_sound [where l = None and b = True and e' = "e\<lparr>sync := (sync e)\<lparr>sy_link := None, writer_lost := True\<rparr>\<rparr>"]) simp_all

section \<open>Housekeeping\<close>

text \<open>The contract of a checkpoint towards its executor: a tick reads the shards and may tell
  their logs what an image covers, and changes nothing else of them that a command,
  the log or recovery can see.\<close>

definition left_alone :: "('l \<Rightarrow> log_record list \<Rightarrow> bool) \<Rightarrow> 'l shard_state \<Rightarrow> 'l shard_state \<Rightarrow> bool" where
  "left_alone holds st st' \<longleftrightarrow> sh_dict st' = sh_dict st \<and> sh_seq st' = sh_seq st \<and> refusing st' = refusing st \<and>
     (\<forall>rs. holds (sh_log st) rs \<longrightarrow> holds (sh_log st') rs)"

locale imaging = durable_log ops holds
  for ops :: "'l log_ops" and holds +
  fixes ck :: "('l, 'c) checkpoint_ops"
  assumes tick_reads: "ck_tick ck first sts n lp c = Some (tick, sts', c') \<Longrightarrow> list_all2 (left_alone holds) sts sts'"

interpretation nock: imaging file_log_ops file_log_holds no_checkpoint_ops
  by unfold_locales (auto simp: no_checkpoint_ops_def left_alone_def intro: list.rel_refl)

lemma keep_shard_grows:
  assumes "keep_shard ops sip t i e = Some e'" "i < length (states e)" "replication_log ops holds"
  shows "\<exists>x st' new g. e' = e\<lparr>states := (states e)[i := st'], gauge := g\<rparr> \<and>
    grows holds sip (first_shard e + of_nat i) x (states e ! i) new st' \<and> (is_refusing (sync e) \<longrightarrow> new = [])"
proof -
  let ?st = "with_dict (\<lambda>d. rehash_step d REHASH_BUCKETS_PER_TICK) (states e ! i)"
  have "dict_moves sip 0 (sh_dict (states e ! i)) (sh_dict ?st)"
    using rehash_step_refines [of sip "sh_dict (states e ! i)" REHASH_BUCKETS_PER_TICK] d_len_card [of sip]
    by (auto simp: dict_moves_def)
  then have q: "grows holds sip (first_shard e + of_nat i) 0 (states e ! i) [] ?st"
    by (intro quiet_grows_nil) (simp add: quiet_def)
  obtain st' where st': "(if is_refusing (sync e) then Some ?st else sweep_expired ops sip (first_shard e + of_nat i) t ?st) = Some st'"
    "e' = e\<lparr>states := (states e)[i := st'], gauge := gauge_apply (gauge e) (used_bytes (sh_dict (states e ! i))) (used_bytes (sh_dict st'))\<rparr>"
    using assms(1) by (auto simp: keep_shard_def Let_def bind_eq_Some_conv)
  show ?thesis
  proof (cases "is_refusing (sync e)")
    case True
    then show ?thesis using q st' by auto
  next
    case False
    then obtain x new where "grows holds sip (first_shard e + of_nat i) x ?st new st'"
      using replication_log.sweep_grows [OF assms(3)] st'(1) by fastforce
    from grows_trans [OF q this] show ?thesis using st'(2) False by auto
  qed
qed

lemma keep_shards_grow:
  assumes "keep_shards ops sip t is e = Some e'" "set is \<subseteq> {..<length (states e)}" "replication_log ops holds"
  shows "\<exists>x sts news g. e' = e\<lparr>states := sts, gauge := g\<rparr> \<and> all_grow holds sip (first_shard e) x (states e) news sts \<and>
    (is_refusing (sync e) \<longrightarrow> (\<forall>i. news i = []))"
  using assms(1,2)
proof (induction "is" arbitrary: e)
  case Nil
  then show ?case using all_grow_refl [of holds sip "first_shard e" 0 "states e"]
    by (intro exI [of _ 0] exI [of _ "states e"] exI [of _ "\<lambda>_. []"] exI [of _ "gauge e"]) simp
next
  case (Cons i "is")
  then obtain e1 where e1: "keep_shard ops sip t i e = Some e1" "keep_shards ops sip t is e1 = Some e'"
    by (auto simp: bind_eq_Some_conv)
  have i: "i < length (states e)" using Cons.prems(2) by simp
  obtain x st' new g where one: "e1 = e\<lparr>states := (states e)[i := st'], gauge := g\<rparr>"
    "grows holds sip (first_shard e + of_nat i) x (states e ! i) new st'" "is_refusing (sync e) \<longrightarrow> new = []"
    using keep_shard_grows [OF e1(1) i assms(3)] by blast
  have "set is \<subseteq> {..<length (states e1)}" using Cons.prems(2) one(1) by simp
  from Cons.IH [OF e1(2) this] obtain y sts news g' where IH: "e' = e1\<lparr>states := sts, gauge := g'\<rparr>"
    "all_grow holds sip (first_shard e1) y (states e1) news sts" "is_refusing (sync e1) \<longrightarrow> (\<forall>i. news i = [])" by blast
  have "all_grow holds sip (first_shard e) (x + y) (states e) (\<lambda>j. ((\<lambda>_. [])(i := new)) j @ news j) sts"
    using all_grow_trans [OF all_grow_one [OF i one(2)]] IH(2) one(1) by simp
  moreover have "e' = e\<lparr>states := sts, gauge := g'\<rparr>" using IH(1) one(1) by simp
  moreover have "is_refusing (sync e) \<longrightarrow> (\<forall>j. ((\<lambda>_. [])(i := new)) j @ news j = [])" using IH(3) one(1,3) by simp
  ultimately show ?case by blast
qed

lemma with_sync_count_tick: "\<exists>m. with_sync count_tick e = e\<lparr>sync := (sync e)\<lparr>sy_mode := m\<rparr>\<rparr> \<and>
    is_refusing ((sync e)\<lparr>sy_mode := m\<rparr>) = is_refusing (sync e)"
  by (cases "sy_mode (sync e)") (auto simp: with_sync_def count_tick_def is_refusing_def intro: exI [of _ Serving])

lemma answer_saves_sound:
  assumes "in_step holds sip starts e"
  shows "sound_step holds sip starts {#} e (answer_saves ck finished faulted e)"
proof -
  have "in_step holds sip starts (answer_saves ck finished faulted e)"
    by (rule in_step_cong [OF assms]) (simp_all add: answer_saves_def Let_def deliver_def ask_for_snapshot_eq)
  then show ?thesis
    by (rule sound_step_sends [where ds = "drop (length (outbox e)) (outbox (answer_saves ck finished faulted e))"])
       (auto simp: answer_saves_def Let_def deliver_def ask_for_snapshot_eq save_delivery_def vouched_unwritten multiset.map_comp comp_def case_prod_unfold
         split: if_splits)
qed

lemma image_done_simps [simp]:
  "first_shard (image_done c e) = first_shard e" "outbox (image_done c e) = outbox e" "saves (image_done c e) = saves e"
  "saves_after (image_done c e) = saves_after e" "submissions (mailbox (image_done c e)) = submissions (mailbox e)"
  "sync (image_done c e) = (if is_refusing (sync e) \<and> \<not> writer_lost (sync e) then (sync e)\<lparr>sy_mode := Serving\<rparr> else sync e)"
  "states (image_done c e) =
     (if is_refusing (sync e) \<and> \<not> writer_lost (sync e) then map (\<lambda>st. st\<lparr>refusing := False\<rparr>) (states e) else states e)"
  by (cases "sy_link (sync e)"; simp add: image_done_def end_refusal_def Let_def post_def)+

lemma image_done_sound:
  assumes "in_step holds sip starts e"
  shows "sound_step holds sip starts {#} e (image_done c e)"
proof -
  have "\<not> is_refusing ((sync e)\<lparr>sy_mode := Serving\<rparr>)" by (simp add: is_refusing_def)
  then have "in_step holds sip starts (image_done c e)"
    by (intro in_step_shards [OF assms]) (use in_stepD [OF assms] in \<open>auto split: if_splits\<close>)
  then show ?thesis by (auto simp: sound_step_def honest_def answered_def owed_def)
qed

section \<open>Any run\<close>

fun asked_by :: "wake \<Rightarrow> reply_to list" where
  "asked_by (Inbox _ _ to _) = [to]"
| "asked_by _ = []"

fun room_for :: "siphash \<Rightarrow> wake \<Rightarrow> ('l, 'c) executor \<Rightarrow> bool" where
  "room_for sip (Inbox _ cmds _ _) e = roomy sip (length cmds) (states e)"
| "room_for sip _ e = True"

text \<open>Any number of turns of the loop; \<open>tos\<close> are the envelopes that came in.\<close>

inductive runs :: "'l log_ops \<Rightarrow> ('l, 'c) checkpoint_ops \<Rightarrow> siphash \<Rightarrow> ('l, 'c) executor \<times> instant \<Rightarrow> reply_to list \<Rightarrow>
    ('l, 'c) executor \<times> instant \<Rightarrow> bool" for ops ck sip start where
  runs_start: "runs ops ck sip start [] start"
| runs_turn: "runs ops ck sip start tos (e, due) \<Longrightarrow> ready w e \<Longrightarrow> room_for sip w e \<Longrightarrow>
    turn ops ck sip w (e, due) = Some (e', due') \<Longrightarrow> runs ops ck sip start (tos @ asked_by w) (e', due')"

lemma run_checkpoint_cases:
  assumes "run_checkpoint ck n e = Some e'"
  obtains tick sts c e2 e3 x where
    "ck_tick ck (first_shard e) (states e) n (log_position_of (sync e)) (checkpoint e) = Some (tick, sts, c)"
    "first_shard e2 = first_shard e" "sync e2 = sync e" "states e2 = sts" "gauge e2 = gauge e"
    "submissions (mailbox e2) = submissions (mailbox e)" "outbox e2 = outbox e" "saves e2 = saves e" "saves_after e2 = saves_after e"
    "e3 = (case tk_completed tick of Some done_c \<Rightarrow> image_done done_c e2 | None \<Rightarrow> e2)"
    "e' = (answer_saves ck (tk_completed tick \<noteq> None) (tk_faulted tick) e3)\<lparr>changes_at_open := x\<rparr>"
proof -
  let ?e0 = "if ck_is_open ck (checkpoint e) then e else e\<lparr>changes_at_open := None\<rparr>"
  obtain tick sts c where t: "ck_tick ck (first_shard ?e0) (states ?e0) n (log_position_of (sync ?e0)) (checkpoint ?e0) = Some (tick, sts, c)"
    using assms by (auto simp: run_checkpoint_def Let_def bind_eq_Some_conv)
  define e1 where "e1 = ?e0\<lparr>states := sts, checkpoint := c, snapshot_asked := False,
    cell := (cell ?e0)\<lparr>cycle_open := (if ck_is_open ck c then 1 else 0),
      last_save_failed := (if tk_faulted tick then 1 else last_save_failed (cell ?e0))\<rparr>\<rparr>"
  define e2 where "e2 = (if tk_wants_sync tick \<and> sy_link (sync e1) \<noteq> None then post SyncNow e1 else e1)"
  define e3 where "e3 = (case tk_completed tick of Some done_c \<Rightarrow> image_done done_c e2 | None \<Rightarrow> e2)"
  define e4 where "e4 = answer_saves ck (tk_completed tick \<noteq> None) (tk_faulted tick) e3"
  have "Some e' = Some (if ck_is_open ck (checkpoint e4) \<and> changes_at_open e4 = None
      then e4\<lparr>changes_at_open := Some (changes (cell e4))\<rparr> else e4)"
    using assms unfolding run_checkpoint_def Let_def t Option.bind.bind_lunit prod.case
      e1_def [symmetric] e2_def [symmetric] e3_def [symmetric] e4_def [symmetric] by (rule sym)
  then have "e' = e4\<lparr>changes_at_open := (if ck_is_open ck (checkpoint e4) \<and> changes_at_open e4 = None
      then Some (changes (cell e4)) else changes_at_open e4)\<rparr>" by simp
  then show thesis using t
    by (intro that [of tick sts c e2 e3]) (simp_all add: e3_def e4_def e2_def e1_def post_def split: if_splits)
qed

context imaging
begin

lemma run_checkpoint_sound:
  assumes "in_step holds sip starts e" "run_checkpoint ck n e = Some e'"
  shows "sound_step holds sip starts {#} e e'"
proof (rule run_checkpoint_cases [OF assms(2)])
  fix tick sts c e2 e3 x
  assume t: "ck_tick ck (first_shard e) (states e) n (log_position_of (sync e)) (checkpoint e) = Some (tick, sts, c)"
    and e2: "first_shard e2 = first_shard e" "sync e2 = sync e" "states e2 = sts" "gauge e2 = gauge e"
      "submissions (mailbox e2) = submissions (mailbox e)" "outbox e2 = outbox e" "saves e2 = saves e" "saves_after e2 = saves_after e"
    and e3: "e3 = (case tk_completed tick of Some done_c \<Rightarrow> image_done done_c e2 | None \<Rightarrow> e2)"
    and out: "e' = (answer_saves ck (tk_completed tick \<noteq> None) (tk_faulted tick) e3)\<lparr>changes_at_open := x\<rparr>"
  let ?e4 = "answer_saves ck (tk_completed tick \<noteq> None) (tk_faulted tick) e3"
  have in2: "in_step holds sip starts e2"
    by (rule in_step_shards [OF assms(1)])
       (use e2 tick_reads [OF t] in_stepD [OF assms(1)] in \<open>auto simp: left_alone_def list_all2_conv_all_nth\<close>)
  have s2: "sound_step holds sip starts {#} e e2" by (rule sound_step_idle [OF in2]) (simp_all add: e2)
  have s3: "sound_step holds sip starts {#} e2 e3"
    using image_done_sound [OF in2] sound_step_refl [OF in2] by (simp add: e3 split: option.split)
  then have s4: "sound_step holds sip starts {#} e3 ?e4" by (intro answer_saves_sound) (simp add: sound_step_def)
  then have in4: "in_step holds sip starts ?e4" by (simp add: sound_step_def)
  have "in_step holds sip starts e'" by (rule in_step_cong [OF in4]) (simp_all add: out)
  then have "sound_step holds sip starts {#} ?e4 e'" by (rule sound_step_idle) (simp_all add: out)
  from sound_step_trans [OF sound_step_trans [OF sound_step_trans [OF s2 s3] s4] this] show ?thesis by simp
qed

lemma housekeeping_sound:
  assumes inv: "in_step holds sip starts e" and run: "housekeeping ops ck sip n e = Some e'"
  shows "sound_step holds sip starts {#} e e'"
proof -
  obtain e1 where k: "keep_shards ops sip (now_instant n) [0..<length (states e)] e = Some e1"
    and e': "run_checkpoint ck n (with_sync count_tick (snd (submit (snd (stage_all ops e1)) (fst (stage_all ops e1))))) = Some e'"
    using run by (auto simp: housekeeping_def bind_eq_Some_conv Let_def case_prod_unfold)
  obtain x sts news g where g: "e1 = e\<lparr>states := sts, gauge := g\<rparr>" "all_grow holds sip (first_shard e) x (states e) news sts"
    "is_refusing (sync e) \<longrightarrow> (\<forall>i. news i = [])"
  proof -
    have "set [0..<length (states e)] \<subseteq> {..<length (states e)}" by auto
    from keep_shards_grow [OF k this replication_log_axioms] show thesis using that by blast
  qed
  have len: "length (states e1) = length (states e)" using g(1,2) by (simp add: all_grow_def)
  obtain e2 t where st: "fold (stage_shard ops) [0..<length (states e)] (e1, []) = (e2, t)" by fastforce
  obtain sub e3 where sb: "submit t e2 = (sub, e3)" by fastforce
  have grow: "all_grow holds sip (first_shard e) x (states e) news (states e1)" using g by simp
  have e1: "first_shard e1 = first_shard e" "mailbox e1 = mailbox e" "staging (sync e1) = []" "batch (sync e1) = batch (sync e)"
    "duties (sync e1) = duties (sync e)" using g(1) in_stepD(1) [OF inv] by simp_all
  have offs: "set [0..<length (states e)] \<subseteq> {..<length (states e)}" "\<And>i. news i \<noteq> [] \<Longrightarrow> i \<in> set [0..<length (states e)]"
    using g(2) by (auto simp: all_grow_def)
  have silent: "is_refusing (sync e) \<Longrightarrow> \<forall>i. news i = []" using g(3) by blast
  note H = hand_over [where news = news and x = x, OF inv grow e1 offs silent st sb]
  have s3: "sound_step holds sip starts {#} e e3"
    by (rule sound_step_idle [OF H(1)]) (use H g(1) in simp_all)
  obtain m where m: "with_sync count_tick e3 = e3\<lparr>sync := (sync e3)\<lparr>sy_mode := m\<rparr>\<rparr>"
    "is_refusing ((sync e3)\<lparr>sy_mode := m\<rparr>) = is_refusing (sync e3)" using with_sync_count_tick by blast
  have in4: "in_step holds sip starts (with_sync count_tick e3)" by (rule in_step_cong [OF H(1)]) (simp_all add: m)
  have s4: "sound_step holds sip starts {#} e3 (with_sync count_tick e3)"
    by (rule sound_step_idle [OF in4]) (simp_all add: m duties_def)
  have "run_checkpoint ck n (with_sync count_tick e3) = Some e'" using e' st sb len by (simp add: stage_all_def)
  from sound_step_trans [OF sound_step_trans [OF s3 s4] run_checkpoint_sound [OF in4 this]] show ?thesis by simp
qed

lemma turn_sound:
  assumes "in_step holds sip starts e" "ready w e" "room_for sip w e" "turn ops ck sip w (e, due) = Some (e', due')"
  shows "sound_step holds sip starts (mset (asked_by w)) e e'"
proof (cases w)
  case (Heard m)
  then show ?thesis using assms on_progress_sound [of sip starts e ck] writer_gone_sound [of holds sip starts e ck]
    by (cases m) (auto simp: ready_def)
next
  case (Inbox n cmds to later)
  then obtain e1 where e1: "serve ops ck sip n cmds to e = Some e1"
    "e' = e1 \<or> housekeeping ops ck sip later e1 = Some e'"
    using assms(4) by (auto simp: bind_eq_Some_conv split: if_splits)
  have s: "sound_step holds sip starts {#to#} e e1"
    by (rule serve_sound [OF assms(1) _ e1(1)]) (use assms(3) Inbox in simp)
  then have "in_step holds sip starts e1" by (simp add: sound_step_def)
  from housekeeping_sound [OF this] show ?thesis
    using e1(2) s sound_step_trans [OF s] Inbox by fastforce
next
  case (TickDue n after)
  then show ?thesis using assms housekeeping_sound by (auto simp: bind_eq_Some_conv)
qed

lemma runs_sound:
  assumes "runs ops ck sip start tos end'" "in_step holds sip starts (fst start)"
  shows "sound_step holds sip starts (mset tos) (fst start) (fst end')"
  using assms
proof (induction rule: runs.induct)
  case runs_start
  then show ?case by (simp add: sound_step_refl)
next
  case (runs_turn tos e due w e' due')
  then have s: "sound_step holds sip starts (mset tos) (fst start) e" by simp
  then have "in_step holds sip starts e" by (simp add: sound_step_def)
  from sound_step_trans [OF s turn_sound [OF this runs_turn.hyps(2-4)]] show ?case by simp
qed

end

end
