(* ===== verification/ExecutorProps.thy ===== *)
theory ExecutorProps
  imports ExecutorCorrect
begin

text \<open>
  The executor's promises, over any run of its loop from a fresh start: acknowledgement,
  the log the writer receives, one answer per envelope; what a refusing executor still
  does; and that the memory gauge moves with the dictionaries.
\<close>

section \<open>A fresh start\<close>

text \<open>Shards as recovery or a first start hands them to an executor.\<close>

definition fresh_shards :: "siphash \<Rightarrow> file_log shard_state list \<Rightarrow> bool" where
  "fresh_shards sip sts \<longleftrightarrow> length sts \<le> 2 ^ 16 \<and>
     (\<forall>st \<in> set sts. dict_inv sip (sh_dict st) \<and> file_log_holds (sh_log st) [] \<and> \<not> refusing st)"

lemma fresh_in_step:
  assumes "fresh_shards sip sts"
  shows "in_step file_log_holds sip (map sh_seq sts) (executor_new first sts g lim c policy False (Some x))"
  using assms
  by (auto simp: in_step_def fresh_shards_def executor_new_def sync_new_def is_refusing_def complete_def intro!: exI [of _ "[]"])

lemma fresh_runs:
  assumes "imaging file_log_ops file_log_holds ck" "fresh_shards sip sts"
    and "runs file_log_ops ck sip (executor_new first sts g lim c policy False (Some x), due) tos (e, due')"
  shows "sound_step file_log_holds sip (map sh_seq sts) (mset tos) (executor_new first sts g lim c policy False (Some x)) e"
  using imaging.runs_sound [OF assms(1,3)] fresh_in_step [OF assms(2), of first g lim c policy x] by simp

section \<open>A refusing executor\<close>

text \<open>What a command can do to a shard while its executor refuses: drop keys whose deadline
  has passed, which no reader can tell.\<close>

definition unmoved :: "siphash \<Rightarrow> instant \<Rightarrow> 'l shard_state \<Rightarrow> 'l shard_state \<Rightarrow> bool" where
  "unmoved sip t st st' \<longleftrightarrow> sh_seq st' = sh_seq st \<and> sh_log st' = sh_log st \<and> refusing st' = refusing st \<and>
     dict_inv sip (sh_dict st') \<and> live t (items (sh_dict st')) = live t (items (sh_dict st))"

lemma unmoved_refl [simp]: "dict_inv sip (sh_dict st) \<Longrightarrow> unmoved sip t st st"
  by (simp add: unmoved_def)

lemma unmoved_trans: "unmoved sip t a b \<Longrightarrow> unmoved sip t b c \<Longrightarrow> unmoved sip t a c"
  by (simp add: unmoved_def)

lemma dispatch_unmoved:
  assumes "dispatch_cmd ops sip shard n cmd st = Some (r, st')" "\<not> writes_the_log cmd" "dict_inv sip (sh_dict st)"
  shows "unmoved sip t st st'"
  using assms dk.stamp_ok [OF assms(3)] by (cases cmd) (auto simp: Let_def unmoved_def)

lemma apply_unmoved:
  assumes "apply_cmd ops sip shard n cmd st = Some (r, st')" "\<not> writes_the_log cmd" "dict_inv sip (sh_dict st)" "refusing st"
  shows "unmoved sip (now_instant n) st st'"
proof (cases "route cmd")
  case (Key key)
  let ?t = "now_instant n"
  obtain b s where s: "remove_if_expired sip key ?t st = (b, s)" by fastforce
  let ?s = "s\<lparr>expired := expired s + (if b then 1 else 0)\<rparr>"
  have "unmoved sip ?t st ?s"
  proof (cases "is_due sip (sh_dict st) key ?t")
    case True
    then have "due_in ?t (items (sh_dict st)) key" using is_due_items [OF assms(3)] by simp
    then have "live ?t ((items (sh_dict st))(key := None)) = live ?t (items (sh_dict st))"
      by (intro ext) (auto simp: live_def due_in_def split: option.splits)
    then show ?thesis using True s dk.del_ok [OF assms(3), of key] by (auto simp: remove_if_expired_def unmoved_def)
  next
    case False
    then show ?thesis using s assms(3) by (auto simp: remove_if_expired_def unmoved_def)
  qed
  moreover have "dispatch_cmd ops sip shard n cmd ?s = Some (r, st')"
    using assms(1,4) Key s by (simp add: apply_cmd_def reclaim_def)
  ultimately show ?thesis
    using dispatch_unmoved [OF _ assms(2), of ops sip shard n ?s r st' ?t] unmoved_trans [of sip ?t st ?s st'] by (simp add: unmoved_def)
qed (use assms dispatch_unmoved in \<open>simp_all add: apply_cmd_def\<close>)

lemma answer_unmoved:
  assumes "answer ops sip n shard cmd spent e = Some (r, appended, e')"
    and "\<forall>st \<in> set (states e). silenced (sync e) st \<and> dict_inv sip (sh_dict st)"
  shows "\<not> appended \<and> (writes_the_log cmd \<longrightarrow> r = Error LogWriteFailed) \<and> list_all2 (unmoved sip (now_instant n)) (states e) (states e') \<and>
    (\<exists>sts g m. e' = e\<lparr>states := sts, gauge := g, sync := (sync e)\<lparr>sy_mode := m\<rparr>\<rparr> \<and> is_refusing ((sync e)\<lparr>sy_mode := m\<rparr>))"
proof -
  let ?i = "unat (shard - first_shard e)"
  obtain s e1 where s: "?i < length (states e)" "run_command ops sip n shard cmd (states e ! ?i) e = Some (r, s, e1)"
    "appended = (sh_seq s \<noteq> sh_seq (states e ! ?i))" "e' = e1\<lparr>states := (states e1)[?i := count_call sip cmd r spent s]\<rparr>"
    using assms(1) by (auto simp: answer_def Let_def bind_eq_Some_conv get_eq_Some_iff)
  have st: "silenced (sync e) (states e ! ?i)" "dict_inv sip (sh_dict (states e ! ?i))" using assms(2) s(1) by simp_all
  then obtain a b where m: "sy_mode (sync e) = Refusing a b" by (auto simp: silenced_def is_refusing_def split: ex_mode.splits)
  have "(writes_the_log cmd \<longrightarrow> r = Error LogWriteFailed) \<and> unmoved sip (now_instant n) (states e ! ?i) s \<and>
    (\<exists>g m. e1 = e\<lparr>gauge := g, sync := (sync e)\<lparr>sy_mode := m\<rparr>\<rparr> \<and> is_refusing ((sync e)\<lparr>sy_mode := m\<rparr>))"
  proof (cases "cmd = Stats \<or> writes_the_log cmd")
    case True
    then have "s = states e ! ?i \<and> (writes_the_log cmd \<longrightarrow> r = Error LogWriteFailed) \<and>
        (e1 = e \<or> e1 = e\<lparr>sync := (sync e)\<lparr>sy_mode := Refusing (a + 1) b\<rparr>\<rparr>)"
    proof (cases "cmd = Stats")
      case True
      then show ?thesis using s(2) by (auto simp: run_command_def)
    next
      case False
      then have "writes_the_log cmd" "\<not> acks_while_refusing (sync e)" using True st(1) by (simp_all add: silenced_def)
      then show ?thesis using s(2) False by (simp add: run_command_def m with_sync_def)
    qed
    moreover have "\<exists>g x. e1 = e\<lparr>gauge := g, sync := (sync e)\<lparr>sy_mode := x\<rparr>\<rparr> \<and> is_refusing ((sync e)\<lparr>sy_mode := x\<rparr>)"
      if "e1 = e \<or> e1 = e\<lparr>sync := (sync e)\<lparr>sy_mode := Refusing (a + 1) b\<rparr>\<rparr>"
      using that
    proof
      assume "e1 = e"
      then show ?thesis by (intro exI [of _ "gauge e"] exI [of _ "sy_mode (sync e)"]) (simp add: is_refusing_def m)
    next
      assume "e1 = e\<lparr>sync := (sync e)\<lparr>sy_mode := Refusing (a + 1) b\<rparr>\<rparr>"
      then show ?thesis by (intro exI [of _ "gauge e"] exI [of _ "Refusing (a + 1) b"]) (simp add: is_refusing_def)
    qed
    ultimately show ?thesis using st(2) by simp
  next
    case False
    then have "run_allowed ops sip n shard cmd (states e ! ?i) e = Some (r, s, e1)" using s(2) m by (simp add: run_command_def)
    moreover have "\<not> denied_when_full cmd" using False denied_writes by blast
    ultimately obtain g where "apply_cmd ops sip shard n cmd (states e ! ?i) = Some (r, s)" "e1 = e\<lparr>gauge := g\<rparr>"
      using st(1) by (auto simp: run_allowed_def silenced_def bind_eq_Some_conv Let_def)
    then show ?thesis using apply_unmoved [of ops sip shard n cmd "states e ! ?i" r s] False st
      by (auto simp: silenced_def intro!: exI [of _ g] exI [of _ "sy_mode (sync e)"])
  qed
  then obtain g m where o: "writes_the_log cmd \<longrightarrow> r = Error LogWriteFailed" "unmoved sip (now_instant n) (states e ! ?i) s"
    "e1 = e\<lparr>gauge := g, sync := (sync e)\<lparr>sy_mode := m\<rparr>\<rparr>" "is_refusing ((sync e)\<lparr>sy_mode := m\<rparr>)" by blast
  have c: "unmoved sip (now_instant n) (states e ! ?i) (count_call sip cmd r spent s)" using o(2) by (simp add: unmoved_def)
  have "list_all2 (unmoved sip (now_instant n)) (states e) (states e')"
  proof (rule list_all2_all_nthI)
    show "length (states e) = length (states e')" using s(4) o(3) by simp
    fix i assume i: "i < length (states e)"
    then have "dict_inv sip (sh_dict (states e ! i))" using assms(2) by simp
    then show "unmoved sip (now_instant n) (states e ! i) (states e' ! i)"
      using s(4) o(3) c i by (cases "i = ?i") simp_all
  qed
  moreover have "e' = e\<lparr>states := (states e)[?i := count_call sip cmd r spent s], gauge := g, sync := (sync e)\<lparr>sy_mode := m\<rparr>\<rparr>"
    using s(4) o(3) by simp
  moreover have "\<not> appended" using s(3) o(2) by (simp add: unmoved_def)
  ultimately show ?thesis using o(1,4) by blast
qed

lemma answer_all_unmoved:
  assumes "answer_all ops sip n t cmds e = Some (rs, as, e')"
    and "\<forall>st \<in> set (states e). silenced (sync e) st \<and> dict_inv sip (sh_dict st)"
  shows "True \<notin> set as \<and> list_all2 (\<lambda>(_, cmd, _) r. writes_the_log cmd \<longrightarrow> r = Error LogWriteFailed) cmds rs \<and>
    list_all2 (unmoved sip (now_instant n)) (states e) (states e') \<and> mailbox e' = mailbox e \<and> outbox e' = outbox e \<and>
    staging (sync e') = staging (sync e)"
  using assms
proof (induction cmds arbitrary: t e rs as)
  case Nil
  then show ?case by (auto simp: list_all2_same)
next
  case (Cons c cmds)
  obtain shard cmd after where c: "c = (shard, cmd, after)" by (cases c)
  obtain r a e1 rs' as' where one: "answer ops sip n shard cmd (micros_between after t) e = Some (r, a, e1)"
    and rest: "answer_all ops sip n after cmds e1 = Some (rs', as', e')" and out: "rs = r # rs'" "as = a # as'"
    using Cons.prems(1) by (auto simp: c bind_eq_Some_conv)
  obtain sts g m where u: "\<not> a" "writes_the_log cmd \<longrightarrow> r = Error LogWriteFailed"
    "list_all2 (unmoved sip (now_instant n)) (states e) (states e1)"
    "e1 = e\<lparr>states := sts, gauge := g, sync := (sync e)\<lparr>sy_mode := m\<rparr>\<rparr>" "is_refusing ((sync e)\<lparr>sy_mode := m\<rparr>)"
    using answer_unmoved [OF one Cons.prems(2)] by blast
  have "\<forall>st \<in> set (states e1). silenced (sync e1) st \<and> dict_inv sip (sh_dict st)"
  proof
    fix st assume "st \<in> set (states e1)"
    then obtain i where i: "i < length (states e1)" "st = states e1 ! i" by (auto simp: in_set_conv_nth)
    then have "unmoved sip (now_instant n) (states e ! i) st" "states e ! i \<in> set (states e)"
      using list_all2_nthD2 [OF u(3)] list_all2_lengthD [OF u(3)] by simp_all
    then show "silenced (sync e1) st \<and> dict_inv sip (sh_dict st)"
      using Cons.prems(2) u(4,5) by (auto simp: unmoved_def silenced_def)
  qed
  note IH = Cons.IH [OF rest this]
  moreover have "list_all2 (unmoved sip (now_instant n)) (states e) (states e')"
    by (rule list_all2_trans [where ?P1.0 = "unmoved sip (now_instant n)" and ?P2.0 = "unmoved sip (now_instant n)" and bs = "states e1"])
       (use unmoved_trans u(3) IH in \<open>simp_all\<close>)
  ultimately show ?case using u out by (auto simp: c)
qed

lemma answer_all_length: "answer_all ops sip n t cmds e = Some (rs, as, e') \<Longrightarrow> length as = length cmds"
  by (induction cmds arbitrary: t e rs as) (auto simp: bind_eq_Some_conv)

lemma serve_unmoved:
  assumes "serve ops ck sip n cmds to e = Some e'" "\<not> asks_snapshot cmds" "in_step holds sip starts e" "is_refusing (sync e)"
  shows "\<exists>rs. outbox e' = outbox e @ [direct to rs (replicate (length cmds) False)] \<and> mailbox e' = mailbox e \<and>
    list_all2 (\<lambda>(_, cmd, _) r. writes_the_log cmd \<longrightarrow> r = Error LogWriteFailed) cmds rs \<and>
    list_all2 (unmoved sip (now_instant n)) (states e) (states e')"
proof -
  have run: "serve_commands ops sip n cmds to e = Some e'"
    using assms(1,2) by (cases "(ops, ck, sip, n, cmds, to, e)" rule: serve.cases) (auto simp: asks_snapshot_def)
  then obtain rs as e1 where a: "answer_all ops sip n (now_instant n) cmds e = Some (rs, as, e1)"
    by (auto simp: serve_commands_def bind_eq_Some_conv)
  have sil: "\<forall>st \<in> set (states e). silenced (sync e) st \<and> dict_inv sip (sh_dict st)"
    using assms(3,4) by (auto simp: in_step_def silenced_def)
  note u = answer_all_unmoved [OF a sil]
  let ?wrote = "map2 (\<lambda>(_, cmd, _) a. a \<and> writes_the_log cmd) cmds as"
  have none: "True \<notin> set ?wrote" using u by (auto dest: set_zip_rightD)
  moreover have "length as = length cmds" by (rule answer_all_length [OF a])
  ultimately have wrote: "?wrote = replicate (length cmds) False"
    by (intro replicate_eqI) auto
  have "stage_commands ops cmds as e1 = (e1, [])" "submit [] e1 = (False, e1)"
    using u assms(3) by (simp_all add: stage_commands_def submit_def Let_def in_step_def)
  then have "e' = hold_or_send False (batch (sync e1)) to rs ?wrote e1" using run a by (simp add: serve_commands_def)
  then show ?thesis using u unfolding wrote by (auto simp: hold_or_send_def deliver_def)
qed

section \<open>The gauge\<close>

text \<open>What the gauge holds beyond this executor's dictionaries: the share of the others.\<close>

abbreviation used :: "'l shard_state \<Rightarrow> u64" where
  "used st \<equiv> used_bytes (sh_dict st)"

definition others_share :: "('l, 'c) executor \<Rightarrow> u64" where
  "others_share e = gauge e - sum_list (map used (states e))"

lemma sum_list_update_word:
  fixes f :: "'a \<Rightarrow> u64"
  shows "i < length xs \<Longrightarrow> sum_list (map f (xs[i := x])) = sum_list (map f xs) - f (xs ! i) + f x"
  by (induction xs arbitrary: i) (auto simp: algebra_simps split: nat.splits)

lemma append_dict: "append ops shard eff st = Some (failed, s) \<Longrightarrow> sh_dict s = sh_dict st"
  by (auto simp: append_def bind_eq_Some_conv split: if_splits)

lemma evict_gauge:
  fixes ops :: "'l log_ops" and st :: "'l shard_state"
  assumes "evict_until_fits ops sip shard lim spared st g = Some out"
  shows "snd out - used (fst out) = g - used st"
proof (rule evict_until_fits.raw_induct [OF _ assms, where P = "\<lambda>_ _ _ _ _ st g out. snd out - used (fst out) = g - used st"])
  fix f :: "'l log_ops \<Rightarrow> siphash \<Rightarrow> u16 \<Rightarrow> u64 option \<Rightarrow> bytes option \<Rightarrow> 'l shard_state \<Rightarrow> memory_gauge \<Rightarrow>
      ('l shard_state \<times> memory_gauge) option"
    and ops :: "'l log_ops" and sip shard lim spared and st :: "'l shard_state" and g out
  assume IH: "\<And>ops sip shard lim spared st g out. f ops sip shard lim spared st g = Some out \<Longrightarrow> snd out - used (fst out) = g - used st"
  let ?sample = "sample_oldest (sh_dict st) (evict_cursor st) EVICTION_SAMPLES spared"
  assume run: "(if must_evict g lim
     then case ?sample of
       (None, cursor) \<Rightarrow> Some (st\<lparr>evict_cursor := cursor\<rparr>, g)
     | (Some victim, cursor) \<Rightarrow>
         append ops shard (effect.Del victim) (st\<lparr>evict_cursor := cursor\<rparr>) \<bind> (\<lambda>(failed, st1). case failed of
           None \<Rightarrow> let st2 = with_dict (\<lambda>d. snd (dict_remove sip d victim)) st1 in
             f ops sip shard lim spared (st2\<lparr>evicted := evicted st2 + 1\<rparr>)
               (gauge_apply g (used_bytes (sh_dict st1)) (used_bytes (sh_dict st2)))
         | Some x \<Rightarrow> Some (st1, g))
     else Some (st, g)) = Some out"
  obtain found cursor where s: "?sample = (found, cursor)" by fastforce
  show "snd out - used (fst out) = g - used st"
  proof (cases "must_evict g lim \<and> found \<noteq> None")
    case False
    then show ?thesis using run s by (auto split: if_splits)
  next
    case True
    then obtain victim failed st1 where v: "found = Some victim"
      "append ops shard (effect.Del victim) (st\<lparr>evict_cursor := cursor\<rparr>) = Some (failed, st1)"
      "(case failed of
           None \<Rightarrow> let st2 = with_dict (\<lambda>d. snd (dict_remove sip d victim)) st1 in
             f ops sip shard lim spared (st2\<lparr>evicted := evicted st2 + 1\<rparr>)
               (gauge_apply g (used_bytes (sh_dict st1)) (used_bytes (sh_dict st2)))
         | Some x \<Rightarrow> Some (st1, g)) = Some out"
      using run s by (auto simp: bind_eq_Some_conv)
    have "used st1 = used st" using append_dict [OF v(2)] by simp
    then show ?thesis using v(3) by (cases failed) (auto simp: Let_def gauge_apply_eq dest!: IH)
  qed
qed

lemma answer_gauge:
  assumes "answer ops sip n shard cmd spent e = Some (r, appended, e')"
  shows "others_share e' = others_share e"
proof -
  let ?i = "unat (shard - first_shard e)"
  obtain s e1 where s: "?i < length (states e)" "run_command ops sip n shard cmd (states e ! ?i) e = Some (r, s, e1)"
    "e' = e1\<lparr>states := (states e1)[?i := count_call sip cmd r spent s]\<rparr>"
    using assms by (auto simp: answer_def Let_def bind_eq_Some_conv get_eq_Some_iff)
  have allowed: "gauge e1 - used s = gauge e - used (states e ! ?i) \<and> states e1 = states e"
    if r: "run_allowed ops sip n shard cmd (states e ! ?i) e = Some (r, s, e1)"
    using r by (auto simp: run_allowed_def bind_eq_Some_conv Let_def gauge_apply_eq dest!: evict_gauge split: if_splits)
  have "gauge e1 - used s = gauge e - used (states e ! ?i) \<and> states e1 = states e"
    using s(2) allowed by (auto simp: run_command_def with_sync_def split: if_splits ex_mode.splits)
  then show ?thesis using s(1,3) by (simp add: others_share_def sum_list_update_word algebra_simps)
qed

lemma answer_all_gauge:
  "answer_all ops sip n t cmds e = Some (rs, as, e') \<Longrightarrow> others_share e' = others_share e"
  by (induction cmds arbitrary: t e rs as) (fastforce simp: bind_eq_Some_conv dest: answer_gauge)+

text \<open>Steps that leave the dictionaries and the gauge alone.\<close>

definition same_dicts :: "('l, 'c) executor \<Rightarrow> ('l, 'c) executor \<Rightarrow> bool" where
  "same_dicts e e' \<longleftrightarrow> gauge e' = gauge e \<and> map sh_dict (states e') = map sh_dict (states e)"

lemma same_dicts_share:
  assumes "same_dicts e e'"
  shows "others_share e' = others_share e"
proof -
  have "map used_bytes (map sh_dict (states e')) = map used_bytes (map sh_dict (states e))"
    using assms by (simp only: same_dicts_def)
  then show ?thesis using assms by (simp add: others_share_def same_dicts_def comp_def)
qed

lemma same_dicts_refl [simp]: "same_dicts e e"
  by (simp add: same_dicts_def)

lemma same_dicts_trans: "same_dicts a b \<Longrightarrow> same_dicts b c \<Longrightarrow> same_dicts a c"
  by (simp add: same_dicts_def)

lemma map_update_same: "f x = f (xs ! i) \<Longrightarrow> map f (xs[i := x]) = map f xs"
  by (cases "i < length xs") (auto simp: map_update list_update_same_conv list_update_beyond)

lemma stage_fold_dicts: "same_dicts e (fst (fold (stage_shard ops) is (e, t)))"
proof (induction "is" arbitrary: e t)
  case (Cons i "is")
  have "same_dicts e (fst (stage_shard ops i (e, t)))"
    by (simp add: stage_shard_def Let_def with_sync_def same_dicts_def map_update_same split: prod.splits)
  then show ?case using Cons.IH [of "fst (stage_shard ops i (e, t))" "snd (stage_shard ops i (e, t))"] same_dicts_trans by simp blast
qed simp

lemma submit_dicts: "same_dicts e (snd (submit t e))"
  by (simp add: same_dicts_def submit_def Let_def post_def split: option.splits)

lemma serve_gauge:
  assumes "serve ops ck sip n cmds to e = Some e'"
  shows "others_share e' = others_share e"
proof -
  consider wait copies where "e' = snapshot ck wait copies to e" | "serve_commands ops sip n cmds to e = Some e'"
    using assms by (cases "(ops, ck, sip, n, cmds, to, e)" rule: serve.cases) auto
  then show ?thesis
  proof cases
    case 1
    then show ?thesis by (simp add: others_share_def snapshot_def Let_def deliver_def ask_for_snapshot_eq)
  next
    case 2
    then obtain rs as e1 where a: "answer_all ops sip n (now_instant n) cmds e = Some (rs, as, e1)"
      by (auto simp: serve_commands_def bind_eq_Some_conv)
    obtain e2 t where st: "stage_commands ops cmds as e1 = (e2, t)" by fastforce
    obtain sub e3 where sb: "submit t e2 = (sub, e3)" by fastforce
    obtain w b wr where e': "e' = hold_or_send w b to rs wr e3" using 2 a st sb by (auto simp: serve_commands_def)
    have "same_dicts e1 e2"
      using st stage_fold_dicts [of "e1\<lparr>cell := c\<rparr>" ops "map (\<lambda>(shard, _, _). unat (shard - first_shard e1)) cmds" "[]" for c]
      by (auto simp: stage_commands_def same_dicts_def split: if_splits) (metis fst_conv executor.select_convs)+
    moreover have "same_dicts e2 e3" using submit_dicts [of e2 t] sb by simp
    moreover have "same_dicts e3 e'" by (simp add: e' same_dicts_def hold_or_send_def with_sync_def deliver_def)
    ultimately show ?thesis using same_dicts_share same_dicts_trans answer_all_gauge [OF a] by metis
  qed
qed

lemma refuse_dicts: "same_dicts e (refuse ck e)"
  by (simp add: same_dicts_def refuse_def fail_all_def Let_def deliver_def comp_def)

lemma prove_dicts: "map sh_dict (fold (prove_shard ops round) os sts) = map sh_dict sts"
  by (induction os arbitrary: sts) (auto simp: prove_shard_def map_update_same split: prod.split)

lemma on_progress_dicts: "same_dicts e (on_progress ops ck m e)"
proof (cases m)
  case Fault
  then show ?thesis by (simp add: refuse_dicts)
qed (simp_all add: same_dicts_def with_sync_def Let_def release_through_def deliver_def prove_dicts split: option.split)

lemma keep_shards_gauge:
  "keep_shards ops sip t is e = Some e' \<Longrightarrow> set is \<subseteq> {..<length (states e)} \<Longrightarrow> others_share e' = others_share e"
proof (induction "is" arbitrary: e)
  case (Cons i "is")
  then obtain e1 where e1: "keep_shard ops sip t i e = Some e1" "keep_shards ops sip t is e1 = Some e'"
    by (auto simp: bind_eq_Some_conv)
  then obtain st' where st': "e1 = e\<lparr>states := (states e)[i := st'], gauge := gauge_apply (gauge e) (used (states e ! i)) (used st')\<rparr>"
    by (auto simp: keep_shard_def Let_def bind_eq_Some_conv)
  have "others_share e1 = others_share e"
    using Cons.prems(2) by (simp add: st' others_share_def sum_list_update_word gauge_apply_eq algebra_simps)
  moreover have "set is \<subseteq> {..<length (states e1)}" using Cons.prems(2) st' by simp
  ultimately show ?case using Cons.IH [OF e1(2)] by simp
qed simp

context imaging
begin

lemma run_checkpoint_dicts:
  assumes "run_checkpoint ck n e = Some e'"
  shows "same_dicts e e'"
proof (rule run_checkpoint_cases [OF assms])
  fix tick sts c e2 e3 x
  assume t: "ck_tick ck (first_shard e) (states e) n (log_position_of (sync e)) (checkpoint e) = Some (tick, sts, c)"
    and e2: "states e2 = sts" "gauge e2 = gauge e"
    and e3: "e3 = (case tk_completed tick of Some done_c \<Rightarrow> image_done done_c e2 | None \<Rightarrow> e2)"
    and out: "e' = (answer_saves ck (tk_completed tick \<noteq> None) (tk_faulted tick) e3)\<lparr>changes_at_open := x\<rparr>"
  have "map sh_dict sts = map sh_dict (states e)"
    using tick_reads [OF t] by (induction rule: list_all2_induct) (simp_all add: left_alone_def)
  then have "same_dicts e e2" using e2 by (simp add: same_dicts_def)
  moreover have "same_dicts e2 (image_done c' e2)" for c'
    by (auto simp: same_dicts_def image_done_def end_refusal_def Let_def post_def split: option.split)
  then have "same_dicts e2 e3" by (simp add: e3 split: option.split)
  moreover have "same_dicts e3 e'"
    by (simp add: out same_dicts_def answer_saves_def Let_def deliver_def ask_for_snapshot_eq)
  ultimately show ?thesis using same_dicts_trans by blast
qed

lemma housekeeping_gauge:
  assumes "housekeeping ops ck sip n e = Some e'"
  shows "others_share e' = others_share e"
proof -
  obtain e1 where k: "keep_shards ops sip (now_instant n) [0..<length (states e)] e = Some e1"
    and e': "run_checkpoint ck n (with_sync count_tick (snd (submit (snd (stage_all ops e1)) (fst (stage_all ops e1))))) = Some e'"
    using assms by (auto simp: housekeeping_def bind_eq_Some_conv Let_def case_prod_unfold)
  have "others_share e1 = others_share e" by (rule keep_shards_gauge [OF k]) auto
  moreover have "same_dicts e1 (fst (stage_all ops e1))" unfolding stage_all_def by (rule stage_fold_dicts)
  moreover have "same_dicts x (with_sync count_tick x)" for x :: "('l, 'c) executor" by (simp add: same_dicts_def with_sync_def)
  ultimately show ?thesis
    using same_dicts_share submit_dicts run_checkpoint_dicts [OF e'] by metis
qed

lemma turn_gauge:
  assumes "turn ops ck sip w (e, due) = Some (e', due')"
  shows "others_share e' = others_share e"
proof (cases w)
  case (Heard m)
  have "same_dicts e (writer_gone ck e)"
    using refuse_dicts [of "with_sync (\<lambda>s. s\<lparr>sy_link := None, writer_lost := True\<rparr>) e" ck]
    by (simp add: writer_gone_def same_dicts_def with_sync_def)
  then show ?thesis using assms Heard on_progress_dicts [of e ops ck] same_dicts_share by (cases m) auto
next
  case (Inbox n cmds to later)
  then obtain e1 where "serve ops ck sip n cmds to e = Some e1" "e' = e1 \<or> housekeeping ops ck sip later e1 = Some e'"
    using assms by (auto simp: bind_eq_Some_conv split: if_splits)
  then show ?thesis using serve_gauge housekeeping_gauge by metis
next
  case (TickDue n after)
  then show ?thesis using assms housekeeping_gauge by (auto simp: bind_eq_Some_conv)
qed

lemma runs_gauge:
  assumes "runs ops ck sip start tos end'"
  shows "others_share (fst end') = others_share (fst start)"
  using assms by (induction rule: runs.induct) (auto dest: turn_gauge)

end

section \<open>Properties\<close>


text \<open>C6. The writer receives the whole log. After any run of the loop the batches submitted
  to the writer are numbered from zero without a gap, no batch is empty, and together
  they are the encodings of records that, shard by shard, carry every sequence number
  from the shard's starting point up to its current one, in order and once; nothing is
  left behind in a shard's buffer or in the staging buffer.\<close>

theorem writer_receives_whole_log:
  assumes "imaging file_log_ops file_log_holds ck" "fresh_shards sip sts"
    and "runs file_log_ops ck sip (executor_new first sts g lim c policy False (Some x), due) tos (e, due')"
  shows "map fst (submissions (mailbox e)) = [0..<batch (sync e)] \<and> staging (sync e) = [] \<and>
    (\<forall>st \<in> set (states e). pending (sh_log st) = []) \<and>
    (\<exists>ws. map wire ws = map (Some \<circ> snd) (submissions (mailbox e)) \<and> [] \<notin> set ws \<and>
       complete (first_shard e) (map sh_seq sts) (states e) (concat ws))"
proof -
  have "in_step file_log_holds sip (map sh_seq sts) e" using fresh_runs [OF assms] by (simp add: sound_step_def)
  then show ?thesis by (auto simp: in_step_def file_log_holds_def)
qed

text \<open>C9. Every envelope is answered exactly once or is still owed an answer: after any run
  the replies sent, the batches held for a sync and the saves waiting for an image are
  together the envelopes that came in, each counted once. No envelope is dropped and
  none is answered twice, on any path.\<close>

theorem answered_exactly_once:
  assumes "imaging file_log_ops file_log_holds ck" "fresh_shards sip sts"
    and "runs file_log_ops ck sip (executor_new first sts g lim c policy False (Some x), due) tos (e, due')"
  shows "mset (map dv_to (outbox e)) + mset (map held_to (held (sync e))) + mset (map fst (saves e)) +
    mset (map fst (saves_after e)) = mset tos"
  using fresh_runs [OF assms]
  by (simp add: sound_step_def answered_def owed_def executor_new_def sync_new_def add.assoc)


text \<open>C11. The memory gauge moves exactly with the dictionaries. Over any run the gauge minus
  the bytes this executor's dictionaries account for stays what it was, whatever was
  written, deleted, swept, evicted or rehashed: the gauge is the sum over the shards,
  and the ceiling is compared with the truth.\<close>

theorem gauge_follows_dicts:
  assumes "imaging file_log_ops file_log_holds ck"
    and "runs file_log_ops ck sip (executor_new first sts g lim c policy False (Some x), due) tos (e, due')"
  shows "gauge e - sum_list (map (\<lambda>st. used_bytes (sh_dict st)) (states e)) =
    g - sum_list (map (\<lambda>st. used_bytes (sh_dict st)) sts)"
  using imaging.runs_gauge [OF assms] by (simp add: others_share_def executor_new_def)

section \<open>Witnesses\<close>

definition a_start :: "(file_log, unit) executor" where
  "a_start = executor_new 7 [shard_new (with_seed seed_zero) (file_log_new 7)] 0 \<lparr>ceiling = None, mode = NoEviction\<rparr> () ALWAYS
     False (Some 0)"

definition a_write :: wake where
  "a_write = Inbox \<lparr>now_instant = 1, unix_millis = 1\<rparr> [(7, SetNx (ascii ''n'') (ascii ''1''), 2)] 42 \<lparr>now_instant = 3, unix_millis = 3\<rparr>"

definition a_sync :: wake where
  "a_sync = Heard (Some (Durable (Some 0) 0 1))"

lemma a_start_fresh: "fresh_shards sip_const [shard_new (with_seed seed_zero) (file_log_new 7)]"
  by (simp add: fresh_shards_def shard_new_def shard_recovered_def with_seed_ok file_log_new_holds)

lemma a_shard_sets:
  "\<exists>st'. apply_cmd file_log_ops sip_const 7 n (SetNx (ascii ''n'') (ascii ''1'')) (shard_new (with_seed seed_zero) (file_log_new 7)) =
     Some (Integer 1, st') \<and> sh_seq st' = 1 \<and> pending (sh_log st') \<noteq> [] \<and> pending_through (sh_log st') = Some 0"
proof -
  let ?st = "shard_new (with_seed seed_zero) (file_log_new 7)"
  have none: "dict_get sip_const (with_seed seed_zero) key = None" for key
    using dict_get_map [OF with_seed_ok(1)] with_seed_ok(2) by simp
  obtain p where p: "encode (Put [110] [49] None) = Some p" "length p = encoded_len (Put [110] [49] None)"
    using encode_fits [of "Put [110] [49] None"] by auto
  then obtain bs where bs: "encode_record \<lparr>rec_shard = 7, rec_seq = 0, rec_payload = p\<rparr> = Some bs"
    by (simp add: encode_record_def Let_def BODY_FIXED_LEN_def deadline_len_def)
  have "append file_log_ops 7 (Put [110] [49] None) ?st = Some (None, ?st\<lparr>sh_log := (file_log_new 7)\<lparr>pending := bs,
      pending_through := Some 0\<rparr>, sh_seq := 1\<rparr>)"
    using p(1) bs by (simp add: append_def file_log_ops_def file_log_append_def shard_new_def shard_recovered_def file_log_new_def
        del: encode.simps)
  moreover have "sh_dict ?st = with_seed seed_zero" "\<not> refusing ?st" by (simp_all add: shard_new_def shard_recovered_def)
  ultimately show ?thesis using encode_record_not_Nil [OF bs]
    by (simp add: apply_cmd_def reclaim_def evict_if_expired_def is_due_def none set_nx_def set_cmd_def set_nx_args_def deadline_def
        deadline_millis_def logged_def put_touched_def Let_def)
qed

lemma a_write_turn:
  "\<exists>e. turn file_log_ops no_checkpoint_ops sip_const a_write (a_start, 1000) = Some (e, 1000) \<and> outbox e = [] \<and>
     sy_link (sync e) = Some 0 \<and>
     held (sync e) = [\<lparr>held_number = 0, held_to = 42, held_replies = [Integer 1], held_wrote = [True]\<rparr>] \<and>
     durable_batch (sync e) = None"
proof -
  let ?n = "\<lparr>now_instant = 1, unix_millis = 1\<rparr>"
  obtain st' where st': "apply_cmd file_log_ops sip_const 7 ?n (SetNx (ascii ''n'') (ascii ''1'')) (shard_new (with_seed seed_zero) (file_log_new 7)) =
     Some (Integer 1, st')" "sh_seq st' = 1" "pending (sh_log st') \<noteq> []" using a_shard_sets by blast
  let ?st = "shard_new (with_seed seed_zero) (file_log_new 7)"
  let ?req = "[(7, SetNx (ascii ''n'') (ascii ''1''), 2)]"
  have start: "first_shard a_start = 7" "states a_start = [?st]"
    "limit a_start = \<lparr>ceiling = None, mode = NoEviction\<rparr>" "outbox a_start = []" "sh_seq ?st = 0"
    by (simp_all add: a_start_def executor_new_def shard_new_def shard_recovered_def)
  have serving: "sy_mode (sync a_start) = Serving" "sy_link (sync a_start) = Some 0" "staging (sync a_start) = []"
    "batch (sync a_start) = 0" "held (sync a_start) = []" "holds_replies (sync a_start)" "\<not> is_refusing (sync a_start)"
    "min_interval (sy_policy (sync a_start)) = Some 0" "durable_batch (sync a_start) = None"
    by (simp_all add: a_start_def executor_new_def sync_new_def holds_replies_def ALWAYS_def is_refusing_def)
  obtain g where g: "run_command file_log_ops sip_const ?n 7 (SetNx (ascii ''n'') (ascii ''1'')) ?st a_start =
      Some (Integer 1, st', a_start\<lparr>gauge := g\<rparr>)"
    using st'(1) serving(1) by (simp add: run_command_def run_allowed_def start exceeded_def past_ceiling_def)
  let ?c = "count_call sip_const (SetNx (ascii ''n'') (ascii ''1'')) (Integer 1) (micros_between 2 1) st'"
  let ?e1 = "a_start\<lparr>gauge := g, states := [?c]\<rparr>"
  have all: "answer_all file_log_ops sip_const ?n 1 ?req a_start = Some ([Integer 1], [True], ?e1)"
    using g st'(2) by (simp add: answer_def start get_def)
  obtain l bs where fl: "log_flush_into file_log_ops (sh_log ?c) [] = (l, bs)" "bs \<noteq> []"
    using st'(3) by (simp add: file_log_ops_def file_log_flush_into_def)
  obtain cl t where stage: "stage_commands file_log_ops ?req [True] ?e1 =
      (?e1\<lparr>cell := cl, states := [?c\<lparr>sh_log := l\<rparr>], sync := (sync a_start)\<lparr>staging := bs\<rparr>\<rparr>, t)"
    using fl by (simp add: stage_commands_def stage_shard_def start serving with_sync_def Let_def)
  show ?thesis using all stage fl(2) serving start
    by (simp add: a_write_def serve_commands_def asks_snapshot_def submit_def Let_def hold_or_send_def with_sync_def post_def track_def)
qed

text \<open>A write and the sync that covers it.\<close>

lemma a_run:
  "\<exists>e. runs file_log_ops no_checkpoint_ops sip_const (a_start, 1000) [42] (e, 1000) \<and> durable_batch (sync e) = Some 0 \<and>
     outbox e = [\<lparr>dv_to = 42, dv_replies = [Integer 1], dv_wrote = [True], dv_batch = Some 0\<rparr>]"
proof -
  obtain e where e: "turn file_log_ops no_checkpoint_ops sip_const a_write (a_start, 1000) = Some (e, 1000)" "outbox e = []"
    "sy_link (sync e) = Some 0" "held (sync e) = [\<lparr>held_number = 0, held_to = 42, held_replies = [Integer 1], held_wrote = [True]\<rparr>]"
    "durable_batch (sync e) = None"
    using a_write_turn by blast
  have len: "d_len (with_seed seed_zero) = 0" by (simp add: with_seed_def)
  have ready: "ready a_write a_start" "room_for sip_const a_write a_start"
    by (simp_all add: ready_def a_write_def over_budget_def a_start_def executor_new_def sync_new_def roomy_def shard_new_def
        shard_recovered_def with_seed_ok len)
  from runs_turn [OF runs_start this e(1)] have r: "runs file_log_ops no_checkpoint_ops sip_const (a_start, 1000) [42] (e, 1000)"
    by (simp add: a_write_def)
  have "ready a_sync e" "room_for sip_const a_sync e" by (simp_all add: ready_def a_sync_def e(3))
  moreover obtain e' where e': "turn file_log_ops no_checkpoint_ops sip_const a_sync (e, 1000) = Some (e', 1000)"
    "e' = on_progress file_log_ops no_checkpoint_ops (Durable (Some 0) 0 1) e" by (simp add: a_sync_def)
  ultimately have "runs file_log_ops no_checkpoint_ops sip_const (a_start, 1000) ([42] @ asked_by a_sync) (e', 1000)"
    using runs_turn [OF r] by blast
  moreover have "durable_batch (sync e') = Some 0" "outbox e' = [\<lparr>dv_to = 42, dv_replies = [Integer 1], dv_wrote = [True], dv_batch = Some 0\<rparr>]"
    by (simp_all add: e' release_through_def deliver_def with_sync_def e Let_def)
  ultimately show ?thesis by (auto simp: a_sync_def)
qed


theorem writer_receives_whole_log_witness:
  "\<exists>e. runs file_log_ops no_checkpoint_ops sip_const (a_start, 1000) [42] (e, 1000) \<and> staging (sync e) = [] \<and>
     map fst (submissions (mailbox e)) = [0..<batch (sync e)]"
proof -
  obtain e where e: "runs file_log_ops no_checkpoint_ops sip_const (a_start, 1000) [42] (e, 1000)" using a_run by blast
  from writer_receives_whole_log [OF nock.imaging_axioms a_start_fresh e [unfolded a_start_def]] e show ?thesis by blast
qed

theorem answered_exactly_once_witness:
  "\<exists>e. runs file_log_ops no_checkpoint_ops sip_const (a_start, 1000) [42] (e, 1000) \<and> held (sync e) = [] \<and> map dv_to (outbox e) = [42]"
proof -
  obtain e where e: "runs file_log_ops no_checkpoint_ops sip_const (a_start, 1000) [42] (e, 1000)"
    "outbox e = [\<lparr>dv_to = 42, dv_replies = [Integer 1], dv_wrote = [True], dv_batch = Some 0\<rparr>]" using a_run by blast
  from answered_exactly_once [OF nock.imaging_axioms a_start_fresh e(1) [unfolded a_start_def]] e show ?thesis by auto
qed

definition a_fault :: wake where
  "a_fault = Heard (Some Fault)"


theorem gauge_follows_dicts_witness:
  "\<exists>e. runs file_log_ops no_checkpoint_ops sip_const (a_start, 1000) [42] (e, 1000) \<and>
     gauge e - sum_list (map (\<lambda>st. used_bytes (sh_dict st)) (states e)) = 0 - used_bytes (with_seed seed_zero)"
proof -
  obtain e where e: "runs file_log_ops no_checkpoint_ops sip_const (a_start, 1000) [42] (e, 1000)" using a_run by blast
  from gauge_follows_dicts [OF nock.imaging_axioms e [unfolded a_start_def]] e show ?thesis
    by (auto simp: shard_new_def shard_recovered_def)
qed

end
