(* ===== verification/SegmentFile.thy ===== *)
theory SegmentFile
  imports RecordLog Effect
begin

text \<open>
  The layout of the files under \<^verbatim>\<open>wal/\<close>: the names, headers and marks of segments
  (\<^verbatim>\<open>crates/seedstone-core/src/log/file.rs\<close>) and of snapshots (\<^verbatim>\<open>log/snapshot.rs\<close>), and
  the generation counter. A file opened for reading is a \<open>source\<close>: the bytes it
  will deliver and whether an error or the end of the file follows them; how many
  of them one call returns does not matter to any reader here, since each reads on
  until it has what it wants. An encoder's panic is \<open>None\<close>.
\<close>

definition SEGMENT_MAGIC :: bytes where "SEGMENT_MAGIC = ascii ''SSEG''"
definition FORMAT_VERSION :: byte where "FORMAT_VERSION = 5"
definition OLDEST_READ_VERSION :: byte where "OLDEST_READ_VERSION = 3"
definition SYNC_MARK_VERSION :: byte where "SYNC_MARK_VERSION = 5"
definition SYNC_MARK_SHARD :: u16 where "SYNC_MARK_SHARD = - 1"
definition V3_SEGMENT_HEADER_LEN :: nat where "V3_SEGMENT_HEADER_LEN = 4 + 1 + 8 + 4 + 4"
definition SEGMENT_HEADER_LEN :: nat where "SEGMENT_HEADER_LEN = 4 + 1 + 8 + 4 + 2 + 4"

lemmas segment_consts = SEGMENT_MAGIC_def FORMAT_VERSION_def OLDEST_READ_VERSION_def
  V3_SEGMENT_HEADER_LEN_def SEGMENT_HEADER_LEN_def

definition encode_sync_mark :: "bytes option" where
  "encode_sync_mark = encode_record \<lparr>rec_shard = SYNC_MARK_SHARD, rec_seq = 0, rec_payload = []\<rparr>"

definition segment_header_len :: "nat \<Rightarrow> nat" where
  "segment_header_len cuts = (if cuts = 0 then SEGMENT_HEADER_LEN else SEGMENT_HEADER_LEN + cuts * 10 + 4)"

section \<open>Names\<close>

text \<open>\<open>hex_pad w n\<close> is \<^verbatim>\<open>{n:0wx}\<close> of an integer of \<open>w\<close> hexadecimal digits;
  \<open>from_hex\<close> is \<^verbatim>\<open>from_str_radix(_, 16)\<close> of an unsigned type: an optional plus sign and at
  least one digit of either case, refused when the value does not fit.\<close>

definition hex_digit :: "nat \<Rightarrow> byte" where
  "hex_digit n = (if n < 10 then of_nat (48 + n) else of_nat (87 + n))"

fun hex_pad :: "nat \<Rightarrow> nat \<Rightarrow> bytes" where
  "hex_pad 0 n = []"
| "hex_pad (Suc w) n = hex_pad w (n div 16) @ [hex_digit (n mod 16)]"

definition hex_value :: "byte \<Rightarrow> nat option" where
  "hex_value b =
     (if 48 \<le> b \<and> b \<le> 57 then Some (unat b - 48)
      else if 97 \<le> b \<and> b \<le> 102 then Some (unat b - 87)
      else if 65 \<le> b \<and> b \<le> 70 then Some (unat b - 55)
      else None)"

fun hex_digits :: "nat \<Rightarrow> bytes \<Rightarrow> nat option" where
  "hex_digits acc [] = Some acc"
| "hex_digits acc (b # bs) = (case hex_value b of Some d \<Rightarrow> hex_digits (acc * 16 + d) bs | None \<Rightarrow> None)"

definition from_hex :: "bytes \<Rightarrow> 'a::len word option" where
  "from_hex t =
     (let ds = (if get t 0 = Some 43 then tl t else t) in
      if ds = [] then None
      else case hex_digits 0 ds of
        Some n \<Rightarrow> if n < 2 ^ LENGTH('a) then Some (of_nat n) else None
      | None \<Rightarrow> None)"

definition is_ascii_hexdigit :: "byte \<Rightarrow> bool" where
  "is_ascii_hexdigit b = (hex_value b \<noteq> None)"

fun split_dash :: "bytes \<Rightarrow> bytes list" where
  "split_dash [] = [[]]"
| "split_dash (b # bs) =
     (if b = 45 then [] # split_dash bs
      else case split_dash bs of [] \<Rightarrow> [[b]] | p # ps \<Rightarrow> (b # p) # ps)"

fun split_once_dash :: "bytes \<Rightarrow> (bytes \<times> bytes) option" where
  "split_once_dash [] = None"
| "split_once_dash (b # bs) =
     (if b = 45 then Some ([], bs) else map_option (\<lambda>(p, q). (b # p, q)) (split_once_dash bs))"

definition segment_name :: "u64 \<Rightarrow> u32 \<Rightarrow> bytes" where
  "segment_name generation rotation =
     hex_pad 16 (unat generation) @ ascii ''-'' @ hex_pad 8 (unat rotation) @ ascii ''.seg''"

definition parse_name :: "bytes \<Rightarrow> bytes \<Rightarrow> (u64 \<times> u16 \<times> u32) option" where
  "parse_name name suffix =
     do {
       stem \<leftarrow> strip_suffix suffix name;
       (case split_dash stem of
          [generation, executor, counter] \<Rightarrow>
            if length generation \<noteq> 16 \<or> length executor \<noteq> 4 \<or> length counter \<noteq> 8 then None
            else do { g \<leftarrow> from_hex generation; e \<leftarrow> from_hex executor; c \<leftarrow> from_hex counter; Some (g, e, c) }
        | _ \<Rightarrow> None)
     }"

definition parse_name2 :: "bytes \<Rightarrow> bytes \<Rightarrow> (u64 \<times> u32) option" where
  "parse_name2 name suffix =
     do {
       stem \<leftarrow> strip_suffix suffix name;
       (generation, counter) \<leftarrow> split_once_dash stem;
       if length generation \<noteq> 16 \<or> length counter \<noteq> 8 \<or>
          list_ex (\<lambda>b. \<not> is_ascii_hexdigit b \<and> b \<noteq> 45) stem then None
       else do { g \<leftarrow> from_hex generation; c \<leftarrow> from_hex counter; Some (g, c) }
     }"

definition parse_segment_name :: "bytes \<Rightarrow> (u64 \<times> u32) option" where
  "parse_segment_name name = parse_name2 name (ascii ''.seg'')"

section \<open>Segment headers\<close>

record source =
  delivers :: bytes
  fails :: bool

record segment_header =
  seg_version :: byte
  seg_generation :: u64
  seg_rotation :: u32
  seg_cuts :: "(u16 \<times> u64) list"
  seg_len :: nat

datatype header_error =
    Short
  | BadMagic
  | NewerVersion byte
  | OlderVersion byte
  | BadChecksum

text \<open>A list of pairs of a shard and a \<^verbatim>\<open>u64\<close>, ten bytes each: the cut points of a segment,
  the bases and the counts of a snapshot. \<open>get_points\<close> reads the whole tens.\<close>

definition put_points :: "(u16 \<times> u64) list \<Rightarrow> bytes" where
  "put_points ps = concat (map (\<lambda>(shard, n). le16 shard @ le64 n) ps)"

function get_points :: "bytes \<Rightarrow> (u16 \<times> u64) list" where
  "get_points bs =
     (if length bs < 10 then []
      else (le_word (take 2 bs), le_word (take 8 (drop 2 bs))) # get_points (drop 10 bs))"
  by pat_completeness auto
termination by (relation "measure length") auto

declare get_points.simps [simp del]

definition encode_segment_header :: "u64 \<Rightarrow> u32 \<Rightarrow> (u16 \<times> u64) list \<Rightarrow> bytes option" where
  "encode_segment_header generation rotation cuts =
     (if length cuts < 2 ^ 16 then
        let fields = SEGMENT_MAGIC @ [FORMAT_VERSION] @ le64 generation @ le32 rotation @ le16 (of_nat (length cuts));
            fixed = fields @ le32 (crc32_iso_hdlc fields)
        in Some (if cuts = [] then fixed
                 else fixed @ put_points cuts @ le32 (crc32_iso_hdlc (put_points cuts)))
      else None)"

text \<open>\<open>take_header\<close> is \<^verbatim>\<open>take\<close>: the header read up to \<open>want\<close> bytes; nothing when the file stops
  before that.\<close>

definition take_header :: "source \<Rightarrow> nat \<Rightarrow> bytes \<Rightarrow> nat \<Rightarrow> header_error + (bytes \<times> source) option" where
  "take_header src len header want =
     (if len < want then Inr None
      else let n = want - length header in
        if length (delivers src) < n then Inl Short
        else Inr (Some (header @ take n (delivers src), src\<lparr>delivers := drop n (delivers src)\<rparr>)))"

definition check_header_crc :: "bytes \<Rightarrow> bool" where
  "check_header_crc header =
     (let (fields, crc) = (take (length header - 4) header, drop (length header - 4) header) in
      crc32_iso_hdlc fields = le_word crc)"

definition version_mismatch :: "byte \<Rightarrow> (byte \<times> bytes) list \<Rightarrow> header_error" where
  "version_mismatch found layouts =
     (if list_ex (\<lambda>(version, header). check_header_crc (header[4 := version])) layouts then BadChecksum
      else if FORMAT_VERSION < found then NewerVersion found else OlderVersion found)"

text \<open>The layouts a header of another version is tried at: version 3, then 4 and 5, each where
  the bytes read reach its length.\<close>

definition segment_layouts :: "bytes \<Rightarrow> (byte \<times> bytes) list" where
  "segment_layouts header =
     (if V3_SEGMENT_HEADER_LEN \<le> length header then [(3, take V3_SEGMENT_HEADER_LEN header)] else []) @
     (if SEGMENT_HEADER_LEN \<le> length header
      then map (\<lambda>v. (v, take SEGMENT_HEADER_LEN header)) [4, FORMAT_VERSION] else [])"

definition read_segment_header :: "source \<Rightarrow> nat \<Rightarrow> header_error + (segment_header \<times> source) option" where
  "read_segment_header src len =
     (case take_header src len [] 5 of
        Inl e \<Rightarrow> Inl e
      | Inr None \<Rightarrow> Inr None
      | Inr (Some (h0, src)) \<Rightarrow>
          (let fixed = (if h0 ! 4 = 3 then V3_SEGMENT_HEADER_LEN else SEGMENT_HEADER_LEN) in
           case take_header src len h0 fixed of
             Inl e \<Rightarrow> Inl e
           | Inr None \<Rightarrow> Inr None
           | Inr (Some (header, src)) \<Rightarrow>
               if take 4 header \<noteq> SEGMENT_MAGIC then Inl BadMagic
               else if \<not> (OLDEST_READ_VERSION \<le> header ! 4 \<and> header ! 4 \<le> FORMAT_VERSION)
               then Inl (version_mismatch (header ! 4) (segment_layouts header))
               else if \<not> check_header_crc header then Inl BadChecksum
               else
                 (let read = \<lparr>seg_version = header ! 4, seg_generation = le_word (take 8 (drop 5 header)),
                        seg_rotation = le_word (take 4 (drop 13 header)), seg_cuts = [], seg_len = length header\<rparr>;
                      count = unat (le_word (take 2 (drop 17 header)) :: u16)
                  in if header ! 4 = 3 \<or> count = 0 then Inr (Some (read, src))
                     else case take_header src len header (segment_header_len count) of
                       Inl e \<Rightarrow> Inl e
                     | Inr None \<Rightarrow> Inr None
                     | Inr (Some (header, src)) \<Rightarrow>
                         (let list = drop SEGMENT_HEADER_LEN header in
                          if \<not> check_header_crc list then Inl BadChecksum
                          else Inr (Some (read\<lparr>seg_cuts := get_points (take (length list - 4) list),
                                               seg_len := length header\<rparr>, src))))))"

definition decode_segment_header :: "bytes \<Rightarrow> header_error + segment_header" where
  "decode_segment_header buf =
     (case read_segment_header \<lparr>delivers = buf, fails = False\<rparr> (length buf) of
        Inl e \<Rightarrow> Inl e
      | Inr None \<Rightarrow> Inl Short
      | Inr (Some (header, _)) \<Rightarrow> Inr header)"

section \<open>Snapshots\<close>

definition SNAPSHOT_MAGIC :: bytes where "SNAPSHOT_MAGIC = ascii ''SSNP''"
definition FOOTER_SHARD :: u16 where "FOOTER_SHARD = - 1"
definition SNAPSHOT_HEADER_FIXED_LEN :: nat where "SNAPSHOT_HEADER_FIXED_LEN = 4 + 1 + 8 + 2 + 4 + 8 + 2"

lemmas snapshot_consts = SNAPSHOT_MAGIC_def SNAPSHOT_HEADER_FIXED_LEN_def FORMAT_VERSION_def OLDEST_READ_VERSION_def

definition snapshot_name :: "u64 \<Rightarrow> u16 \<Rightarrow> u32 \<Rightarrow> bytes" where
  "snapshot_name generation executor cycle =
     hex_pad 16 (unat generation) @ ascii ''-'' @ hex_pad 4 (unat executor) @ ascii ''-'' @
     hex_pad 8 (unat cycle) @ ascii ''.snap''"

definition parse_snapshot_name :: "bytes \<Rightarrow> (u64 \<times> u16 \<times> u32) option" where
  "parse_snapshot_name name = parse_name name (ascii ''.snap'')"

record snapshot_header =
  snap_generation :: u64
  snap_executor :: u16
  snap_cycle :: u32
  snap_unix_millis :: u64
  snap_bases :: "(u16 \<times> u64) list"

definition snapshot_encoded_len :: "snapshot_header \<Rightarrow> nat" where
  "snapshot_encoded_len h = SNAPSHOT_HEADER_FIXED_LEN + length (snap_bases h) * (2 + 8) + 4"

definition snapshot_encode :: "snapshot_header \<Rightarrow> bytes option" where
  "snapshot_encode h =
     (if length (snap_bases h) < 2 ^ 16 then
        let fields = SNAPSHOT_MAGIC @ [FORMAT_VERSION] @ le64 (snap_generation h) @ le16 (snap_executor h) @
              le32 (snap_cycle h) @ le64 (snap_unix_millis h) @ le16 (of_nat (length (snap_bases h))) @
              put_points (snap_bases h)
        in Some (fields @ le32 (crc32_iso_hdlc fields))
      else None)"

definition snapshot_shards :: "bytes \<Rightarrow> nat" where
  "snapshot_shards buf = unat (le_word (take 2 (drop 27 buf)) :: u16)"

definition header_len :: "bytes \<Rightarrow> header_error + nat" where
  "header_len fixed =
     (if length fixed < SNAPSHOT_HEADER_FIXED_LEN then Inl Short
      else if take 4 fixed \<noteq> SNAPSHOT_MAGIC then Inl BadMagic
      else if FORMAT_VERSION < fixed ! 4 then Inl (NewerVersion (fixed ! 4))
      else if fixed ! 4 < OLDEST_READ_VERSION then Inl (OlderVersion (fixed ! 4))
      else Inr (SNAPSHOT_HEADER_FIXED_LEN + snapshot_shards fixed * 10 + 4))"

definition snapshot_mismatch :: "bytes \<Rightarrow> header_error \<Rightarrow> header_error" where
  "snapshot_mismatch buf error =
     (let len = SNAPSHOT_HEADER_FIXED_LEN + snapshot_shards buf * 10 + 4 in
      if length buf < len then error
      else version_mismatch (buf ! 4) (map (\<lambda>v. (v, take len buf)) [OLDEST_READ_VERSION, 4, FORMAT_VERSION]))"

definition snapshot_decode :: "bytes \<Rightarrow> header_error + snapshot_header" where
  "snapshot_decode buf =
     (case header_len buf of
        Inl (NewerVersion v) \<Rightarrow> Inl (snapshot_mismatch buf (NewerVersion v))
      | Inl (OlderVersion v) \<Rightarrow> Inl (snapshot_mismatch buf (OlderVersion v))
      | Inl e \<Rightarrow> Inl e
      | Inr len \<Rightarrow>
          if length buf < len then Inl Short
          else let header = take len buf in
            if \<not> check_header_crc header then Inl BadChecksum
            else Inr \<lparr>snap_generation = le_word (take 8 (drop 5 header)),
                      snap_executor = le_word (take 2 (drop 13 header)),
                      snap_cycle = le_word (take 4 (drop 15 header)),
                      snap_unix_millis = le_word (take 8 (drop 19 header)),
                      snap_bases = get_points (take (snapshot_shards header * 10)
                        (drop SNAPSHOT_HEADER_FIXED_LEN header))\<rparr>)"

definition encode_entry :: "u16 \<Rightarrow> u64 \<Rightarrow> bytes \<Rightarrow> bytes \<Rightarrow> u64 option \<Rightarrow> bytes option" where
  "encode_entry shard base key v deadline =
     do {
       payload \<leftarrow> encode (Put key v deadline);
       encode_record \<lparr>rec_shard = shard, rec_seq = base, rec_payload = payload\<rparr>
     }"

definition footer_encode_record :: "(u16 \<times> u64) list \<Rightarrow> u32 \<Rightarrow> bytes option" where
  "footer_encode_record counts cycle =
     encode_record \<lparr>rec_shard = FOOTER_SHARD, rec_seq = ucast cycle, rec_payload = put_points counts\<rparr>"

definition footer_decode :: "bytes \<Rightarrow> (u16 \<times> u64) list option" where
  "footer_decode payload =
     (if payload = [] \<or> length payload mod 10 \<noteq> 0 then None else Some (get_points payload))"

section \<open>The generation counter\<close>

text \<open>\<open>trim\<close> takes the white space of Unicode off both ends of a text in UTF-8. A text that is
  not UTF-8 is refused in the source; here it keeps a byte that is no digit, and is
  refused as a number.\<close>

definition white_space :: "bytes list" where
  "white_space =
     [[9], [10], [11], [12], [13], [32], [0xC2, 0x85], [0xC2, 0xA0], [0xE1, 0x9A, 0x80]] @
     map (\<lambda>b. [0xE2, 0x80, b]) [0x80, 0x81, 0x82, 0x83, 0x84, 0x85, 0x86, 0x87, 0x88, 0x89, 0x8A, 0xA8, 0xA9, 0xAF] @
     [[0xE2, 0x81, 0x9F], [0xE3, 0x80, 0x80]]"

lemma find_space_shorter:
  assumes "find (\<lambda>s. s \<noteq> [] \<and> take (length s) t = s) spaces = Some s"
  shows "length (drop (length s) t) < length t"
proof -
  have "s \<noteq> []" "take (length s) t = s" using assms by (auto simp: find_Some_iff)
  then show ?thesis by (cases t; cases s) auto
qed

function trim_start :: "bytes list \<Rightarrow> bytes \<Rightarrow> bytes" where
  "trim_start spaces t =
     (case find (\<lambda>s. s \<noteq> [] \<and> take (length s) t = s) spaces of
        None \<Rightarrow> t
      | Some s \<Rightarrow> trim_start spaces (drop (length s) t))"
  by pat_completeness auto
termination
  by (relation "measure (\<lambda>(spaces, t). length t)") (use find_space_shorter in auto)

declare trim_start.simps [simp del]

definition trim :: "bytes \<Rightarrow> bytes" where
  "trim t = rev (trim_start (map rev white_space) (rev (trim_start white_space t)))"

definition parse_generation :: "source option \<Rightarrow> u64 option" where
  "parse_generation opened =
     do { src \<leftarrow> opened; if fails src then None else parse_std_u64 (trim (delivers src)) }"

section \<open>Names read back\<close>

lemma hex_value_digit: "n < 16 \<Longrightarrow> hex_value (hex_digit n) = Some n"
proof -
  assume "n < 16"
  then have "n \<in> set [0..<16]" by simp
  then show ?thesis by (simp add: upt_rec) (elim disjE; simp add: hex_digit_def hex_value_def)
qed

lemma hex_digits_append:
  "hex_digits acc (xs @ ys) = Option.bind (hex_digits acc xs) (\<lambda>v. hex_digits v ys)"
  by (induction xs arbitrary: acc) (auto split: option.split)

lemma hex_digits_pad: "n < 16 ^ w \<Longrightarrow> hex_digits 0 (hex_pad w n) = Some n"
proof (induction w arbitrary: n)
  case (Suc w)
  have "n div 16 < 16 ^ w" using Suc.prems by (simp add: less_mult_imp_div_less mult.commute)
  with Suc.IH [OF this] show ?case by (simp add: hex_digits_append hex_value_digit)
qed simp

lemma length_hex_pad [simp]: "length (hex_pad w n) = w"
  by (induction w arbitrary: n) auto

lemma hex_pad_digits: "b \<in> set (hex_pad w n) \<Longrightarrow> hex_value b \<noteq> None"
  by (induction w arbitrary: n) (auto simp: hex_value_digit)

lemma hex_pad_byte: "b \<in> set (hex_pad w n) \<Longrightarrow> b \<noteq> 43 \<and> b \<noteq> 45"
  using hex_pad_digits [of b w n] by (auto simp: hex_value_def)

lemma from_hex_pad:
  fixes x :: "'a::len word"
  assumes "2 ^ LENGTH('a) = (16 ^ w :: nat)" "w \<noteq> 0"
  shows "from_hex (hex_pad w (unat x)) = Some x"
proof -
  have "get (hex_pad w (unat x)) 0 \<noteq> Some 43"
    using hex_pad_byte [of _ w "unat x"] by (auto simp: get_def intro: nth_mem)
  moreover have "hex_pad w (unat x) \<noteq> []" using assms(2) by (cases w) auto
  moreover have "unat x < 2 ^ LENGTH('a)" by simp
  ultimately show ?thesis
    using hex_digits_pad [of "unat x" w] assms(1) unsigned_less [of x] by (simp add: from_hex_def)
qed

lemmas from_hex_pads [simp] =
  from_hex_pad [where 'a = 64 and w = 16, simplified] from_hex_pad [where 'a = 16 and w = 4, simplified]
  from_hex_pad [where 'a = 32 and w = 8, simplified]

lemma strip_suffix_append: "strip_suffix suf (t @ suf) = Some t"
  by (simp add: strip_suffix_def)

lemma split_dash_plain: "45 \<notin> set p \<Longrightarrow> split_dash p = [p]"
  by (induction p) auto

lemma split_dash_append: "45 \<notin> set p \<Longrightarrow> split_dash (p @ 45 # q) = p # split_dash q"
  by (induction p) (auto split: list.split)

lemma split_once_dash_append: "45 \<notin> set p \<Longrightarrow> split_once_dash (p @ 45 # q) = Some (p, q)"
  by (induction p) auto

lemma hex_pad_no_dash [simp]: "45 \<notin> set (hex_pad w n)"
  using hex_pad_byte by blast

lemma parse_segment_name_name: "parse_segment_name (segment_name g r) = Some (g, r)"
proof -
  have "\<not> list_ex (\<lambda>b. \<not> is_ascii_hexdigit b \<and> b \<noteq> 45) (hex_pad 16 (unat g) @ 45 # hex_pad 8 (unat r))"
    using hex_pad_digits by (fastforce simp: list_ex_iff is_ascii_hexdigit_def)
  then show ?thesis
    using strip_suffix_append [of "ascii ''.seg''" "hex_pad 16 (unat g) @ 45 # hex_pad 8 (unat r)"]
    by (simp add: parse_segment_name_def parse_name2_def segment_name_def split_once_dash_append)
qed

lemma parse_snapshot_name_name: "parse_snapshot_name (snapshot_name g e c) = Some (g, e, c)"
  using strip_suffix_append [of "ascii ''.snap''" "hex_pad 16 (unat g) @ 45 # hex_pad 4 (unat e) @ 45 # hex_pad 8 (unat c)"]
  by (simp add: parse_snapshot_name_def parse_name_def snapshot_name_def split_dash_append split_dash_plain)

section \<open>Headers read back\<close>

lemma length_put_points [simp]: "length (put_points ps) = 10 * length ps"
  by (induction ps) (auto simp: put_points_def)

lemma put_points_Cons: "put_points ((shard, n) # ps) = le16 shard @ le64 n @ put_points ps"
  by (simp add: put_points_def)

lemma put_points_Nil [simp]: "put_points [] = []"
  by (simp add: put_points_def)

lemma get_put_points [simp]: "get_points (put_points ps) = ps"
proof (induction ps)
  case Nil
  show ?case by (simp add: get_points.simps)
next
  case (Cons p ps)
  obtain shard n where p: "p = (shard, n)" by (cases p)
  show ?case
    using Cons.IH unfolding p put_points_Cons by (subst get_points.simps) simp
qed

lemma check_header_crc_append: "check_header_crc (bs @ le32 crc) \<longleftrightarrow> crc32_iso_hdlc bs = crc"
  by (simp add: check_header_crc_def)

lemma of_nat_unat_u16 [simp]: "n < 2 ^ 16 \<Longrightarrow> unat (of_nat n :: u16) = n"
  by (simp only: unsigned_of_nat) (simp add: take_bit_nat_eq_self)

definition segment_fields :: "byte \<Rightarrow> u64 \<Rightarrow> u32 \<Rightarrow> nat \<Rightarrow> bytes" where
  "segment_fields v g r n = SEGMENT_MAGIC @ [v] @ le64 g @ le32 r @ le16 (of_nat n)"

lemma segment_fields_parts:
  "length (segment_fields v g r n) = 19" "take 4 (segment_fields v g r n @ x) = SEGMENT_MAGIC"
  "(segment_fields v g r n @ x) ! 4 = v" "take 8 (drop 5 (segment_fields v g r n @ x)) = le64 g"
  "take 4 (drop 13 (segment_fields v g r n @ x)) = le32 r"
  "take 2 (drop 17 (segment_fields v g r n @ x)) = le16 (of_nat n)"
  by (simp_all add: segment_fields_def SEGMENT_MAGIC_def nth_append)

lemma crc32_one_byte:
  assumes "i < length bs" "b \<noteq> bs ! i"
  shows "crc32_iso_hdlc (bs[i := b]) \<noteq> crc32_iso_hdlc bs"
  using crc_one_byte [OF assms(2), of "take i bs" "drop (Suc i) bs"] assms(1)
  by (simp add: crc32_iso_hdlc_def crc_reference_def crc_loop_feed upd_conv_take_nth_drop id_take_nth_drop [symmetric])

lemma le_word_one_byte:
  assumes "length bs = 4" "i < 4" "b \<noteq> bs ! i"
  shows "(le_word (bs[i := b]) :: u32) \<noteq> le_word bs"
proof
  assume "(le_word (bs[i := b]) :: u32) = le_word bs"
  then have "bs[i := b] = bs"
    using le_bytes_le_word [of "bs[i := b]" 4, where 'a = 32] le_bytes_le_word [of bs 4, where 'a = 32] assms(1) by simp
  then show False using assms by (metis nth_list_update_eq)
qed

text \<open>A checksum that matched no longer does when any one byte, of the fields or of the
  checksum itself, is another.\<close>

lemma check_header_crc_upd:
  assumes "check_header_crc h" "4 \<le> length h" "i < length h" "b \<noteq> h ! i"
  shows "\<not> check_header_crc (h[i := b])"
proof (cases "i < length h - 4")
  case True
  then show ?thesis
    using assms crc32_one_byte [of i "take (length h - 4) h" b] by (simp add: check_header_crc_def take_update_swap)
next
  case False
  then show ?thesis
    using assms le_word_one_byte [of "drop (length h - 4) h" "i - (length h - 4)" b] less_diff_conv2 [of "length h - 4" i 4]
    by (auto simp: check_header_crc_def drop_update_swap)
qed

text \<open>What the reader makes of a file whose first bytes are \<open>F\<close>, as long as a fixed part of the
  layouts 4 and 5, with \<open>X\<close> behind it.\<close>

definition fixed_part :: "bytes \<Rightarrow> segment_header" where
  "fixed_part F = \<lparr>seg_version = F ! 4, seg_generation = le_word (take 8 (drop 5 F)),
     seg_rotation = le_word (take 4 (drop 13 F)), seg_cuts = [], seg_len = 23\<rparr>"

definition cut_count :: "bytes \<Rightarrow> nat" where
  "cut_count F = unat (le_word (take 2 (drop 17 F)) :: u16)"

definition read_cuts :: "bytes \<Rightarrow> bytes \<Rightarrow> bool \<Rightarrow> nat \<Rightarrow> header_error + (segment_header \<times> source) option" where
  "read_cuts F X f len =
     (let n = cut_count F * 10 in
      if n = 0 then Inr (Some (fixed_part F, \<lparr>delivers = X, fails = f\<rparr>))
      else if len < 27 + n then Inr None
      else if length X < n + 4 then Inl Short
      else if \<not> check_header_crc (take (n + 4) X) then Inl BadChecksum
      else Inr (Some ((fixed_part F)\<lparr>seg_cuts := get_points (take n X), seg_len := 27 + n\<rparr>,
                      \<lparr>delivers = drop (n + 4) X, fails = f\<rparr>)))"

lemma take_header_enough:
  assumes "want \<le> len" "length header + n = want" "length xs = n"
  shows "take_header \<lparr>delivers = xs @ X, fails = f\<rparr> len header want = Inr (Some (header @ xs, \<lparr>delivers = X, fails = f\<rparr>))"
  using assms by (auto simp: take_header_def Let_def)

lemma read_fixed:
  assumes F: "length F = 23" "F ! 4 \<noteq> 3" and len: "23 \<le> len"
  shows "read_segment_header \<lparr>delivers = F @ X, fails = f\<rparr> len =
    (if take 4 F \<noteq> SEGMENT_MAGIC then Inl BadMagic
     else if \<not> (OLDEST_READ_VERSION \<le> F ! 4 \<and> F ! 4 \<le> FORMAT_VERSION)
     then Inl (version_mismatch (F ! 4) (segment_layouts F))
     else if \<not> check_header_crc F then Inl BadChecksum else read_cuts F X f len)"
proof -
  have h0: "take_header \<lparr>delivers = F @ X, fails = f\<rparr> len [] 5 = Inr (Some (take 5 F, \<lparr>delivers = drop 5 F @ X, fails = f\<rparr>))"
    using F len by (simp add: take_header_def)
  have h1: "take_header \<lparr>delivers = drop 5 F @ X, fails = f\<rparr> len (take 5 F) SEGMENT_HEADER_LEN =
      Inr (Some (F, \<lparr>delivers = X, fails = f\<rparr>))"
    using take_header_enough [of 23 len "take 5 F" 18 "drop 5 F" X f] F len by (simp add: SEGMENT_HEADER_LEN_def)
  have h2: "take_header \<lparr>delivers = X, fails = f\<rparr> len F (segment_header_len n) =
      (if len < 27 + n * 10 then Inr None else if length X < n * 10 + 4 then Inl Short
       else Inr (Some (F @ take (n * 10 + 4) X, \<lparr>delivers = drop (n * 10 + 4) X, fails = f\<rparr>)))"
    if "n \<noteq> 0" for n
    using that F by (simp add: take_header_def segment_header_len_def SEGMENT_HEADER_LEN_def Let_def add.commute)
  have v: "take 5 F ! 4 = F ! 4" by simp
  show ?thesis
    unfolding read_segment_header_def h0 Let_def sum.case option.case prod.case v if_not_P [OF F(2)] h1
    using F by (auto simp: h2 read_cuts_def fixed_part_def cut_count_def Let_def SEGMENT_HEADER_LEN_def min_def not_less)
qed

lemma read_short:
  assumes "len < 23" "length xs = len" "5 \<le> len \<longrightarrow> xs ! 4 \<noteq> 3"
  shows "read_segment_header \<lparr>delivers = xs, fails = f\<rparr> len = Inr None"
  using assms by (auto simp: read_segment_header_def take_header_def Let_def SEGMENT_HEADER_LEN_def)

definition fixed_bytes :: "u64 \<Rightarrow> u32 \<Rightarrow> nat \<Rightarrow> bytes" where
  "fixed_bytes g r n = segment_fields FORMAT_VERSION g r n @ le32 (crc32_iso_hdlc (segment_fields FORMAT_VERSION g r n))"

definition cut_bytes :: "(u16 \<times> u64) list \<Rightarrow> bytes" where
  "cut_bytes cuts = (if cuts = [] then [] else put_points cuts @ le32 (crc32_iso_hdlc (put_points cuts)))"

lemma encode_segment_header_eq:
  "encode_segment_header g r cuts =
    (if length cuts < 2 ^ 16 then Some (fixed_bytes g r (length cuts) @ cut_bytes cuts) else None)"
  by (simp add: encode_segment_header_def fixed_bytes_def cut_bytes_def segment_fields_def Let_def)

lemma length_fixed_bytes [simp]: "length (fixed_bytes g r n) = 23"
  by (simp add: fixed_bytes_def segment_fields_parts)

lemma length_cut_bytes: "length (cut_bytes cuts) = (if cuts = [] then 0 else 10 * length cuts + 4)"
  by (simp add: cut_bytes_def)

lemma fixed_bytes_parts:
  "take 4 (fixed_bytes g r n) = SEGMENT_MAGIC" "fixed_bytes g r n ! 4 = FORMAT_VERSION"
  "check_header_crc (fixed_bytes g r n)" "n < 2 ^ 16 \<Longrightarrow> cut_count (fixed_bytes g r n) = n"
  "fixed_part (fixed_bytes g r n) =
    \<lparr>seg_version = FORMAT_VERSION, seg_generation = g, seg_rotation = r, seg_cuts = [], seg_len = 23\<rparr>"
  by (simp_all only: fixed_bytes_def check_header_crc_append cut_count_def fixed_part_def segment_fields_parts)
    (simp_all add: of_nat_unat_u16)

lemma read_cuts_cut_bytes:
  assumes "length cuts < 2 ^ 16" "23 + length (cut_bytes cuts) \<le> len"
  shows "read_cuts (fixed_bytes g r (length cuts)) (cut_bytes cuts @ X) f len =
    Inr (Some (\<lparr>seg_version = FORMAT_VERSION, seg_generation = g, seg_rotation = r, seg_cuts = cuts,
                seg_len = 23 + length (cut_bytes cuts)\<rparr>, \<lparr>delivers = X, fails = f\<rparr>))"
proof (cases "cuts = []")
  case True
  then show ?thesis by (simp add: read_cuts_def fixed_bytes_parts cut_bytes_def)
next
  case False
  have c: "take (length cuts * 10 + 4) (cut_bytes cuts @ X) = cut_bytes cuts"
    "drop (length cuts * 10 + 4) (cut_bytes cuts @ X) = X"
    "take (length cuts * 10) (cut_bytes cuts @ X) = put_points cuts" "check_header_crc (cut_bytes cuts)"
    using False by (simp_all add: cut_bytes_def check_header_crc_append)
  show ?thesis
    unfolding read_cuts_def fixed_bytes_parts(4) [OF assms(1)] c Let_def
    using assms(2) False c(4) by (simp add: length_cut_bytes fixed_bytes_parts)
qed

lemma read_encoded_header:
  assumes "encode_segment_header g r cuts = Some h" "length h \<le> len"
  shows "read_segment_header \<lparr>delivers = h @ X, fails = f\<rparr> len =
    Inr (Some (\<lparr>seg_version = FORMAT_VERSION, seg_generation = g, seg_rotation = r, seg_cuts = cuts,
                seg_len = length h\<rparr>, \<lparr>delivers = X, fails = f\<rparr>))"
proof -
  have h: "h = fixed_bytes g r (length cuts) @ cut_bytes cuts" "length cuts < 2 ^ 16"
    using assms(1) by (auto simp: encode_segment_header_eq split: if_splits)
  have "fixed_bytes g r (length cuts) ! 4 \<noteq> 3" by (simp add: fixed_bytes_parts FORMAT_VERSION_def)
  then show ?thesis
    using read_fixed [of "fixed_bytes g r (length cuts)" len "cut_bytes cuts @ X" f]
      read_cuts_cut_bytes [OF h(2), of len g r X f] assms(2) h(1)
    by (simp add: fixed_bytes_parts OLDEST_READ_VERSION_def FORMAT_VERSION_def)
qed

lemma read_cut_header:
  assumes "encode_segment_header g r cuts = Some h" "n < length h"
  shows "read_segment_header \<lparr>delivers = take n h, fails = f\<rparr> n = Inr None"
proof -
  have h: "h = fixed_bytes g r (length cuts) @ cut_bytes cuts" "length cuts < 2 ^ 16"
    using assms(1) by (auto simp: encode_segment_header_eq split: if_splits)
  have v: "fixed_bytes g r (length cuts) ! 4 \<noteq> 3" by (simp add: fixed_bytes_parts FORMAT_VERSION_def)
  show ?thesis
  proof (cases "n < 23")
    case True
    then show ?thesis using v h(1) by (intro read_short) (simp_all add: nth_append)
  next
    case False
    then have "take n h = fixed_bytes g r (length cuts) @ take (n - 23) (cut_bytes cuts)" by (simp add: h(1))
    moreover have "cuts \<noteq> []" "n < 27 + length cuts * 10"
      using False assms(2) h(1) by (auto simp: length_cut_bytes split: if_splits)
    then have "read_cuts (fixed_bytes g r (length cuts)) X f n = Inr None" for X
      using h(2) by (simp add: read_cuts_def fixed_bytes_parts)
    ultimately show ?thesis
      using read_fixed [of "fixed_bytes g r (length cuts)" n "take (n - 23) (cut_bytes cuts)" f] v False
      by (simp add: fixed_bytes_parts OLDEST_READ_VERSION_def FORMAT_VERSION_def)
  qed
qed

lemma damaged_fixed:
  fixes F g r n
  defines "F \<equiv> fixed_bytes g r n"
  assumes "i < 23" "b \<noteq> F ! i" "i = 4 \<longrightarrow> b \<noteq> 3" "23 \<le> len"
  shows "read_segment_header \<lparr>delivers = F[i := b] @ X, fails = f\<rparr> len = Inl (if i < 4 then BadMagic else BadChecksum)"
proof -
  have F: "length F = 23" "F ! 4 = 5" "take 4 F = SEGMENT_MAGIC" "check_header_crc F"
    by (simp_all add: F_def fixed_bytes_parts) (simp add: FORMAT_VERSION_def)
  have bad: "\<not> check_header_crc (F[i := b])" using check_header_crc_upd F assms(2,3) by auto
  have v: "F[i := b] ! 4 \<noteq> 3" using F assms(4) by (cases "i = 4") auto
  note read = read_fixed [of "F[i := b]" len X f, OF _ v assms(5)]
  consider "i < 4" | "i = 4" | "4 < i" by linarith
  then show ?thesis
  proof cases
    case 1
    have "take 4 (F[i := b]) ! i = b" "SEGMENT_MAGIC ! i = F ! i" using 1 F by (simp, metis nth_take)
    then have "take 4 (F[i := b]) \<noteq> SEGMENT_MAGIC" using assms(3) by auto
    then show ?thesis using read 1 F by simp
  next
    case 2
    have m: "take 4 (F[i := b]) = SEGMENT_MAGIC" using 2 F(3) by simp
    have "version_mismatch b (segment_layouts (F[4 := b])) = BadChecksum"
      using F list_update_id [of F 4] by (simp add: version_mismatch_def segment_layouts_def segment_consts)
    then show ?thesis using read 2 F m bad by (simp add: segment_consts)
  next
    case 3
    then show ?thesis using read F bad by (simp add: segment_consts)
  qed
qed

lemma damaged_cuts:
  assumes "i < length (cut_bytes cuts)" "b \<noteq> cut_bytes cuts ! i" "length cuts < 2 ^ 16"
    and "23 + length (cut_bytes cuts) \<le> len"
  shows "read_segment_header \<lparr>delivers = fixed_bytes g r (length cuts) @ (cut_bytes cuts)[i := b] @ X, fails = f\<rparr> len =
    Inl BadChecksum"
proof -
  let ?F = "fixed_bytes g r (length cuts)"
  have ne: "cuts \<noteq> []" using assms(1) by (auto simp: cut_bytes_def)
  have len: "length (cut_bytes cuts) = 10 * length cuts + 4" using ne by (simp add: length_cut_bytes)
  have "check_header_crc (cut_bytes cuts)" using ne by (simp add: cut_bytes_def check_header_crc_append)
  then have "\<not> check_header_crc ((cut_bytes cuts)[i := b])" using check_header_crc_upd assms len by auto
  moreover have "take (length cuts * 10 + 4) ((cut_bytes cuts)[i := b] @ X) = (cut_bytes cuts)[i := b]" using len by simp
  ultimately have "read_cuts ?F ((cut_bytes cuts)[i := b] @ X) f len = Inl BadChecksum"
    using assms(4) ne len fixed_bytes_parts(4) [OF assms(3), of g r] by (simp add: read_cuts_def)
  then show ?thesis
    using read_fixed [of ?F len "(cut_bytes cuts)[i := b] @ X" f] assms(4) by (simp add: fixed_bytes_parts segment_consts)
qed

lemma damaged_segment_header:
  assumes "encode_segment_header g r cuts = Some h" "length h \<le> len"
    and "i < length h" "b \<noteq> h ! i" "i = 4 \<longrightarrow> b \<noteq> 3"
  shows "read_segment_header \<lparr>delivers = h[i := b] @ X, fails = f\<rparr> len = Inl (if i < 4 then BadMagic else BadChecksum)"
proof -
  have h: "h = fixed_bytes g r (length cuts) @ cut_bytes cuts" "length cuts < 2 ^ 16"
    using assms(1) by (auto simp: encode_segment_header_eq split: if_splits)
  show ?thesis
  proof (cases "i < 23")
    case True
    then show ?thesis
      using damaged_fixed [of i b g r "length cuts" len "cut_bytes cuts @ X" f] assms h
      by (simp add: list_update_append nth_append)
  next
    case False
    then show ?thesis
      using damaged_cuts [of "i - 23" cuts b len g r X f] assms h by (simp add: list_update_append nth_append)
  qed
qed

section \<open>Snapshot headers read back\<close>

definition snapshot_fields :: "snapshot_header \<Rightarrow> bytes" where
  "snapshot_fields h = SNAPSHOT_MAGIC @ [FORMAT_VERSION] @ le64 (snap_generation h) @ le16 (snap_executor h) @
     le32 (snap_cycle h) @ le64 (snap_unix_millis h) @ le16 (of_nat (length (snap_bases h)))"

lemma snapshot_encode_eq:
  "snapshot_encode h =
    (if length (snap_bases h) < 2 ^ 16
     then Some (snapshot_fields h @ put_points (snap_bases h) @
            le32 (crc32_iso_hdlc (snapshot_fields h @ put_points (snap_bases h)))) else None)"
  by (simp add: snapshot_encode_def snapshot_fields_def Let_def)

lemma snapshot_fields_parts:
  "length (snapshot_fields h) = 29" "take 4 (snapshot_fields h @ x) = SNAPSHOT_MAGIC"
  "(snapshot_fields h @ x) ! 4 = FORMAT_VERSION" "take 8 (drop 5 (snapshot_fields h @ x)) = le64 (snap_generation h)"
  "take 2 (drop 13 (snapshot_fields h @ x)) = le16 (snap_executor h)"
  "take 4 (drop 15 (snapshot_fields h @ x)) = le32 (snap_cycle h)"
  "take 8 (drop 19 (snapshot_fields h @ x)) = le64 (snap_unix_millis h)"
  "take 2 (drop 27 (snapshot_fields h @ x)) = le16 (of_nat (length (snap_bases h)))"
  by (simp_all add: snapshot_fields_def SNAPSHOT_MAGIC_def nth_append)

lemma snapshot_encodeD:
  assumes "snapshot_encode h = Some bs"
  shows "length bs = snapshot_encoded_len h" "length bs = 33 + length (snap_bases h) * 10"
    "snapshot_shards (bs @ X) = length (snap_bases h)" "check_header_crc bs"
    "take 4 bs = SNAPSHOT_MAGIC" "bs ! 4 = FORMAT_VERSION"
proof -
  have h: "length (snap_bases h) < 2 ^ 16" "bs = snapshot_fields h @ put_points (snap_bases h) @
      le32 (crc32_iso_hdlc (snapshot_fields h @ put_points (snap_bases h)))"
    using assms by (auto simp: snapshot_encode_eq split: if_splits)
  show "length bs = 33 + length (snap_bases h) * 10" by (simp add: h(2) snapshot_fields_parts)
  then show "length bs = snapshot_encoded_len h" by (simp add: snapshot_encoded_len_def snapshot_consts)
  show "snapshot_shards (bs @ X) = length (snap_bases h)"
    unfolding snapshot_shards_def h(2) append_assoc snapshot_fields_parts using h(1) by simp
  show "check_header_crc bs"
    using check_header_crc_append [of "snapshot_fields h @ put_points (snap_bases h)"] by (simp add: h(2))
  show "take 4 bs = SNAPSHOT_MAGIC" "bs ! 4 = FORMAT_VERSION" unfolding h(2) snapshot_fields_parts by simp_all
qed

lemma snapshot_decode_encode:
  assumes "snapshot_encode h = Some bs"
  shows "snapshot_decode (bs @ X) = Inr h"
proof -
  have h: "length (snap_bases h) < 2 ^ 16" "bs = snapshot_fields h @ put_points (snap_bases h) @
      le32 (crc32_iso_hdlc (snapshot_fields h @ put_points (snap_bases h)))"
    using assms by (auto simp: snapshot_encode_eq split: if_splits)
  note e = snapshot_encodeD [OF assms]
  have len: "header_len (bs @ X) = Inr (length bs)"
    using e(2,3,5,6) by (simp add: header_len_def snapshot_consts nth_append)
  have b: "take (length (snap_bases h) * 10) (drop 29 bs) = put_points (snap_bases h)"
    by (simp add: h(2) snapshot_fields_parts)
  have s: "snapshot_shards bs = length (snap_bases h)" using e(3) [of "[]"] by simp
  have parts: "take 8 (drop 5 bs) = le64 (snap_generation h)" "take 2 (drop 13 bs) = le16 (snap_executor h)"
    "take 4 (drop 15 bs) = le32 (snap_cycle h)" "take 8 (drop 19 bs) = le64 (snap_unix_millis h)"
    unfolding h(2) by (rule snapshot_fields_parts)+
  show ?thesis
    using e(4) by (simp add: snapshot_decode_def len parts s b SNAPSHOT_HEADER_FIXED_LEN_def)
qed

lemma snapshot_decode_short:
  assumes "snapshot_encode h = Some bs" "n < length bs"
  shows "snapshot_decode (take n bs) = Inl Short"
proof (cases "n < 29")
  case True
  then have "length (take n bs) < 29" by simp
  then show ?thesis by (simp add: snapshot_decode_def header_len_def SNAPSHOT_HEADER_FIXED_LEN_def del: length_take)
next
  case False
  note e = snapshot_encodeD [OF assms(1)]
  have "snapshot_shards (take n bs) = snapshot_shards bs"
    using False by (simp add: snapshot_shards_def drop_take)
  then have "header_len (take n bs) = Inr (length bs)"
    using e(2,5,6) e(3) [of "[]"] False assms(2) by (simp add: header_len_def snapshot_consts min_def)
  then show ?thesis using assms(2) by (simp add: snapshot_decode_def)
qed

lemma damaged_snapshot_header:
  assumes "snapshot_encode h = Some bs" "i < length bs" "b \<noteq> bs ! i" "i \<noteq> 27" "i \<noteq> 28"
  shows "snapshot_decode (bs[i := b] @ X) = Inl (if i < 4 then BadMagic else BadChecksum)"
proof -
  note e = snapshot_encodeD [OF assms(1)]
  let ?d = "bs[i := b] @ X"
  have bad: "\<not> check_header_crc (bs[i := b])" using check_header_crc_upd e(2,4) assms(2,3) by auto
  have t: "take (length bs) ?d = bs[i := b]" by simp
  have "take 2 (drop 27 ?d) = take 2 (drop 27 (bs @ X))"
    using assms(2,4,5) e(2) by (intro nth_equalityI) (auto simp: nth_append nth_list_update)
  then have s: "snapshot_shards ?d = length (snap_bases h)" using e(3) [of X] by (simp add: snapshot_shards_def)
  have len: "SNAPSHOT_HEADER_FIXED_LEN + snapshot_shards ?d * 10 + 4 = length bs"
    using s e(2) by (simp add: SNAPSHOT_HEADER_FIXED_LEN_def)
  consider "i < 4" | "i = 4" | "4 < i" by linarith
  then show ?thesis
  proof cases
    case 1
    have "take 4 ?d ! i = b" "SNAPSHOT_MAGIC ! i = bs ! i" using 1 e(2,5) by (simp add: nth_append, metis nth_take)
    then have "take 4 ?d \<noteq> SNAPSHOT_MAGIC" using assms(3) by auto
    then show ?thesis using 1 e(2) by (simp add: snapshot_decode_def header_len_def SNAPSHOT_HEADER_FIXED_LEN_def)
  next
    case 2
    have d: "?d ! 4 = b" "take 4 ?d = SNAPSHOT_MAGIC" using 2 e(2,5) by (simp_all add: nth_append)
    have r: "(bs[4 := b])[4 := 5] = bs" using e(6) list_update_id [of bs 4] by (simp add: FORMAT_VERSION_def)
    have "snapshot_mismatch ?d err = BadChecksum" for err
      using e(2,4) r 2 unfolding snapshot_mismatch_def len Let_def t
      by (simp add: version_mismatch_def FORMAT_VERSION_def)
    then show ?thesis
      using 2 d bad e(2) s by (simp add: snapshot_decode_def header_len_def SNAPSHOT_HEADER_FIXED_LEN_def)
  next
    case 3
    have d: "?d ! 4 = FORMAT_VERSION" "take 4 ?d = SNAPSHOT_MAGIC" using 3 e(2,5,6) by (simp_all add: nth_append)
    have "header_len ?d = Inr (length bs)"
      using d len e(2) by (simp add: header_len_def snapshot_consts)
    then show ?thesis using 3 bad by (simp add: snapshot_decode_def)
  qed
qed

lemma footer_decode_points: "counts \<noteq> [] \<Longrightarrow> footer_decode (put_points counts) = Some counts"
proof -
  assume "counts \<noteq> []"
  moreover have "put_points counts = [] \<longleftrightarrow> counts = []"
    using length_put_points [of counts] by (metis length_0_conv mult_eq_0_iff zero_neq_numeral)
  ultimately show ?thesis by (simp add: footer_decode_def)
qed

section \<open>Properties\<close>

text \<open>C30. The headers the encoders write are read back whole. A segment's header, with
  anything behind it, gives its generation, rotation and cut points and leaves the source at the
  first record; a file that stops anywhere inside it is a creation that stopped, not an
  error. A snapshot's header gives back every field, and cut short it is reported short.\<close>

theorem headers_roundtrip:
  "(encode_segment_header g r cuts = Some h \<longrightarrow>
      read_segment_header \<lparr>delivers = h @ X, fails = f\<rparr> (length h + k) =
        Inr (Some (\<lparr>seg_version = FORMAT_VERSION, seg_generation = g, seg_rotation = r, seg_cuts = cuts,
                    seg_len = length h\<rparr>, \<lparr>delivers = X, fails = f\<rparr>)) \<and>
      (n < length h \<longrightarrow> read_segment_header \<lparr>delivers = take n h, fails = f\<rparr> n = Inr None)) \<and>
    (snapshot_encode sh = Some bs \<longrightarrow>
      length bs = snapshot_encoded_len sh \<and> snapshot_decode (bs @ X) = Inr sh \<and>
      (n < length bs \<longrightarrow> snapshot_decode (take n bs) = Inl Short))"
  using read_encoded_header read_cut_header snapshot_encodeD(1) snapshot_decode_encode snapshot_decode_short
  by (simp add: le_add1)

text \<open>C29. One damaged byte of a header is always reported as damage: never taken for a header,
  and never for a file of another version, which would keep the node from starting. The
  exceptions are those the layout makes: a segment's version byte that became the one
  shorter layout's, and the count that says how long a snapshot's header is.\<close>

theorem header_damage_detected:
  "(encode_segment_header g r cuts = Some h \<and> i < length h \<and> b \<noteq> h ! i \<and> (i = 4 \<longrightarrow> b \<noteq> 3) \<longrightarrow>
      read_segment_header \<lparr>delivers = h[i := b] @ X, fails = f\<rparr> (length h + k) =
        Inl (if i < 4 then BadMagic else BadChecksum)) \<and>
    (snapshot_encode sh = Some bs \<and> j < length bs \<and> c \<noteq> bs ! j \<and> j \<notin> {27, 28} \<longrightarrow>
      snapshot_decode (bs[j := c] @ X) = Inl (if j < 4 then BadMagic else BadChecksum))"
  using damaged_segment_header [of g r cuts h "length h + k" i b X f] damaged_snapshot_header [of sh bs j c X] by auto

section \<open>Witnesses\<close>

definition a_snapshot :: snapshot_header where
  "a_snapshot = \<lparr>snap_generation = 3, snap_executor = 1, snap_cycle = 2, snap_unix_millis = 9, snap_bases = [(0, 5), (7, 1)]\<rparr>"

lemma a_header_encodes:
  "\<exists>h. encode_segment_header 2 1 [(4, 9)] = Some h \<and> length h = 37 \<and> h ! 4 = 5"
  using length_fixed_bytes [of 2 1 1] fixed_bytes_parts(2) [of 2 1 1]
  by (auto simp: encode_segment_header_eq length_cut_bytes nth_append FORMAT_VERSION_def)

lemma a_snapshot_encodes:
  "\<exists>bs. snapshot_encode a_snapshot = Some bs \<and> length bs = 53 \<and> bs ! 4 = 5"
proof -
  obtain bs where bs: "snapshot_encode a_snapshot = Some bs" by (simp add: snapshot_encode_def a_snapshot_def Let_def)
  then show ?thesis
    using snapshot_encodeD(2,6) [OF bs] by (simp add: FORMAT_VERSION_def) (simp add: a_snapshot_def)
qed

theorem headers_roundtrip_witness:
  "\<exists>h bs. encode_segment_header 2 1 [(4, 9)] = Some h \<and> snapshot_encode a_snapshot = Some bs \<and>
    read_segment_header \<lparr>delivers = h @ [8], fails = True\<rparr> 38 =
      Inr (Some (\<lparr>seg_version = 5, seg_generation = 2, seg_rotation = 1, seg_cuts = [(4, 9)], seg_len = 37\<rparr>,
        \<lparr>delivers = [8], fails = True\<rparr>)) \<and>
    read_segment_header \<lparr>delivers = take 30 h, fails = True\<rparr> 30 = Inr None \<and>
    snapshot_decode (bs @ [8]) = Inr a_snapshot \<and> snapshot_decode (take 30 bs) = Inl Short"
proof -
  obtain h where h: "encode_segment_header 2 1 [(4, 9)] = Some h" "length h = 37" using a_header_encodes by blast
  obtain bs where bs: "snapshot_encode a_snapshot = Some bs" "length bs = 53" using a_snapshot_encodes by blast
  show ?thesis
    using headers_roundtrip [of 2 1 "[(4, 9)]" h "[8]" True 1 30 a_snapshot bs] h bs
    by (auto simp: FORMAT_VERSION_def)
qed

theorem header_damage_detected_witness:
  "\<exists>h bs. encode_segment_header 2 1 [(4, 9)] = Some h \<and> snapshot_encode a_snapshot = Some bs \<and>
    read_segment_header \<lparr>delivers = h[4 := 6] @ [8], fails = True\<rparr> 38 = Inl BadChecksum \<and>
    snapshot_decode (bs[4 := 9] @ [8]) = Inl BadChecksum"
proof -
  obtain h where h: "encode_segment_header 2 1 [(4, 9)] = Some h" "length h = 37" "h ! 4 = 5"
    using a_header_encodes by blast
  obtain bs where bs: "snapshot_encode a_snapshot = Some bs" "length bs = 53" "bs ! 4 = 5"
    using a_snapshot_encodes by blast
  show ?thesis
    using header_damage_detected [of 2 1 "[(4, 9)]" h 4 6 "[8]" True 1 a_snapshot bs 4 9] h bs
    by auto
qed

end
