(* ===== verification/Reader.thy ===== *)
theory Reader
  imports SegmentFile FileLog
begin

text \<open>
  The reader of segments and snapshots, \<^verbatim>\<open>crates/seedstone-core/src/log/reader.rs\<close>: whole
  records consumed, damage stepped over a byte at a time, the source pulled in
  chunk by chunk. A result of \<open>None\<close> is a panic or a loop that does not end; neither
  happens when the source holds the bytes it was opened with or fails.

  The fields of a reader that have nothing to do with its buffer are the record
  \<open>gauge\<close>, which \<open>ReaderCorrect\<close> extends to a view of the whole segment. The lemmas here
  show that a reader ends, and that what it returns as a record is one.
\<close>

definition READ_CHUNK :: nat where "READ_CHUNK = 4 * 1024 * 1024"
definition RESYNC_CAP :: nat where "RESYNC_CAP = 4 * 1024 * 1024"

datatype reader_mode = Resynchronising | PrefixScan

record damage =
  dmg_bytes :: nat
  dmg_holes :: nat
  dmg_tail :: nat
  dmg_abandoned :: bool

definition no_damage :: damage where
  "no_damage = \<lparr>dmg_bytes = 0, dmg_holes = 0, dmg_tail = 0, dmg_abandoned = False\<rparr>"

record log_item =
  it_shard :: u16
  it_seq :: u64
  it_payload :: bytes
  it_at :: nat
  it_end :: nat

record gauge =
  g_mode :: reader_mode
  resynchronising :: bool
  hole_at_tail :: "nat option"
  hole_at_end :: "damage option"
  spent :: nat
  g_damage :: damage

record reader = gauge +
  rd_src :: source
  rd_len :: nat
  rd_remaining :: nat
  rd_buf :: bytes
  rd_at :: nat
  rd_chunk :: nat

datatype next_result = NextItem log_item | NextEnd | NextFailed

definition with_chunk :: "source \<Rightarrow> nat \<Rightarrow> reader_mode \<Rightarrow> nat \<Rightarrow> reader" where
  "with_chunk src len mode chunk =
     \<lparr>g_mode = mode, resynchronising = False, hole_at_tail = None, hole_at_end = None, spent = 0,
      g_damage = no_damage, rd_src = src, rd_len = len, rd_remaining = len, rd_buf = [], rd_at = 0,
      rd_chunk = max chunk 1\<rparr>"

definition new_reader :: "source \<Rightarrow> nat \<Rightarrow> reader_mode \<Rightarrow> reader" where
  "new_reader src len mode = with_chunk src len mode READ_CHUNK"

definition rd_offset :: "reader \<Rightarrow> nat" where
  "rd_offset r = rd_len r - rd_remaining r - (length (rd_buf r) - rd_at r)"

definition enter_hole :: "'a gauge_scheme \<Rightarrow> 'a gauge_scheme" where
  "enter_hole g =
     (if \<not> resynchronising g
      then g\<lparr>g_damage := (g_damage g)\<lparr>dmg_holes := dmg_holes (g_damage g) + 1\<rparr>, resynchronising := True\<rparr>
      else g)"

definition overdrawn :: "'a gauge_scheme \<Rightarrow> bool" where
  "overdrawn g = (RESYNC_CAP < spent g)"

definition abandon_rest :: "'a gauge_scheme \<Rightarrow> 'a gauge_scheme" where
  "abandon_rest g = g\<lparr>g_damage := (g_damage g)\<lparr>dmg_abandoned := True\<rparr>\<rparr>"

definition charge :: "nat \<Rightarrow> 'a gauge_scheme \<Rightarrow> 'a gauge_scheme" where
  "charge declared g =
     (if overdrawn g then abandon_rest g else g\<lparr>spent := min (spent g + declared) (2 ^ 64 - 1)\<rparr>)"

definition end_of_segment :: "'a gauge_scheme \<Rightarrow> 'a gauge_scheme" where
  "end_of_segment g =
     (case hole_at_end g of
        Some before \<Rightarrow> g\<lparr>hole_at_end := None, g_damage := before, hole_at_tail := None\<rparr>
      | None \<Rightarrow>
          (case hole_at_tail g of
             Some start \<Rightarrow>
               (let d = g_damage g in
                g\<lparr>hole_at_tail := None,
                  g_damage := d\<lparr>dmg_bytes := start, dmg_holes := dmg_holes d - 1,
                                dmg_tail := dmg_tail d + (dmg_bytes d - start)\<rparr>\<rparr>)
           | None \<Rightarrow> g))"

definition found_record :: "'a gauge_scheme \<Rightarrow> 'a gauge_scheme" where
  "found_record g = g\<lparr>resynchronising := False, hole_at_tail := None, hole_at_end := None, spent := 0\<rparr>"

definition count_bytes :: "nat \<Rightarrow> 'a gauge_scheme \<Rightarrow> 'a gauge_scheme" where
  "count_bytes n g = g\<lparr>g_damage := (g_damage g)\<lparr>dmg_bytes := dmg_bytes (g_damage g) + n\<rparr>\<rparr>"

definition rd_step :: "nat \<Rightarrow> reader \<Rightarrow> reader" where
  "rd_step n r = count_bytes n (r\<lparr>rd_at := rd_at r + n\<rparr>)"

text \<open>\<open>fill\<close>: nothing when the source reports an error.\<close>

definition fill :: "nat \<Rightarrow> reader \<Rightarrow> (nat \<times> reader) option" where
  "fill want r =
     (let want = min want (rd_remaining r); src = rd_src r; got = min want (length (delivers src)) in
      if got < want \<and> fails src then None
      else Some (got, r\<lparr>rd_buf := rd_buf r @ take got (delivers src), rd_remaining := rd_remaining r - got,
                        rd_src := src\<lparr>delivers := drop got (delivers src)\<rparr>\<rparr>))"

definition rd_compact :: "reader \<Rightarrow> reader option" where
  "rd_compact r =
     (if 0 < rd_at r \<and> length (rd_buf r) div 2 \<le> rd_at r then
        if length (rd_buf r) < rd_at r then None
        else Some (r\<lparr>rd_buf := drop (rd_at r) (rd_buf r), rd_at := 0\<rparr>)
      else Some r)"

definition checksummed_len :: "bytes \<Rightarrow> nat option" where
  "checksummed_len window =
     (if get window 0 \<noteq> Some MAGIC \<or> length window < HEADER_LEN then None
      else let body = unat (le_word (take 4 (drop 1 window)) :: u32) in
        if BODY_FIXED_LEN \<le> body \<and> body \<le> MAX_BODY_LEN \<and> HEADER_LEN + body \<le> length window
        then Some body else None)"

definition resync_short_read :: "reader \<Rightarrow> reader option" where
  "resync_short_read r =
     (let window = drop (rd_at r) (rd_buf r) in
      if length window < HEADER_LEN then
        if rd_remaining r = 0 then Some (rd_step 1 r)
        else (case fill (rd_chunk r) r of
                None \<Rightarrow> None
              | Some (got, r') \<Rightarrow> Some (if got = 0 then rd_step 1 r' else r'))
      else
        let declared = unat (le_word (take 4 (drop 1 window)) :: u32);
            total = HEADER_LEN + declared;
            available = length window + rd_remaining r
        in if available < total then Some (rd_step 1 r)
           else if overdrawn r then Some (abandon_rest r)
           else map_option snd (fill (total - length window) r))"

datatype 'r turn = Again 'r | Out next_result 'r | Crash

text \<open>One turn of the loop of \<^verbatim>\<open>next_record\<close>, to the test at its foot; \<open>read_candidate\<close> is the match
  on what the window decodes to.\<close>

definition read_candidate :: "reader \<Rightarrow> reader turn" where
  "read_candidate r =
     (let window = drop (rd_at r) (rd_buf r); checksummed = checksummed_len window in
      case decode_record window of
        Record shard seq payload consumed \<Rightarrow>
          Out (NextItem \<lparr>it_shard = shard, it_seq = seq, it_payload = payload, it_at = rd_offset r,
                         it_end = rd_offset r + consumed\<rparr>)
            (found_record (r\<lparr>rd_at := rd_at r + consumed\<rparr>))
      | EndOfLog \<Rightarrow>
          if \<not> resynchronising r then
            if g_mode r = PrefixScan then Out NextEnd r
            else Again (rd_step 1 (enter_hole (r\<lparr>hole_at_end := Some (g_damage r)\<rparr>)))
          else Again (rd_step 1 r)
      | NeedMore \<Rightarrow>
          if resynchronising r then
            (case resync_short_read r of None \<Rightarrow> Out NextFailed r | Some r' \<Rightarrow> Again r')
          else (case fill (rd_chunk r) r of
              None \<Rightarrow> Out NextFailed r
            | Some (got, r') \<Rightarrow>
                if got = 0 then
                  if g_mode r' = PrefixScan then
                    Out NextEnd (r'\<lparr>g_damage := (g_damage r')\<lparr>dmg_tail := dmg_tail (g_damage r') +
                        (length (rd_buf r') - rd_at r')\<rparr>\<rparr>)
                  else let r'' = enter_hole r' in
                    Again (rd_step 1 (r''\<lparr>hole_at_tail := Some (dmg_bytes (g_damage r''))\<rparr>))
                else Again r')
      | Corrupt skip \<Rightarrow>
          if g_mode r = PrefixScan then Out NextEnd r
          else let r' = enter_hole r in
            Again (rd_step skip (case checksummed of Some n \<Rightarrow> charge n r' | None \<Rightarrow> r')))"

definition read_turn :: "reader \<Rightarrow> reader turn" where
  "read_turn r =
     (if length (rd_buf r) \<le> rd_at r \<and> rd_remaining r = 0 then Out NextEnd (end_of_segment r)
      else case rd_compact r of None \<Rightarrow> Crash | Some r' \<Rightarrow> read_candidate r')"

partial_function (option) next_record :: "reader \<Rightarrow> (next_result \<times> reader) option" where
  "next_record r =
     (case read_turn r of
        Crash \<Rightarrow> None
      | Out x r' \<Rightarrow> Some (x, r')
      | Again r' \<Rightarrow> if dmg_abandoned (g_damage r') then Some (NextEnd, r') else next_record r')"

text \<open>The loop of the reader's callers: \<open>f\<close> takes each record with the damage met by then, and
  says whether to go on.\<close>

datatype ending = Finished | Failed | Stopped

partial_function (option) each_record ::
  "(log_item \<Rightarrow> damage \<Rightarrow> 's \<Rightarrow> bool \<times> 's) \<Rightarrow> reader \<Rightarrow> 's \<Rightarrow> ('s \<times> ending \<times> damage) option" where
  "each_record f r s =
     (case next_record r of
        None \<Rightarrow> None
      | Some (x, r') \<Rightarrow>
          (case x of
             NextEnd \<Rightarrow> Some (s, Finished, g_damage r')
           | NextFailed \<Rightarrow> Some (s, Failed, g_damage r')
           | NextItem it \<Rightarrow>
               (let (go, s') = f it (g_damage r') s in
                if go then each_record f r' s' else Some (s', Stopped, g_damage r'))))"

definition read_items :: "reader \<Rightarrow> (log_item list \<times> ending \<times> damage) option" where
  "read_items r = each_record (\<lambda>it _ its. (True, its @ [it])) r []"

section \<open>What the decoder makes of a window\<close>

lemma le_header_append:
  "HEADER_LEN \<le> length w \<Longrightarrow> take 4 (drop 1 (w @ x)) = take 4 (drop 1 w)"
  "HEADER_LEN \<le> length w \<Longrightarrow> take 4 (drop 5 (w @ x)) = take 4 (drop 5 w)"
  by (simp_all add: HEADER_LEN_def)

lemma get_first_append: "w \<noteq> [] \<Longrightarrow> get (w @ x) 0 = get w 0"
  by (cases w) (simp_all add: get_def)

definition declared :: "bytes \<Rightarrow> nat" where
  "declared w = unat (le_word (take 4 (drop 1 w)) :: u32)"

lemma declared_append: "HEADER_LEN \<le> length w \<Longrightarrow> declared (w @ x) = declared w"
  by (simp only: declared_def le_header_append)

text \<open>A candidate: a magic byte, with what the rest of its header says.\<close>

lemma decode_magic:
  assumes "get w 0 = Some MAGIC"
  shows "decode_record w =
    (if length w < HEADER_LEN then NeedMore
     else if \<not> (BODY_FIXED_LEN \<le> declared w \<and> declared w \<le> MAX_BODY_LEN) then Corrupt 1
     else if length w < HEADER_LEN + declared w then NeedMore
     else let body = take (declared w) (drop HEADER_LEN w) in
       if crc32_iso_hdlc body \<noteq> le_word (take 4 (drop 5 w)) then Corrupt 1
       else Record (le_word (take 2 body)) (le_word (take 8 (drop 2 body))) (drop BODY_FIXED_LEN body)
              (HEADER_LEN + declared w))"
  unfolding decode_record_def assms declared_def Let_def option.case drop_take by simp

lemma decode_no_magic:
  assumes "get w 0 = Some b" "b \<noteq> MAGIC"
  shows "decode_record w = (if b = END_OF_LOG then EndOfLog else Corrupt 1)"
  using assms by (simp add: decode_record_def)

lemma checksummed_len_eq:
  "checksummed_len w =
    (if get w 0 = Some MAGIC \<and> HEADER_LEN \<le> length w \<and> BODY_FIXED_LEN \<le> declared w \<and> declared w \<le> MAX_BODY_LEN \<and>
        HEADER_LEN + declared w \<le> length w then Some (declared w) else None)"
  by (simp add: checksummed_len_def declared_def Let_def not_less not_le)

text \<open>Bytes further on do not change the decoder's mind, nor what it would checksum.\<close>

lemma decode_more:
  assumes "decode_record w \<noteq> NeedMore"
  shows "decode_record (w @ x) = decode_record w \<and> checksummed_len (w @ x) = checksummed_len w"
proof -
  have ne: "w \<noteq> []" using assms by (auto simp: decode_record_def get_def)
  then obtain b where b: "get w 0 = Some b" by (simp add: get_def)
  then have bx: "get (w @ x) 0 = Some b" using get_first_append [OF ne] by simp
  show ?thesis
  proof (cases "b = MAGIC")
    case False
    then show ?thesis using decode_no_magic [OF b] decode_no_magic [OF bx] b bx by (simp add: checksummed_len_def)
  next
    case True
    have l: "HEADER_LEN \<le> length w" using assms decode_magic [OF b [unfolded True]] by (simp split: if_splits)
    note d = declared_append [OF l, of x]
    have f: "HEADER_LEN + declared w \<le> length w" if "BODY_FIXED_LEN \<le> declared w \<and> declared w \<le> MAX_BODY_LEN"
      using assms that l unfolding decode_magic [OF b [unfolded True]] by (simp split: if_splits)
    then have "take (declared w) (drop HEADER_LEN (w @ x)) = take (declared w) (drop HEADER_LEN w)"
      if "BODY_FIXED_LEN \<le> declared w \<and> declared w \<le> MAX_BODY_LEN" using that l by simp
    then show ?thesis
      using b bx l f unfolding checksummed_len_eq d decode_magic [OF b [unfolded True]] decode_magic [OF bx [unfolded True]]
        le_header_append(2) [OF l] True
      by (cases "BODY_FIXED_LEN \<le> declared w \<and> declared w \<le> MAX_BODY_LEN") (auto simp: trans_le_add1)
  qed
qed

lemma decode_Corrupt: "decode_record w = Corrupt k \<Longrightarrow> k = 1 \<and> w \<noteq> []"
  by (auto simp: decode_record_def get_def Let_def split: if_splits option.splits)

lemma decode_EndOfLog: "decode_record w = EndOfLog \<Longrightarrow> w \<noteq> []"
  by (auto simp: decode_record_def get_def)

lemma decode_Record_len:
  assumes "decode_record w = Record shard seq payload n"
  shows "0 < n" "n \<le> length w"
  using decode_sound [OF assms] length_encode_record [of "\<lparr>rec_shard = shard, rec_seq = seq, rec_payload = payload\<rparr>" "take n w"]
  by (auto simp: HEADER_LEN_def)

lemma decode_short_window:
  assumes "decode_record w = NeedMore"
  shows "w = [] \<or> get w 0 = Some MAGIC"
  using assms by (auto simp: decode_record_def get_def split: if_splits option.splits)

lemma decode_NeedMore:
  assumes "decode_record w = NeedMore" "HEADER_LEN \<le> length w"
  shows "length w < HEADER_LEN + declared w" "BODY_FIXED_LEN \<le> declared w \<and> declared w \<le> MAX_BODY_LEN"
proof -
  have "w \<noteq> []" using assms(2) by (auto simp: HEADER_LEN_def)
  then have g: "get w 0 = Some MAGIC" using decode_short_window [OF assms(1)] by simp
  show "length w < HEADER_LEN + declared w" "BODY_FIXED_LEN \<le> declared w \<and> declared w \<le> MAX_BODY_LEN"
    using assms unfolding decode_magic [OF g] by (simp_all add: Let_def split: if_splits)
qed

lemma decode_still_short:
  assumes "decode_record w = NeedMore" "HEADER_LEN \<le> length w" "length w + length x < HEADER_LEN + declared w"
  shows "decode_record (w @ x) = NeedMore"
proof -
  have ne: "w \<noteq> []" using assms(2) by (auto simp: HEADER_LEN_def)
  have g: "get (w @ x) 0 = Some MAGIC" using decode_short_window [OF assms(1)] ne by (simp add: get_first_append)
  show ?thesis
    using decode_NeedMore(2) [OF assms(1,2)] assms(3) unfolding decode_magic [OF g] declared_append [OF assms(2)] by simp
qed

section \<open>The reader ends\<close>

text \<open>\<open>todo\<close>: the bytes not yet read past. \<open>reads body r\<close>: the reader stands inside \<open>body\<close>, all that
  its source delivers, with its buffer a window of it; the source delivers the whole length or
  fails.\<close>

definition todo :: "reader \<Rightarrow> nat" where
  "todo r = rd_remaining r + (length (rd_buf r) - rd_at r)"

definition reads :: "bytes \<Rightarrow> reader \<Rightarrow> bool" where
  "reads body r =
     (rd_at r \<le> length (rd_buf r) \<and> 0 < rd_chunk r \<and> todo r \<le> rd_len r \<and>
      drop (rd_at r) (rd_buf r) @ delivers (rd_src r) = drop (rd_len r - todo r) body \<and>
      (rd_len r \<le> length body \<or> fails (rd_src r)))"

lemma reads_with_chunk:
  "len \<le> length (delivers src) \<or> fails src \<Longrightarrow> reads (delivers src) (with_chunk src len mode c)"
  by (simp add: reads_def with_chunk_def todo_def)

lemma reads_gauge [simp]:
  "reads body (enter_hole r) = reads body r" "reads body (charge k r) = reads body r"
  "reads body (abandon_rest r) = reads body r" "reads body (end_of_segment r) = reads body r"
  "reads body (found_record r) = reads body r" "reads body (count_bytes n r) = reads body r"
  "reads body (r\<lparr>hole_at_end := e\<rparr>) = reads body r" "reads body (r\<lparr>hole_at_tail := t\<rparr>) = reads body r"
  "reads body (r\<lparr>g_damage := d\<rparr>) = reads body r"
  by (simp_all add: reads_def todo_def enter_hole_def charge_def abandon_rest_def end_of_segment_def found_record_def
      count_bytes_def Let_def split: option.split)

lemma todo_gauge [simp]:
  "todo (enter_hole r) = todo r" "todo (charge k r) = todo r" "todo (abandon_rest r) = todo r"
  "todo (end_of_segment r) = todo r" "todo (found_record r) = todo r" "todo (count_bytes n r) = todo r"
  "todo (r\<lparr>hole_at_end := e\<rparr>) = todo r" "todo (r\<lparr>hole_at_tail := t\<rparr>) = todo r" "todo (r\<lparr>g_damage := d\<rparr>) = todo r"
  by (simp_all add: todo_def enter_hole_def charge_def abandon_rest_def end_of_segment_def found_record_def
      count_bytes_def Let_def split: option.split)

lemma todo_advance:
  assumes "n \<le> length (drop (rd_at r) (rd_buf r))"
  shows "todo (r\<lparr>rd_at := rd_at r + n\<rparr>) = todo r - n" "n \<le> todo r"
  using assms by (simp_all add: todo_def)

lemma reads_advance:
  assumes "reads body r" "n \<le> length (drop (rd_at r) (rd_buf r))"
  shows "reads body (r\<lparr>rd_at := rd_at r + n\<rparr>)"
proof -
  have "drop n (drop (rd_at r) (rd_buf r) @ delivers (rd_src r)) = drop (rd_at r + n) (rd_buf r) @ delivers (rd_src r)"
    using assms(2) by (simp add: add.commute)
  moreover have "drop n (drop (rd_at r) (rd_buf r) @ delivers (rd_src r)) = drop (rd_len r - (todo r - n)) body"
    using assms todo_advance(2) [OF assms(2)] unfolding reads_def by (simp add: add.commute)
  ultimately show ?thesis
    using assms unfolding reads_def todo_advance(1) [OF assms(2)] by auto
qed

lemma reads_compact:
  assumes "reads body r"
  shows "\<exists>r'. rd_compact r = Some r' \<and> reads body r' \<and> todo r' = todo r \<and> rd_remaining r' = rd_remaining r \<and>
    drop (rd_at r') (rd_buf r') = drop (rd_at r) (rd_buf r) \<and> rd_src r' = rd_src r \<and> rd_len r' = rd_len r \<and>
    gauge.truncate r' = gauge.truncate r"
  using assms by (auto simp: rd_compact_def reads_def todo_def gauge.truncate_def)

lemma reads_fill:
  assumes "reads body r" "fill want r = Some (got, r')"
  shows "reads body r' \<and> todo r' = todo r \<and> rd_remaining r' = rd_remaining r - got \<and> got \<le> rd_remaining r \<and>
    got = min want (rd_remaining r) \<and> rd_len r' = rd_len r"
proof -
  have len: "rd_remaining r \<le> length (delivers (rd_src r)) \<or> fails (rd_src r)"
  proof (cases "fails (rd_src r)")
    case False
    then have "length (drop (rd_at r) (rd_buf r) @ delivers (rd_src r)) = length body - (rd_len r - todo r)" "rd_len r \<le> length body"
      using assms(1) unfolding reads_def by (metis length_drop, simp)
    moreover have "rd_at r \<le> length (rd_buf r)" "todo r \<le> rd_len r" using assms(1) by (simp_all add: reads_def)
    ultimately have "rd_remaining r \<le> length (delivers (rd_src r))" by (simp add: todo_def)
    then show ?thesis ..
  qed simp
  then have got: "got = min want (rd_remaining r)" "got \<le> length (delivers (rd_src r))"
    using assms(2) by (auto simp: fill_def Let_def split: if_splits)
  have r': "r' = r\<lparr>rd_buf := rd_buf r @ take got (delivers (rd_src r)), rd_remaining := rd_remaining r - got,
                rd_src := (rd_src r)\<lparr>delivers := drop got (delivers (rd_src r))\<rparr>\<rparr>"
    using assms(2) by (auto simp: fill_def Let_def split: if_splits)
  have t: "todo r' = todo r" using got assms(1) by (auto simp: r' todo_def reads_def)
  then show ?thesis using assms(1) got unfolding reads_def t by (auto simp: r')
qed

lemma rd_step_reads:
  assumes "reads body r" "0 < n" "n \<le> length (drop (rd_at r) (rd_buf r))"
  shows "reads body (rd_step n r) \<and> todo (rd_step n r) < todo r"
  using reads_advance [OF assms(1,3)] todo_advance [OF assms(3)] assms(2) by (simp add: rd_step_def)

lemma gauge_buffer [simp]:
  "rd_at (enter_hole r) = rd_at r" "rd_buf (enter_hole r) = rd_buf r" "rd_remaining (enter_hole r) = rd_remaining r"
  "rd_at (charge k r) = rd_at r" "rd_buf (charge k r) = rd_buf r" "rd_remaining (charge k r) = rd_remaining r"
  by (simp_all add: enter_hole_def charge_def abandon_rest_def)

text \<open>\<open>genuine body it\<close>: the item is what the encoder writes, at its place in the body.\<close>

definition record_of :: "log_item \<Rightarrow> log_record" where
  "record_of it = \<lparr>rec_shard = it_shard it, rec_seq = it_seq it, rec_payload = it_payload it\<rparr>"

definition genuine :: "bytes \<Rightarrow> log_item \<Rightarrow> bool" where
  "genuine body it =
     (it_at it < it_end it \<and> it_end it \<le> length body \<and>
      encode_record (record_of it) = Some (take (it_end it - it_at it) (drop (it_at it) body)))"

abbreviation rd_pos :: "reader \<Rightarrow> nat" where
  "rd_pos r \<equiv> rd_len r - todo r"

text \<open>A turn that goes on has moved past a byte, or pulled some in, or given the rest up.\<close>

fun nearer :: "bytes \<Rightarrow> reader \<Rightarrow> reader turn \<Rightarrow> bool" where
  "nearer body r (Again r') =
     (reads body r' \<and> rd_len r' = rd_len r \<and> todo r' \<le> todo r \<and>
      (todo r' < todo r \<or> rd_remaining r' < rd_remaining r \<or> dmg_abandoned (g_damage r')))"
| "nearer body r (Out x r') =
     (reads body r' \<and> rd_len r' = rd_len r \<and> todo r' \<le> todo r \<and>
      (\<forall>it. x = NextItem it \<longrightarrow>
         todo r' < todo r \<and> genuine body it \<and> rd_pos r \<le> it_at it \<and> it_end it = rd_pos r'))"
| "nearer body r Crash = False"

lemma rd_len_kept [simp]:
  "rd_len (enter_hole r) = rd_len r" "rd_len (charge k r) = rd_len r" "rd_len (abandon_rest r) = rd_len r"
  "rd_len (end_of_segment r) = rd_len r" "rd_len (found_record r) = rd_len r" "rd_len (rd_step n r) = rd_len r"
  by (simp_all add: enter_hole_def charge_def abandon_rest_def end_of_segment_def found_record_def count_bytes_def
      rd_step_def Let_def split: option.split)

lemma rd_offset_pos: "rd_offset r = rd_pos r"
  by (simp add: rd_offset_def todo_def)

lemma genuine_window:
  assumes "reads body r" "decode_record (drop (rd_at r) (rd_buf r)) = Record shard seq payload n"
  shows "genuine body \<lparr>it_shard = shard, it_seq = seq, it_payload = payload, it_at = rd_pos r, it_end = rd_pos r + n\<rparr>"
proof -
  let ?w = "drop (rd_at r) (rd_buf r)"
  note n = decode_Record_len [OF assms(2)]
  have w: "?w @ delivers (rd_src r) = drop (rd_pos r) body" using assms(1) by (simp add: reads_def)
  then have "take n (drop (rd_pos r) body) = take n ?w" using n(2) by (metis append_Nil2 diff_is_0_eq take0 take_append)
  moreover have "n \<le> length (drop (rd_pos r) body)" using n(2) by (simp flip: w)
  ultimately show ?thesis using decode_sound [OF assms(2)] n by (simp add: genuine_def record_of_def)
qed

lemma resync_short_read_nearer:
  assumes r: "reads body r" "decode_record (drop (rd_at r) (rd_buf r)) = NeedMore" "0 < todo r"
  shows "resync_short_read r = None \<or> (\<exists>r'. resync_short_read r = Some r' \<and> nearer body r (Again r'))"
proof -
  let ?w = "drop (rd_at r) (rd_buf r)"
  have step: "nearer body r (Again (rd_step 1 r))" if "?w \<noteq> []"
    using rd_step_reads [OF r(1), of 1] that by (cases ?w) auto
  have chunk: "0 < rd_chunk r" using r(1) by (simp add: reads_def)
  show ?thesis
  proof (cases "length ?w < HEADER_LEN")
    case True
    show ?thesis
    proof (cases "rd_remaining r = 0")
      case True
      then have "?w \<noteq> []" using r(3) by (auto simp: todo_def)
      then show ?thesis using step \<open>length ?w < HEADER_LEN\<close> True by (simp add: resync_short_read_def)
    next
      case False
      show ?thesis
      proof (cases "fill (rd_chunk r) r")
        case (Some p)
        obtain got r' where p: "p = (got, r')" by (cases p)
        note f = reads_fill [OF r(1) Some [unfolded p]]
        then have "0 < got" using chunk False by simp
        moreover have "nearer body r (Again r')" using f \<open>0 < got\<close> by auto
        ultimately show ?thesis using True False Some p by (simp add: resync_short_read_def)
      qed (use True False in \<open>simp add: resync_short_read_def\<close>)
    qed
  next
    case False
    then have len: "HEADER_LEN \<le> length ?w" by simp
    then have "?w \<noteq> []" by (auto simp: HEADER_LEN_def)
    note d = decode_NeedMore(1) [OF r(2) len]
    consider "length ?w + rd_remaining r < HEADER_LEN + declared ?w"
      | "HEADER_LEN + declared ?w \<le> length ?w + rd_remaining r" "overdrawn r"
      | "HEADER_LEN + declared ?w \<le> length ?w + rd_remaining r" "\<not> overdrawn r" by linarith
    then show ?thesis
    proof cases
      case 1
      then show ?thesis using step [OF \<open>?w \<noteq> []\<close>] False by (simp add: resync_short_read_def Let_def declared_def)
    next
      case 2
      moreover have "nearer body r (Again (abandon_rest r))" using r(1) by (simp add: abandon_rest_def)
      ultimately show ?thesis using False by (simp add: resync_short_read_def Let_def declared_def)
    next
      case 3
      show ?thesis
      proof (cases "fill (HEADER_LEN + declared ?w - length ?w) r")
        case (Some p)
        obtain got r' where p: "p = (got, r')" by (cases p)
        note f = reads_fill [OF r(1) Some [unfolded p]]
        then have "0 < got" using d 3 by simp
        then have "nearer body r (Again r')" using f by auto
        moreover have "resync_short_read r = Some r'"
          using False 3 Some p by (simp add: resync_short_read_def Let_def declared_def)
        ultimately show ?thesis by simp
      next
        case None
        then show ?thesis using False 3 by (simp add: resync_short_read_def Let_def declared_def)
      qed
    qed
  qed
qed

lemma fill_zero:
  assumes "reads body r" "fill (rd_chunk r) r = Some (0, r')"
  shows "rd_remaining r = 0" "r' = r"
proof -
  have "0 < rd_chunk r" using assms(1) by (simp add: reads_def)
  moreover have "0 = min (rd_chunk r) (rd_remaining r)" using reads_fill [OF assms] by simp
  ultimately show "rd_remaining r = 0" by simp
  then show "r' = r" using assms(2) by (auto simp: fill_def Let_def split: if_splits)
qed

lemma read_candidate_nearer:
  assumes r: "reads body r" "0 < todo r"
  shows "nearer body r (read_candidate r)"
proof -
  let ?w = "drop (rd_at r) (rd_buf r)"
  have step: "reads body (rd_step 1 r') \<and> todo (rd_step 1 r') < todo r \<and> todo (rd_step 1 r') \<le> todo r"
    if "?w \<noteq> []" "reads body r'" "rd_at r' = rd_at r" "rd_buf r' = rd_buf r" "todo r' = todo r" for r'
  proof -
    have "1 \<le> length ?w" using that(1) by (cases ?w) auto
    then show ?thesis using rd_step_reads [OF that(2), of 1] that by simp
  qed
  show ?thesis
  proof (cases "decode_record ?w")
    case (Record shard seq payload n)
    note n = decode_Record_len [OF Record]
    have "rd_pos r + n = rd_len r - (todo r - n)" using todo_advance(2) [OF n(2)] r(1) by (simp add: reads_def)
    then show ?thesis
      using reads_advance [OF r(1) n(2)] todo_advance [OF n(2)] n(1) Record genuine_window [OF r(1) Record]
      by (simp add: read_candidate_def rd_offset_pos)
  next
    case EndOfLog
    then have "?w \<noteq> []" by (rule decode_EndOfLog)
    then show ?thesis using EndOfLog r step by (simp add: read_candidate_def)
  next
    case (Corrupt k)
    then have k: "k = 1" "?w \<noteq> []" using decode_Corrupt [OF Corrupt] by blast+
    then show ?thesis using Corrupt r step by (simp add: read_candidate_def Let_def split: option.split)
  next
    case NeedMore
    show ?thesis
    proof (cases "resynchronising r")
      case True
      then show ?thesis
        using resync_short_read_nearer [OF r(1) NeedMore r(2)] r NeedMore by (auto simp: read_candidate_def)
    next
      case False
      show ?thesis
      proof (cases "fill (rd_chunk r) r")
        case None
        then show ?thesis using r False NeedMore by (simp add: read_candidate_def)
      next
        case (Some p)
        obtain got r' where p: "p = (got, r')" by (cases p)
        note f = reads_fill [OF r(1) Some [unfolded p]]
        show ?thesis
        proof (cases "got = 0")
          case True
          note z = fill_zero [OF r(1) Some [unfolded p True]]
          then have "?w \<noteq> []" using r(2) by (auto simp: todo_def)
          then show ?thesis using r False NeedMore Some p True z step by (simp add: read_candidate_def Let_def)
        next
          case False
          then show ?thesis
            using f r \<open>\<not> resynchronising r\<close> NeedMore Some p by (auto simp: read_candidate_def)
        qed
      qed
    qed
  qed
qed

lemma read_turn_nearer:
  assumes r: "reads body r"
  shows "nearer body r (read_turn r)"
proof (cases "length (rd_buf r) \<le> rd_at r \<and> rd_remaining r = 0")
  case False
  obtain r' where r': "rd_compact r = Some r'" "reads body r'" "todo r' = todo r" "rd_remaining r' = rd_remaining r"
    "rd_len r' = rd_len r"
    using reads_compact [OF r] by blast
  have "0 < todo r'" unfolding r'(3) using False r by (auto simp: todo_def reads_def)
  from read_candidate_nearer [OF r'(2) this] show ?thesis
    using r' by (cases "read_candidate r'") (simp_all add: read_turn_def False)
qed (use r in \<open>simp add: read_turn_def\<close>)

lemma next_record_ends:
  "reads body r \<Longrightarrow> \<exists>x r'. next_record r = Some (x, r') \<and> nearer body r (Out x r')"
proof (induction r rule: wf_induct [OF wf_measures [of "[todo, rd_remaining]"]])
  case (1 r)
  note near = read_turn_nearer [OF 1(2)]
  show ?case
  proof (cases "read_turn r")
    case (Again r')
    show ?thesis
    proof (cases "dmg_abandoned (g_damage r')")
      case True
      then show ?thesis using near Again by (subst next_record.simps) simp
    next
      case False
      have "(r', r) \<in> measures [todo, rd_remaining]" "todo r' \<le> todo r" using near Again False by auto
      then obtain x r'' where "next_record r' = Some (x, r'')" "nearer body r' (Out x r'')"
        using 1(1) near Again by auto
      moreover have "next_record r = next_record r'" using Again False by (subst next_record.simps) simp
      moreover have "nearer body r (Out x r'')" using \<open>nearer body r' (Out x r'')\<close> near Again by auto
      ultimately show ?thesis by auto
    qed
  next
    case (Out x r')
    then show ?thesis using near by (subst next_record.simps) simp
  next
    case Crash
    then show ?thesis using near by simp
  qed
qed

lemma each_record_ends: "reads body r \<Longrightarrow> \<exists>res. each_record f r s = Some res"
proof (induction "todo r" arbitrary: r s rule: less_induct)
  case less
  obtain x r' where x: "next_record r = Some (x, r')" "nearer body r (Out x r')" using next_record_ends [OF less.prems] by blast
  show ?case
  proof (cases x)
    case (NextItem it)
    then show ?thesis
      using less.hyps [of r' "snd (f it (g_damage r') s)"] x by (subst each_record.simps) (auto split: prod.split)
  qed (use x in \<open>subst each_record.simps; simp\<close>)+
qed

text \<open>Items one behind another from a place on.\<close>

fun tiles :: "bytes \<Rightarrow> nat \<Rightarrow> log_item list \<Rightarrow> bool" where
  "tiles body lo [] = True"
| "tiles body lo (it # its) = (lo \<le> it_at it \<and> genuine body it \<and> tiles body (it_end it) its)"

lemma tiles_snoc: "tiles body lo its \<Longrightarrow> genuine body it \<Longrightarrow> (its = [] \<longrightarrow> lo \<le> it_at it) \<Longrightarrow>
    (its \<noteq> [] \<longrightarrow> it_end (last its) \<le> it_at it) \<Longrightarrow> tiles body lo (its @ [it])"
  by (induction its arbitrary: lo) (auto split: if_splits)

lemma read_items_tiles:
  assumes "reads body r" "tiles body 0 its0" "its0 \<noteq> [] \<longrightarrow> it_end (last its0) \<le> rd_pos r"
    and "each_record (\<lambda>it _ its. (True, its @ [it])) r its0 = Some (its, e, d)"
  shows "tiles body 0 its"
  using assms
proof (induction "todo r" arbitrary: r its0 rule: less_induct)
  case less
  obtain x r' where x: "next_record r = Some (x, r')" "nearer body r (Out x r')" using next_record_ends [OF less.prems(1)] by blast
  show ?case
  proof (cases x)
    case (NextItem it)
    have "tiles body 0 (its0 @ [it])" using less.prems(2,3) x(2) NextItem by (intro tiles_snoc) auto
    moreover have "each_record (\<lambda>it _ its. (True, its @ [it])) r' (its0 @ [it]) = Some (its, e, d)"
      using less.prems(4) x(1) NextItem by (subst (asm) each_record.simps) simp
    ultimately show ?thesis
      using less.hyps [of r' "its0 @ [it]"] x(2) NextItem by auto
  next
    case NextEnd
    then show ?thesis using less.prems(2,4) x by (subst (asm) each_record.simps) simp
  next
    case NextFailed
    then show ?thesis using less.prems(2,4) x by (subst (asm) each_record.simps) simp
  qed
qed

end
