(* ===== verification/ReaderCorrect.thy ===== *)
theory ReaderCorrect
  imports Reader
begin

text \<open>
  What a segment means, without chunks: \<open>read_whole\<close> looks at the bytes themselves, and the
  chunked reader of \<open>Reader\<close> computes it whatever its chunk. Over it, records are
  read back and holes stepped over.
\<close>

section \<open>A segment without chunks\<close>

text \<open>\<open>look\<close> is the same search over the bytes ahead themselves: nothing to pull in, and no
  window. It gives nothing where a hole has gone past \<open>RESYNC_CAP\<close>, the one case where what
  the reader makes of a candidate depends on how much of it the buffer holds.\<close>

record sight = gauge +
  ahead :: bytes
  place :: nat

definition skip_ahead :: "nat \<Rightarrow> sight \<Rightarrow> sight" where
  "skip_ahead n v = v\<lparr>ahead := drop n (ahead v), place := place v + n\<rparr>"

definition step_ahead :: "nat \<Rightarrow> sight \<Rightarrow> sight" where
  "step_ahead n v = count_bytes n (skip_ahead n v)"

lemma ahead_gauge [simp]:
  "ahead (enter_hole v) = ahead v" "ahead (charge k v) = ahead v" "ahead (count_bytes n v) = ahead v"
  "ahead (found_record v) = ahead v" "ahead (end_of_segment v) = ahead v" "ahead (abandon_rest v) = ahead v"
  by (simp_all add: enter_hole_def charge_def abandon_rest_def end_of_segment_def found_record_def count_bytes_def
      Let_def split: option.split)

lemma ahead_step [simp]: "ahead (step_ahead n v) = drop n (ahead v)"
  by (simp add: step_ahead_def skip_ahead_def)

function (sequential) look :: "sight \<Rightarrow> (next_result \<times> sight) option" where
  "look v =
     (if overdrawn v then None
      else if ahead v = [] then Some (NextEnd, end_of_segment v)
      else case decode_record (ahead v) of
        Record shard seq payload n \<Rightarrow>
          Some (NextItem \<lparr>it_shard = shard, it_seq = seq, it_payload = payload, it_at = place v, it_end = place v + n\<rparr>,
                found_record (skip_ahead n v))
      | EndOfLog \<Rightarrow>
          if resynchronising v then look (step_ahead 1 v)
          else if g_mode v = PrefixScan then Some (NextEnd, v)
          else look (step_ahead 1 (enter_hole (v\<lparr>hole_at_end := Some (g_damage v)\<rparr>)))
      | NeedMore \<Rightarrow>
          if resynchronising v then look (step_ahead 1 v)
          else if g_mode v = PrefixScan then
            Some (NextEnd, v\<lparr>g_damage := (g_damage v)\<lparr>dmg_tail := dmg_tail (g_damage v) + length (ahead v)\<rparr>\<rparr>)
          else let v' = enter_hole v in look (step_ahead 1 (v'\<lparr>hole_at_tail := Some (dmg_bytes (g_damage v'))\<rparr>))
      | Corrupt skip \<Rightarrow>
          if g_mode v = PrefixScan then Some (NextEnd, v)
          else let v' = enter_hole v in
            look (step_ahead 1 (case checksummed_len (ahead v) of Some n \<Rightarrow> charge n v' | None \<Rightarrow> v')))"
  by pat_completeness auto
termination
  by (relation "measure (\<lambda>v. length (ahead v))") (auto simp: Let_def split: option.split)

declare look.simps [simp del]

lemma look_item_shorter: "look v = Some (NextItem it, v') \<Longrightarrow> length (ahead v') < length (ahead v)"
proof (induction v rule: look.induct)
  case (1 v)
  have ov: "\<not> overdrawn v" "ahead v \<noteq> []" using 1(6) by (subst (asm) look.simps; auto split: if_splits)+
  show ?case
  proof (cases "decode_record (ahead v)")
    case (Record shard seq payload n)
    then show ?thesis
      using 1(6) ov decode_Record_len [OF Record] by (subst (asm) look.simps) (auto simp: skip_ahead_def)
  next
    case EndOfLog
    then show ?thesis
      using 1(1,2) 1(6) ov look.simps [of v] by (fastforce split: if_splits)
  next
    case NeedMore
    then show ?thesis using 1(3,4) 1(6) ov look.simps [of v] by (fastforce simp: Let_def split: if_splits)
  next
    case (Corrupt k)
    then show ?thesis
      using 1(5) [OF ov Corrupt _ refl] 1(6) ov look.simps [of v] by (fastforce simp: Let_def split: if_splits option.splits)
  qed
qed

function look_all :: "sight \<Rightarrow> ((log_item \<times> damage) list \<times> damage) option" where
  "look_all v =
     (case look v of
        None \<Rightarrow> None
      | Some (x, v') \<Rightarrow>
          (case x of
             NextItem it \<Rightarrow> map_option (\<lambda>(tr, d). ((it, g_damage v') # tr, d)) (look_all v')
           | _ \<Rightarrow> Some ([], g_damage v')))"
  by pat_completeness auto
termination
  by (relation "measure (\<lambda>v. length (ahead v))") (use look_item_shorter in auto)

declare look_all.simps [simp del]

definition sight_of :: "reader_mode \<Rightarrow> bytes \<Rightarrow> sight" where
  "sight_of mode body =
     \<lparr>g_mode = mode, resynchronising = False, hole_at_tail = None, hole_at_end = None, spent = 0,
      g_damage = no_damage, ahead = body, place = 0\<rparr>"

definition read_whole :: "reader_mode \<Rightarrow> bytes \<Rightarrow> ((log_item \<times> damage) list \<times> damage) option" where
  "read_whole mode body = look_all (sight_of mode body)"

section \<open>Chunks do not show\<close>

definition view :: "reader \<Rightarrow> sight" where
  "view r =
     \<lparr>g_mode = g_mode r, resynchronising = resynchronising r, hole_at_tail = hole_at_tail r,
      hole_at_end = hole_at_end r, spent = spent r, g_damage = g_damage r,
      ahead = drop (rd_at r) (rd_buf r) @ take (rd_remaining r) (delivers (rd_src r)), place = rd_pos r\<rparr>"

lemma view_gauge [simp]:
  "view (enter_hole r) = enter_hole (view r)" "view (charge k r) = charge k (view r)"
  "view (end_of_segment r) = end_of_segment (view r)" "view (found_record r) = found_record (view r)"
  "view (count_bytes n r) = count_bytes n (view r)" "view (r\<lparr>hole_at_end := e\<rparr>) = (view r)\<lparr>hole_at_end := e\<rparr>"
  "view (r\<lparr>hole_at_tail := t\<rparr>) = (view r)\<lparr>hole_at_tail := t\<rparr>" "view (r\<lparr>g_damage := d\<rparr>) = (view r)\<lparr>g_damage := d\<rparr>"
  by (simp_all add: view_def todo_def enter_hole_def charge_def overdrawn_def abandon_rest_def end_of_segment_def
      found_record_def count_bytes_def Let_def split: option.split)

lemma view_fields [simp]:
  "g_mode (view r) = g_mode r" "resynchronising (view r) = resynchronising r" "g_damage (view r) = g_damage r"
  "overdrawn (view r) = overdrawn r" "place (view r) = rd_pos r"
  "ahead (view r) = drop (rd_at r) (rd_buf r) @ take (rd_remaining r) (delivers (rd_src r))"
  by (simp_all add: view_def overdrawn_def)

definition whole :: "bytes \<Rightarrow> reader \<Rightarrow> bool" where
  "whole body r = (reads body r \<and> rd_len r \<le> length body)"

lemma whole_delivers:
  assumes "whole body r"
  shows "rd_remaining r \<le> length (delivers (rd_src r))"
proof -
  have "length (drop (rd_at r) (rd_buf r) @ delivers (rd_src r)) = length body - (rd_len r - todo r)"
    using assms unfolding whole_def reads_def by (metis length_drop)
  moreover have "rd_at r \<le> length (rd_buf r)" "todo r \<le> rd_len r" "rd_len r \<le> length body"
    using assms by (simp_all add: whole_def reads_def)
  ultimately show ?thesis by (simp add: todo_def)
qed

lemma view_advance:
  assumes "reads body r" "n \<le> length (drop (rd_at r) (rd_buf r))"
  shows "view (r\<lparr>rd_at := rd_at r + n\<rparr>) = skip_ahead n (view r)"
proof -
  have "rd_len r - (todo r - n) = rd_pos r + n"
    using todo_advance(2) [OF assms(2)] assms(1) by (simp add: reads_def)
  then show ?thesis
    using assms(2) todo_advance(1) [OF assms(2)] by (simp add: view_def skip_ahead_def add.commute)
qed

lemma view_step:
  "reads body r \<Longrightarrow> n \<le> length (drop (rd_at r) (rd_buf r)) \<Longrightarrow> view (rd_step n r) = step_ahead n (view r)"
  using view_advance by (simp add: rd_step_def step_ahead_def)

lemma view_fill:
  assumes "whole body r"
  shows "\<exists>got r'. fill want r = Some (got, r') \<and> view r' = view r \<and> whole body r' \<and> g_damage r' = g_damage r"
proof -
  note d = whole_delivers [OF assms]
  then obtain got r' where f: "fill want r = Some (got, r')" by (auto simp: fill_def Let_def)
  have r: "reads body r" "rd_at r \<le> length (rd_buf r)" using assms by (simp_all add: whole_def reads_def)
  note rf = reads_fill [OF r(1) f]
  have r': "r' = r\<lparr>rd_buf := rd_buf r @ take got (delivers (rd_src r)), rd_remaining := rd_remaining r - got,
                rd_src := (rd_src r)\<lparr>delivers := drop got (delivers (rd_src r))\<rparr>\<rparr>"
    using f by (auto simp: fill_def Let_def split: if_splits)
  have "take got (delivers (rd_src r)) @ take (rd_remaining r - got) (drop got (delivers (rd_src r))) =
      take (rd_remaining r) (delivers (rd_src r))"
    using rf by (simp flip: take_add)
  moreover have "rd_pos r' = rd_pos r" using rf by simp
  ultimately have "view r' = view r" using r(2) by (simp add: view_def) (simp add: r')
  moreover have "g_damage r' = g_damage r" by (simp add: r')
  ultimately show ?thesis using f rf assms by (simp add: whole_def)
qed

lemma view_compact:
  assumes "reads body r" "rd_compact r = Some r'"
  shows "view r' = view r"
  using assms by (auto simp: rd_compact_def reads_def view_def todo_def split: if_splits)

text \<open>What a turn leaves to see.\<close>

fun seen :: "reader turn \<Rightarrow> (next_result \<times> sight) option" where
  "seen (Again r) = look (view r)"
| "seen (Out x r) = Some (x, view r)"
| "seen Crash = None"

lemma decode_whole_window:
  assumes "decode_record (drop (rd_at r) (rd_buf r)) \<noteq> NeedMore"
  shows "decode_record (ahead (view r)) = decode_record (drop (rd_at r) (rd_buf r))"
    "checksummed_len (ahead (view r)) = checksummed_len (drop (rd_at r) (rd_buf r))"
  using decode_more [OF assms] by simp_all

lemma look_short:
  assumes "\<not> overdrawn v" "ahead v \<noteq> []" "decode_record (ahead v) = NeedMore" "resynchronising v"
  shows "look v = look (step_ahead 1 v)"
  using assms by (subst look.simps) simp

lemma resync_short_read_seen:
  assumes w: "whole body r" and n: "decode_record (drop (rd_at r) (rd_buf r)) = NeedMore" "0 < todo r"
    and o: "\<not> overdrawn r" "resynchronising r"
  shows "\<exists>r'. resync_short_read r = Some r' \<and> look (view r') = look (view r) \<and>
    dmg_abandoned (g_damage r') = dmg_abandoned (g_damage r)"
proof -
  let ?w = "drop (rd_at r) (rd_buf r)"
  have r: "reads body r" using w by (simp add: whole_def)
  have step: "look (view (rd_step 1 r)) = look (view r)" if "decode_record (ahead (view r)) = NeedMore" "?w \<noteq> []"
  proof -
    have "1 \<le> length ?w" using that(2) by (cases ?w) auto
    then show ?thesis
      using look_short [of "view r"] view_step [OF r, of 1] that o by simp
  qed
  have dmg: "dmg_abandoned (g_damage (rd_step 1 r)) = dmg_abandoned (g_damage r)" by (simp add: rd_step_def count_bytes_def)
  show ?thesis
  proof (cases "length ?w < HEADER_LEN")
    case True
    show ?thesis
    proof (cases "rd_remaining r = 0")
      case True
      then have "?w \<noteq> []" using n(2) by (auto simp: todo_def)
      then show ?thesis
        using step dmg n(1) \<open>length ?w < HEADER_LEN\<close> True by (simp add: resync_short_read_def)
    next
      case False
      obtain got r' where f: "fill (rd_chunk r) r = Some (got, r')" "view r' = view r" "g_damage r' = g_damage r"
        using view_fill [OF w] by blast
      have "0 < rd_chunk r" using r by (simp add: reads_def)
      then have "0 < got" using reads_fill [OF r f(1)] False by simp
      then show ?thesis
        using True False f by (simp add: resync_short_read_def)
    qed
  next
    case False
    then have len: "HEADER_LEN \<le> length ?w" by simp
    then have ne: "?w \<noteq> []" by (auto simp: HEADER_LEN_def)
    show ?thesis
    proof (cases "length ?w + rd_remaining r < HEADER_LEN + declared ?w")
      case True
      have "decode_record (ahead (view r)) = NeedMore"
        using decode_still_short [OF n(1) len, of "take (rd_remaining r) (delivers (rd_src r))"] True whole_delivers [OF w] by simp
      then show ?thesis using step dmg ne True False by (simp add: resync_short_read_def Let_def declared_def)
    next
      case short: False
      obtain got r' where f: "fill (HEADER_LEN + declared ?w - length ?w) r = Some (got, r')" "view r' = view r"
          "g_damage r' = g_damage r"
        using view_fill [OF w] by blast
      have "resync_short_read r = Some r'" using False short o(1) f(1) by (simp add: resync_short_read_def Let_def declared_def)
      then show ?thesis using f(2,3) by simp
    qed
  qed
qed

lemma read_candidate_seen:
  assumes w: "whole body r" and t: "0 < todo r" "\<not> overdrawn r"
  shows "seen (read_candidate r) = look (view r)"
    "read_candidate r = Again r' \<Longrightarrow> dmg_abandoned (g_damage r') = dmg_abandoned (g_damage r)"
proof -
  let ?w = "drop (rd_at r) (rd_buf r)"
  have r: "reads body r" using w by (simp add: whole_def)
  have ne: "ahead (view r) \<noteq> []" using t(1) whole_delivers [OF w] by (auto simp: todo_def)
  note dw = decode_whole_window [of r]
  have step: "view (rd_step 1 q) = step_ahead 1 (view q)"
    if "?w \<noteq> []" "reads body q" "rd_at q = rd_at r" "rd_buf q = rd_buf r" for q
  proof -
    have "1 \<le> length ?w" using that(1) by (cases ?w) auto
    then show ?thesis using view_step [OF that(2), of 1] that by simp
  qed
  have "seen (read_candidate r) = look (view r) \<and>
    (\<forall>r'. read_candidate r = Again r' \<longrightarrow> dmg_abandoned (g_damage r') = dmg_abandoned (g_damage r))"
  proof (cases "decode_record ?w")
    case (Record shard seq payload n)
    note n = decode_Record_len [OF Record]
    show ?thesis
      using Record dw ne t(2) view_advance [OF r n(2)]
      by (subst look.simps) (simp add: read_candidate_def rd_offset_pos)
  next
    case EndOfLog
    have "?w \<noteq> []" using decode_EndOfLog [OF EndOfLog] .
    then show ?thesis
      using EndOfLog dw ne t(2) step r
      by (subst look.simps) (simp add: read_candidate_def; simp add: rd_step_def count_bytes_def enter_hole_def)
  next
    case (Corrupt k)
    have k: "k = 1" "?w \<noteq> []" using decode_Corrupt [OF Corrupt] by blast+
    then show ?thesis
      using Corrupt dw ne t(2) step r
      by (subst look.simps) (simp add: read_candidate_def Let_def split: option.split;
          simp add: rd_step_def count_bytes_def enter_hole_def charge_def overdrawn_def)
  next
    case NeedMore
    show ?thesis
    proof (cases "resynchronising r")
      case True
      then show ?thesis
        using resync_short_read_seen [OF w NeedMore t True] NeedMore by (auto simp: read_candidate_def)
    next
      case False
      obtain got r' where f: "fill (rd_chunk r) r = Some (got, r')" "view r' = view r" "g_damage r' = g_damage r"
        using view_fill [OF w] by blast
      show ?thesis
      proof (cases "got = 0")
        case True
        note z = fill_zero [OF r f(1) [unfolded True]]
        have "?w \<noteq> []" using z(1) t(1) by (auto simp: todo_def)
        moreover have "ahead (view r) = ?w" using z(1) by simp
        ultimately show ?thesis
          using NeedMore f True z False t(2) step r
          by (subst look.simps) (simp add: read_candidate_def Let_def; simp add: rd_step_def count_bytes_def enter_hole_def)
      next
        case g: False
        then show ?thesis
          using NeedMore f False by (simp add: read_candidate_def)
      qed
    qed
  qed
  then show "seen (read_candidate r) = look (view r)"
    "read_candidate r = Again r' \<Longrightarrow> dmg_abandoned (g_damage r') = dmg_abandoned (g_damage r)" by auto
qed

lemma read_turn_seen:
  assumes w: "whole body r" and o: "\<not> overdrawn r"
  shows "seen (read_turn r) = look (view r)"
    "read_turn r = Again r' \<Longrightarrow> dmg_abandoned (g_damage r') = dmg_abandoned (g_damage r)"
proof -
  have r: "reads body r" using w by (simp add: whole_def)
  have "seen (read_turn r) = look (view r) \<and>
    (\<forall>r'. read_turn r = Again r' \<longrightarrow> dmg_abandoned (g_damage r') = dmg_abandoned (g_damage r))"
  proof (cases "length (rd_buf r) \<le> rd_at r \<and> rd_remaining r = 0")
    case True
    then show ?thesis using o by (subst look.simps) (simp add: read_turn_def)
  next
    case False
    obtain q where q: "rd_compact r = Some q" "reads body q" "todo q = todo r" "rd_len q = rd_len r"
      using reads_compact [OF r] by blast
    have v: "view q = view r" by (rule view_compact [OF r q(1)])
    have "0 < todo q" unfolding q(3) using False r by (auto simp: todo_def reads_def)
    moreover have "whole body q" using q w by (simp add: whole_def)
    moreover have "\<not> overdrawn q" using o v by (metis view_fields(4))
    moreover have "g_damage q = g_damage r" using v by (metis view_fields(3))
    moreover have "read_turn r = read_candidate q" unfolding read_turn_def if_not_P [OF False] using q(1) by simp
    ultimately show ?thesis using read_candidate_seen [of body q] v by simp
  qed
  then show "seen (read_turn r) = look (view r)"
    "read_turn r = Again r' \<Longrightarrow> dmg_abandoned (g_damage r') = dmg_abandoned (g_damage r)" by auto
qed

lemma next_record_seen:
  "whole body r \<Longrightarrow> \<not> dmg_abandoned (g_damage r) \<Longrightarrow> look (view r) = Some (x, v) \<Longrightarrow>
    \<exists>r'. next_record r = Some (x, r') \<and> view r' = v \<and> whole body r'"
proof (induction r rule: wf_induct [OF wf_measures [of "[todo, rd_remaining]"]])
  case (1 r)
  have r: "reads body r" "rd_len r \<le> length body" using 1(2) by (simp_all add: whole_def)
  have o: "\<not> overdrawn r"
  proof
    assume "overdrawn r"
    then show False using 1(4) by (subst (asm) look.simps) simp
  qed
  note near = read_turn_nearer [OF r(1)]
  note s = read_turn_seen [OF 1(2) o]
  show ?case
  proof (cases "read_turn r")
    case (Again r')
    have a: "\<not> dmg_abandoned (g_damage r')" using s(2) [OF Again] 1(3) by simp
    then have "(r', r) \<in> measures [todo, rd_remaining]" "whole body r'" using near Again r(2) by (auto simp: whole_def)
    moreover have "look (view r') = Some (x, v)" using s(1) Again 1(4) by simp
    moreover have "next_record r = next_record r'" using Again a by (subst next_record.simps) simp
    ultimately show ?thesis using 1(1) [rule_format, of r'] a by simp
  next
    case (Out y r')
    then show ?thesis using s(1) 1(4) near r(2) by (subst next_record.simps) (simp add: whole_def)
  next
    case Crash
    then show ?thesis using near by simp
  qed
qed

lemma look_abandoned:
  "look v = Some (NextItem it, v') \<Longrightarrow> dmg_abandoned (g_damage v') = dmg_abandoned (g_damage v)"
proof (induction v rule: look.induct)
  case (1 v)
  have ov: "\<not> overdrawn v" "ahead v \<noteq> []" using 1(6) by (subst (asm) look.simps; auto split: if_splits)+
  have g: "dmg_abandoned (g_damage (step_ahead n u)) = dmg_abandoned (g_damage u)"
    "dmg_abandoned (g_damage (enter_hole u)) = dmg_abandoned (g_damage u)"
    "\<not> overdrawn u \<Longrightarrow> dmg_abandoned (g_damage (charge n u)) = dmg_abandoned (g_damage u)"
    "overdrawn (enter_hole u) = overdrawn u" for n and u :: sight
    by (simp_all add: step_ahead_def skip_ahead_def count_bytes_def enter_hole_def charge_def overdrawn_def)
  show ?case
  proof (cases "decode_record (ahead v)")
    case (Record shard seq payload n)
    then show ?thesis using 1(6) ov by (subst (asm) look.simps) (auto simp: skip_ahead_def found_record_def)
  next
    case EndOfLog
    then show ?thesis using 1(1,2) 1(6) ov look.simps [of v] g by (fastforce split: if_splits)
  next
    case NeedMore
    then show ?thesis using 1(3,4) 1(6) ov look.simps [of v] g by (fastforce simp: Let_def split: if_splits)
  next
    case (Corrupt k)
    then show ?thesis
      using 1(5) [OF ov Corrupt _ refl] 1(6) ov look.simps [of v] g by (fastforce simp: Let_def split: if_splits option.splits)
  qed
qed

text \<open>What the loop over a reader does with what a whole segment shows.\<close>

fun feed :: "(log_item \<Rightarrow> damage \<Rightarrow> 's \<Rightarrow> bool \<times> 's) \<Rightarrow> (log_item \<times> damage) list \<Rightarrow> damage \<Rightarrow> 's \<Rightarrow>
    's \<times> ending \<times> damage" where
  "feed f [] d s = (s, Finished, d)"
| "feed f ((it, d') # tr) d s = (let (go, s') = f it d' s in if go then feed f tr d s' else (s', Stopped, d'))"

lemma each_record_seen:
  "whole body r \<Longrightarrow> \<not> dmg_abandoned (g_damage r) \<Longrightarrow> look_all (view r) = Some (tr, d) \<Longrightarrow>
    each_record f r s = Some (feed f tr d s)"
proof (induction tr arbitrary: r s)
  case Nil
  obtain x v where l: "look (view r) = Some (x, v)" "g_damage v = d" "\<nexists>it. x = NextItem it"
    using Nil(3) by (subst (asm) look_all.simps) (auto split: option.splits next_result.splits)
  obtain r' where r': "next_record r = Some (x, r')" "view r' = v" using next_record_seen [OF Nil(1,2) l(1)] by blast
  have g: "g_damage r' = d" using r'(2) l(2) by (metis view_fields(3))
  have "x \<noteq> NextFailed"
  proof
    assume "x = NextFailed"
    moreover have "look u = Some (y, z) \<Longrightarrow> y \<noteq> NextFailed" for u y z
    proof (induction u rule: look.induct)
      case (1 u)
      then show ?case
        by (subst (asm) (6) look.simps) (auto simp: Let_def split: if_splits decoded.splits option.splits)
    qed
    ultimately show False using l(1) by blast
  qed
  then have "x = NextEnd" using l(3) by (cases x) auto
  then show ?case using r' g by (subst each_record.simps) simp
next
  case (Cons p tr)
  obtain it d' v where l: "look (view r) = Some (NextItem it, v)" "p = (it, d')" "g_damage v = d'" "look_all v = Some (tr, d)"
    using Cons.prems(3) by (subst (asm) look_all.simps) (auto split: option.splits next_result.splits)
  obtain r' where r': "next_record r = Some (NextItem it, r')" "view r' = v" "whole body r'"
    using next_record_seen [OF Cons.prems(1,2) l(1)] by blast
  have g: "g_damage r' = d'" using r'(2) l(3) by (metis view_fields(3))
  have "\<not> dmg_abandoned (g_damage r')" using look_abandoned [OF l(1)] Cons.prems(2) l(3) g by simp
  note IH = Cons.IH [OF r'(3) this]
  show ?case
    using IH l r' g by (subst each_record.simps) (auto split: prod.split)
qed

section \<open>Records and holes\<close>

definition record_len :: "log_record \<Rightarrow> nat" where
  "record_len r = HEADER_LEN + length (record_body r)"

definition fits :: "log_record \<Rightarrow> bool" where
  "fits r = (length (record_body r) \<le> MAX_BODY_LEN)"

text \<open>The items of records that lie one behind another from a place on.\<close>

fun laid :: "nat \<Rightarrow> log_record list \<Rightarrow> log_item list" where
  "laid p [] = []"
| "laid p (r # rs) =
     \<lparr>it_shard = rec_shard r, it_seq = rec_seq r, it_payload = rec_payload r, it_at = p, it_end = p + record_len r\<rparr>
       # laid (p + record_len r) rs"

lemma record_len_encode: "encode_record r = Some bs \<Longrightarrow> length bs = record_len r"
  by (simp add: record_len_def length_encode_record)

lemma look_record:
  assumes "encode_record r = Some bs" "fits r" "ahead v = bs @ rest" "\<not> overdrawn v"
  shows "look v = Some (NextItem \<lparr>it_shard = rec_shard r, it_seq = rec_seq r, it_payload = rec_payload r,
      it_at = place v, it_end = place v + record_len r\<rparr>, found_record (skip_ahead (record_len r) v))"
  using decode_encode_record [OF assms(1), of rest] assms encode_record_not_Nil [OF assms(1)] record_len_encode [OF assms(1)]
  by (subst look.simps) (simp add: fits_def)

definition settled :: "sight \<Rightarrow> bool" where
  "settled v = (found_record v = v)"

lemma settledD: "settled v \<Longrightarrow> \<not> overdrawn v \<and> \<not> resynchronising v"
proof -
  assume "settled v"
  then have "spent (found_record v) = spent v" "resynchronising (found_record v) = resynchronising v" by (simp_all add: settled_def)
  then show ?thesis by (simp add: found_record_def overdrawn_def RESYNC_CAP_def)
qed

lemma settled_found [simp]: "settled (found_record v)"
  by (simp add: settled_def found_record_def)

lemma found_skip: "settled v \<Longrightarrow> found_record (skip_ahead n v) = skip_ahead n v"
  by (cases v) (simp add: settled_def found_record_def skip_ahead_def)

lemma skip_ahead_0 [simp]: "skip_ahead 0 v = v"
  by (simp add: skip_ahead_def)

lemma settled_skip: "settled v \<Longrightarrow> settled (skip_ahead n v)"
  using found_skip by (simp add: settled_def)

lemma skip_ahead_add: "skip_ahead m (skip_ahead n v) = skip_ahead (n + m) v"
  by (simp add: skip_ahead_def add.commute)

lemma skip_ahead_fields [simp]: "ahead (skip_ahead n v) = drop n (ahead v)" "place (skip_ahead n v) = place v + n"
    "g_damage (skip_ahead n v) = g_damage v" "g_mode (skip_ahead n v) = g_mode v"
  by (simp_all add: skip_ahead_def)

definition after :: "(log_item \<times> damage) list \<Rightarrow> ((log_item \<times> damage) list \<times> damage) option \<Rightarrow>
    ((log_item \<times> damage) list \<times> damage) option" where
  "after xs res = map_option (\<lambda>(tr, d). (xs @ tr, d)) res"

lemma after_simps [simp]: "after [] res = res" "after xs (after ys res) = after (xs @ ys) res" "after xs (Some (tr, d)) = Some (xs @ tr, d)"
  by (cases res; auto simp: after_def)+

lemma look_all_item: "look v = Some (NextItem it, v') \<Longrightarrow> look_all v = after [(it, g_damage v')] (look_all v')"
  by (subst look_all.simps) (simp add: after_def)

lemma look_all_wire:
  assumes "settled v" "wire rs = Some bs" "list_all fits rs" "ahead v = bs @ rest"
  shows "look_all v = after (map (\<lambda>it. (it, g_damage v)) (laid (place v) rs)) (look_all (skip_ahead (length bs) v))"
  using assms
proof (induction rs arbitrary: v bs)
  case Nil
  then show ?case by simp
next
  case (Cons r rs)
  obtain b bs' where b: "encode_record r = Some b" "wire rs = Some bs'" "bs = b @ bs'"
    using Cons.prems(2) by (auto simp: bind_eq_Some_conv)
  note n = record_len_encode [OF b(1)]
  let ?v = "skip_ahead (record_len r) v"
  have l: "look v = Some (NextItem \<lparr>it_shard = rec_shard r, it_seq = rec_seq r, it_payload = rec_payload r,
      it_at = place v, it_end = place v + record_len r\<rparr>, ?v)"
    using look_record [OF b(1), of v "bs' @ rest"] Cons.prems settledD [OF Cons.prems(1)] b(3) found_skip [OF Cons.prems(1)]
    by simp
  have "look_all ?v = after (map (\<lambda>it. (it, g_damage v)) (laid (place v + record_len r) rs))
      (look_all (skip_ahead (length bs') ?v))"
    using Cons.IH [OF settled_skip [OF Cons.prems(1)] b(2)] Cons.prems(3,4) b(3) n by simp
  then show ?case using look_all_item [OF l] b(3) n by (simp add: skip_ahead_add)
qed

text \<open>A hole \<open>j\<close> in front of \<open>t\<close>: no place inside it where a record decodes, and what it costs to
  checksum the candidates in it.\<close>

fun no_records :: "bytes \<Rightarrow> bytes \<Rightarrow> bool" where
  "no_records [] t = True"
| "no_records (b # j) t = ((case decode_record (b # j @ t) of Record _ _ _ _ \<Rightarrow> False | _ \<Rightarrow> True) \<and> no_records j t)"

fun hole_cost :: "bytes \<Rightarrow> bytes \<Rightarrow> nat" where
  "hole_cost [] t = 0"
| "hole_cost (b # j) t = (case checksummed_len (b # j @ t) of None \<Rightarrow> 0 | Some n \<Rightarrow> n) + hole_cost j t"

lemma checksummed_decodes:
  assumes "checksummed_len w = Some n" "w \<noteq> []"
  shows "decode_record w \<noteq> NeedMore \<and> decode_record w \<noteq> EndOfLog"
proof -
  have c: "get w 0 = Some MAGIC" "HEADER_LEN \<le> length w" "BODY_FIXED_LEN \<le> declared w" "declared w \<le> MAX_BODY_LEN"
    "HEADER_LEN + declared w \<le> length w"
    using assms(1) unfolding checksummed_len_eq by (simp_all split: if_splits)
  then show ?thesis unfolding decode_magic [OF c(1)] by (simp add: Let_def)
qed

definition past_hole :: "bytes \<Rightarrow> bytes \<Rightarrow> sight \<Rightarrow> sight" where
  "past_hole j t v =
     v\<lparr>spent := spent v + hole_cost j t, g_damage := (g_damage v)\<lparr>dmg_bytes := dmg_bytes (g_damage v) + length j\<rparr>,
       ahead := t, place := place v + length j\<rparr>"

lemma look_hole:
  assumes "resynchronising v" "g_mode v = Resynchronising" "ahead v = j @ t" "no_records j t"
    and "spent v + hole_cost j t \<le> RESYNC_CAP"
  shows "look v = look (past_hole j t v)"
  using assms
proof (induction j arbitrary: v)
  case Nil
  then have "past_hole [] t v = v" by (cases v) (simp add: past_hole_def)
  then show ?case by simp
next
  case (Cons b j)
  let ?c = "case checksummed_len (b # j @ t) of None \<Rightarrow> 0 | Some n \<Rightarrow> n"
  let ?v = "step_ahead 1 (v\<lparr>spent := spent v + ?c\<rparr>)"
  have o: "\<not> overdrawn v" "\<not> overdrawn (enter_hole v)" "enter_hole v = v"
    using Cons.prems(1,5) by (simp_all add: overdrawn_def enter_hole_def)
  have ch: "charge n v = v\<lparr>spent := spent v + n\<rparr>" if "checksummed_len (b # j @ t) = Some n" for n
    using that Cons.prems(5) o by (simp add: charge_def RESYNC_CAP_def)
  have v0: "v\<lparr>spent := spent v\<rparr> = v" by simp
  have "look v = look ?v"
  proof (cases "decode_record (b # j @ t)")
    case (Corrupt k)
    then show ?thesis
      using o Cons.prems(2,3) ch by (subst look.simps) (simp split: option.split)
  next
    case (Record shard seq payload n)
    then show ?thesis using Cons.prems(4) by simp
  next
    case EndOfLog
    then have "checksummed_len (b # j @ t) = None" using checksummed_decodes [of "b # j @ t"] by (cases "checksummed_len (b # j @ t)") auto
    then show ?thesis using EndOfLog o Cons.prems(1,3) by (subst look.simps) simp
  next
    case NeedMore
    then have "checksummed_len (b # j @ t) = None" using checksummed_decodes [of "b # j @ t"] by (cases "checksummed_len (b # j @ t)") auto
    then show ?thesis using NeedMore o Cons.prems(1,3) by (subst look.simps) simp
  qed
  also have "\<dots> = look (past_hole j t ?v)"
    using Cons.prems by (intro Cons.IH) (simp_all add: step_ahead_def skip_ahead_def count_bytes_def)
  also have "past_hole j t ?v = past_hole (b # j) t v"
    by (simp add: past_hole_def step_ahead_def skip_ahead_def count_bytes_def add.assoc)
  finally show ?case .
qed

lemma look_enter:
  assumes "settled v" "g_mode v = Resynchronising" "ahead v = b # j @ t" "no_records (b # j) t"
    and "hole_cost (b # j) t \<le> RESYNC_CAP"
  shows "\<exists>u. look v = look u \<and> \<not> overdrawn u \<and> ahead u = t \<and> place u = place v + length (b # j) \<and> g_mode u = g_mode v \<and>
    g_damage u = (g_damage v)\<lparr>dmg_holes := dmg_holes (g_damage v) + 1, dmg_bytes := dmg_bytes (g_damage v) + length (b # j)\<rparr>"
proof -
  have s: "\<not> overdrawn v" "\<not> resynchronising v" using settledD [OF assms(1)] by auto
  have sp: "spent v = 0" using arg_cong [of _ _ spent, OF assms(1) [unfolded settled_def]] by (simp add: found_record_def)
  have "\<exists>w. look v = look (past_hole j t w) \<and> spent w + hole_cost j t \<le> RESYNC_CAP \<and> place w = place v + 1 \<and> g_mode w = g_mode v \<and>
      g_damage w = (g_damage v)\<lparr>dmg_holes := dmg_holes (g_damage v) + 1, dmg_bytes := dmg_bytes (g_damage v) + 1\<rparr>"
  proof -
    have into: ?thesis
      if "look v = look (step_ahead 1 u)" "u = (enter_hole v)\<lparr>hole_at_end := e, hole_at_tail := tl, spent := c\<rparr>"
        "c + hole_cost j t \<le> RESYNC_CAP" for u e tl c
    proof -
      have "look (step_ahead 1 u) = look (past_hole j t (step_ahead 1 u))"
        using that(2,3) s(2) assms(2-4)
        by (intro look_hole) (simp_all add: step_ahead_def skip_ahead_def count_bytes_def enter_hole_def)
      then show ?thesis
        using that s(2) by (intro exI [of _ "step_ahead 1 u"]) (simp add: step_ahead_def skip_ahead_def count_bytes_def enter_hole_def)
    qed
    show ?thesis
    proof (cases "decode_record (b # j @ t)")
      case (Record shard seq payload n)
      then show ?thesis using assms(4) by simp
    next
      case EndOfLog
      then show ?thesis
        using s assms(2,3,5) sp
        by (intro into [where e = "Some (g_damage v)" and tl = "hole_at_tail v" and c = 0])
          (subst look.simps, simp, simp add: enter_hole_def, simp)
    next
      case NeedMore
      then show ?thesis
        using s assms(2,3,5) sp
        by (intro into [where e = "hole_at_end v" and tl = "Some (dmg_bytes (g_damage v))" and c = 0])
          (subst look.simps, simp add: Let_def enter_hole_def, simp add: enter_hole_def, simp)
    next
      case (Corrupt k)
      let ?c = "case checksummed_len (b # j @ t) of None \<Rightarrow> 0 | Some n \<Rightarrow> n"
      let ?u = "case checksummed_len (b # j @ t) of Some n \<Rightarrow> charge n (enter_hole v) | None \<Rightarrow> enter_hole v"
      have l: "look v = look (step_ahead 1 ?u)"
        using Corrupt s assms(2,3) by (subst look.simps) (simp add: Let_def)
      have u: "?u = (enter_hole v)\<lparr>hole_at_end := hole_at_end v, hole_at_tail := hole_at_tail v, spent := ?c\<rparr>"
        using sp s(2) assms(5)
        by (cases v; cases "checksummed_len (b # j @ t)") (simp_all add: charge_def overdrawn_def enter_hole_def RESYNC_CAP_def)
      show ?thesis by (rule into [OF l u]) (use assms(5) in simp)
    qed
  qed
  then obtain w where w: "look v = look (past_hole j t w)" "spent w + hole_cost j t \<le> RESYNC_CAP" "place w = place v + 1"
    "g_mode w = g_mode v"
    "g_damage w = (g_damage v)\<lparr>dmg_holes := dmg_holes (g_damage v) + 1, dmg_bytes := dmg_bytes (g_damage v) + 1\<rparr>" by blast
  show ?thesis
    by (rule exI [of _ "past_hole j t w"]) (use w in \<open>simp add: past_hole_def overdrawn_def\<close>)
qed

lemma length_wire: "wire rs = Some bs \<Longrightarrow> length bs = sum_list (map record_len rs)"
  by (induction rs arbitrary: bs) (auto simp: bind_eq_Some_conv record_len_encode)

text \<open>A segment as records with holes before some of them: a stretch is the bytes of a hole, or
  none, and the records behind it. \<open>spoiled xs body\<close>: the bytes are those stretches, none of the
  holes holds a record, and none costs more to search than the reader spends on one.\<close>

inductive spoiled :: "(bytes \<times> log_record list) list \<Rightarrow> bytes \<Rightarrow> bool" where
  spoiled_Nil: "spoiled [] []"
| spoiled_Cons: "wire rs = Some b \<Longrightarrow> list_all fits rs \<Longrightarrow>
    (j \<noteq> [] \<longrightarrow> rs \<noteq> [] \<and> no_records j (b @ rest) \<and> hole_cost j (b @ rest) \<le> RESYNC_CAP) \<Longrightarrow>
    spoiled xs rest \<Longrightarrow> spoiled ((j, rs) # xs) (j @ b @ rest)"

fun placed :: "nat \<Rightarrow> (bytes \<times> log_record list) list \<Rightarrow> log_item list" where
  "placed p [] = []"
| "placed p ((j, rs) # xs) =
     laid (p + length j) rs @ placed (p + length j + sum_list (map record_len rs)) xs"

definition holes_in :: "(bytes \<times> log_record list) list \<Rightarrow> damage" where
  "holes_in xs =
     \<lparr>dmg_bytes = sum_list (map (length \<circ> fst) xs), dmg_holes = length (filter (\<lambda>(j, _). j \<noteq> []) xs),
      dmg_tail = 0, dmg_abandoned = False\<rparr>"

definition add_holes :: "damage \<Rightarrow> damage \<Rightarrow> damage" where
  "add_holes d e = d\<lparr>dmg_bytes := dmg_bytes d + dmg_bytes e, dmg_holes := dmg_holes d + dmg_holes e\<rparr>"

lemma look_all_end:
  assumes "settled v" "ahead v = []"
  shows "look_all v = Some ([], g_damage v)"
proof -
  have "end_of_segment v = v"
    using assms(1) by (cases v) (simp add: settled_def found_record_def end_of_segment_def)
  then have "look v = Some (NextEnd, v)" using settledD [OF assms(1)] assms(2) by (subst look.simps) simp
  then show ?thesis by (subst look_all.simps) simp
qed

lemma look_all_stretch:
  assumes v: "settled v" "g_mode v = Resynchronising" "ahead v = j @ b @ rest"
    and r: "wire rs = Some b" "list_all fits rs"
    and j: "j \<noteq> [] \<longrightarrow> rs \<noteq> [] \<and> no_records j (b @ rest) \<and> hole_cost j (b @ rest) \<le> RESYNC_CAP"
  shows "\<exists>u tr. look_all v = after tr (look_all u) \<and> map fst tr = laid (place v + length j) rs \<and> settled u \<and>
    g_mode u = Resynchronising \<and> ahead u = rest \<and> place u = place v + length j + length b \<and>
    g_damage u = add_holes (g_damage v) (holes_in [(j, rs)])"
proof (cases j)
  case Nil
  then show ?thesis
    using look_all_wire [OF v(1) r, of rest] v settled_skip [OF v(1), of "length b"]
    by (intro exI [of _ "skip_ahead (length b) v"] exI [of _ "map (\<lambda>it. (it, g_damage v)) (laid (place v) rs)"])
      (simp add: comp_def add_holes_def holes_in_def)
next
  case (Cons c j')
  then obtain r0 rs' where rs: "rs = r0 # rs'" using j by (cases rs) auto
  obtain b0 b' where b: "encode_record r0 = Some b0" "wire rs' = Some b'" "b = b0 @ b'"
    using r(1) rs by (auto simp: bind_eq_Some_conv)
  obtain u where u: "look v = look u" "\<not> overdrawn u" "ahead u = b @ rest" "place u = place v + length j" "g_mode u = g_mode v"
    "g_damage u = (g_damage v)\<lparr>dmg_holes := dmg_holes (g_damage v) + 1, dmg_bytes := dmg_bytes (g_damage v) + length j\<rparr>"
    using look_enter [OF v(1,2), of c j' "b @ rest"] v(3) j Cons by auto
  let ?w = "found_record (skip_ahead (record_len r0) u)"
  have n: "length b0 = record_len r0" by (rule record_len_encode [OF b(1)])
  have w: "g_damage ?w = g_damage u" "ahead ?w = b' @ rest" "place ?w = place u + record_len r0" "g_mode ?w = g_mode v"
    using u b(3) n by (simp_all add: found_record_def)
  have "look v = Some (NextItem \<lparr>it_shard = rec_shard r0, it_seq = rec_seq r0, it_payload = rec_payload r0,
      it_at = place u, it_end = place u + record_len r0\<rparr>, ?w)"
    using look_record [OF b(1), of u "b' @ rest"] u r(2) rs b(3) by simp
  from look_all_item [OF this] look_all_wire [of ?w rs' b' rest] w b(2) r(2) rs
  have "look_all v = after (map (\<lambda>it. (it, g_damage u)) (laid (place u) rs)) (look_all (skip_ahead (length b') ?w))"
    by simp
  then show ?thesis
    using u w b(3) n v(2) settled_skip [of ?w "length b'"] Cons
    by (intro exI [of _ "skip_ahead (length b') ?w"] exI [of _ "map (\<lambda>it. (it, g_damage u)) (laid (place u) rs)"])
      (simp add: comp_def add_holes_def holes_in_def)
qed

lemma look_all_spoiled:
  "spoiled xs body \<Longrightarrow> settled v \<Longrightarrow> g_mode v = Resynchronising \<Longrightarrow> ahead v = body \<Longrightarrow>
    \<exists>tr. look_all v = Some (tr, add_holes (g_damage v) (holes_in xs)) \<and> map fst tr = placed (place v) xs"
proof (induction arbitrary: v rule: spoiled.induct)
  case spoiled_Nil
  then show ?case using look_all_end [of v] by (simp add: add_holes_def holes_in_def)
next
  case (spoiled_Cons rs b j rest xs)
  obtain u tr where u: "look_all v = after tr (look_all u)" "map fst tr = laid (place v + length j) rs" "settled u"
    "g_mode u = Resynchronising" "ahead u = rest" "place u = place v + length j + length b"
    "g_damage u = add_holes (g_damage v) (holes_in [(j, rs)])"
    using look_all_stretch [OF spoiled_Cons.prems spoiled_Cons.hyps(1-3)] by blast
  obtain tr' where "look_all u = Some (tr', add_holes (g_damage u) (holes_in xs))" "map fst tr' = placed (place u) xs"
    using spoiled_Cons.IH [OF u(3-5)] by blast
  then show ?case
    using u length_wire [OF spoiled_Cons.hyps(1)] by (simp add: add_holes_def holes_in_def add.assoc)
qed

lemma read_whole_spoiled:
  "spoiled xs body \<Longrightarrow> \<exists>tr. read_whole Resynchronising body = Some (tr, holes_in xs) \<and> map fst tr = placed 0 xs"
  using look_all_spoiled [of xs body "sight_of Resynchronising body"]
  by (simp add: read_whole_def sight_of_def settled_def found_record_def add_holes_def holes_in_def no_damage_def)

lemma feed_collect: "feed (\<lambda>it _ its. (True, its @ [it])) tr d its = (its @ map fst tr, Finished, d)"
  by (induction tr arbitrary: its) auto

lemma view_with_chunk:
  assumes "delivers src = body @ X"
  shows "view (with_chunk src (length body) mode c) = sight_of mode body" "whole (delivers src) (with_chunk src (length body) mode c)"
    "\<not> dmg_abandoned (g_damage (with_chunk src (length body) mode c))"
  using assms reads_with_chunk [of "length body" src mode c]
  by (simp_all add: view_def with_chunk_def sight_of_def todo_def no_damage_def whole_def)

lemma each_record_whole:
  assumes "read_whole mode body = Some (tr, d)" "delivers src = body @ X"
  shows "each_record f (with_chunk src (length body) mode c) s = Some (feed f tr d s)"
  using each_record_seen [of "delivers src" "with_chunk src (length body) mode c" tr d f s] view_with_chunk [OF assms(2)] assms(1)
  by (simp add: read_whole_def)

lemma read_items_whole:
  assumes "read_whole mode body = Some (tr, d)"
  shows "read_items (with_chunk \<lparr>delivers = body @ X, fails = f\<rparr> (length body) mode c) = Some (map fst tr, Finished, d)"
  using each_record_whole [OF assms, of "\<lparr>delivers = body @ X, fails = f\<rparr>" X "\<lambda>it _ its. (True, its @ [it])" c "[]"]
  by (simp add: read_items_def feed_collect)

section \<open>Properties\<close>

text \<open>C16. Damage costs what it covers and no more: of a segment that is whole records with
  holes between them, every record is returned, in order and at its place, for any chunk
  size, and the damage counts exactly the holes and their bytes. A hole may be any bytes in
  which no record decodes and that take no more than the cap to search.\<close>

theorem reader_steps_over_holes:
  assumes "spoiled xs body"
  shows "read_items (with_chunk \<lparr>delivers = body @ X, fails = f\<rparr> (length body) Resynchronising c) =
    Some (placed 0 xs, Finished, holes_in xs)"
  using read_whole_spoiled [OF assms] read_items_whole by fastforce

text \<open>C21. How the source is cut into chunks does not show: as long as no hole goes past the cap,
  every chunk size gives the records, their places and the damage that a look at the whole
  segment at once gives, in either mode.\<close>

theorem chunks_do_not_show:
  assumes "read_whole mode body = Some (tr, d)"
  shows "read_items (with_chunk \<lparr>delivers = body @ X, fails = f\<rparr> (length body) mode c) = Some (map fst tr, Finished, d)"
  by (rule read_items_whole [OF assms])

text \<open>C22. Reading ends, on any bytes whatever, adversarial ones and a source that fails
  part-way included, without a panic; and everything returned as a record is, byte for byte at
  the place it is said to lie, what the encoder writes of it, each behind the one before.\<close>

theorem reader_ends_soundly:
  assumes "len \<le> length (delivers src) \<or> fails src"
  shows "\<exists>its e d. read_items (with_chunk src len mode c) = Some (its, e, d) \<and> tiles (delivers src) 0 its"
proof -
  note r = reads_with_chunk [OF assms, of mode c]
  obtain its e d where i: "read_items (with_chunk src len mode c) = Some (its, e, d)"
    using each_record_ends [OF r] unfolding read_items_def by (metis prod_cases3)
  from read_items_tiles [OF r _ _ i [unfolded read_items_def]] show ?thesis using i by simp
qed

section \<open>Witnesses\<close>

lemma a_spoiled_segment:
  "\<exists>body. spoiled [([], [a_record]), ([7, 0], [a_record])] body \<and> length body = 42"
proof -
  obtain bs where bs: "encode_record a_record = Some bs" "length bs = 20" using a_record_encodes by blast
  have f: "list_all fits [a_record]" by (simp add: fits_def a_record_def record_consts)
  have w: "wire [a_record] = Some bs" using bs(1) by simp
  have "spoiled [([7, 0], [a_record])] ([7, 0] @ bs @ [])"
    by (rule spoiled_Cons [OF w f _ spoiled_Nil])
      (simp add: decode_record_def checksummed_len_def get_def MAGIC_def END_OF_LOG_def RESYNC_CAP_def)
  from spoiled_Cons [OF w f _ this, of "[]"] have "spoiled [([], [a_record]), ([7, 0], [a_record])] (bs @ [7, 0] @ bs)" by simp
  then show ?thesis using bs(2) by (intro exI [of _ "bs @ [7, 0] @ bs"]) simp
qed

theorem reader_steps_over_holes_witness:
  "\<exists>body. spoiled [([], [a_record]), ([7, 0], [a_record])] body \<and>
    read_items (with_chunk \<lparr>delivers = body @ [1], fails = True\<rparr> 42 Resynchronising 3) =
      Some (laid 0 [a_record] @ laid 22 [a_record], Finished,
        \<lparr>dmg_bytes = 2, dmg_holes = 1, dmg_tail = 0, dmg_abandoned = False\<rparr>)"
proof -
  obtain body where b: "spoiled [([], [a_record]), ([7, 0], [a_record])] body" "length body = 42"
    using a_spoiled_segment by blast
  have "record_len a_record = 20" by (simp add: record_len_def a_record_def record_consts)
  then show ?thesis
    using reader_steps_over_holes [OF b(1), of "[1]" True 3] b by (auto simp: holes_in_def)
qed

theorem chunks_do_not_show_witness:
  "\<exists>body tr d. length body = 42 \<and> read_whole Resynchronising body = Some (tr, d) \<and> tr \<noteq> [] \<and>
    read_items (with_chunk \<lparr>delivers = body @ [], fails = False\<rparr> 42 Resynchronising 5) = Some (map fst tr, Finished, d)"
proof -
  obtain body where b: "spoiled [([], [a_record]), ([7, 0], [a_record])] body" "length body = 42"
    using a_spoiled_segment by blast
  obtain tr where tr: "read_whole Resynchronising body = Some (tr, holes_in [([], [a_record]), ([7, 0], [a_record])])"
    "map fst tr = placed 0 [([], [a_record]), ([7, 0], [a_record])]" using read_whole_spoiled [OF b(1)] by blast
  have "tr \<noteq> []" using tr(2) by auto
  then show ?thesis using chunks_do_not_show [OF tr(1), of "[]" False 5] b(2) tr(1) by auto
qed

theorem reader_ends_soundly_witness:
  "\<exists>its e d. read_items (with_chunk \<lparr>delivers = [0xA5, 1], fails = True\<rparr> 9 Resynchronising 1) = Some (its, e, d) \<and>
    tiles [0xA5, 1] 0 its"
  using reader_ends_soundly [of 9 "\<lparr>delivers = [0xA5, 1], fails = True\<rparr>" Resynchronising 1] by simp

end
