(* ===== verification/Recovery.thy ===== *)
theory Recovery
  imports ReaderCorrect Replay "HOL-Library.Product_Lexorder" "HOL-Library.List_Lexorder"
begin

text \<open>
  Starting from the files under \<^verbatim>\<open>wal/\<close>: the generation counter of
  \<^verbatim>\<open>crates/seedstone-core/src/log/file.rs\<close> and the five passes of \<^verbatim>\<open>log/recovery.rs\<close> (headers,
  segments, images, tails, garbage). What the disk answers during one start is the
  record \<open>disk_view\<close>; a snapshot is opened twice, and the two reads may differ. A result
  of \<open>None\<close> is a panic of the reader, or its not ending. The durations of the report
  are not modelled.

  A descending order of words is the ascending order of their complements, which is how
  the keys of \<^verbatim>\<open>Reverse\<close> are written here.
\<close>

definition shard_seed :: "dict_seed \<Rightarrow> nat \<Rightarrow> dict_seed" where
  "shard_seed seed shard = seed\<lparr>k0 := k0 seed XOR of_nat shard\<rparr>"

record disk_view =
  dv_list :: "bytes list option"
  dv_len :: "bytes \<Rightarrow> nat option"
  dv_open_header :: "bytes \<Rightarrow> source option"
  dv_open :: "bytes \<Rightarrow> source option"
  dv_remove :: "bytes \<Rightarrow> bool"
  dv_sync :: "bytes \<Rightarrow> bool option"
  dv_sync_dir :: bool
  dv_write :: "bytes \<Rightarrow> bytes \<Rightarrow> bool"
  dv_rename :: "bytes \<Rightarrow> bytes \<Rightarrow> bool"

section \<open>The generation counter\<close>

definition GENERATION_FILE :: bytes where "GENERATION_FILE = ascii ''GENERATION''"
definition GENERATION_TMP :: bytes where "GENERATION_TMP = ascii ''GENERATION.tmp''"

definition read_generation :: "disk_view \<Rightarrow> u64 option" where
  "read_generation disk = parse_generation (dv_open disk GENERATION_FILE)"

definition name_generation :: "bytes \<Rightarrow> u64 option" where
  "name_generation name =
     (case parse_segment_name name of
        Some (g, _) \<Rightarrow> Some g
      | None \<Rightarrow> map_option fst (parse_name name (ascii ''.snap'')))"

definition next_generation :: "disk_view \<Rightarrow> u64 option" where
  "next_generation disk =
     (let recorded = (case read_generation disk of Some g \<Rightarrow> g | None \<Rightarrow> 0) in
      do {
        names \<leftarrow> dv_list disk;
        let on_disk = fold max (List.map_filter name_generation names) 0;
        let next = max recorded on_disk + 1;
        if dv_write disk GENERATION_TMP (decimal (unat next)) \<and> dv_rename disk GENERATION_TMP GENERATION_FILE \<and>
           dv_sync_dir disk
        then Some next else None
      })"

section \<open>The report\<close>

record shard_truncation =
  tr_shard :: nat
  tr_applied :: nat
  tr_discarded :: nat

record report =
  rp_segments :: nat
  rp_records :: nat
  rp_applied :: nat
  rp_discarded :: nat
  rp_malformed :: nat
  rp_damage_bytes :: nat
  rp_holes :: nat
  rp_torn_bytes :: nat
  rp_abandoned_segments :: nat
  rp_truncated :: "shard_truncation list"
  rp_snapshots_used :: nat
  rp_snapshots_refused :: nat
  rp_files_removed :: nat

definition empty_report :: report where
  "empty_report =
     \<lparr>rp_segments = 0, rp_records = 0, rp_applied = 0, rp_discarded = 0, rp_malformed = 0, rp_damage_bytes = 0,
      rp_holes = 0, rp_torn_bytes = 0, rp_abandoned_segments = 0, rp_truncated = [], rp_snapshots_used = 0,
      rp_snapshots_refused = 0, rp_files_removed = 0\<rparr>"

record recovered_shard =
  rs_dict :: dict
  rs_seq :: u64
  rs_lossy :: bool
  rs_cut :: bool
  rs_image_unix_millis :: "u64 option"

record recover_spec =
  sp_shards :: nat
  sp_reader :: reader_mode
  sp_trust_unfinished :: bool
  sp_seed :: dict_seed
  sp_now :: now

datatype recover_error =
    ListFailed
  | NewerFormat bytes byte
  | OlderFormat bytes byte

text \<open>The check of a header's list, of cut points or of bases: every shard the node's, none
  twice.\<close>

definition sound_list :: "nat \<Rightarrow> (u16 \<times> u64) list \<Rightarrow> bool" where
  "sound_list shards ps = (list_all (\<lambda>(shard, _). unat shard < shards) ps \<and> distinct (map fst ps))"

section \<open>Pass 1: snapshot headers\<close>

definition HEADER_CHUNK :: nat where "HEADER_CHUNK = 16 * 1024"

record snap_file =
  sn_name :: bytes
  sn_header :: "snapshot_header option"
  sn_used :: bool
  sn_damaged :: bool
  sn_unfinished_for :: "(u16 \<times> u64) list"

definition age :: "snap_file \<Rightarrow> u64 \<times> u32" where
  "age snap =
     (let (generation, _, cycle) = (case parse_snapshot_name (sn_name snap) of Some p \<Rightarrow> p | None \<Rightarrow> (0, 0, 0))
      in (NOT generation, NOT cycle))"

definition read_fully :: "source \<Rightarrow> nat \<Rightarrow> bytes" where
  "read_fully src n = take n (delivers src)"

definition read_header :: "recover_spec \<Rightarrow> disk_view \<Rightarrow> bytes \<Rightarrow> u64 \<times> u16 \<times> u32 \<Rightarrow> recover_error + snap_file" where
  "read_header sp disk name from_name =
     (let chunk = (case dv_open_header disk name of None \<Rightarrow> [] | Some src \<Rightarrow> read_fully src HEADER_CHUNK);
          file = (\<lambda>header unreadable. Inr \<lparr>sn_name = name, sn_header = header, sn_used = False, sn_damaged = unreadable,
                    sn_unfinished_for = []\<rparr>)
      in case snapshot_decode chunk of
           Inr h \<Rightarrow>
             if (snap_generation h, snap_executor h, snap_cycle h) \<noteq> from_name then file None False
             else let sound = sound_list (sp_shards sp) (snap_bases h) in
               file (if sound then Some h else None) (\<not> sound)
         | Inl (NewerVersion v) \<Rightarrow> Inl (NewerFormat name v)
         | Inl (OlderVersion v) \<Rightarrow> Inl (OlderFormat name v)
         | Inl _ \<Rightarrow> file None True)"

fun read_header_files :: "recover_spec \<Rightarrow> disk_view \<Rightarrow> bytes list \<Rightarrow> recover_error + snap_file list" where
  "read_header_files sp disk [] = Inr []"
| "read_header_files sp disk (name # names) =
     (case parse_snapshot_name name of
        None \<Rightarrow> read_header_files sp disk names
      | Some from_name \<Rightarrow>
          (case read_header sp disk name from_name of
             Inl e \<Rightarrow> Inl e
           | Inr snap \<Rightarrow>
               (case read_header_files sp disk names of Inl e \<Rightarrow> Inl e | Inr snaps \<Rightarrow> Inr (snap # snaps))))"

definition read_headers :: "recover_spec \<Rightarrow> disk_view \<Rightarrow> bytes list \<Rightarrow> report \<Rightarrow>
    recover_error + (snap_file list \<times> bool \<times> report)" where
  "read_headers sp disk names rep =
     (case read_header_files sp disk names of
        Inl e \<Rightarrow> Inl e
      | Inr snaps \<Rightarrow>
          Inr (sort_key age snaps, list_ex sn_damaged snaps,
               rep\<lparr>rp_snapshots_refused := rp_snapshots_refused rep + length (filter (\<lambda>s. sn_header s = None) snaps)\<rparr>))"

section \<open>Pass 2: segments\<close>

record segment_file =
  sf_generation :: u64
  sf_rotation :: u32
  sf_name :: bytes

definition parse_segment_file :: "bytes \<Rightarrow> segment_file option" where
  "parse_segment_file name =
     map_option (\<lambda>(g, r). \<lparr>sf_generation = g, sf_rotation = r, sf_name = name\<rparr>)
       (case parse_segment_name name of
          Some p \<Rightarrow> Some p
        | None \<Rightarrow> map_option (\<lambda>(g, _, r). (g, r)) (parse_name name (ascii ''.seg'')))"

definition segment_files :: "bytes list \<Rightarrow> segment_file list" where
  "segment_files names =
     sort_key (\<lambda>f. (sf_generation f, sf_rotation f, sf_name f)) (List.map_filter parse_segment_file names)"

type_synonym bucket = "(u64 \<times> u64 \<times> nat \<times> effect) list"

record scan =
  sc_report :: report
  sc_buckets :: "bucket list"
  sc_cuts :: "(u64 \<times> u64) list list"
  sc_served :: "u64 list"
  sc_damaged :: "bool list"
  sc_position :: nat
  sc_last :: "(u64 \<times> nat) option list"
  last_loss_hole :: "nat option"
  any_loss_hole :: bool
  last_tear_hole :: "nat option"
  behind_tear :: "bool list"
  tear_index :: "nat option"
  last_mark_end :: nat
  unattributed_loss :: bool
  sc_unread :: "bool list"
  sc_version :: byte

definition scan_new :: "nat \<Rightarrow> nat \<Rightarrow> nat option \<Rightarrow> scan" where
  "scan_new shards files tear =
     \<lparr>sc_report = empty_report, sc_buckets = replicate shards [], sc_cuts = replicate shards [], sc_served = [],
      sc_damaged = replicate shards False, sc_position = 0, sc_last = replicate shards None, last_loss_hole = None,
      any_loss_hole = False, last_tear_hole = None, behind_tear = replicate shards False, tear_index = tear,
      last_mark_end = 0, unattributed_loss = False, sc_unread = replicate files False, sc_version = 0\<rparr>"

definition abandon :: "nat \<Rightarrow> scan \<Rightarrow> scan" where
  "abandon index sc =
     sc\<lparr>sc_report := (sc_report sc)\<lparr>rp_abandoned_segments := rp_abandoned_segments (sc_report sc) + 1\<rparr>,
        unattributed_loss := True, sc_unread := (sc_unread sc)[index := True]\<rparr>"

definition malformed :: "scan \<Rightarrow> scan" where
  "malformed sc = sc\<lparr>sc_report := (sc_report sc)\<lparr>rp_malformed := rp_malformed (sc_report sc) + 1\<rparr>\<rparr>"

definition is_mark :: "byte \<Rightarrow> log_item \<Rightarrow> bool" where
  "is_mark version it = (it_shard it = SYNC_MARK_SHARD \<and> SYNC_MARK_VERSION \<le> version \<and> it_payload it = [])"

definition scan_record :: "log_item \<Rightarrow> u64 \<Rightarrow> nat \<Rightarrow> scan \<Rightarrow> scan" where
  "scan_record it generation file sc0 =
     (let sc = sc0\<lparr>sc_report := (sc_report sc0)\<lparr>rp_records := rp_records (sc_report sc0) + 1\<rparr>,
                   sc_position := sc_position sc0 + 1\<rparr>;
          at = sc_position sc0;
          shard = unat (it_shard it)
      in if length (sc_buckets sc) \<le> shard then malformed sc
         else
           (let sc = (if (case sc_last sc ! shard of None \<Rightarrow> True | Some (seq, _) \<Rightarrow> seq \<le> it_seq it)
                      then sc\<lparr>sc_last := (sc_last sc)[shard := Some (it_seq it, at)]\<rparr> else sc)
            in case decode (it_payload it) of
                 Some e \<Rightarrow>
                   sc\<lparr>sc_served := (if e \<noteq> Rebase \<and> generation \<notin> set (sc_served sc)
                                   then sc_served sc @ [generation] else sc_served sc),
                      sc_buckets := (sc_buckets sc)[shard := sc_buckets sc ! shard @ [(it_seq it, generation, file, e)]]\<rparr>
               | None \<Rightarrow>
                   (malformed sc)\<lparr>sc_damaged := (sc_damaged sc)[shard := True], sc_unread := (sc_unread sc)[file := True]\<rparr>))"

definition scan_item :: "log_item \<Rightarrow> u64 \<Rightarrow> nat \<Rightarrow> scan \<Rightarrow> scan" where
  "scan_item it generation file sc =
     (if is_mark (sc_version sc) it then sc\<lparr>last_mark_end := it_end it\<rparr> else scan_record it generation file sc)"

text \<open>One piece of damage met: the position in the node's log, the offset it starts at, its bytes.\<close>

type_synonym hole = "nat \<times> nat \<times> nat"

definition classify_one :: "bool \<Rightarrow> hole \<Rightarrow> scan \<Rightarrow> scan" where
  "classify_one tear h sc =
     (let (at, start, bytes) = h in
      if tear \<and> last_mark_end sc \<le> start
      then sc\<lparr>sc_report := (sc_report sc)\<lparr>rp_torn_bytes := rp_torn_bytes (sc_report sc) + bytes\<rparr>,
              last_tear_hole := Some at\<rparr>
      else sc\<lparr>last_loss_hole := Some at, any_loss_hole := True\<rparr>)"

definition classify :: "hole list \<Rightarrow> bool \<Rightarrow> scan \<Rightarrow> scan" where
  "classify found tear sc = fold (classify_one tear) found sc"

definition note_cuts :: "u64 \<Rightarrow> (u16 \<times> u64) list \<Rightarrow> scan \<Rightarrow> scan" where
  "note_cuts generation points sc =
     fold (\<lambda>(shard, seq) sc.
         let i = unat shard; known = sc_cuts sc ! i in
         if (generation, seq) \<in> set known then sc
         else sc\<lparr>sc_cuts := (sc_cuts sc)[i := known @ [(generation, seq)]]\<rparr>) points sc"

record walk =
  wk_scan :: scan
  wk_holes :: nat
  wk_found :: "hole list"
  wk_boundary :: nat
  wk_bytes :: nat

definition walk_item :: "u64 \<Rightarrow> nat \<Rightarrow> log_item \<Rightarrow> damage \<Rightarrow> walk \<Rightarrow> bool \<times> walk" where
  "walk_item generation index it d w =
     (let w' = (if wk_holes w < dmg_holes d
                then w\<lparr>wk_holes := dmg_holes d,
                       wk_found := wk_found w @ [(sc_position (wk_scan w), wk_boundary w, dmg_bytes d - wk_bytes w)]\<rparr>
                else w)
      in (True, w'\<lparr>wk_boundary := it_end it, wk_bytes := dmg_bytes d,
                   wk_scan := scan_item it generation index (wk_scan w')\<rparr>))"

text \<open>What is left of a segment's reading once the loop over its records has ended.\<close>

definition close_segment :: "nat \<Rightarrow> byte \<Rightarrow> walk \<Rightarrow> ending \<Rightarrow> damage \<Rightarrow> scan" where
  "close_segment index version w e d =
     (let sc = wk_scan w;
          sc = (if e = Failed then abandon index sc else sc);
          sc = sc\<lparr>sc_report := (sc_report sc)\<lparr>rp_damage_bytes := rp_damage_bytes (sc_report sc) + (dmg_bytes d + dmg_tail d),
                                              rp_holes := rp_holes (sc_report sc) + dmg_holes d\<rparr>\<rparr>;
          sc = (if dmg_abandoned d then abandon index sc else sc);
          sc = (if 0 < dmg_bytes d \<or> 0 < dmg_holes d \<or> 0 < dmg_tail d
                then sc\<lparr>sc_unread := (sc_unread sc)[index := True]\<rparr> else sc);
          found = wk_found w @
            (if wk_holes w < dmg_holes d then [(sc_position sc, wk_boundary w, dmg_bytes d - wk_bytes w)] else []) @
            (if 0 < dmg_tail d then [(sc_position sc, wk_boundary w, dmg_tail d)] else []);
          tear = (tear_index sc = Some index \<and> SYNC_MARK_VERSION \<le> version \<and> \<not> (e = Failed \<or> dmg_abandoned d))
      in classify found tear sc)"

definition scan_body :: "reader_mode \<Rightarrow> segment_file \<Rightarrow> nat \<Rightarrow> segment_header \<Rightarrow> source \<Rightarrow> nat \<Rightarrow> scan \<Rightarrow> scan option" where
  "scan_body mode file index h src len sc0 =
     (let sc = (note_cuts (sf_generation file) (seg_cuts h) sc0)\<lparr>sc_version := seg_version h, last_mark_end := 0\<rparr> in
      do {
        (w, e, d) \<leftarrow> each_record (walk_item (sf_generation file) index) (new_reader src (len - seg_len h) mode)
          \<lparr>wk_scan = sc, wk_holes = 0, wk_found = [], wk_boundary = 0, wk_bytes = 0\<rparr>;
        Some (close_segment index (seg_version h) w e d)
      })"

definition scan_segment :: "disk_view \<Rightarrow> reader_mode \<Rightarrow> segment_file \<Rightarrow> nat \<Rightarrow> scan \<Rightarrow> (recover_error + scan) option" where
  "scan_segment disk mode file index sc0 =
     (let sc = sc0\<lparr>sc_report := (sc_report sc0)\<lparr>rp_segments := rp_segments (sc_report sc0) + 1\<rparr>\<rparr>;
          name = sf_name file
      in case (dv_len disk name, dv_open disk name) of
           (Some len, Some src) \<Rightarrow>
             (case read_segment_header src len of
                Inr (Some (h, src')) \<Rightarrow>
                  if \<not> sound_list (length (sc_cuts sc)) (seg_cuts h) then Some (Inr (abandon index sc))
                  else map_option Inr (scan_body mode file index h src' len sc)
              | Inr None \<Rightarrow> Some (Inr sc)
              | Inl (NewerVersion v) \<Rightarrow> Some (Inl (NewerFormat name v))
              | Inl (OlderVersion v) \<Rightarrow> Some (Inl (OlderFormat name v))
              | Inl _ \<Rightarrow> Some (Inr (abandon index sc)))
         | _ \<Rightarrow> Some (Inr (abandon index sc)))"

fun scan_segments :: "disk_view \<Rightarrow> reader_mode \<Rightarrow> segment_file list \<Rightarrow> nat \<Rightarrow> scan \<Rightarrow> (recover_error + scan) option" where
  "scan_segments disk mode [] index sc = Some (Inr sc)"
| "scan_segments disk mode (file # files) index sc =
     do {
       res \<leftarrow> scan_segment disk mode file index sc;
       (case res of
          Inl e \<Rightarrow> Some (Inl e)
        | Inr sc' \<Rightarrow> scan_segments disk mode files (Suc index) sc')
     }"

definition mark_behind :: "nat option \<Rightarrow> (u64 \<times> nat) option list \<Rightarrow> bool list \<Rightarrow> bool list" where
  "mark_behind hole lasts marks =
     (case hole of
        None \<Rightarrow> marks
      | Some h \<Rightarrow>
          map2 (\<lambda>mark last. if (case last of None \<Rightarrow> True | Some (_, at) \<Rightarrow> at < h) then True else mark) marks lasts)"

definition charge_holes :: "scan \<Rightarrow> scan" where
  "charge_holes sc =
     sc\<lparr>sc_damaged := mark_behind (last_loss_hole sc) (sc_last sc) (sc_damaged sc),
        behind_tear := mark_behind (last_tear_hole sc) (sc_last sc) (behind_tear sc)\<rparr>"

definition rebases :: "scan \<Rightarrow> snap_file list \<Rightarrow> (u64 \<times> u64) list list" where
  "rebases sc snaps =
     (let headers = List.map_filter sn_header snaps;
          has_served = (\<lambda>g. g \<in> set (sc_served sc) \<or> list_ex (\<lambda>h. snap_generation h = g) headers);
          known = map2 (\<lambda>bucket points.
              map (\<lambda>(seq, g, _, _). (g, seq)) (filter (\<lambda>(_, _, _, e). e = Rebase) bucket) @
              filter (\<lambda>(g, _). has_served g) points) (sc_buckets sc) (sc_cuts sc)
      in fold (\<lambda>h acc.
           fold (\<lambda>(shard, base) acc. acc[unat shard := acc ! unat shard @ [(snap_generation h, base)]]) (snap_bases h) acc)
         headers known)"

section \<open>Pass 3: images\<close>

record building =
  bd_dicts :: "dict list"
  bd_due :: "bytes list list"

record chosen =
  ch_images :: "u64 option list"
  ch_times :: "u64 option list"
  ch_refused :: "u64 option list"

datatype verdict = Usable | Unfinished | Damaged

definition is_dead :: "u64 \<Rightarrow> u64 \<Rightarrow> (u64 \<times> u64) list \<Rightarrow> bool" where
  "is_dead generation base rbs = list_ex (\<lambda>(newer, at). generation < newer \<and> at < base) rbs"

fun count_entry :: "u16 \<Rightarrow> (u16 \<times> u64) list \<Rightarrow> (u16 \<times> u64) list option" where
  "count_entry shard [] = None"
| "count_entry shard ((s, n) # cs) =
     (if s = shard then Some ((s, n + 1) # cs) else map_option (\<lambda>cs'. (s, n) # cs') (count_entry shard cs))"

definition take_entry :: "siphash \<Rightarrow> now \<Rightarrow> log_item \<Rightarrow> (u16 \<times> u64) list \<Rightarrow> (u16 \<times> u64) list \<times> building \<Rightarrow>
    bool \<times> (u16 \<times> u64) list \<times> building" where
  "take_entry sip n it wanted st =
     (let (counts, b) = st in
      case count_entry (it_shard it) counts of
        None \<Rightarrow> (False, counts, b)
      | Some counts' \<Rightarrow>
          (case decode (it_payload it) of
             Some (Put key v millis) \<Rightarrow>
               if \<not> list_ex (\<lambda>(shard, _). shard = it_shard it) wanted then (True, counts', b)
               else let (at, passed) = resolve n millis; i = unat (it_shard it) in
                 (True, counts',
                  b\<lparr>bd_due := (if passed then (bd_due b)[i := bd_due b ! i @ [key]] else bd_due b),
                    bd_dicts := (bd_dicts b)[i := dict_insert sip (bd_dicts b ! i) key
                                               \<lparr>entry_value = v, expires_at = at, touched = 0\<rparr>]\<rparr>)
           | _ \<Rightarrow> (False, counts', b)))"

type_synonym image_state = "(u16 \<times> u64) list option \<times> (u16 \<times> u64) list \<times> building"

definition image_item :: "siphash \<Rightarrow> now \<Rightarrow> (u16 \<times> u64) list \<Rightarrow> log_item \<Rightarrow> damage \<Rightarrow> image_state \<Rightarrow> bool \<times> image_state" where
  "image_item sip n wanted it _ st =
     (let (footer, counts, b) = st in
      if footer \<noteq> None then (False, st)
      else if it_shard it = FOOTER_SHARD then
        let footer' = footer_decode (it_payload it) in (footer' \<noteq> None, footer', counts, b)
      else let (clean, counts', b') = take_entry sip n it wanted (counts, b) in (clean, footer, counts', b'))"

definition judge :: "bool \<Rightarrow> (u16 \<times> u64) list option \<Rightarrow> (u16 \<times> u64) list \<Rightarrow> ending \<Rightarrow> damage \<Rightarrow> verdict" where
  "judge trust footer counts e d =
     (let clean = (e = Finished);
          damaged_inside = (0 < dmg_bytes d \<or> 0 < dmg_holes d \<or> dmg_abandoned d);
          torn = (0 < dmg_tail d)
      in case footer of
           None \<Rightarrow> if trust then Usable else if clean \<and> \<not> damaged_inside then Unfinished else Damaged
         | Some f \<Rightarrow> if clean \<and> \<not> damaged_inside \<and> \<not> torn \<and> f = counts then Usable else Damaged)"

definition read_image :: "siphash \<Rightarrow> recover_spec \<Rightarrow> disk_view \<Rightarrow> bytes \<Rightarrow> snapshot_header \<Rightarrow> (u16 \<times> u64) list \<Rightarrow>
    building \<Rightarrow> (verdict \<times> building) option" where
  "read_image sip sp disk name h wanted b =
     (let hl = snapshot_encoded_len h in
      case (dv_len disk name, dv_open disk name) of
        (Some len, Some src) \<Rightarrow>
          if length (read_fully src hl) \<noteq> hl then Some (Damaged, b)
          else do {
            ((footer, counts, b'), e, d) \<leftarrow>
              each_record (image_item sip (sp_now sp) wanted)
                (new_reader (src\<lparr>delivers := drop hl (delivers src)\<rparr>) (len - hl) (sp_reader sp))
                (None, map (\<lambda>(shard, _). (shard, 0)) (snap_bases h), b);
            Some (judge (sp_trust_unfinished sp) footer counts e d, b')
          }
      | _ \<Rightarrow> Some (Damaged, b))"

definition settle_image :: "verdict \<Rightarrow> u64 \<Rightarrow> (u16 \<times> u64) list \<Rightarrow> chosen \<times> building \<Rightarrow> chosen \<times> building" where
  "settle_image v unix wanted st =
     fold (\<lambda>(shard, base) (ch, b).
         let i = unat shard in
         if v = Usable
         then (ch\<lparr>ch_images := (ch_images ch)[i := Some base], ch_times := (ch_times ch)[i := Some unix]\<rparr>, b)
         else (ch\<lparr>ch_refused := (ch_refused ch)[i := max (ch_refused ch ! i) (Some base)]\<rparr>,
               b\<lparr>bd_dicts := (bd_dicts b)[i := dict_clear (bd_dicts b ! i)], bd_due := (bd_due b)[i := []]\<rparr>)) wanted st"

definition wanted_of :: "chosen \<Rightarrow> (u64 \<times> u64) list list \<Rightarrow> snapshot_header \<Rightarrow> (u16 \<times> u64) list" where
  "wanted_of ch rbs h =
     filter (\<lambda>(shard, base). ch_images ch ! unat shard = None \<and> \<not> is_dead (snap_generation h) base (rbs ! unat shard))
       (snap_bases h)"

definition take_image :: "siphash \<Rightarrow> recover_spec \<Rightarrow> disk_view \<Rightarrow> (u64 \<times> u64) list list \<Rightarrow> snap_file \<Rightarrow>
    chosen \<times> building \<times> report \<Rightarrow> (snap_file \<times> chosen \<times> building \<times> report) option" where
  "take_image sip sp disk rbs snap st =
     (let (ch, b, rep) = st in
      case sn_header snap of
        None \<Rightarrow> Some (snap, st)
      | Some h \<Rightarrow>
          (let wanted = wanted_of ch rbs h in
           if wanted = [] then Some (snap, st)
           else do {
             (v, b1) \<leftarrow> read_image sip sp disk (sn_name snap) h wanted b;
             let (ch', b') = settle_image v (snap_unix_millis h) wanted (ch, b1);
             Some (if v = Usable
                   then (snap\<lparr>sn_used := True\<rparr>, ch', b', rep\<lparr>rp_snapshots_used := rp_snapshots_used rep + 1\<rparr>)
                   else (snap\<lparr>sn_damaged := (sn_damaged snap \<or> v = Damaged),
                              sn_unfinished_for := (if v = Unfinished then wanted else sn_unfinished_for snap)\<rparr>,
                         ch', b', rep\<lparr>rp_snapshots_refused := rp_snapshots_refused rep + 1\<rparr>))
           }))"

fun take_images :: "siphash \<Rightarrow> recover_spec \<Rightarrow> disk_view \<Rightarrow> (u64 \<times> u64) list list \<Rightarrow> snap_file list \<Rightarrow>
    chosen \<times> building \<times> report \<Rightarrow> (snap_file list \<times> chosen \<times> building \<times> report) option" where
  "take_images sip sp disk rbs [] st = Some ([], st)"
| "take_images sip sp disk rbs (snap # snaps) st =
     do {
       (snap', st') \<leftarrow> take_image sip sp disk rbs snap st;
       (snaps', st'') \<leftarrow> take_images sip sp disk rbs snaps st';
       Some (snap' # snaps', st'')
     }"

definition read_images :: "siphash \<Rightarrow> recover_spec \<Rightarrow> disk_view \<Rightarrow> snap_file list \<Rightarrow> (u64 \<times> u64) list list \<Rightarrow>
    building \<Rightarrow> report \<Rightarrow> (snap_file list \<times> chosen \<times> building \<times> report) option" where
  "read_images sip sp disk snaps rbs b rep =
     (let n = length (bd_dicts b) in
      take_images sip sp disk rbs snaps
        (\<lparr>ch_images = replicate n None, ch_times = replicate n None, ch_refused = replicate n None\<rparr>, b, rep))"

section \<open>Pass 4: tails\<close>

definition dead_record :: "(u64 \<times> u64) list \<Rightarrow> u64 \<Rightarrow> u64 \<Rightarrow> bool" where
  "dead_record rbs seq generation = list_ex (\<lambda>(newer, from). generation < newer \<and> from \<le> seq) rbs"

definition live_records :: "bucket \<Rightarrow> (u64 \<times> u64) list \<Rightarrow> u64 \<Rightarrow> bucket" where
  "live_records bucket rbs start =
     sort_key (\<lambda>(seq, generation, _, _). (seq, NOT generation))
       (filter (\<lambda>(seq, generation, _, _). start \<le> seq \<and> \<not> dead_record rbs seq generation) bucket)"

record prefix_state =
  px_records :: "(u64 \<times> effect) list"
  px_expected :: u64
  px_discarded :: nat
  px_kept :: "bool list"

definition prefix_one :: "u64 \<times> u64 \<times> nat \<times> effect \<Rightarrow> prefix_state \<Rightarrow> prefix_state" where
  "prefix_one r st =
     (let (seq, _, file, e) = r in
      if 0 < px_discarded st \<or> px_expected st < seq
      then st\<lparr>px_discarded := px_discarded st + 1, px_kept := (px_kept st)[file := True]\<rparr>
      else if seq = px_expected st
      then st\<lparr>px_kept := (px_kept st)[file := True], px_records := px_records st @ [(seq, e)], px_expected := px_expected st + 1\<rparr>
      else st)"

definition prefix_of :: "bucket \<Rightarrow> (u64 \<times> u64) list \<Rightarrow> u64 \<Rightarrow> bool list \<Rightarrow> prefix_state" where
  "prefix_of bucket rbs start kept =
     (let kept' = fold (\<lambda>(_, _, file, _) k. k[file := True]) (filter (\<lambda>(_, _, _, e). e = Rebase) bucket) kept in
      fold prefix_one (live_records bucket rbs start)
        \<lparr>px_records = [], px_expected = start, px_discarded = 0, px_kept = kept'\<rparr>)"

definition replay_tail :: "siphash \<Rightarrow> recover_spec \<Rightarrow> scan \<Rightarrow> (u64 \<times> u64) list list \<Rightarrow> chosen \<Rightarrow> building \<Rightarrow> nat \<Rightarrow>
    recovered_shard list \<times> bool list \<times> report \<Rightarrow> recovered_shard list \<times> bool list \<times> report" where
  "replay_tail sip sp sc rbs ch b i st =
     (let (shards, kept, rep) = st;
          base = (case ch_images ch ! i of Some s \<Rightarrow> s | None \<Rightarrow> 0);
          px = prefix_of (sc_buckets sc ! i) (rbs ! i) base kept;
          applied = length (px_records px);
          discarded = px_discarded px;
          gap = (0 < discarded);
          rep' = rep\<lparr>rp_applied := rp_applied rep + applied, rp_discarded := rp_discarded rep + discarded,
                     rp_truncated := rp_truncated rep @
                       (if gap then [\<lparr>tr_shard = i, tr_applied = applied, tr_discarded = discarded\<rparr>] else [])\<rparr>;
          (d, seq) = replay_into sip (bd_dicts b ! i) base (px_records px) (sp_now sp) (bd_due b ! i);
          short_of_refused = (case ch_refused ch ! i of Some refused \<Rightarrow> seq < refused | None \<Rightarrow> False);
          lossy = (sc_damaged sc ! i \<or> unattributed_loss sc \<or> short_of_refused \<or> gap \<and> any_loss_hole sc)
      in (shards @ [\<lparr>rs_dict = d, rs_seq = seq, rs_lossy = lossy, rs_cut = (gap \<or> lossy \<or> behind_tear sc ! i),
                     rs_image_unix_millis = ch_times ch ! i\<rparr>],
          px_kept px, rep'))"

definition replay_tails :: "siphash \<Rightarrow> recover_spec \<Rightarrow> scan \<Rightarrow> (u64 \<times> u64) list list \<Rightarrow> chosen \<Rightarrow> building \<Rightarrow> nat \<Rightarrow>
    report \<Rightarrow> recovered_shard list \<times> bool list \<times> report" where
  "replay_tails sip sp sc rbs ch b files rep0 =
     (let r = sc_report sc;
          rep = rep0\<lparr>rp_segments := rp_segments r, rp_records := rp_records r, rp_malformed := rp_malformed r,
                     rp_damage_bytes := rp_damage_bytes r, rp_holes := rp_holes r, rp_torn_bytes := rp_torn_bytes r,
                     rp_abandoned_segments := rp_abandoned_segments r\<rparr>
      in fold (replay_tail sip sp sc rbs ch b) [0..<length (bd_dicts b)] ([], replicate files False, rep))"

section \<open>Pass 5: garbage\<close>

definition garbage :: "snap_file list \<Rightarrow> segment_file list \<Rightarrow> bool list \<Rightarrow> bool list \<Rightarrow> bytes list" where
  "garbage snaps segments kept unreads =
     map sn_name (filter (\<lambda>s. \<not> sn_used s \<and> \<not> sn_damaged s) snaps) @
     map (sf_name \<circ> fst) (filter (\<lambda>(_, k, u). \<not> k \<and> \<not> u) (zip segments (zip kept unreads)))"

definition remove_garbage :: "disk_view \<Rightarrow> snap_file list \<Rightarrow> segment_file list \<Rightarrow> bool list \<Rightarrow> bool list \<Rightarrow> report \<Rightarrow>
    bytes list \<times> report" where
  "remove_garbage disk snaps segments kept unreads rep =
     (let removed = filter (dv_remove disk) (garbage snaps segments kept unreads)
      in (removed, rep\<lparr>rp_files_removed := length removed\<rparr>))"

section \<open>A start\<close>

record recovery =
  rv_shards :: "recovered_shard list"
  rv_report :: report
  rv_removed :: "bytes list"

definition short_of :: "recovered_shard list \<Rightarrow> snap_file \<Rightarrow> snap_file" where
  "short_of shards snap =
     snap\<lparr>sn_damaged := (sn_damaged snap \<or>
       list_ex (\<lambda>(shard, base). rs_seq (shards ! unat shard) < base) (sn_unfinished_for snap))\<rparr>"

definition tear_of :: "disk_view \<Rightarrow> segment_file list \<Rightarrow> nat option" where
  "tear_of disk segments =
     (if segments \<noteq> [] \<and> Some (sf_generation (last segments)) = read_generation disk
      then Some (length segments - 1) else None)"

definition fresh_building :: "recover_spec \<Rightarrow> building" where
  "fresh_building sp =
     \<lparr>bd_dicts = map (\<lambda>i. with_seed (shard_seed (sp_seed sp) i)) [0..<sp_shards sp], bd_due = replicate (sp_shards sp) []\<rparr>"

definition rebuild :: "siphash \<Rightarrow> recover_spec \<Rightarrow> disk_view \<Rightarrow> segment_file list \<Rightarrow> snap_file list \<Rightarrow> scan \<Rightarrow> report \<Rightarrow>
    recovery option" where
  "rebuild sip sp disk segments snaps0 sc rep0 =
     (let rbs = rebases sc snaps0 in
      do {
        (snaps1, ch, b, rep1) \<leftarrow> read_images sip sp disk snaps0 rbs (fresh_building sp) rep0;
        let (shards, kept, rep2) = replay_tails sip sp sc rbs ch b (length segments) rep1;
        let snaps2 = map (short_of shards) snaps1;
        let (removed, rep3) = remove_garbage disk snaps2 segments kept (sc_unread sc) rep2;
        Some \<lparr>rv_shards = shards, rv_report = rep3, rv_removed = removed\<rparr>
      })"

definition recover :: "siphash \<Rightarrow> recover_spec \<Rightarrow> disk_view \<Rightarrow> (recover_error + recovery) option" where
  "recover sip sp disk =
     (case dv_list disk of
        None \<Rightarrow> Some (Inl ListFailed)
      | Some names \<Rightarrow>
          (case read_headers sp disk names empty_report of
             Inl e \<Rightarrow> Some (Inl e)
           | Inr (snaps, header_damage, rep) \<Rightarrow>
               (let segments = segment_files names;
                    sc = (scan_new (sp_shards sp) (length segments) (tear_of disk segments))\<lparr>unattributed_loss := header_damage\<rparr>
                in do {
                     res \<leftarrow> scan_segments disk (sp_reader sp) segments 0 sc;
                     (case res of
                        Inl e \<Rightarrow> Some (Inl e)
                      | Inr sc' \<Rightarrow> map_option Inr (rebuild sip sp disk segments snaps (charge_holes sc') rep))
                   })))"

text \<open>The sync of every file a start has read, before it serves: a file gone by then is skipped.\<close>

definition is_logged :: "bytes \<Rightarrow> bool" where
  "is_logged name =
     (parse_segment_name name \<noteq> None \<or> parse_name name (ascii ''.seg'') \<noteq> None \<or> parse_snapshot_name name \<noteq> None)"

definition sync_recovered :: "disk_view \<Rightarrow> bool" where
  "sync_recovered disk =
     (case dv_list disk of
        None \<Rightarrow> False
      | Some names \<Rightarrow>
          list_all (\<lambda>name. dv_sync disk name \<noteq> Some False) (filter is_logged names) \<and> dv_sync_dir disk)"

end
