(* ===== verification/RecoveryCorrect.thy ===== *)
theory RecoveryCorrect
  imports Recovery
begin

text \<open>
  What a start makes of the files it finds: it always ends; the prefix it replays of a
  shard is the longest gapless run of live records, the newest of each; a generation it
  hands out is above every one on the disk; and a log without damage gives back exactly
  the keyspaces that wrote it.
\<close>

section \<open>The gapless prefix\<close>

lemma not_le_not: "(NOT a \<le> NOT b) = (b \<le> (a :: u64))"
  by transfer (simp add: take_bit_not_eq_mask_diff)

lemma less_succ: "(x :: u64) < U64_MAX \<Longrightarrow> x < x + 1"
  unfolding U64_MAX_def by unat_arith

abbreviation seq_of :: "u64 \<times> u64 \<times> nat \<times> effect \<Rightarrow> u64" where
  "seq_of r \<equiv> fst r"

abbreviation gen_of :: "u64 \<times> u64 \<times> nat \<times> effect \<Rightarrow> u64" where
  "gen_of r \<equiv> fst (snd r)"

abbreviation file_of :: "u64 \<times> u64 \<times> nat \<times> effect \<Rightarrow> nat" where
  "file_of r \<equiv> fst (snd (snd r))"

abbreviation effect_of :: "u64 \<times> u64 \<times> nat \<times> effect \<Rightarrow> effect" where
  "effect_of r \<equiv> snd (snd (snd r))"

definition newest_first :: "bucket \<Rightarrow> bool" where
  "newest_first L = sorted_wrt (\<lambda>r s. seq_of r < seq_of s \<or> seq_of r = seq_of s \<and> gen_of s \<le> gen_of r) L"

lemma live_newest_first: "newest_first (live_records bucket rbs start)"
proof -
  let ?k = "\<lambda>(seq, generation, _ :: nat, _ :: effect). (seq, NOT generation)"
  have "sorted (map ?k (live_records bucket rbs start))" by (simp add: live_records_def)
  then have "sorted_wrt (\<lambda>r s. ?k r \<le> ?k s) (live_records bucket rbs start)"
    by (simp add: sorted_wrt_map)
  moreover have "?k r \<le> ?k s \<Longrightarrow> seq_of r < seq_of s \<or> seq_of r = seq_of s \<and> gen_of s \<le> gen_of r" for r s
    by (cases r; cases s) (auto simp: not_le_not less_eq_prod_def)
  ultimately show ?thesis unfolding newest_first_def by (rule sorted_wrt_mono_rel [rotated])
qed

definition live :: "(u64 \<times> u64) list \<Rightarrow> u64 \<Rightarrow> bucket \<Rightarrow> bucket" where
  "live rbs start bucket = filter (\<lambda>r. start \<le> seq_of r \<and> \<not> dead_record rbs (seq_of r) (gen_of r)) bucket"

lemma live_records_sorted:
  "live_records bucket rbs start = sort_key (\<lambda>(seq, generation, _, _). (seq, NOT generation)) (live rbs start bucket)"
  by (simp add: live_records_def live_def case_prod_unfold)

lemma live_records_mset: "mset (live_records bucket rbs start) = mset (live rbs start bucket)"
  by (simp add: live_records_sorted)

text \<open>\<open>run_from rs st L st'\<close>: the loop, gone through \<open>L\<close> from \<open>st\<close>, has taken the records \<open>rs\<close>.\<close>

definition newest_in :: "bucket \<Rightarrow> bool list \<Rightarrow> u64 \<times> effect \<Rightarrow> bool" where
  "newest_in L kept x =
     (\<exists>r \<in> set L. seq_of r = fst x \<and> effect_of r = snd x \<and> (\<forall>s \<in> set L. seq_of s = fst x \<longrightarrow> gen_of s \<le> gen_of r) \<and>
        kept ! file_of r)"

definition run_from :: "(u64 \<times> effect) list \<Rightarrow> prefix_state \<Rightarrow> bucket \<Rightarrow> prefix_state \<Rightarrow> bool" where
  "run_from rs st L st' =
     (px_records st' = px_records st @ rs \<and>
      map fst rs = map (\<lambda>i. px_expected st + of_nat i) [0..<length rs] \<and>
      px_expected st' = px_expected st + of_nat (length rs) \<and> px_expected st \<le> px_expected st' \<and>
      (\<forall>x \<in> set rs. px_expected st \<le> fst x \<and> newest_in L (px_kept st') x) \<and>
      (\<forall>r \<in> set L. seq_of r \<noteq> px_expected st') \<and>
      px_discarded st' = length (filter (\<lambda>r. px_expected st' < seq_of r) L) \<and>
      (\<forall>r \<in> set L. px_expected st' < seq_of r \<longrightarrow> px_kept st' ! file_of r) \<and>
      length (px_kept st') = length (px_kept st) \<and> (\<forall>f. px_kept st ! f \<longrightarrow> px_kept st' ! f))"

lemma run_fromD:
  assumes "run_from rs st L st'"
  shows "px_records st' = px_records st @ rs" "map fst rs = map (\<lambda>i. px_expected st + of_nat i) [0..<length rs]"
    "px_expected st' = px_expected st + of_nat (length rs)" "px_expected st \<le> px_expected st'"
    "\<forall>x \<in> set rs. px_expected st \<le> fst x \<and> newest_in L (px_kept st') x"
    "\<forall>r \<in> set L. seq_of r \<noteq> px_expected st'" "px_discarded st' = length (filter (\<lambda>r. px_expected st' < seq_of r) L)"
    "\<forall>r \<in> set L. px_expected st' < seq_of r \<longrightarrow> px_kept st' ! file_of r"
    "length (px_kept st') = length (px_kept st)" "\<forall>f. px_kept st ! f \<longrightarrow> px_kept st' ! f"
  using assms unfolding run_from_def by blast+

lemma newest_in_Cons:
  "newest_in L kept x \<Longrightarrow> seq_of r \<noteq> fst x \<Longrightarrow> newest_in (r # L) kept x"
  by (auto simp: newest_in_def)

lemma run_from_skip:
  assumes "run_from rs st L st'" "seq_of r < px_expected st"
  shows "run_from rs st (r # L) st'"
proof -
  note rs = run_fromD [OF assms(1)]
  have r: "\<not> px_expected st' < seq_of r" "seq_of r \<noteq> px_expected st'" using assms(2) rs(4) by auto
  have n: "\<forall>x \<in> set rs. px_expected st \<le> fst x \<and> newest_in (r # L) (px_kept st') x"
  proof
    fix x assume "x \<in> set rs"
    then have "px_expected st \<le> fst x" "newest_in L (px_kept st') x" using rs(5) by auto
    moreover from this have "seq_of r \<noteq> fst x" using assms(2) by auto
    ultimately show "px_expected st \<le> fst x \<and> newest_in (r # L) (px_kept st') x" using newest_in_Cons by blast
  qed
  show ?thesis
    unfolding run_from_def by (intro conjI rs(1-4) rs(9,10) n) (use rs(6-8) r in simp_all)
qed

lemma prefix_discarding:
  assumes "0 < px_discarded st" "\<forall>r \<in> set L. file_of r < length (px_kept st)"
  shows "px_records (fold prefix_one L st) = px_records st \<and> px_expected (fold prefix_one L st) = px_expected st \<and>
    px_discarded (fold prefix_one L st) = px_discarded st + length L \<and>
    length (px_kept (fold prefix_one L st)) = length (px_kept st) \<and>
    (\<forall>f. px_kept st ! f \<longrightarrow> px_kept (fold prefix_one L st) ! f) \<and>
    (\<forall>r \<in> set L. px_kept (fold prefix_one L st) ! file_of r)"
  using assms
proof (induction L arbitrary: st)
  case (Cons r L)
  have p: "prefix_one r st = st\<lparr>px_discarded := px_discarded st + 1, px_kept := (px_kept st)[file_of r := True]\<rparr>"
    using Cons.prems(1) by (simp add: prefix_one_def case_prod_unfold)
  have "px_kept (prefix_one r st) ! file_of r" "\<forall>f. px_kept st ! f \<longrightarrow> px_kept (prefix_one r st) ! f"
    using Cons.prems(2) by (simp_all add: p nth_list_update)
  then show ?case using Cons.IH [of "prefix_one r st"] Cons.prems by (auto simp: p)
qed simp

lemma run_from_take:
  assumes r: "seq_of r = px_expected st" "seq_of r < U64_MAX" "file_of r < length (px_kept st)"
    and st: "st1 = st\<lparr>px_kept := (px_kept st)[file_of r := True], px_records := px_records st @ [(seq_of r, effect_of r)],
        px_expected := px_expected st + 1\<rparr>"
    and L: "\<forall>s \<in> set L. seq_of s = seq_of r \<longrightarrow> gen_of s \<le> gen_of r" and run: "run_from rs st1 L st'"
  shows "run_from ((px_expected st, effect_of r) # rs) st (r # L) st'"
proof -
  let ?x = "px_expected st"
  note rs = run_fromD [OF run]
  have lt: "?x < ?x + 1" using r(1,2) by (intro less_succ) simp
  have e: "px_expected st1 = ?x + 1" by (simp add: st)
  have k: "px_kept st1 ! file_of r" "\<forall>f. px_kept st ! f \<longrightarrow> px_kept st1 ! f" "length (px_kept st1) = length (px_kept st)"
    using r(3) by (simp_all add: st nth_list_update)
  have up: "map (\<lambda>i. ?x + of_nat i) [0..<Suc (length rs)] = ?x # map (\<lambda>i. ?x + 1 + of_nat i) [0..<length rs]"
    by (simp add: upt_conv_Cons map_Suc_upt [symmetric] comp_def add.assoc del: upt_Suc)
  have x': "?x < px_expected st'" using rs(4) e lt by simp
  have n: "\<forall>x \<in> set ((?x, effect_of r) # rs). ?x \<le> fst x \<and> newest_in (r # L) (px_kept st') x"
  proof
    fix x assume "x \<in> set ((?x, effect_of r) # rs)"
    then consider "x = (?x, effect_of r)" | "x \<in> set rs" by auto
    then show "?x \<le> fst x \<and> newest_in (r # L) (px_kept st') x"
    proof cases
      case 1
      then show ?thesis using r(1) L k(1) rs(10) by (auto simp: newest_in_def)
    next
      case 2
      then have "?x + 1 \<le> fst x" "newest_in L (px_kept st') x" using rs(5) e by auto
      moreover from this have "seq_of r \<noteq> fst x" "?x \<le> fst x" using r(1) lt by auto
      ultimately show ?thesis using newest_in_Cons by blast
    qed
  qed
  show ?thesis
    unfolding run_from_def
  proof (intro conjI n)
    show "px_records st' = px_records st @ (?x, effect_of r) # rs" using rs(1) r(1) by (simp add: st)
    show "map fst ((?x, effect_of r) # rs) = map (\<lambda>i. ?x + of_nat i) [0..<length ((?x, effect_of r) # rs)]"
      using rs(2) e up by simp
    show "px_expected st' = ?x + of_nat (length ((?x, effect_of r) # rs))" using rs(3) e by simp
    show "px_discarded st' = length (filter (\<lambda>r. px_expected st' < seq_of r) (r # L))" using rs(7) x' r(1) by simp
  qed (use rs(6,8-10) k x' r(1) in auto)
qed

lemma prefix_run:
  assumes "newest_first L" "px_discarded st = 0" "\<forall>r \<in> set L. seq_of r < U64_MAX \<and> file_of r < length (px_kept st)"
  shows "\<exists>rs. run_from rs st L (fold prefix_one L st)"
  using assms
proof (induction L arbitrary: st)
  case Nil
  then show ?case by (auto simp: run_from_def intro: exI [of _ "[]"])
next
  case (Cons r L)
  let ?x = "px_expected st"
  have L: "newest_first L" "\<forall>s \<in> set L. seq_of r < seq_of s \<or> seq_of r = seq_of s \<and> gen_of s \<le> gen_of r"
    using Cons.prems(1) by (simp_all add: newest_first_def)
  consider "seq_of r < ?x" | "seq_of r = ?x" | "?x < seq_of r" by (meson not_less_iff_gr_or_eq)
  then show ?case
  proof cases
    case 1
    then have p: "prefix_one r st = st" using Cons.prems(2) by (auto simp: prefix_one_def case_prod_unfold)
    obtain rs where "run_from rs st L (fold prefix_one L st)" using Cons.IH [OF L(1) Cons.prems(2)] Cons.prems(3) by auto
    from run_from_skip [OF this 1] show ?thesis by (auto simp: p)
  next
    case 2
    let ?st = "prefix_one r st"
    have p: "?st = st\<lparr>px_kept := (px_kept st)[file_of r := True], px_records := px_records st @ [(seq_of r, effect_of r)],
        px_expected := ?x + 1\<rparr>"
      using 2 Cons.prems(2) by (simp add: prefix_one_def case_prod_unfold)
    obtain rs where "run_from rs ?st L (fold prefix_one L ?st)"
      using Cons.IH [OF L(1), of ?st] Cons.prems(2,3) by (auto simp: p)
    moreover have "\<forall>s \<in> set L. seq_of s = seq_of r \<longrightarrow> gen_of s \<le> gen_of r" using L(2) by auto
    ultimately have "run_from ((?x, effect_of r) # rs) st (r # L) (fold prefix_one L ?st)"
      using run_from_take [OF 2 _ _ p] Cons.prems(3) by simp
    then show ?thesis by auto
  next
    case 3
    have p: "prefix_one r st = st\<lparr>px_discarded := 1, px_kept := (px_kept st)[file_of r := True]\<rparr>"
      using 3 Cons.prems(2) by (simp add: prefix_one_def case_prod_unfold)
    have d: "px_records (fold prefix_one L (prefix_one r st)) = px_records st"
      "px_expected (fold prefix_one L (prefix_one r st)) = ?x" "px_discarded (fold prefix_one L (prefix_one r st)) = 1 + length L"
      "length (px_kept (fold prefix_one L (prefix_one r st))) = length (px_kept st)"
      "\<forall>f. px_kept (prefix_one r st) ! f \<longrightarrow> px_kept (fold prefix_one L (prefix_one r st)) ! f"
      "\<forall>s \<in> set L. px_kept (fold prefix_one L (prefix_one r st)) ! file_of s"
      using prefix_discarding [of "prefix_one r st" L] Cons.prems(3) by (simp_all add: p)
    have k: "px_kept (prefix_one r st) ! file_of r" "\<forall>f. px_kept st ! f \<longrightarrow> px_kept (prefix_one r st) ! f"
      using Cons.prems(3) by (simp_all add: p nth_list_update)
    have above: "\<forall>s \<in> set L. ?x < seq_of s" using 3 L(2) by auto
    then have f: "filter (\<lambda>s. ?x < seq_of s) L = L" by simp
    have "run_from [] st (r # L) (fold prefix_one (r # L) st)"
      unfolding run_from_def using 3 above d k by (intro conjI) (auto simp: f)
    then show ?thesis ..
  qed
qed

lemma kept_rebases:
  fixes rs :: bucket
  shows "length (fold (\<lambda>(_, _, file, _) k. k[file := True]) rs kept) = length kept"
    "(\<forall>r \<in> set rs. file_of r < length kept) \<Longrightarrow> r \<in> set rs \<or> kept ! file_of r \<Longrightarrow>
      fold (\<lambda>(_, _, file, _) k. k[file := True]) rs kept ! file_of r"
  by (induction rs arbitrary: kept) (auto simp: nth_list_update split: if_splits)

lemma prefix_of_run:
  assumes "\<forall>r \<in> set bucket. seq_of r < U64_MAX \<and> file_of r < length kept"
  shows "\<exists>rs kept'. length kept' = length kept \<and>
    (\<forall>r \<in> set bucket. effect_of r = Rebase \<or> kept ! file_of r \<longrightarrow> kept' ! file_of r) \<and>
    run_from rs \<lparr>px_records = [], px_expected = start, px_discarded = 0, px_kept = kept'\<rparr>
      (live_records bucket rbs start) (prefix_of bucket rbs start kept)"
proof -
  let ?k = "fold (\<lambda>(_, _, file, _) k. k[file := True]) (filter (\<lambda>(_, _, _, e). e = Rebase) bucket) kept"
  let ?st = "\<lparr>px_records = [], px_expected = start, px_discarded = 0, px_kept = ?k\<rparr>"
  have L: "set (live_records bucket rbs start) \<subseteq> set bucket"
    unfolding live_records_sorted by (auto simp: live_def)
  have k: "\<forall>r \<in> set bucket. effect_of r = Rebase \<or> kept ! file_of r \<longrightarrow> ?k ! file_of r"
    using assms by (intro ballI impI kept_rebases(2)) (auto simp: case_prod_unfold)
  have "\<forall>r \<in> set (live_records bucket rbs start). seq_of r < U64_MAX \<and> file_of r < length (px_kept ?st)"
    using assms L by (auto simp: kept_rebases(1))
  from prefix_run [OF live_newest_first _ this] obtain rs where
    "run_from rs ?st (live_records bucket rbs start) (fold prefix_one (live_records bucket rbs start) ?st)" by auto
  then show ?thesis
    using k kept_rebases(1) by (intro exI [of _ rs] exI [of _ ?k]) (simp add: prefix_of_def)
qed

section \<open>The generation counter\<close>

lemma trim_start_digit:
  assumes "list_all (\<lambda>s. s = [] \<or> \<not> is_digit (hd s)) spaces" "t \<noteq> []" "is_digit (hd t)"
  shows "trim_start spaces t = t"
proof -
  have "find (\<lambda>s. s \<noteq> [] \<and> take (length s) t = s) spaces = None"
    unfolding find_None_iff
  proof
    assume "\<exists>s. s \<in> set spaces \<and> s \<noteq> [] \<and> take (length s) t = s"
    then obtain s where s: "s \<in> set spaces" "s \<noteq> []" "take (length s) t = s" by blast
    then have "hd s = hd t" using assms(2) by (metis hd_take length_greater_0_conv)
    then show False using s assms(1,3) by (auto simp: list_all_iff)
  qed
  then show ?thesis by (subst trim_start.simps) simp
qed

lemma white_space_no_digit:
  "list_all (\<lambda>s. s = [] \<or> \<not> is_digit (hd s)) white_space"
  "list_all (\<lambda>s. s = [] \<or> \<not> is_digit (hd s)) (map rev white_space)"
  by (simp_all add: white_space_def is_digit_def)

lemma trim_decimal: "trim (decimal n) = decimal n"
proof -
  have l: "is_digit (hd (rev (decimal n)))"
    using decimal_digits [of n] decimal_not_Nil [of n] by (simp add: hd_rev list_all_iff)
  show ?thesis
    unfolding trim_def
    using trim_start_digit [OF white_space_no_digit(1) decimal_not_Nil decimal_hd]
      trim_start_digit [OF white_space_no_digit(2) _ l] by simp
qed

lemma fold_max_ge: "a \<le> fold max xs a \<and> (x \<in> set xs \<longrightarrow> x \<le> fold max xs (a :: 'a::linorder))"
  by (induction xs arbitrary: a) (auto intro: max.coboundedI1 max.coboundedI2 order_trans [OF max.cobounded1] order_trans [OF max.cobounded2])

lemma fold_max_below: "a < b \<Longrightarrow> \<forall>x \<in> set xs. x < b \<Longrightarrow> fold max xs a < (b :: 'a::linorder)"
  by (induction xs arbitrary: a) auto

lemma name_generation_names:
  "name_generation (segment_name g r) = Some g" "name_generation (snapshot_name g e c) = Some g"
proof -
  show "name_generation (segment_name g r) = Some g" by (simp add: name_generation_def parse_segment_name_name)
  have "parse_segment_name (snapshot_name g e c) = None"
  proof -
    have "strip_suffix (ascii ''.seg'') (snapshot_name g e c) = None" by (simp add: strip_suffix_def snapshot_name_def)
    then show ?thesis by (simp add: parse_segment_name_def parse_name2_def)
  qed
  then show "name_generation (snapshot_name g e c) = Some g"
    using parse_snapshot_name_name [of g e c] by (simp add: name_generation_def parse_snapshot_name_def)
qed

lemma next_generation_above:
  assumes "next_generation disk = Some g" "dv_list disk = Some names"
    and "\<forall>h \<in> set (List.map_filter name_generation names). h < U64_MAX" "\<forall>h. read_generation disk = Some h \<longrightarrow> h < U64_MAX"
  shows "\<forall>h \<in> set (List.map_filter name_generation names). h < g" "\<forall>h. read_generation disk = Some h \<longrightarrow> h < g"
proof -
  let ?r = "case read_generation disk of Some h \<Rightarrow> h | None \<Rightarrow> 0"
  let ?d = "fold max (List.map_filter name_generation names) 0"
  have g: "g = max ?r ?d + 1"
    using assms(1,2) by (auto simp: next_generation_def Let_def split: if_splits)
  have "?d < U64_MAX" by (rule fold_max_below) (use assms(3) in \<open>simp_all add: U64_MAX_def word_gt_0\<close>)
  moreover have "?r < U64_MAX" using assms(4) by (auto simp: U64_MAX_def word_gt_0 split: option.split)
  ultimately have m: "max ?r ?d < g" unfolding g by (intro less_succ) simp
  show "\<forall>h \<in> set (List.map_filter name_generation names). h < g"
  proof
    fix h assume "h \<in> set (List.map_filter name_generation names)"
    then have "h \<le> ?d" using fold_max_ge by blast
    also have "?d < g" using m by simp
    finally show "h < g" .
  qed
  show "\<forall>h. read_generation disk = Some h \<longrightarrow> h < g" using m by auto
qed

section \<open>A start ends\<close>

lemma take_header_source:
  assumes "take_header src len header want = Inr (Some (h, src'))"
  shows "h = header @ take (want - length header) (delivers src) \<and> delivers src' = drop (want - length header) (delivers src) \<and>
    fails src' = fails src \<and> want \<le> len \<and> want - length header \<le> length (delivers src)"
  using assms by (auto simp: take_header_def Let_def split: if_splits)

lemma read_header_source:
  assumes "read_segment_header src len = Inr (Some (h, src'))"
  shows "delivers src' = drop (seg_len h) (delivers src) \<and> fails src' = fails src \<and> seg_len h \<le> len"
proof -
  obtain h0 s0 where t0: "take_header src len [] 5 = Inr (Some (h0, s0))"
    using assms by (auto simp: read_segment_header_def split: sum.splits option.splits)
  let ?fixed = "if h0 ! 4 = 3 then V3_SEGMENT_HEADER_LEN else SEGMENT_HEADER_LEN"
  note read = assms [unfolded read_segment_header_def t0 sum.case option.case prod.case Let_def]
  obtain h1 s1 where t1: "take_header s0 len h0 ?fixed = Inr (Some (h1, s1))"
    using read by (cases "take_header s0 len h0 ?fixed") (auto split: option.splits)
  note read = read [unfolded t1 sum.case option.case prod.case]
  note a = take_header_source [OF t0] and b = take_header_source [OF t1]
  have l0: "length h0 = 5" using a by auto
  have l1: "length h1 = ?fixed" using b l0 by (auto simp: V3_SEGMENT_HEADER_LEN_def SEGMENT_HEADER_LEN_def)
  have d1: "delivers s1 = drop ?fixed (delivers src)"
    using a b l0 by (auto simp: V3_SEGMENT_HEADER_LEN_def SEGMENT_HEADER_LEN_def)
  have fl: "fails s1 = fails src" "?fixed \<le> len" using a b by blast+
  let ?n = "unat (le_word (take 2 (drop 17 h1)) :: u16)"
  have m: "take 4 h1 = SEGMENT_MAGIC" by (rule ccontr) (use read in simp)
  have v: "OLDEST_READ_VERSION \<le> h1 ! 4 \<and> h1 ! 4 \<le> FORMAT_VERSION" by (rule ccontr) (use read m in simp)
  have c: "check_header_crc h1" by (rule ccontr) (use read m v in simp)
  show ?thesis
  proof (cases "h1 ! 4 = 3 \<or> ?n = 0")
    case True
    then have "seg_len h = length h1 \<and> src' = s1" using read m v c by auto
    then show ?thesis using fl l1 d1 by simp
  next
    case False
    obtain h2 s2 where t2: "take_header s1 len h1 (segment_header_len ?n) = Inr (Some (h2, s2))"
      using read m v c False by (cases "take_header s1 len h1 (segment_header_len ?n)") (auto split: option.splits)
    have h2: "seg_len h = length h2 \<and> src' = s2"
      using read m v c False unfolding t2 sum.case option.case prod.case by (auto split: if_splits)
    note c = take_header_source [OF t2]
    have "length h1 \<le> segment_header_len ?n" using l1 False by (auto simp: segment_header_len_def segment_consts)
    then have "length h2 = segment_header_len ?n" "delivers s2 = drop (segment_header_len ?n) (delivers src)"
      using c d1 l1 by auto
    then show ?thesis using fl(1) c h2 by auto
  qed
qed

definition honest_disk :: "disk_view \<Rightarrow> bool" where
  "honest_disk disk =
     (\<forall>name len src. dv_len disk name = Some len \<longrightarrow> dv_open disk name = Some src \<longrightarrow>
        len \<le> length (delivers src) \<or> fails src)"

lemma new_reader_ends:
  "len \<le> length (delivers src) \<or> fails src \<Longrightarrow> \<exists>res. each_record f (new_reader src len mode) s = Some res"
  unfolding new_reader_def by (rule each_record_ends [OF reads_with_chunk])

lemma scan_segment_ends:
  assumes "honest_disk disk"
  shows "\<exists>res. scan_segment disk mode fl index sc = Some res"
proof (cases "(dv_len disk (sf_name fl), dv_open disk (sf_name fl))")
  case (Pair len0 src0)
  show ?thesis
  proof (cases "\<exists>len src h src'. len0 = Some len \<and> src0 = Some src \<and> read_segment_header src len = Inr (Some (h, src'))")
    case False
    then show ?thesis
      using Pair by (auto simp: scan_segment_def Let_def split: option.splits sum.splits header_error.splits)
  next
    case True
    then obtain len src h src' where o: "len0 = Some len" "src0 = Some src" "read_segment_header src len = Inr (Some (h, src'))" by blast
    have "len \<le> length (delivers src) \<or> fails src" using assms o Pair by (auto simp: honest_disk_def)
    then have "len - seg_len h \<le> length (delivers src') \<or> fails src'" using read_header_source [OF o(3)] by auto
    then have "\<exists>sc''. scan_body mode fl index h src' len sc' = Some sc''" for sc'
      using new_reader_ends [of "len - seg_len h" src' "walk_item (sf_generation fl) index" mode
          "\<lparr>wk_scan = (note_cuts (sf_generation fl) (seg_cuts h) sc')\<lparr>sc_version := seg_version h, last_mark_end := 0\<rparr>,
            wk_holes = 0, wk_found = [], wk_boundary = 0, wk_bytes = 0\<rparr>"]
      by (auto simp: scan_body_def Let_def)
    then show ?thesis using o Pair by (auto simp: scan_segment_def Let_def)
  qed
qed

lemma scan_segments_ends: "honest_disk disk \<Longrightarrow> \<exists>res. scan_segments disk mode files index sc = Some res"
proof (induction files arbitrary: index sc)
  case (Cons fl files)
  obtain res where "scan_segment disk mode fl index sc = Some res" using scan_segment_ends [OF Cons.prems] by blast
  then show ?case using Cons.IH [OF Cons.prems] by (cases res) auto
qed simp

lemma read_image_ends:
  assumes "honest_disk disk"
  shows "\<exists>v b'. read_image sip sp disk name h wanted b = Some (v, b')"
proof (cases "\<exists>len src. dv_len disk name = Some len \<and> dv_open disk name = Some src \<and> length (read_fully src (snapshot_encoded_len h)) = snapshot_encoded_len h")
  case False
  then show ?thesis by (auto simp: read_image_def Let_def split: option.splits)
next
  case True
  then obtain len src where o: "dv_len disk name = Some len" "dv_open disk name = Some src"
    "length (read_fully src (snapshot_encoded_len h)) = snapshot_encoded_len h" by blast
  let ?n = "snapshot_encoded_len h"
  have "len \<le> length (delivers src) \<or> fails src" using assms o by (auto simp: honest_disk_def)
  then have "len - ?n \<le> length (delivers (src\<lparr>delivers := drop ?n (delivers src)\<rparr>)) \<or> fails (src\<lparr>delivers := drop ?n (delivers src)\<rparr>)"
    by auto
  from new_reader_ends [OF this, of "image_item sip (sp_now sp) wanted" "sp_reader sp"
      "(None, map (\<lambda>(shard, _). (shard, 0)) (snap_bases h), b)"]
  show ?thesis using o by (auto simp: read_image_def Let_def)
qed

lemma take_images_ends: "honest_disk disk \<Longrightarrow> \<exists>snaps' st'. take_images sip sp disk rbs snaps st = Some (snaps', st')"
proof (induction snaps arbitrary: st)
  case Nil
  show ?case by (cases st) simp
next
  case (Cons snap snaps)
  obtain ch b rep where st: "st = (ch, b, rep)" by (cases st)
  have "\<exists>snap' st'. take_image sip sp disk rbs snap st = Some (snap', st')"
  proof (cases "sn_header snap")
    case (Some h)
    obtain v b' where "read_image sip sp disk (sn_name snap) h (wanted_of ch rbs h) b = Some (v, b')"
      using read_image_ends [OF Cons.prems] by blast
    then show ?thesis
      using Some by (cases "settle_image v (snap_unix_millis h) (wanted_of ch rbs h) (ch, b')") (auto simp: take_image_def st Let_def)
  qed (simp add: take_image_def st)
  then obtain snap' st' where "take_image sip sp disk rbs snap st = Some (snap', st')" by blast
  moreover obtain snaps' st'' where "take_images sip sp disk rbs snaps st' = Some (snaps', st'')" using Cons.IH [OF Cons.prems] by blast
  ultimately show ?case by (cases st'') simp
qed

lemma rebuild_ends:
  assumes "honest_disk disk"
  shows "\<exists>rv. rebuild sip sp disk segments snaps sc rep = Some rv"
proof -
  obtain snaps1 ch b rep1 where "read_images sip sp disk snaps (rebases sc snaps) (fresh_building sp) rep = Some (snaps1, ch, b, rep1)"
    using take_images_ends [OF assms] unfolding read_images_def by (metis prod_cases3)
  then show ?thesis by (simp add: rebuild_def Let_def case_prod_unfold)
qed

section \<open>A log without damage\<close>

lemma read_whole_wire:
  assumes "wire rs = Some bs" "list_all fits rs"
  shows "read_whole mode bs = Some (map (\<lambda>it. (it, no_damage)) (laid 0 rs), no_damage)"
proof -
  let ?v = "sight_of mode bs"
  have v: "settled ?v" "ahead ?v = bs @ []" "place ?v = 0" "g_damage ?v = no_damage"
    by (simp_all add: sight_of_def settled_def found_record_def)
  have "look_all (skip_ahead (length bs) ?v) = Some ([], no_damage)"
    using look_all_end [OF settled_skip [OF v(1)], of "length bs"] v by simp
  then show ?thesis
    using look_all_wire [OF v(1) assms v(2)] v(3,4) by (simp add: read_whole_def)
qed

definition plain :: "nat \<Rightarrow> log_record \<Rightarrow> bool" where
  "plain shards r =
     (rec_shard r = SYNC_MARK_SHARD \<and> rec_payload r = [] \<or>
      unat (rec_shard r) < shards \<and> (\<exists>e. decode (rec_payload r) = Some e \<and> e \<noteq> Rebase))"

text \<open>The entries a segment's records leave in a shard's bucket.\<close>

definition filed :: "u64 \<Rightarrow> nat \<Rightarrow> log_record list \<Rightarrow> nat \<Rightarrow> bucket" where
  "filed g i rs s =
     map (\<lambda>r. (rec_seq r, g, i, the (decode (rec_payload r)))) (filter (\<lambda>r. unat (rec_shard r) = s) rs)"

text \<open>\<open>untroubled shards files B sc\<close>: a scan that has met nothing but records, filed in the buckets \<open>B\<close>.\<close>

definition untroubled :: "nat \<Rightarrow> nat \<Rightarrow> (nat \<Rightarrow> bucket) \<Rightarrow> scan \<Rightarrow> bool" where
  "untroubled shards files B sc =
     (sc_buckets sc = map B [0..<shards] \<and> sc_cuts sc = replicate shards [] \<and> sc_damaged sc = replicate shards False \<and>
      length (sc_last sc) = shards \<and> last_loss_hole sc = None \<and> \<not> any_loss_hole sc \<and> last_tear_hole sc = None \<and>
      behind_tear sc = replicate shards False \<and> \<not> unattributed_loss sc \<and> sc_unread sc = replicate files False)"

lemma untroubled_new: "untroubled shards files (\<lambda>_. []) (scan_new shards files t)"
  by (simp add: untroubled_def scan_new_def map_replicate_const)

lemma SYNC_MARK_SHARD_ge: "shards < 2 ^ 16 \<Longrightarrow> \<not> unat SYNC_MARK_SHARD < shards"
  by (simp add: SYNC_MARK_SHARD_def unsigned_minus_1_eq_mask mask_eq_exp_minus_1)

lemma scan_item_untroubled:
  assumes u: "untroubled shards files B sc" and v: "sc_version sc = FORMAT_VERSION" and p: "plain shards r" "shards < 2 ^ 16"
    and it: "it_shard it = rec_shard r" "it_seq it = rec_seq r" "it_payload it = rec_payload r"
  shows "untroubled shards files (\<lambda>s. B s @ filed g i [r] s) (scan_item it g i sc) \<and> sc_version (scan_item it g i sc) = FORMAT_VERSION"
proof (cases "rec_shard r = SYNC_MARK_SHARD \<and> rec_payload r = []")
  case True
  then have "is_mark (sc_version sc) it" using v it by (simp add: is_mark_def SYNC_MARK_VERSION_def FORMAT_VERSION_def)
  moreover have "map (\<lambda>s. B s @ filed g i [r] s) [0..<shards] = map B [0..<shards]"
    using True SYNC_MARK_SHARD_ge [OF p(2)] by (auto simp: filed_def)
  ultimately show ?thesis using u v by (simp add: scan_item_def untroubled_def)
next
  case False
  then obtain e where e: "unat (rec_shard r) < shards" "decode (rec_payload r) = Some e" "e \<noteq> Rebase"
    using p(1) by (auto simp: plain_def)
  have m: "\<not> is_mark (sc_version sc) it" using False it by (auto simp: is_mark_def)
  let ?s = "unat (rec_shard r)"
  have b: "map (\<lambda>s. B s @ filed g i [r] s) [0..<shards] = (map B [0..<shards])[?s := B ?s @ [(rec_seq r, g, i, e)]]"
    using e by (intro nth_equalityI) (auto simp: nth_list_update filed_def)
  have n: "length (sc_buckets sc) = shards" "sc_buckets sc ! ?s = B ?s" using u e(1) by (simp_all add: untroubled_def)
  show ?thesis
    using u v m e n unfolding untroubled_def b
    by (simp add: scan_item_def scan_record_def Let_def it)
qed

lemma filed_Cons: "filed g i (r # rs) s = filed g i [r] s @ filed g i rs s"
  by (simp add: filed_def)

lemma scan_items_untroubled:
  assumes "untroubled shards files B sc" "sc_version sc = FORMAT_VERSION" "\<forall>r \<in> set rs. plain shards r" "shards < 2 ^ 16"
  shows "untroubled shards files (\<lambda>s. B s @ filed g i rs s) (fold (\<lambda>it. scan_item it g i) (laid p rs) sc)"
  using assms
proof (induction rs arbitrary: p B sc)
  case Nil
  then show ?case by (simp add: filed_def)
next
  case (Cons r rs)
  let ?it = "\<lparr>it_shard = rec_shard r, it_seq = rec_seq r, it_payload = rec_payload r, it_at = p, it_end = p + record_len r\<rparr>"
  have "untroubled shards files (\<lambda>s. B s @ filed g i [r] s) (scan_item ?it g i sc)" "sc_version (scan_item ?it g i sc) = FORMAT_VERSION"
    using scan_item_untroubled [OF Cons.prems(1,2) _ Cons.prems(4), of r ?it g i] Cons.prems(3) by simp_all
  from Cons.IH [OF this _ Cons.prems(4), of "p + record_len r"] Cons.prems(3) filed_Cons [of g i r rs] show ?case by simp
qed

lemma feed_walk:
  assumes "wk_holes w = 0"
  shows "\<exists>w'. feed (walk_item g i) (map (\<lambda>it. (it, no_damage)) its) no_damage w = (w', Finished, no_damage) \<and>
    wk_scan w' = fold (\<lambda>it. scan_item it g i) its (wk_scan w) \<and> wk_found w' = wk_found w \<and> wk_holes w' = 0"
  using assms
proof (induction its arbitrary: w)
  case (Cons it its)
  have h: "dmg_holes no_damage = 0" by (simp add: no_damage_def)
  obtain w1 where w: "walk_item g i it no_damage w = (True, w1)" "wk_holes w1 = 0" "wk_found w1 = wk_found w"
    "wk_scan w1 = scan_item it g i (wk_scan w)"
    using Cons.prems h by (simp add: walk_item_def Let_def)
  from Cons.IH [OF w(2)] show ?case by (simp add: w)
qed simp

definition clean_file :: "disk_view \<Rightarrow> segment_file \<Rightarrow> log_record list \<Rightarrow> bool" where
  "clean_file disk sf rs =
     (\<exists>g r h bs X f. encode_segment_header g r [] = Some h \<and> wire rs = Some bs \<and> list_all fits rs \<and>
        dv_len disk (sf_name sf) = Some (length h + length bs) \<and>
        dv_open disk (sf_name sf) = Some \<lparr>delivers = h @ bs @ X, fails = f\<rparr>)"

lemma close_untroubled:
  assumes "untroubled shards files B (wk_scan w)" "wk_found w = []" "wk_holes w = 0"
  shows "untroubled shards files B (close_segment index v w Finished no_damage)"
  using assms by (simp add: close_segment_def classify_def no_damage_def untroubled_def Let_def)

lemma scan_clean_file:
  assumes u: "untroubled shards files B sc" and c: "clean_file disk sf rs" and p: "\<forall>r \<in> set rs. plain shards r" "shards < 2 ^ 16"
  shows "\<exists>sc'. scan_segment disk mode sf index sc = Some (Inr sc') \<and>
    untroubled shards files (\<lambda>s. B s @ filed (sf_generation sf) index rs s) sc'"
proof -
  obtain g r h bs X f where h: "encode_segment_header g r [] = Some h" and bs: "wire rs = Some bs" "list_all fits rs"
    and d: "dv_len disk (sf_name sf) = Some (length h + length bs)" "dv_open disk (sf_name sf) = Some \<lparr>delivers = h @ bs @ X, fails = f\<rparr>"
    using c unfolding clean_file_def by blast
  let ?h = "\<lparr>seg_version = FORMAT_VERSION, seg_generation = g, seg_rotation = r, seg_cuts = [], seg_len = length h\<rparr>"
  have hd: "read_segment_header \<lparr>delivers = h @ bs @ X, fails = f\<rparr> (length h + length bs) =
      Inr (Some (?h, \<lparr>delivers = bs @ X, fails = f\<rparr>))"
    using read_encoded_header [OF h, of "length h + length bs" "bs @ X" f] by simp
  let ?sc0 = "sc\<lparr>sc_report := (sc_report sc)\<lparr>rp_segments := rp_segments (sc_report sc) + 1\<rparr>\<rparr>"
  let ?sc = "?sc0\<lparr>sc_version := FORMAT_VERSION, last_mark_end := 0\<rparr>"
  let ?w = "\<lparr>wk_scan = ?sc, wk_holes = 0, wk_found = [], wk_boundary = 0, wk_bytes = 0\<rparr>"
  obtain w' where w': "feed (walk_item (sf_generation sf) index) (map (\<lambda>it. (it, no_damage)) (laid 0 rs)) no_damage ?w =
      (w', Finished, no_damage)"
    "wk_scan w' = fold (\<lambda>it. scan_item it (sf_generation sf) index) (laid 0 rs) ?sc" "wk_found w' = []" "wk_holes w' = 0"
    using feed_walk [of ?w "sf_generation sf" index "laid 0 rs"] by auto
  have e: "each_record (walk_item (sf_generation sf) index) (new_reader \<lparr>delivers = bs @ X, fails = f\<rparr> (length bs) mode) ?w =
      Some (w', Finished, no_damage)"
    using each_record_whole [OF read_whole_wire [OF bs, of mode], of "\<lparr>delivers = bs @ X, fails = f\<rparr>" X
        "walk_item (sf_generation sf) index" READ_CHUNK ?w] w'(1) by (simp add: new_reader_def)
  have "untroubled shards files B ?sc" using u by (simp add: untroubled_def)
  from scan_items_untroubled [OF this _ p, of "sf_generation sf" index 0]
  have "untroubled shards files (\<lambda>s. B s @ filed (sf_generation sf) index rs s) (close_segment index FORMAT_VERSION w' Finished no_damage)"
    using w' by (intro close_untroubled) simp_all
  moreover have "scan_segment disk mode sf index sc = Some (Inr (close_segment index FORMAT_VERSION w' Finished no_damage))"
    using d hd e by (simp add: scan_segment_def scan_body_def note_cuts_def sound_list_def Let_def)
  ultimately show ?thesis by blast
qed

text \<open>The buckets once every file has been read.\<close>

fun filed_all :: "segment_file list \<Rightarrow> log_record list list \<Rightarrow> nat \<Rightarrow> nat \<Rightarrow> bucket" where
  "filed_all (sf # sfs) (rs # rss) i s = filed (sf_generation sf) i rs s @ filed_all sfs rss (Suc i) s"
| "filed_all _ _ i s = []"

lemma scan_clean_files:
  assumes "list_all2 (clean_file disk) sfs rss" "untroubled shards files B sc" "\<forall>r \<in> set (concat rss). plain shards r" "shards < 2 ^ 16"
  shows "\<exists>sc'. scan_segments disk mode sfs index sc = Some (Inr sc') \<and>
    untroubled shards files (\<lambda>s. B s @ filed_all sfs rss index s) sc'"
  using assms
proof (induction arbitrary: index B sc rule: list_all2_induct)
  case Nil
  then show ?case by simp
next
  case (Cons sf sfs rs rss)
  obtain sc1 where s: "scan_segment disk mode sf index sc = Some (Inr sc1)"
    "untroubled shards files (\<lambda>s. B s @ filed (sf_generation sf) index rs s) sc1"
    using scan_clean_file [OF Cons.prems(1) Cons.hyps(1) _ Cons.prems(3)] Cons.prems(2) by fastforce
  from Cons.IH [OF s(2) _ Cons.prems(3), of "Suc index"] Cons.prems(2) show ?case by (simp add: s(1))
qed

lemma filed_all_entries:
  assumes "length sfs = length rss"
  shows "map (\<lambda>r. (seq_of r, effect_of r)) (filed_all sfs rss i s) = replay_list (filter (\<lambda>r. unat (rec_shard r) = s) (concat rss))"
    "\<forall>r \<in> set (filed_all sfs rss i s). file_of r < i + length sfs"
  using assms by (induction sfs rss i s rule: filed_all.induct) (auto simp: filed_def replay_list_def)

section \<open>What is rebuilt from it\<close>

lemma prefix_one_kept:
  "px_records s = px_records t \<Longrightarrow> px_expected s = px_expected t \<Longrightarrow> px_discarded s = px_discarded t \<Longrightarrow>
    px_records (fold prefix_one L s) = px_records (fold prefix_one L t) \<and> px_discarded (fold prefix_one L s) = px_discarded (fold prefix_one L t)"
proof (induction L arbitrary: s t)
  case (Cons r L)
  have "px_records (prefix_one r s) = px_records (prefix_one r t)" "px_expected (prefix_one r s) = px_expected (prefix_one r t)"
    "px_discarded (prefix_one r s) = px_discarded (prefix_one r t)"
    using Cons.prems by (simp_all add: prefix_one_def case_prod_unfold)
  from Cons.IH [OF this] show ?case by simp
qed simp

lemma prefix_of_kept:
  "px_records (prefix_of bucket rbs start kept) = px_records (prefix_of bucket rbs start kept') \<and>
    px_discarded (prefix_of bucket rbs start kept) = px_discarded (prefix_of bucket rbs start kept')"
  unfolding prefix_of_def Let_def by (rule prefix_one_kept) simp_all

text \<open>What pass 4 makes of one shard; the files kept play no part in it.\<close>

definition tail_shard :: "siphash \<Rightarrow> recover_spec \<Rightarrow> scan \<Rightarrow> (u64 \<times> u64) list list \<Rightarrow> chosen \<Rightarrow> building \<Rightarrow> nat \<Rightarrow> recovered_shard" where
  "tail_shard sip sp sc rbs ch b i = last (fst (replay_tail sip sp sc rbs ch b i ([], [], empty_report)))"

lemma replay_tail_shard:
  "fst (replay_tail sip sp sc rbs ch b i (shards, kept, rep)) = shards @ [tail_shard sip sp sc rbs ch b i]"
proof -
  let ?base = "case ch_images ch ! i of Some s \<Rightarrow> s | None \<Rightarrow> 0"
  note k = prefix_of_kept [of "sc_buckets sc ! i" "rbs ! i" ?base kept "[]"]
  show ?thesis
    unfolding tail_shard_def replay_tail_def Let_def prod.case
    by (simp add: k case_prod_unfold)
qed

lemma replay_tails_shards:
  "fst (replay_tails sip sp sc rbs ch b files rep) = map (tail_shard sip sp sc rbs ch b) [0..<length (bd_dicts b)]"
proof -
  have "fst (fold (replay_tail sip sp sc rbs ch b) is st) = fst st @ map (tail_shard sip sp sc rbs ch b) is" for "is" st
  proof (induction "is" arbitrary: st)
    case (Cons i "is")
    obtain shards kept rep where st: "st = (shards, kept, rep)" by (cases st)
    show ?case using Cons.IH [of "replay_tail sip sp sc rbs ch b i st"] replay_tail_shard by (simp add: st)
  qed simp
  then show ?thesis by (simp add: replay_tails_def Let_def)
qed

lemma of_nat_unat_u64: "n < 2 ^ 64 \<Longrightarrow> unat (of_nat n :: u64) = n"
  by (simp only: unsigned_of_nat) (simp add: take_bit_nat_eq_self)

lemma of_nat_u64_less: "i < j \<Longrightarrow> j < 2 ^ 64 \<Longrightarrow> (of_nat i :: u64) < of_nat j"
  by (simp add: word_less_nat_alt of_nat_unat_u64)

lemma of_nat_u64_inj: "i < 2 ^ 64 \<Longrightarrow> j < 2 ^ 64 \<Longrightarrow> (of_nat i :: u64) = of_nat j \<Longrightarrow> i = j"
  by (metis of_nat_unat_u64)

lemma U64_MAX_nat: "U64_MAX = of_nat (2 ^ 64 - 1)"
  by (simp add: U64_MAX_def)

lemma prefix_whole:
  assumes b: "map (\<lambda>r. (seq_of r, effect_of r)) bucket = zip (map of_nat [0..<length es]) es"
    and n: "length es < 2 ^ 64 - 1"
  shows "map snd (px_records (prefix_of bucket [] 0 kept)) = es \<and>
    map fst (px_records (prefix_of bucket [] 0 kept)) = map of_nat [0..<length es] \<and> px_discarded (prefix_of bucket [] 0 kept) = 0"
proof -
  obtain K where K: "\<forall>r \<in> set bucket. file_of r < K"
    using finite_nat_set_iff_bounded [of "file_of ` set bucket"] by auto
  have in1: "\<exists>i < length es. seq_of r = of_nat i \<and> effect_of r = es ! i" if "r \<in> set bucket" for r
  proof -
    have "(seq_of r, effect_of r) \<in> set (zip (map of_nat [0..<length es]) es)" using that by (simp flip: b)
    then show ?thesis by (auto simp: in_set_zip)
  qed
  have in2: "\<exists>r \<in> set bucket. seq_of r = of_nat i" if "i < length es" for i
  proof -
    have "(of_nat i :: u64, es ! i) \<in> set (zip (map of_nat [0..<length es]) es)" using that by (force simp: in_set_zip)
    then have "(of_nat i, es ! i) \<in> (\<lambda>r. (seq_of r, effect_of r)) ` set bucket" unfolding b [symmetric] by simp
    then obtain r where "r \<in> set bucket" "(of_nat i, es ! i) = (seq_of r, effect_of r)" by blast
    then show ?thesis by (intro bexI [of _ r]) simp_all
  qed
  have max: "\<forall>r \<in> set bucket. seq_of r < U64_MAX \<and> file_of r < length (replicate K False)"
  proof
    fix r assume r: "r \<in> set bucket"
    then obtain i where i: "i < length es" "seq_of r = of_nat i" using in1 by blast
    have "(of_nat i :: u64) < of_nat (2 ^ 64 - 1)" using i(1) n by (intro of_nat_u64_less) simp_all
    then show "seq_of r < U64_MAX \<and> file_of r < length (replicate K False)" using i(2) K r by (simp only: U64_MAX_nat) simp
  qed
  let ?px = "prefix_of bucket [] 0 (replicate K False)"
  obtain rs st where run: "run_from rs st (live_records bucket [] 0) ?px" and st: "px_records st = []" "px_expected st = 0"
    using prefix_of_run [OF max, of 0 "[]"] by force
  have L: "set (live_records bucket [] 0) = set bucket" by (simp add: live_records_sorted live_def dead_record_def)
  note run = run_fromD [OF run, unfolded L st]
  have from_bucket: "\<exists>i < length es. fst x = of_nat i \<and> snd x = es ! i" if "x \<in> set rs" for x
  proof -
    have "newest_in (live_records bucket [] 0) (px_kept ?px) x" using run(5) that by blast
    then obtain r where "r \<in> set bucket" "seq_of r = fst x" "effect_of r = snd x" unfolding newest_in_def L by blast
    then show ?thesis using in1 [of r] by auto
  qed
  have nth: "fst (rs ! i) = of_nat i" if "i < length rs" for i
    using arg_cong [OF run(2), of "\<lambda>xs. xs ! i"] that by simp
  have le: "length rs \<le> length es"
  proof (rule ccontr)
    assume "\<not> length rs \<le> length es"
    then have m: "length es < length rs" by simp
    then obtain i where i: "i < length es" "fst (rs ! length es) = of_nat i" using from_bucket [of "rs ! length es"] by auto
    then have "(of_nat i :: u64) = of_nat (length es)" using nth [OF m] by simp
    then show False using of_nat_u64_less [OF i(1)] n by simp
  qed
  have eq: "length rs = length es"
  proof (rule ccontr)
    assume "length rs \<noteq> length es"
    then have "length rs < length es" using le by simp
    then obtain r where "r \<in> set bucket" "seq_of r = of_nat (length rs)" using in2 by blast
    then show False using run(3,6) by simp
  qed
  have "snd (rs ! i) = es ! i" if i: "i < length es" for i
  proof -
    obtain j where j: "j < length es" "fst (rs ! i) = of_nat j" "snd (rs ! i) = es ! j"
      using from_bucket [of "rs ! i"] i eq by auto
    then have "i = j" using of_nat_u64_inj [of i j] nth [of i] i eq n by simp
    then show ?thesis using j(3) by simp
  qed
  then have "map snd rs = es" using eq by (intro nth_equalityI) simp_all
  moreover have "filter (\<lambda>r. px_expected ?px < seq_of r) (live_records bucket [] 0) = []"
  proof -
    have "\<not> px_expected ?px < seq_of r" if m: "r \<in> set bucket" for r
    proof -
      obtain i where i: "i < length es" "seq_of r = of_nat i" using in1 [OF m] by blast
      then show ?thesis using of_nat_u64_less [OF i(1)] n run(3) eq by simp
    qed
    then show ?thesis using L by (simp add: filter_empty_conv)
  qed
  ultimately show ?thesis
    using run(1,2,7) eq prefix_of_kept [of bucket "[]" 0 kept "replicate K False"] by simp
qed

text \<open>\<open>logs_of shards R es\<close>: the records \<open>R\<close> are, shard by shard, the journal of the effects \<open>es\<close>.\<close>

definition logs_of :: "nat \<Rightarrow> log_record list \<Rightarrow> (nat \<Rightarrow> effect list) \<Rightarrow> bool" where
  "logs_of shards R es =
     (\<forall>s < shards. journal (of_nat s) 0 (es s) = Some (filter (\<lambda>r. rec_shard r = of_nat s) R) \<and>
        Rebase \<notin> set (es s) \<and> length (es s) < 2 ^ 64 - 1)"

lemma unat_of_nat_shard: "s < 2 ^ 16 \<Longrightarrow> unat (w :: u16) = s \<longleftrightarrow> w = of_nat s"
  using of_nat_unat_u16 [of s] by auto

lemma filed_all_logs:
  assumes "logs_of shards (concat rss) es" "s < shards" "shards < 2 ^ 16" "length sfs = length rss"
  shows "map (\<lambda>r. (seq_of r, effect_of r)) (filed_all sfs rss i s) = zip (map of_nat [0..<length (es s)]) (es s)"
proof -
  have "filter (\<lambda>r. unat (rec_shard r) = s) (concat rss) = filter (\<lambda>r. rec_shard r = of_nat s) (concat rss)"
    using assms(2,3) unat_of_nat_shard [of s] by simp
  moreover have "journal (of_nat s) 0 (es s) = Some (filter (\<lambda>r. rec_shard r = of_nat s) (concat rss))"
    using assms(1,2) by (simp add: logs_of_def)
  note l = replay_list_effects [OF this]
  ultimately show ?thesis
    using filed_all_entries(1) [OF assms(4), of i s] zip_map_fst_snd [of "replay_list (filter (\<lambda>r. rec_shard r = of_nat s) (concat rss))"] l
    by simp
qed

lemma filed_all_no_rebase:
  assumes "logs_of shards (concat rss) es" "s < shards" "shards < 2 ^ 16" "length sfs = length rss" "r \<in> set (filed_all sfs rss i s)"
  shows "effect_of r \<noteq> Rebase"
proof -
  have "(seq_of r, effect_of r) \<in> set (zip (map of_nat [0..<length (es s)]) (es s))"
    using assms(5) by (simp flip: filed_all_logs [OF assms(1-4), of i])
  then have "effect_of r \<in> set (es s)" by (rule set_zip_rightD)
  then show ?thesis using assms(1,2) by (auto simp: logs_of_def)
qed

lemma rebases_none:
  assumes "untroubled shards files B sc" "\<forall>s < shards. \<forall>r \<in> set (B s). effect_of r \<noteq> Rebase"
  shows "rebases sc [] = replicate shards []"
proof -
  have none: "filter (\<lambda>(_, _, _, e). e = Rebase) (B s) = []" if "s < shards" for s
    using assms(2) that by (fastforce simp: filter_empty_conv)
  have "map2 (\<lambda>bucket points. map (\<lambda>(seq, g, _, _). (g, seq)) (filter (\<lambda>(_, _, _, e). e = Rebase) bucket) @ filter P points)
      (map B [0..<shards]) (replicate shards []) = replicate shards []" for P :: "u64 \<times> u64 \<Rightarrow> bool"
    by (intro nth_equalityI) (simp_all add: none)
  then show ?thesis using assms(1) by (simp add: rebases_def untroubled_def map_filter_simps)
qed

definition no_images :: "nat \<Rightarrow> chosen" where
  "no_images n = \<lparr>ch_images = replicate n None, ch_times = replicate n None, ch_refused = replicate n None\<rparr>"

lemma tail_shard_whole:
  assumes u: "untroubled shards files B sc" and i: "i < shards" "sp_shards sp = shards"
    and b: "map (\<lambda>r. (seq_of r, effect_of r)) (B i) = zip (map of_nat [0..<length es]) es" "length es < 2 ^ 64 - 1"
  shows "let sh = tail_shard sip sp sc (replicate shards []) (no_images shards) (fresh_building sp) i in
    rs_seq sh = of_nat (length es) \<and> dict_inv sip (rs_dict sh) \<and>
    items (rs_dict sh) = (\<lambda>key. Option.bind (fold run_effect es (\<lambda>_. None) key) (settle (sp_now sp))) \<and>
    \<not> rs_lossy sh \<and> \<not> rs_cut sh"
proof -
  define px where "px = prefix_of (B i) [] 0 []"
  have px: "map snd (px_records px) = es" "map fst (px_records px) = map of_nat [0..<length es]" "px_discarded px = 0"
    using prefix_whole [OF b, of "[]"] by (simp_all add: px_def)
  let ?d = "with_seed (shard_seed (sp_seed sp) i)"
  obtain d seq where r: "replay_into sip ?d 0 (px_records px) (sp_now sp) [] = (d, seq)" by fastforce
  have d: "dict_inv sip d" "items d = (\<lambda>key. Option.bind (fold run_effect es (\<lambda>_. None) key) (settle (sp_now sp)))"
    using replay_into_items [OF replaying_new [of sip "sp_now sp" "shard_seed (sp_seed sp) i"], of 0 "px_records px"] r px(1)
    by simp_all
  have len: "length (px_records px) = length es" using arg_cong [OF px(1), of length] by simp
  have "seq = of_nat (length es)"
  proof (cases "es = []")
    case True
    then show ?thesis using replay_seq [of sip ?d 0 "px_records px" "sp_now sp" "[]"] r len by simp
  next
    case False
    then have ne: "px_records px \<noteq> []" using len by auto
    have "fst (last (px_records px)) = last (map fst (px_records px))" using ne by (rule last_map [symmetric])
    also have "\<dots> = of_nat (length es - 1)" unfolding px(2) using False by (simp add: last_map)
    finally have "fst (last (px_records px)) + 1 = of_nat (Suc (length es - 1))" by simp
    then show ?thesis using replay_seq [of sip ?d 0 "px_records px" "sp_now sp" "[]"] r ne False by simp
  qed
  moreover have "tail_shard sip sp sc (replicate shards []) (no_images shards) (fresh_building sp) i =
      \<lparr>rs_dict = d, rs_seq = seq, rs_lossy = False, rs_cut = False, rs_image_unix_millis = None\<rparr>"
    using u i r px(3) px_def
    by (simp add: tail_shard_def replay_tail_def no_images_def fresh_building_def untroubled_def Let_def)
  ultimately show ?thesis using d by simp
qed

lemma read_headers_none:
  assumes "\<forall>name \<in> set names. parse_snapshot_name name = None"
  shows "read_headers sp disk names rep = Inr ([], False, rep)"
proof -
  have "read_header_files sp disk names = Inr []" using assms by (induction names) auto
  then show ?thesis by (simp add: read_headers_def)
qed

lemma recover_undamaged:
  assumes names: "dv_list disk = Some names" "\<forall>name \<in> set names. parse_snapshot_name name = None"
    and files: "list_all2 (clean_file disk) (segment_files names) rss"
    and shards: "sp_shards sp < 2 ^ 16" "\<forall>r \<in> set (concat rss). plain (sp_shards sp) r" "logs_of (sp_shards sp) (concat rss) es"
  shows "\<exists>rv. recover sip sp disk = Some (Inr rv) \<and> length (rv_shards rv) = sp_shards sp \<and>
    (\<forall>s < sp_shards sp. let sh = rv_shards rv ! s in
       rs_seq sh = of_nat (length (es s)) \<and> dict_inv sip (rs_dict sh) \<and>
       items (rs_dict sh) = (\<lambda>key. Option.bind (fold run_effect (es s) (\<lambda>_. None) key) (settle (sp_now sp))) \<and>
       \<not> rs_lossy sh \<and> \<not> rs_cut sh)"
proof -
  let ?n = "sp_shards sp" let ?files = "segment_files names"
  have len: "length ?files = length rss" using files by (rule list_all2_lengthD)
  define B where "B = filed_all ?files rss 0"
  obtain sc where sc: "scan_segments disk (sp_reader sp) ?files 0 ((scan_new ?n (length ?files) (tear_of disk ?files))\<lparr>unattributed_loss := False\<rparr>) = Some (Inr sc)"
    "untroubled ?n (length ?files) B sc"
  proof -
    have "untroubled ?n (length ?files) (\<lambda>_. []) ((scan_new ?n (length ?files) (tear_of disk ?files))\<lparr>unattributed_loss := False\<rparr>)"
      using untroubled_new by (simp add: untroubled_def)
    from scan_clean_files [OF files this shards(2,1), of "sp_reader sp" 0] that show ?thesis by (auto simp: B_def)
  qed
  have ch: "charge_holes sc = sc"
    using sc(2) by (cases sc) (simp add: charge_holes_def mark_behind_def untroubled_def)
  have rb: "rebases sc [] = replicate ?n []"
    by (rule rebases_none [OF sc(2)]) (use filed_all_no_rebase [OF shards(3) _ shards(1) len] in \<open>auto simp: B_def\<close>)
  have len_b: "length (bd_dicts (fresh_building sp)) = ?n" by (simp add: fresh_building_def)
  obtain rv where rv: "rebuild sip sp disk ?files [] sc empty_report = Some rv"
    "rv_shards rv = map (tail_shard sip sp sc (replicate ?n []) (no_images ?n) (fresh_building sp)) [0..<?n]"
  proof -
    let ?t = "replay_tails sip sp sc (replicate ?n []) (no_images ?n) (fresh_building sp) (length ?files) empty_report"
    have "read_images sip sp disk [] (replicate ?n []) (fresh_building sp) empty_report = Some ([], no_images ?n, fresh_building sp, empty_report)"
      by (simp add: read_images_def no_images_def len_b Let_def)
    then have "\<exists>rv. rebuild sip sp disk ?files [] sc empty_report = Some rv \<and> rv_shards rv = fst ?t"
      by (simp add: rebuild_def rb case_prod_unfold Let_def)
    then show ?thesis using that replay_tails_shards len_b by metis
  qed
  have "recover sip sp disk = Some (Inr rv)"
    using names(1) read_headers_none [OF names(2)] sc(1) ch rv(1) by (simp add: recover_def Let_def)
  moreover have "let sh = rv_shards rv ! s in rs_seq sh = of_nat (length (es s)) \<and> dict_inv sip (rs_dict sh) \<and>
       items (rs_dict sh) = (\<lambda>key. Option.bind (fold run_effect (es s) (\<lambda>_. None) key) (settle (sp_now sp))) \<and>
       \<not> rs_lossy sh \<and> \<not> rs_cut sh" if s: "s < ?n" for s
  proof -
    have "length (es s) < 2 ^ 64 - 1" using shards(3) s by (simp add: logs_of_def)
    from tail_shard_whole [OF sc(2) s refl _ this] filed_all_logs [OF shards(3) s shards(1) len] rv(2) s show ?thesis
      by (simp add: B_def)
  qed
  ultimately show ?thesis using rv(2) by (intro exI [of _ rv]) simp
qed

section \<open>Properties\<close>


text \<open>C13. The prefix rule. Of the records of a shard that no newer generation's rebase killed, a
  start replays the numbers \<open>start\<close>, \<open>start + 1\<close>, \<dots> up to the first one missing, the newest
  generation's record of each; it counts every live record past the gap as discarded; and it
  keeps the file of every record it replayed or cut, and of every rebase.\<close>

theorem prefix_rule:
  assumes "\<forall>r \<in> set bucket. seq_of r < U64_MAX \<and> file_of r < length kept"
  shows "let px = prefix_of bucket rbs start kept; n = length (px_records px); gap = start + of_nat n in
    map fst (px_records px) = map (\<lambda>i. start + of_nat i) [0..<n] \<and>
    (\<forall>(seq, e) \<in> set (px_records px). \<exists>r \<in> set (live rbs start bucket).
       seq_of r = seq \<and> effect_of r = e \<and> px_kept px ! file_of r \<and>
       (\<forall>s \<in> set (live rbs start bucket). seq_of s = seq \<longrightarrow> gen_of s \<le> gen_of r)) \<and>
    (\<forall>r \<in> set (live rbs start bucket). seq_of r \<noteq> gap) \<and>
    px_discarded px = length (filter (\<lambda>r. gap < seq_of r) (live rbs start bucket)) \<and>
    (\<forall>r \<in> set (live rbs start bucket). gap < seq_of r \<longrightarrow> px_kept px ! file_of r) \<and>
    (\<forall>r \<in> set bucket. effect_of r = Rebase \<longrightarrow> px_kept px ! file_of r)"
proof -
  let ?px = "prefix_of bucket rbs start kept" let ?L = "live_records bucket rbs start"
  obtain rs kept' where k: "\<forall>r \<in> set bucket. effect_of r = Rebase \<or> kept ! file_of r \<longrightarrow> kept' ! file_of r"
    and run: "run_from rs \<lparr>px_records = [], px_expected = start, px_discarded = 0, px_kept = kept'\<rparr> ?L ?px"
    using prefix_of_run [OF assms, of start rbs] by blast
  have L: "set ?L = set (live rbs start bucket)" using live_records_mset by (metis mset_eq_setD)
  have f: "length (filter P ?L) = length (filter P (live rbs start bucket))" for P
    using live_records_mset [of bucket rbs start] by (metis mset_filter size_mset)
  note run = run_fromD [OF run, simplified]
  have "\<forall>x \<in> set rs. \<exists>r \<in> set (live rbs start bucket). seq_of r = fst x \<and> effect_of r = snd x \<and> px_kept ?px ! file_of r \<and>
      (\<forall>s \<in> set (live rbs start bucket). seq_of s = fst x \<longrightarrow> gen_of s \<le> gen_of r)"
    using run(5) unfolding newest_in_def L by blast
  then show ?thesis
    using run k unfolding L f Let_def by (auto simp: case_prod_unfold)
qed


text \<open>C24. A new process's generation is above every one that left a trace: the counter as
  recorded, and every segment and snapshot on the disk, so that no file it creates can take the
  name of one already there; and the counter it writes reads back as itself.\<close>

theorem next_generation_fresh:
  assumes "next_generation disk = Some g" "dv_list disk = Some names"
    and "\<forall>h \<in> set (List.map_filter name_generation names). h < U64_MAX" "\<forall>h. read_generation disk = Some h \<longrightarrow> h < U64_MAX"
  shows "(\<forall>h. read_generation disk = Some h \<longrightarrow> h < g) \<and>
    (\<forall>h r. segment_name h r \<in> set names \<longrightarrow> h < g) \<and> (\<forall>h e c. snapshot_name h e c \<in> set names \<longrightarrow> h < g) \<and>
    (\<forall>r e c. segment_name g r \<notin> set names \<and> snapshot_name g e c \<notin> set names) \<and>
    dv_write disk GENERATION_TMP (decimal (unat g)) \<and>
    parse_generation (Some \<lparr>delivers = decimal (unat g), fails = False\<rparr>) = Some g"
proof -
  note above = next_generation_above [OF assms]
  have b: "h < g" if "name \<in> set names" "name_generation name = Some h" for name h
  proof -
    have "h \<in> set (List.map_filter name_generation names)" using that by (force simp: List.map_filter_def)
    then show ?thesis using above(1) by blast
  qed
  have "dv_write disk GENERATION_TMP (decimal (unat g))"
    using assms(1,2) by (auto simp: next_generation_def Let_def split: if_splits)
  moreover have "parse_generation (Some \<lparr>delivers = decimal (unat g), fails = False\<rparr>) = Some g"
    using unat_u64_less [of g] by (simp add: parse_generation_def trim_decimal parse_std_u64_decimal)
  ultimately show ?thesis
    using above(2) b name_generation_names by (metis less_irrefl)
qed

section \<open>Witnesses\<close>

text \<open>A disk with one segment of generation 4, the bytes \<open>c\<close>.\<close>

definition a_disk :: "bytes \<Rightarrow> disk_view" where
  "a_disk c =
     \<lparr>dv_list = Some [segment_name 4 0], dv_len = (\<lambda>_. Some (length c)), dv_open_header = (\<lambda>_. None),
      dv_open = (\<lambda>name. if name = segment_name 4 0 then Some \<lparr>delivers = c, fails = False\<rparr> else None),
      dv_remove = (\<lambda>_. True), dv_sync = (\<lambda>_. Some True), dv_sync_dir = True, dv_write = (\<lambda>_ _. True), dv_rename = (\<lambda>_ _. True)\<rparr>"

definition a_spec :: recover_spec where
  "a_spec = \<lparr>sp_shards = 1, sp_reader = Resynchronising, sp_trust_unfinished = False, sp_seed = seed_zero, sp_now = past_five\<rparr>"

lemma a_disk_files:
  "segment_files [segment_name 4 0] = [\<lparr>sf_generation = 4, sf_rotation = 0, sf_name = segment_name 4 0\<rparr>]"
  "parse_snapshot_name (segment_name 4 0) = None"
proof -
  show "segment_files [segment_name 4 0] = [\<lparr>sf_generation = 4, sf_rotation = 0, sf_name = segment_name 4 0\<rparr>]"
    by (simp add: segment_files_def map_filter_simps parse_segment_file_def parse_segment_name_name)
  have "strip_suffix (ascii ''.snap'') (segment_name 4 0) = None" by (simp add: strip_suffix_def segment_name_def)
  then show "parse_snapshot_name (segment_name 4 0) = None" by (simp add: parse_snapshot_name_def parse_name_def)
qed

lemma a_segment:
  "\<exists>c r. clean_file (a_disk c) \<lparr>sf_generation = 4, sf_rotation = 0, sf_name = segment_name 4 0\<rparr> [r] \<and>
    plain 1 r \<and> journal 0 0 [Put [1] [2] None] = Some [r] \<and> rec_shard r = 0"
proof -
  obtain p where p: "encode (Put [1] [2] None) = Some p" "length p = 12"
    using encode_fits [of "Put [1] [2] None"] by (auto simp: deadline_len_def)
  define r where "r = \<lparr>rec_shard = 0, rec_seq = 0, rec_payload = p\<rparr>"
  obtain bs where bs: "encode_record r = Some bs" using p(2) by (simp add: r_def encode_record_def BODY_FIXED_LEN_def Let_def)
  obtain h where h: "encode_segment_header 4 0 [] = Some h" by (simp add: encode_segment_header_eq)
  have "fits r" using p(2) by (simp add: fits_def r_def record_consts)
  then have "clean_file (a_disk (h @ bs)) \<lparr>sf_generation = 4, sf_rotation = 0, sf_name = segment_name 4 0\<rparr> [r]"
    unfolding clean_file_def using h bs
    by (intro exI [of _ 4] exI [of _ 0] exI [of _ h] exI [of _ bs] exI [of _ "[]"] exI [of _ False]) (simp add: a_disk_def)
  moreover have "plain 1 r" using decode_encode [OF p(1)] by (simp add: plain_def r_def)
  moreover have "journal 0 0 [Put [1] [2] None] = Some [r]" using p(1) by (simp add: r_def)
  ultimately show ?thesis by (auto simp: r_def)
qed


theorem prefix_rule_witness:
  "let b = [(0, 4, 0, Flush), (2, 4, 1, Flush), (0, 3, 1, Rebase)]; px = prefix_of b [] 0 [False, False] in
    (\<forall>r \<in> set (live [] 0 b). seq_of r \<noteq> of_nat (length (px_records px))) \<and> px_kept px ! 1 \<and>
    px_discarded px = length (filter (\<lambda>r. of_nat (length (px_records px)) < seq_of r) (live [] 0 b))"
proof -
  have "\<forall>r \<in> set [(0, 4, 0, Flush), (2, 4, 1, Flush), (0, 3, 1, Rebase)]. seq_of r < U64_MAX \<and> file_of r < length [False, False]"
    by (simp add: U64_MAX_def word_less_nat_alt unsigned_minus_1_eq_mask mask_eq_exp_minus_1)
  from prefix_rule [OF this, of "[]" 0] show ?thesis by (simp add: Let_def)
qed


theorem next_generation_fresh_witness:
  "next_generation (a_disk []) = Some 5 \<and> (\<forall>r e c. segment_name 5 r \<noteq> segment_name 4 0 \<and> snapshot_name 5 e c \<noteq> segment_name 4 0)"
proof -
  have ng: "GENERATION_FILE \<noteq> segment_name 4 0"
    using arg_cong [of GENERATION_FILE "segment_name 4 0" length] by (auto simp: GENERATION_FILE_def segment_name_def)
  have r: "read_generation (a_disk []) = None" using ng by (simp add: read_generation_def a_disk_def parse_generation_def)
  have n: "List.map_filter name_generation [segment_name 4 0] = [4]" by (simp add: map_filter_simps name_generation_names)
  have l: "dv_list (a_disk []) = Some [segment_name 4 0]" by (simp add: a_disk_def)
  have g: "next_generation (a_disk []) = Some 5"
    unfolding next_generation_def r l using n by (simp add: Let_def a_disk_def max_def)
  have "\<forall>h \<in> set (List.map_filter name_generation [segment_name 4 0]). h < U64_MAX"
    unfolding n by (simp add: U64_MAX_def word_less_nat_alt unsigned_minus_1_eq_mask mask_eq_exp_minus_1)
  from next_generation_fresh [OF g l this] r g show ?thesis by auto
qed

end
