(* ===== verification/Disk.thy ===== *)
theory Disk
  imports Prelude "HOL-Library.List_Lexorder"
begin

text \<open>
  The filesystem seam of the log, \<^verbatim>\<open>crates/seedstone-core/src/log/disk.rs\<close>: the verbs of the traits
  \<^verbatim>\<open>Disk\<close> and \<^verbatim>\<open>LogFile\<close> as a record of operations on a disk state, and the disk in a map
  that the module keeps beside the real one, with every failure it can be told to inject.
  All files of the log lie in one directory, so a path is a file's name and the directory is
  there or not. A sync that completes later is the value the call returned, awaited by
  \<open>dk_await\<close>. Locale \<open>log_disk\<close> is what the traits' documentation promises; the disk in a
  map interprets it.
\<close>

section \<open>The verbs\<close>

datatype io_error = NotFound | Failed

type_synonym 'a io = "io_error + 'a"

record ('d, 'f, 's) disk_ops =
  dk_sync_dir :: "'d \<Rightarrow> unit io \<times> 'd"
  dk_list :: "'d \<Rightarrow> bytes list io \<times> 'd"
  dk_create_append :: "bytes \<Rightarrow> 'd \<Rightarrow> 'f io \<times> 'd"
  dk_len :: "bytes \<Rightarrow> 'd \<Rightarrow> nat io \<times> 'd"
  dk_remove_file :: "bytes \<Rightarrow> 'd \<Rightarrow> unit io \<times> 'd"
  dk_write_all :: "'f \<Rightarrow> bytes \<Rightarrow> 'd \<Rightarrow> unit io \<times> 'd"
  dk_sync_data :: "'f \<Rightarrow> 'd \<Rightarrow> unit io \<times> 'd"
  dk_sync_later :: "'f \<Rightarrow> 'd \<Rightarrow> 's \<times> 'd"
  dk_await :: "'s \<Rightarrow> 'd \<Rightarrow> unit io \<times> 'd"

section \<open>A disk in a map\<close>

text \<open>An ordered map, as its entries in the order of their keys.\<close>

fun bt_insert :: "'k::linorder \<Rightarrow> 'v \<Rightarrow> ('k \<times> 'v) list \<Rightarrow> ('k \<times> 'v) list" where
  "bt_insert k v [] = [(k, v)]"
| "bt_insert k v ((k', v') # xs) =
     (if k = k' then (k, v) # xs
      else if k < k' then (k, v) # (k', v') # xs
      else (k', v') # bt_insert k v xs)"

definition bt_remove :: "'k \<Rightarrow> ('k \<times> 'v) list \<Rightarrow> ('k \<times> 'v) list" where
  "bt_remove k xs = filter (\<lambda>(k', _). k' \<noteq> k) xs"

definition or_default :: "'v \<Rightarrow> 'v option \<Rightarrow> 'v" where
  "or_default v x = (case x of Some y \<Rightarrow> y | None \<Rightarrow> v)"

datatype journal_entry = Removed bytes | DirSynced

record mem_fs =
  fs_dir :: bool
  fs_files :: "(bytes \<times> bytes) list"
  fs_synced :: "(bytes \<times> nat) list"
  fs_syncs :: "(bytes \<times> nat) list"
  fs_dir_syncs :: nat
  fs_vanishing :: "bytes list"
  fail_writes :: bool
  write_kind :: io_error
  fail_syncs :: bool
  fail_removes :: bool
  fail_creates :: bool
  sync_fails_after :: "nat option"
  write_fails_after :: "nat option"
  dir_sync_fails_after :: "nat option"
  remove_fails_after :: "nat option"
  list_reversed :: bool
  fs_journal :: "journal_entry list"

definition mem_fs_default :: mem_fs where
  "mem_fs_default =
     \<lparr>fs_dir = False, fs_files = [], fs_synced = [], fs_syncs = [], fs_dir_syncs = 0, fs_vanishing = [], fail_writes = False,
      write_kind = Failed, fail_syncs = False, fail_removes = False, fail_creates = False, sync_fails_after = None,
      write_fails_after = None, dir_sync_fails_after = None, remove_fails_after = None, list_reversed = False, fs_journal = []\<rparr>"

definition countdown :: "nat option \<Rightarrow> bool \<times> nat option" where
  "countdown slot = (case slot of Some left \<Rightarrow> if left = 0 then (True, None) else (False, Some (left - 1)) | None \<Rightarrow> (False, None))"

definition contents :: "bytes \<Rightarrow> mem_fs \<Rightarrow> bytes" where
  "contents path fs = or_default [] (map_of (fs_files fs) path)"

definition synced_len :: "bytes \<Rightarrow> mem_fs \<Rightarrow> nat" where
  "synced_len path fs = or_default 0 (map_of (fs_synced fs) path)"

definition mark_synced :: "bytes \<Rightarrow> mem_fs \<Rightarrow> mem_fs" where
  "mark_synced path fs =
     fs\<lparr>fs_synced := bt_insert path (length (contents path fs)) (fs_synced fs),
        fs_syncs := bt_insert path (or_default 0 (map_of (fs_syncs fs) path) + 1) (fs_syncs fs)\<rparr>"

definition sync_fails :: "mem_fs \<Rightarrow> bool \<times> mem_fs" where
  "sync_fails fs =
     (if fail_writes fs \<or> fail_syncs fs then (True, fs)
      else let (now, slot) = countdown (sync_fails_after fs) in (now, fs\<lparr>sync_fails_after := slot\<rparr>))"

definition mem_write_all :: "bytes \<Rightarrow> bytes \<Rightarrow> mem_fs \<Rightarrow> unit io \<times> mem_fs" where
  "mem_write_all path bytes fs =
     (if fail_writes fs then (Inl (write_kind fs), fs)
      else let (now, slot) = countdown (write_fails_after fs); fs' = fs\<lparr>write_fails_after := slot\<rparr> in
        if now then (Inl (write_kind fs), fs')
        else (Inr (), fs'\<lparr>fs_files := bt_insert path (contents path fs' @ bytes) (fs_files fs')\<rparr>))"

definition mem_sync_data :: "bytes \<Rightarrow> mem_fs \<Rightarrow> unit io \<times> mem_fs" where
  "mem_sync_data path fs =
     (let (now, fs') = sync_fails fs in if now then (Inl Failed, fs') else (Inr (), mark_synced path fs'))"

definition mem_sync_later :: "bytes \<Rightarrow> mem_fs \<Rightarrow> unit io \<times> mem_fs" where
  "mem_sync_later path fs =
     (let (now, fs') = sync_fails fs in if now then (Inl Failed, fs') else (Inr (), mark_synced path fs'))"

definition mem_await :: "unit io \<Rightarrow> mem_fs \<Rightarrow> unit io \<times> mem_fs" where
  "mem_await result fs = (result, fs)"

definition mem_create_dir_all :: "mem_fs \<Rightarrow> unit io \<times> mem_fs" where
  "mem_create_dir_all fs = (Inr (), fs\<lparr>fs_dir := True\<rparr>)"

definition mem_sync_dir :: "mem_fs \<Rightarrow> unit io \<times> mem_fs" where
  "mem_sync_dir fs =
     (let (now, slot) = countdown (dir_sync_fails_after fs); fs' = fs\<lparr>dir_sync_fails_after := slot\<rparr> in
      if now then (Inl Failed, fs')
      else if fs_dir fs'
      then (Inr (), fs'\<lparr>fs_dir_syncs := fs_dir_syncs fs' + 1, fs_journal := fs_journal fs' @ [DirSynced]\<rparr>)
      else (Inl NotFound, fs'))"

definition mem_sync_file :: "bytes \<Rightarrow> mem_fs \<Rightarrow> unit io \<times> mem_fs" where
  "mem_sync_file path fs =
     (let fs1 = (if path \<in> set (fs_vanishing fs)
                 then fs\<lparr>fs_vanishing := removeAll path (fs_vanishing fs), fs_files := bt_remove path (fs_files fs)\<rparr>
                 else fs) in
      if map_of (fs_files fs1) path = None then (Inl NotFound, fs1)
      else let (now, fs2) = sync_fails fs1 in if now then (Inl Failed, fs2) else (Inr (), mark_synced path fs2))"

definition mem_list :: "mem_fs \<Rightarrow> bytes list io \<times> mem_fs" where
  "mem_list fs =
     (if \<not> fs_dir fs then (Inl NotFound, fs)
      else let names = map fst (fs_files fs) in (Inr (if list_reversed fs then rev names else names), fs))"

definition mem_create_append :: "bytes \<Rightarrow> mem_fs \<Rightarrow> bytes io \<times> mem_fs" where
  "mem_create_append path fs =
     (if fail_creates fs then (Inl Failed, fs)
      else (Inr path, fs\<lparr>fs_files := bt_insert path (contents path fs) (fs_files fs)\<rparr>))"

definition mem_open_read :: "bytes \<Rightarrow> mem_fs \<Rightarrow> bytes io" where
  "mem_open_read path fs = (case map_of (fs_files fs) path of Some bytes \<Rightarrow> Inr bytes | None \<Rightarrow> Inl NotFound)"

definition mem_len :: "bytes \<Rightarrow> mem_fs \<Rightarrow> nat io \<times> mem_fs" where
  "mem_len path fs = ((case map_of (fs_files fs) path of Some bytes \<Rightarrow> Inr (length bytes) | None \<Rightarrow> Inl NotFound), fs)"

definition mem_write_file :: "bytes \<Rightarrow> bytes \<Rightarrow> mem_fs \<Rightarrow> unit io \<times> mem_fs" where
  "mem_write_file path bytes fs =
     (if fail_writes fs then (Inl (write_kind fs), fs) else (Inr (), fs\<lparr>fs_files := bt_insert path bytes (fs_files fs)\<rparr>))"

definition mem_rename :: "bytes \<Rightarrow> bytes \<Rightarrow> mem_fs \<Rightarrow> unit io \<times> mem_fs" where
  "mem_rename old new fs =
     (case map_of (fs_files fs) old of
        None \<Rightarrow> (Inl NotFound, fs)
      | Some bytes \<Rightarrow> (Inr (), fs\<lparr>fs_files := bt_insert new bytes (bt_remove old (fs_files fs))\<rparr>))"

definition mem_remove_file :: "bytes \<Rightarrow> mem_fs \<Rightarrow> unit io \<times> mem_fs" where
  "mem_remove_file path fs =
     (if fail_removes fs then (Inl Failed, fs)
      else let (now, slot) = countdown (remove_fails_after fs); fs' = fs\<lparr>remove_fails_after := slot\<rparr> in
        if now then (Inl Failed, fs')
        else if map_of (fs_files fs') path = None then (Inl NotFound, fs')
        else (Inr (), fs'\<lparr>fs_files := bt_remove path (fs_files fs'), fs_journal := fs_journal fs' @ [Removed path]\<rparr>))"

definition mem_disk_ops :: "(mem_fs, bytes, unit io) disk_ops" where
  "mem_disk_ops =
     \<lparr>dk_sync_dir = mem_sync_dir, dk_list = mem_list, dk_create_append = mem_create_append, dk_len = mem_len,
      dk_remove_file = mem_remove_file, dk_write_all = mem_write_all, dk_sync_data = mem_sync_data,
      dk_sync_later = mem_sync_later, dk_await = mem_await\<rparr>"

section \<open>What a disk promises\<close>

text \<open>\<open>stored d n\<close> is what the file \<open>n\<close> holds, \<open>firm d n\<close> how many of its bytes a crash spares,
  and \<open>pledged s n k d\<close> says that the sync \<open>s\<close>, should it succeed, covers the first \<open>k\<close> bytes of \<open>n\<close>.
  \<open>untouched\<close> is what an operation leaves alone: the files outside \<open>N\<close>, and, of every file that is still
  there, its firm bytes and the pledges over it.\<close>

definition untouched :: "('d \<Rightarrow> bytes \<Rightarrow> bytes option) \<Rightarrow> ('d \<Rightarrow> bytes \<Rightarrow> nat) \<Rightarrow> ('s \<Rightarrow> bytes \<Rightarrow> nat \<Rightarrow> 'd \<Rightarrow> bool) \<Rightarrow>
    bytes set \<Rightarrow> 'd \<Rightarrow> 'd \<Rightarrow> bool" where
  "untouched stored firm pledged N d d' =
     ((\<forall>m. m \<notin> N \<longrightarrow> stored d' m = stored d m) \<and>
      (\<forall>m. stored d m \<noteq> None \<longrightarrow> stored d' m \<noteq> None \<longrightarrow> firm d m \<le> firm d' m) \<and>
      (\<forall>m s k. stored d m \<noteq> None \<longrightarrow> stored d' m \<noteq> None \<longrightarrow> pledged s m k d \<longrightarrow> pledged s m k d'))"

locale log_disk =
  fixes ops :: "('d, 'f, 's) disk_ops"
    and stored :: "'d \<Rightarrow> bytes \<Rightarrow> bytes option"
    and firm :: "'d \<Rightarrow> bytes \<Rightarrow> nat"
    and pledged :: "'s \<Rightarrow> bytes \<Rightarrow> nat \<Rightarrow> 'd \<Rightarrow> bool"
    and name_of :: "'f \<Rightarrow> bytes"
  assumes sync_dir_ok: "dk_sync_dir ops d = (r, d') \<Longrightarrow> untouched stored firm pledged {} d d'"
    and list_ok: "dk_list ops d = (r', d') \<Longrightarrow> untouched stored firm pledged {} d d' \<and>
      (\<forall>names. r' = Inr names \<longrightarrow> set names = dom (stored d))"
    and create_ok: "dk_create_append ops n d = (rf, d') \<Longrightarrow> untouched stored firm pledged {n} d d' \<and>
      (\<forall>f. rf = Inr f \<longrightarrow> name_of f = n \<and> stored d' n = Some (or_default [] (stored d n))) \<and>
      (stored d' n = stored d n \<or> stored d n = None \<and> stored d' n = Some [])"
    and len_ok: "dk_len ops n d = (rk, d') \<Longrightarrow> untouched stored firm pledged {} d d' \<and>
      (\<forall>k. rk = Inr k \<longrightarrow> map_option length (stored d n) = Some k)"
    and remove_ok: "dk_remove_file ops n d = (r, d') \<Longrightarrow> untouched stored firm pledged {n} d d' \<and>
      stored d' n = (if r = Inr () then None else stored d n)"
    and write_ok: "dk_write_all ops f bs d = (r, d') \<Longrightarrow> stored d (name_of f) = Some c \<Longrightarrow>
      untouched stored firm pledged {name_of f} d d' \<and>
      (\<exists>k. stored d' (name_of f) = Some (c @ take k bs) \<and> (r = Inr () \<longrightarrow> k = length bs))"
    and sync_data_ok: "dk_sync_data ops f d = (r, d') \<Longrightarrow> stored d (name_of f) = Some c \<Longrightarrow>
      untouched stored firm pledged {} d d' \<and> (r = Inr () \<longrightarrow> length c \<le> firm d' (name_of f))"
    and sync_later_ok: "dk_sync_later ops f d = (s, d') \<Longrightarrow> stored d (name_of f) = Some c \<Longrightarrow>
      untouched stored firm pledged {} d d' \<and> pledged s (name_of f) (length c) d'"
    and await_ok: "dk_await ops s d = (r, d') \<Longrightarrow> untouched stored firm pledged {} d d' \<and>
      (r = Inr () \<longrightarrow> pledged s n k d \<longrightarrow> stored d n \<noteq> None \<longrightarrow> k \<le> firm d' n)"

lemma untouched_refl: "untouched stored firm pledged N d d"
  by (simp add: untouched_def)

lemma untouched_mono: "untouched stored firm pledged N d d' \<Longrightarrow> N \<subseteq> N' \<Longrightarrow> untouched stored firm pledged N' d d'"
  unfolding untouched_def by blast

lemma untouched_trans:
  assumes "untouched stored firm pledged N d d1" "untouched stored firm pledged N d1 d2"
    and "\<forall>m \<in> N. stored d m \<noteq> None \<longrightarrow> stored d1 m = None \<longrightarrow> stored d2 m = None"
  shows "untouched stored firm pledged N d d2"
proof -
  have some: "stored d1 m \<noteq> None" if "stored d m \<noteq> None" "stored d2 m \<noteq> None" for m
    using assms that unfolding untouched_def by (cases "m \<in> N") auto
  show ?thesis
    unfolding untouched_def
  proof (intro conjI allI impI)
    fix m
    assume "m \<notin> N"
    then show "stored d2 m = stored d m" using assms(1,2) by (simp add: untouched_def)
  next
    fix m
    assume m: "stored d m \<noteq> None" "stored d2 m \<noteq> None"
    then have "firm d m \<le> firm d1 m" "firm d1 m \<le> firm d2 m" using some [OF m] assms(1,2) by (simp_all add: untouched_def)
    then show "firm d m \<le> firm d2 m" by simp
    fix s k
    assume "pledged s m k d"
    then show "pledged s m k d2" using m some [OF m] assms(1,2) by (simp add: untouched_def)
  qed
qed

lemma untouched_after:
  assumes "untouched stored firm pledged {} d d1" "untouched stored firm pledged N d1 d2"
  shows "untouched stored firm pledged N d d2"
proof (rule untouched_trans [OF untouched_mono [OF assms(1)] assms(2)])
  have "\<forall>m. stored d1 m = stored d m" using assms(1) by (simp add: untouched_def)
  then show "\<forall>m \<in> N. stored d m \<noteq> None \<longrightarrow> stored d1 m = None \<longrightarrow> stored d2 m = None" by auto
qed simp

section \<open>The disk in a map keeps the promise\<close>

lemma map_of_bt_insert [simp]: "map_of (bt_insert k v xs) = (map_of xs)(k \<mapsto> v)"
  by (induction k v xs rule: bt_insert.induct) (auto simp: fun_eq_iff)

lemma map_of_bt_remove [simp]: "map_of (bt_remove k xs) = (map_of xs)(k := None)"
  by (induction xs) (auto simp: bt_remove_def fun_eq_iff)

lemma or_default_simps [simp]: "or_default v None = v" "or_default v (Some x) = x"
  by (simp_all add: or_default_def)

definition mem_stored :: "mem_fs \<Rightarrow> bytes \<Rightarrow> bytes option" where
  "mem_stored fs = map_of (fs_files fs)"

definition mem_firm :: "mem_fs \<Rightarrow> bytes \<Rightarrow> nat" where
  "mem_firm fs n = min (synced_len n fs) (length (contents n fs))"

definition mem_pledged :: "unit io \<Rightarrow> bytes \<Rightarrow> nat \<Rightarrow> mem_fs \<Rightarrow> bool" where
  "mem_pledged s n k fs = (s = Inr () \<longrightarrow> k \<le> mem_firm fs n)"

lemmas mem_defs = mem_stored_def mem_firm_def mem_pledged_def untouched_def contents_def synced_len_def

lemma mem_untouched:
  assumes "\<forall>m. m \<notin> N \<longrightarrow> map_of (fs_files fs') m = map_of (fs_files fs) m"
    and "\<forall>m. map_of (fs_files fs) m \<noteq> None \<longrightarrow> map_of (fs_files fs') m \<noteq> None \<longrightarrow> mem_firm fs m \<le> mem_firm fs' m"
  shows "untouched mem_stored mem_firm mem_pledged N fs fs'"
  using assms by (auto simp: untouched_def mem_stored_def mem_pledged_def intro: order_trans)

lemma mem_same:
  assumes "fs_files fs' = fs_files fs" "fs_synced fs' = fs_synced fs"
  shows "untouched mem_stored mem_firm mem_pledged N fs fs'"
  by (rule mem_untouched) (simp_all add: mem_firm_def contents_def synced_len_def assms)

lemma sync_fails_same: "sync_fails fs = (b, fs') \<Longrightarrow> fs_files fs' = fs_files fs \<and> fs_synced fs' = fs_synced fs"
  by (auto simp: sync_fails_def countdown_def split: if_splits option.splits)

lemma mark_synced_touches:
  "untouched mem_stored mem_firm mem_pledged N fs (mark_synced n fs)" "mem_firm (mark_synced n fs) n = length (contents n fs)"
  by (rule mem_untouched; simp add: mem_firm_def mark_synced_def contents_def synced_len_def)
    (simp add: mem_firm_def mark_synced_def contents_def synced_len_def)

lemma untouched_cong:
  "untouched mem_stored mem_firm mem_pledged N fs2 fs' \<Longrightarrow> fs_files fs2 = fs_files fs \<Longrightarrow> fs_synced fs2 = fs_synced fs \<Longrightarrow>
    untouched mem_stored mem_firm mem_pledged N fs fs'"
  by (simp add: mem_defs)

lemma mem_sync:
  assumes "(let (now, fs') = sync_fails fs in if now then (Inl Failed, fs') else (Inr (), mark_synced n fs')) = (r, fs'')"
  shows "untouched mem_stored mem_firm mem_pledged {} fs fs'' \<and> (r = Inr () \<longrightarrow> mem_firm fs'' n = length (contents n fs))"
proof -
  obtain b fs' where s: "sync_fails fs = (b, fs')" by fastforce
  have c: "contents n fs' = contents n fs" using sync_fails_same [OF s] by (simp add: contents_def)
  show ?thesis
    using assms mem_same [of fs' fs] sync_fails_same [OF s] mark_synced_touches [where fs = fs' and n = n]
      untouched_cong [of "{}" fs' "mark_synced n fs'" fs]
    by (auto simp: s c split: if_splits)
qed

interpretation mem: log_disk mem_disk_ops mem_stored mem_firm mem_pledged id
proof
  fix d r d'
  assume "dk_sync_dir mem_disk_ops d = (r, d')"
  then show "untouched mem_stored mem_firm mem_pledged {} d d'"
    by (intro mem_same) (auto simp: mem_disk_ops_def mem_sync_dir_def countdown_def Let_def split: if_splits option.splits)
next
  fix d r d'
  assume a: "dk_list mem_disk_ops d = (r, d')"
  have e: "dom (mem_stored d) = set (map fst (fs_files d))"
    by (simp add: mem_stored_def dom_map_of_conv_image_fst)
  show "untouched mem_stored mem_firm mem_pledged {} d d' \<and> (\<forall>names. r = Inr names \<longrightarrow> set names = dom (mem_stored d))"
    unfolding e using a by (auto simp: mem_disk_ops_def mem_list_def Let_def untouched_refl simp del: set_map split: if_splits)
next
  fix n d r d'
  assume a: "dk_create_append mem_disk_ops n d = (r, d')"
  show "untouched mem_stored mem_firm mem_pledged {n} d d' \<and>
    (\<forall>f. r = Inr f \<longrightarrow> id f = n \<and> mem_stored d' n = Some (or_default [] (mem_stored d n))) \<and>
    (mem_stored d' n = mem_stored d n \<or> mem_stored d n = None \<and> mem_stored d' n = Some [])"
  proof (cases "fail_creates d")
    case False
    then have d': "d' = d\<lparr>fs_files := bt_insert n (contents n d) (fs_files d)\<rparr>" "r = Inr n"
      using a by (auto simp: mem_disk_ops_def mem_create_append_def)
    have "untouched mem_stored mem_firm mem_pledged {n} d d'"
      by (rule mem_untouched) (simp_all add: d' mem_firm_def contents_def synced_len_def)
    then show ?thesis by (cases "mem_stored d n") (auto simp: d' mem_stored_def contents_def)
  qed (use a in \<open>auto simp: mem_disk_ops_def mem_create_append_def untouched_refl\<close>)
next
  fix n d r d'
  assume "dk_len mem_disk_ops n d = (r, d')"
  then show "untouched mem_stored mem_firm mem_pledged {} d d' \<and> (\<forall>k. r = Inr k \<longrightarrow> map_option length (mem_stored d n) = Some k)"
    by (auto simp: mem_disk_ops_def mem_len_def mem_stored_def untouched_refl split: option.splits)
next
  fix n d r d'
  assume a: "dk_remove_file mem_disk_ops n d = (r, d')"
  have "(r = Inr () \<and> fs_files d' = bt_remove n (fs_files d) \<or> r \<noteq> Inr () \<and> fs_files d' = fs_files d) \<and> fs_synced d' = fs_synced d"
    using a by (auto simp: mem_disk_ops_def mem_remove_file_def countdown_def Let_def split: if_splits option.splits)
  moreover from this have "untouched mem_stored mem_firm mem_pledged {n} d d'"
    by (intro mem_untouched) (auto simp: mem_firm_def contents_def synced_len_def split: if_splits)
  ultimately show "untouched mem_stored mem_firm mem_pledged {n} d d' \<and>
    mem_stored d' n = (if r = Inr () then None else mem_stored d n)"
    by (auto simp: mem_stored_def)
next
  fix f bs d r d' c
  assume a: "dk_write_all mem_disk_ops f bs d = (r, d')" and c: "mem_stored d (id f) = Some c"
  have "(r = Inr () \<and> fs_files d' = bt_insert f (c @ bs) (fs_files d) \<or> r \<noteq> Inr () \<and> fs_files d' = fs_files d) \<and>
      fs_synced d' = fs_synced d"
    using a c by (auto simp: mem_disk_ops_def mem_write_all_def countdown_def Let_def mem_stored_def contents_def split: if_splits option.splits)
  moreover from this have "untouched mem_stored mem_firm mem_pledged {f} d d'"
    using c by (intro mem_untouched) (auto simp: mem_firm_def contents_def synced_len_def mem_stored_def split: if_splits)
  ultimately show "untouched mem_stored mem_firm mem_pledged {id f} d d' \<and>
    (\<exists>k. mem_stored d' (id f) = Some (c @ take k bs) \<and> (r = Inr () \<longrightarrow> k = length bs))"
    using c by (auto simp: mem_stored_def)
next
  fix f d r d' c
  assume "dk_sync_data mem_disk_ops f d = (r, d')" and c: "mem_stored d (id f) = Some c"
  from mem_sync [of d f r d'] this
  show "untouched mem_stored mem_firm mem_pledged {} d d' \<and> (r = Inr () \<longrightarrow> length c \<le> mem_firm d' (id f))"
    by (simp add: mem_disk_ops_def mem_sync_data_def contents_def mem_stored_def)
next
  fix f d s d' c
  assume "dk_sync_later mem_disk_ops f d = (s, d')" and c: "mem_stored d (id f) = Some c"
  from mem_sync [of d f s d'] this
  show "untouched mem_stored mem_firm mem_pledged {} d d' \<and> mem_pledged s (id f) (length c) d'"
    by (simp add: mem_disk_ops_def mem_sync_later_def contents_def mem_stored_def mem_pledged_def)
next
  fix s d r d' n k
  assume "dk_await mem_disk_ops s d = (r, d')"
  then show "untouched mem_stored mem_firm mem_pledged {} d d' \<and>
    (r = Inr () \<longrightarrow> mem_pledged s n k d \<longrightarrow> mem_stored d n \<noteq> None \<longrightarrow> k \<le> mem_firm d' n)"
    by (simp add: mem_disk_ops_def mem_await_def untouched_refl mem_pledged_def)
qed

end
