(* ===== verification/Writer.thy ===== *)
theory Writer
  imports Disk Recovery Durability Persistence
begin

text \<open>
  The node's log writer, \<^verbatim>\<open>crates/seedstone-core/src/log/writer.rs\<close>: one task that owns the open
  segment, its syncs and rotations, and the removal of what snapshots have made redundant. Every
  executor is a lane; what the writer sends it is the list \<open>ln_progress\<close>, in order. The disk
  is the state \<open>w_disk\<close> under the operations of \<open>Disk\<close>; clock readings are arguments; the trace is
  left out. As in \<open>Durability\<close>, counts of batches and of bytes are naturals. \<open>None\<close> is a panic:
  a message from an executor the writer has no lane for, or a completion with no round
  in flight, or cut points that do not fit a header.
\<close>

definition SEGMENT_BYTES :: nat where "SEGMENT_BYTES = 64 * 1024 * 1024"
definition WRITTEN_GRAIN :: nat where "WRITTEN_GRAIN = WRITER_BUDGET div 4"
definition SLOW_SYNC :: nat where "SLOW_SYNC = 10 ^ 9"

definition SYNC_MARK :: bytes where
  "SYNC_MARK = (case encode_sync_mark of Some mark \<Rightarrow> mark | None \<Rightarrow> [])"

section \<open>The state\<close>

record checkpoint_config =
  cf_floor :: nat
  cf_ratio :: nat
  bytes_per_tick :: nat

record writer_plants =
  durable_on_issue :: bool
  durable_from_written_now :: bool
  removes_uncovered :: bool

record lane =
  ln_received :: "nat option"
  ln_written :: "nat option"
  ln_durable :: "nat option"
  pending_bytes :: nat
  written_bytes :: nat
  reported_bytes :: nat
  ln_covered :: "nat option"
  snapshot_bytes :: "nat option"
  ln_nudged :: bool
  ln_refusing :: bool
  ln_stopped :: bool
  ln_progress :: "progress list"

definition lane_new :: lane where
  "lane_new =
     \<lparr>ln_received = None, ln_written = None, ln_durable = None, pending_bytes = 0, written_bytes = 0, reported_bytes = 0,
      ln_covered = None, snapshot_bytes = None, ln_nudged = False, ln_refusing = False, ln_stopped = False, ln_progress = []\<rparr>"

record closed =
  cl_rotation :: u32
  cl_last_batch :: "nat option list"
  cl_bytes :: nat

record 'f segment =
  sg_file :: 'f
  sg_rotation :: u32
  sg_attempted :: u32
  sg_bytes :: nat
  sg_dirty :: bool
  sg_failed :: bool

definition segment_new :: "'f \<Rightarrow> u32 \<Rightarrow> 'f segment" where
  "segment_new f rotation =
     \<lparr>sg_file = f, sg_rotation = rotation, sg_attempted = rotation, sg_bytes = 0, sg_dirty = False, sg_failed = False\<rparr>"

record ('d, 'f, 's) writer =
  w_disk :: 'd
  w_generation :: u64
  w_cuts :: "(u16 \<times> u64) list"
  w_policy :: sync_policy
  segment_bytes :: nat
  w_checkpoint :: checkpoint_config
  w_plants :: writer_plants
  segment :: "'f segment"
  lanes :: "lane list"
  staged :: bytes
  in_flight :: "(nat option list \<times> 's) option"
  issued_at :: instant
  slow_warned :: bool
  sync_wanted :: bool
  w_round :: u64
  w_closed :: "closed list"
  older_bytes :: nat
  older_segments :: nat
  older_seg_bytes :: nat
  w_stats :: persistence_stats

text \<open>A verb of the disk, on the writer's.\<close>

definition on_disk :: "('d \<Rightarrow> 'a \<times> 'd) \<Rightarrow> ('d, 'f, 's) writer \<Rightarrow> 'a \<times> ('d, 'f, 's) writer" where
  "on_disk f w = (let (r, d) = f (w_disk w) in (r, w\<lparr>w_disk := d\<rparr>))"

definition with_segment :: "('f segment \<Rightarrow> 'f segment) \<Rightarrow> ('d, 'f, 's) writer \<Rightarrow> ('d, 'f, 's) writer" where
  "with_segment f w = w\<lparr>segment := f (segment w)\<rparr>"

definition with_lane :: "u16 \<Rightarrow> (lane \<Rightarrow> lane) \<Rightarrow> ('d, 'f, 's) writer \<Rightarrow> ('d, 'f, 's) writer option" where
  "with_lane executor f w =
     (if unat executor < length (lanes w)
      then Some (w\<lparr>lanes := (lanes w)[unat executor := f (lanes w ! unat executor)]\<rparr>) else None)"

definition send_progress :: "progress \<Rightarrow> lane \<Rightarrow> lane" where
  "send_progress p l = l\<lparr>ln_progress := ln_progress l @ [p]\<rparr>"

definition publish_log_size :: "('d, 'f, 's) writer \<Rightarrow> ('d, 'f, 's) writer" where
  "publish_log_size w =
     (let ours = 1 + length (w_closed w); closed = sum_list (map cl_bytes (w_closed w)) in
      w\<lparr>w_stats := (w_stats w)\<lparr>
          log_bytes := of_nat (sg_bytes (segment w) + closed + ours * segment_header_len (length (w_cuts w)) + older_seg_bytes w),
          log_segments := of_nat (ours + older_segments w)\<rparr>\<rparr>)"

section \<open>Opening\<close>

definition create_segment :: "('d, 'f, 's) disk_ops \<Rightarrow> u64 \<Rightarrow> u32 \<Rightarrow> (u16 \<times> u64) list \<Rightarrow> 'd \<Rightarrow> ('f io \<times> 'd) option" where
  "create_segment ops generation rotation cuts d =
     (case dk_create_append ops (segment_name generation rotation) d of
        (Inl e, d1) \<Rightarrow> Some (Inl e, d1)
      | (Inr f, d1) \<Rightarrow>
          (case encode_segment_header generation rotation cuts of
             None \<Rightarrow> None
           | Some header \<Rightarrow>
               (case dk_write_all ops f header d1 of
                  (Inl e, d2) \<Rightarrow> Some (Inl e, d2)
                | (Inr _, d2) \<Rightarrow>
                    (case dk_sync_data ops f d2 of
                       (Inl e, d3) \<Rightarrow> Some (Inl e, d3)
                     | (Inr _, d3) \<Rightarrow> Some (Inr f, d3)))))"

text \<open>The segment and then the directory, synced: what the opening and a rotation share.\<close>

definition create_synced :: "('d, 'f, 's) disk_ops \<Rightarrow> u64 \<Rightarrow> u32 \<Rightarrow> (u16 \<times> u64) list \<Rightarrow> 'd \<Rightarrow> ('f io \<times> 'd) option" where
  "create_synced ops generation rotation cuts d =
     (case create_segment ops generation rotation cuts d of
        None \<Rightarrow> None
      | Some (Inl e, d1) \<Rightarrow> Some (Inl e, d1)
      | Some (Inr f, d1) \<Rightarrow>
          (case dk_sync_dir ops d1 of
             (Inl e, d2) \<Rightarrow> Some (Inl e, d2)
           | (Inr _, d2) \<Rightarrow> Some (Inr f, d2)))"

record writer_spec =
  ws_generation :: u64
  ws_cuts :: "(u16 \<times> u64) list"
  ws_executors :: u16
  ws_policy :: sync_policy
  ws_segment_bytes :: nat
  ws_checkpoint :: checkpoint_config
  ws_plants :: writer_plants
  ws_stats :: persistence_stats

definition len_or_zero :: "('d, 'f, 's) disk_ops \<Rightarrow> bytes \<Rightarrow> 'd \<Rightarrow> nat \<times> 'd" where
  "len_or_zero ops name d = (case dk_len ops name d of (Inl _, d1) \<Rightarrow> (0, d1) | (Inr n, d1) \<Rightarrow> (n, d1))"

fun sum_lens :: "('d, 'f, 's) disk_ops \<Rightarrow> bytes list \<Rightarrow> 'd \<Rightarrow> nat \<times> 'd" where
  "sum_lens ops [] d = (0, d)"
| "sum_lens ops (name # names) d =
     (let (n, d1) = len_or_zero ops name d; (m, d2) = sum_lens ops names d1 in (n + m, d2))"

definition generation_below :: "u64 \<Rightarrow> bytes \<Rightarrow> u64 option" where
  "generation_below generation name =
     (case name_generation name of Some g \<Rightarrow> if g < generation then Some g else None | None \<Rightarrow> None)"

definition writer_open :: "('d, 'f, 's) disk_ops \<Rightarrow> instant \<Rightarrow> writer_spec \<Rightarrow> 'd \<Rightarrow> (('d, 'f, 's) writer io) option" where
  "writer_open ops now sp d =
     (case create_synced ops (ws_generation sp) 0 (ws_cuts sp) d of
        None \<Rightarrow> None
      | Some (Inl e, _) \<Rightarrow> Some (Inl e)
      | Some (Inr f, d1) \<Rightarrow>
          (case dk_list ops d1 of
             (Inl e, _) \<Rightarrow> Some (Inl e)
           | (Inr names, d2) \<Rightarrow>
               let older = filter (\<lambda>name. generation_below (ws_generation sp) name \<noteq> None) names;
                   (all_bytes, d3) = sum_lens ops older d2;
                   segs = filter (\<lambda>name. parse_segment_name name \<noteq> None) older;
                   (seg_bytes, d4) = sum_lens ops segs d3;
                   interval = (case min_interval (ws_policy sp) of Some i \<Rightarrow> i | None \<Rightarrow> 0)
               in Some (Inr (publish_log_size
                 \<lparr>w_disk = d4, w_generation = ws_generation sp, w_cuts = ws_cuts sp, w_policy = ws_policy sp,
                  segment_bytes = ws_segment_bytes sp, w_checkpoint = ws_checkpoint sp, w_plants = ws_plants sp,
                  segment = segment_new f 0, lanes = replicate (unat (ws_executors sp)) lane_new, staged = [],
                  in_flight = None, issued_at = (if interval \<le> now then now - interval else now), slow_warned = False,
                  sync_wanted = False, w_round = 0, w_closed = [], older_bytes = all_bytes,
                  older_segments = length segs, older_seg_bytes = seg_bytes, w_stats = ws_stats sp\<rparr>))))"

section \<open>Marks and failures\<close>

definition mark :: "('d, 'f, 's) disk_ops \<Rightarrow> ('d, 'f, 's) writer \<Rightarrow> unit io \<times> ('d, 'f, 's) writer" where
  "mark ops w =
     (case on_disk (dk_write_all ops (sg_file (segment w)) SYNC_MARK) w of
        (Inl e, w1) \<Rightarrow> (Inl e, w1)
      | (Inr _, w1) \<Rightarrow> (Inr (), with_segment (\<lambda>s. s\<lparr>sg_bytes := sg_bytes s + length SYNC_MARK\<rparr>) w1))"

definition append_now :: "('d, 'f, 's) disk_ops \<Rightarrow> bytes \<Rightarrow> ('d, 'f, 's) writer \<Rightarrow> unit io \<times> ('d, 'f, 's) writer" where
  "append_now ops bytes w =
     (case on_disk (dk_write_all ops (sg_file (segment w)) bytes) w of
        (Inl e, w1) \<Rightarrow> (Inl e, with_segment (\<lambda>s. s\<lparr>sg_failed := True\<rparr>) w1)
      | (Inr _, w1) \<Rightarrow> (Inr (), with_segment (\<lambda>s. s\<lparr>sg_bytes := sg_bytes s + length bytes, sg_dirty := True\<rparr>) w1))"

definition sync_now :: "('d, 'f, 's) disk_ops \<Rightarrow> ('d, 'f, 's) writer \<Rightarrow> unit io \<times> ('d, 'f, 's) writer" where
  "sync_now ops w =
     (if \<not> sg_dirty (segment w) then (Inr (), w)
      else case mark ops w of
        (Inl e, w1) \<Rightarrow> (Inl e, with_segment (\<lambda>s. s\<lparr>sg_failed := True\<rparr>) w1)
      | (Inr _, w1) \<Rightarrow>
          (case on_disk (dk_sync_data ops (sg_file (segment w1))) w1 of
             (Inl e, w2) \<Rightarrow> (Inl e, with_segment (\<lambda>s. s\<lparr>sg_failed := True\<rparr>) w2)
           | (Inr _, w2) \<Rightarrow> (Inr (), with_segment (\<lambda>s. s\<lparr>sg_dirty := False\<rparr>) w2)))"

definition fail_lane :: "bool \<Rightarrow> lane \<Rightarrow> lane" where
  "fail_lane fresh l =
     (let dropped = pending_bytes l;
          l1 = l\<lparr>pending_bytes := 0, written_bytes := written_bytes l + dropped, ln_received := ln_written l\<rparr> in
      if fresh \<or> 0 < dropped then send_progress Fault (l1\<lparr>ln_refusing := True\<rparr>) else l1)"

definition fail :: "('d, 'f, 's) writer \<Rightarrow> ('d, 'f, 's) writer" where
  "fail w =
     (let fresh = (\<not> sg_failed (segment w));
          w1 = (with_segment (\<lambda>s. s\<lparr>sg_failed := True, sg_dirty := False\<rparr>) w)\<lparr>staged := []\<rparr>;
          w2 = (if in_flight w1 \<noteq> None
                then w1\<lparr>in_flight := None, w_stats := (w_stats w1)\<lparr>sync_in_flight := 0\<rparr>, slow_warned := False\<rparr>
                else w1) in
      w2\<lparr>lanes := map (fail_lane fresh) (lanes w2)\<rparr>)"

section \<open>Nudges\<close>

definition nudge_lane :: "checkpoint_config \<Rightarrow> nat \<Rightarrow> nat option list option \<Rightarrow> bool \<Rightarrow> nat \<Rightarrow> lane \<Rightarrow> lane" where
  "nudge_lane cf retained front older index l =
     (if ln_nudged l then l
      else let holds_older = (older \<and> snapshot_bytes l = None);
               holds_front = (case front of
                   None \<Rightarrow> False
                 | Some lasts \<Rightarrow> (case lasts ! index of
                       None \<Rightarrow> False
                     | Some b \<Rightarrow> (case ln_covered l of None \<Rightarrow> True | Some c \<Rightarrow> c < b))) in
        if \<not> (holds_older \<or> holds_front) then l
        else let image_size = (case snapshot_bytes l of Some n \<Rightarrow> n | None \<Rightarrow> 0);
                 threshold = max (cf_floor cf) (min (cf_ratio cf * image_size) (2 ^ 64 - 1)) in
          if threshold < retained then send_progress Nudge (l\<lparr>ln_nudged := True\<rparr>) else l)"

definition nudge_if_due :: "('d, 'f, 's) writer \<Rightarrow> ('d, 'f, 's) writer" where
  "nudge_if_due w =
     (let retained = older_bytes w + sum_list (map cl_bytes (w_closed w));
          front = (case w_closed w of [] \<Rightarrow> None | c # _ \<Rightarrow> Some (cl_last_batch c)) in
      w\<lparr>lanes := map2 (nudge_lane (w_checkpoint w) retained front (0 < older_bytes w)) [0..<length (lanes w)] (lanes w)\<rparr>)"

section \<open>Writing\<close>

text \<open>The sync of a file issued and awaited at once.\<close>

definition sync_through :: "('d, 'f, 's) disk_ops \<Rightarrow> ('d, 'f, 's) writer \<Rightarrow> unit io \<times> ('d, 'f, 's) writer" where
  "sync_through ops w =
     (case on_disk (dk_sync_later ops (sg_file (segment w))) w of (s, w1) \<Rightarrow> on_disk (dk_await ops s) w1)"

definition swap_segment :: "('d, 'f, 's) disk_ops \<Rightarrow> ('d, 'f, 's) writer \<Rightarrow> (bool \<times> ('d, 'f, 's) writer) option" where
  "swap_segment ops w =
     (let w1 = with_segment (\<lambda>s. s\<lparr>sg_attempted := sg_attempted s + 1\<rparr>) w; next = sg_attempted (segment w1) in
      case create_synced ops (w_generation w1) next (w_cuts w1) (w_disk w1) of
        None \<Rightarrow> None
      | Some (Inl e, d) \<Rightarrow> Some (False, fail (w1\<lparr>w_disk := d\<rparr>))
      | Some (Inr f, d) \<Rightarrow>
          let closing = segment w1;
              w2 = w1\<lparr>w_disk := d, segment := segment_new f next,
                w_closed := w_closed w1 @ [\<lparr>cl_rotation = sg_rotation closing, cl_last_batch = map ln_written (lanes w1),
                  cl_bytes = sg_bytes closing\<rparr>]\<rparr>
          in Some (True, nudge_if_due (publish_log_size w2)))"

definition rotate :: "('d, 'f, 's) disk_ops \<Rightarrow> ('d, 'f, 's) writer \<Rightarrow> (bool \<times> ('d, 'f, 's) writer) option" where
  "rotate ops w =
     (if sg_dirty (segment w) \<and> \<not> sg_failed (segment w) then
        (case mark ops w of
           (Inl e, w1) \<Rightarrow> Some (False, fail w1)
         | (Inr _, w1) \<Rightarrow>
             (case sync_through ops w1 of
                (Inl e, w2) \<Rightarrow> Some (False, fail w2)
              | (Inr _, w2) \<Rightarrow> swap_segment ops (with_segment (\<lambda>s. s\<lparr>sg_dirty := False\<rparr>) w2)))
      else swap_segment ops w)"

definition written_lane :: "lane \<Rightarrow> lane" where
  "written_lane l =
     (let l1 = l\<lparr>ln_written := ln_received l, written_bytes := written_bytes l + pending_bytes l, pending_bytes := 0\<rparr> in
      if WRITTEN_GRAIN \<le> written_bytes l1 - reported_bytes l1
      then send_progress (Written (written_bytes l1)) (l1\<lparr>reported_bytes := written_bytes l1\<rparr>) else l1)"

definition write_out :: "('d, 'f, 's) disk_ops \<Rightarrow> ('d, 'f, 's) writer \<Rightarrow> ('d, 'f, 's) writer" where
  "write_out ops w =
     (case on_disk (dk_write_all ops (sg_file (segment w)) (staged w)) w of
        (Inl e, w1) \<Rightarrow> fail w1
      | (Inr _, w1) \<Rightarrow>
          let w2 = publish_log_size ((with_segment (\<lambda>s. s\<lparr>sg_bytes := sg_bytes s + length (staged w1), sg_dirty := True\<rparr>) w1)
                     \<lparr>staged := []\<rparr>)
          in w2\<lparr>lanes := map written_lane (lanes w2)\<rparr>)"

definition write_staged :: "('d, 'f, 's) disk_ops \<Rightarrow> ('d, 'f, 's) writer \<Rightarrow> ('d, 'f, 's) writer option" where
  "write_staged ops w =
     (if staged w = [] then Some w
      else if sg_failed (segment w) \<or> segment_bytes w \<le> sg_bytes (segment w) then
        (case rotate ops w of
           None \<Rightarrow> None
         | Some (rotated, w1) \<Rightarrow> if rotated then Some (write_out ops w1) else Some w1)
      else Some (write_out ops w))"

section \<open>Rounds\<close>

definition report_lane :: "u64 \<Rightarrow> nat option \<Rightarrow> lane \<Rightarrow> lane" where
  "report_lane round through l =
     (if through \<le> ln_durable l then l
      else send_progress (Durable through (written_bytes l) round)
        (l\<lparr>ln_durable := through, reported_bytes := written_bytes l\<rparr>))"

fun report_lanes :: "u64 \<Rightarrow> nat option list \<Rightarrow> lane list \<Rightarrow> lane list" where
  "report_lanes round (c # cs) (l # ls) = report_lane round c l # report_lanes round cs ls"
| "report_lanes round cs ls = ls"

definition report_durable :: "nat option list \<Rightarrow> ('d, 'f, 's) writer \<Rightarrow> ('d, 'f, 's) writer" where
  "report_durable covered w = w\<lparr>lanes := report_lanes (w_round w) covered (lanes w)\<rparr>"

definition issue_sync :: "('d, 'f, 's) disk_ops \<Rightarrow> instant \<Rightarrow> ('d, 'f, 's) writer \<Rightarrow> ('d, 'f, 's) writer" where
  "issue_sync ops now w =
     (case mark ops (w\<lparr>sync_wanted := False\<rparr>) of
        (Inl e, w1) \<Rightarrow> fail w1
      | (Inr _, w1) \<Rightarrow>
          let w2 = (with_segment (\<lambda>s. s\<lparr>sg_dirty := False\<rparr>) w1)\<lparr>w_round := w_round w1 + 1\<rparr>;
              frozen = map ln_written (lanes w2);
              (s, w3) = on_disk (dk_sync_later ops (sg_file (segment w2))) w2;
              w4 = w3\<lparr>in_flight := Some (frozen, s), issued_at := now, w_stats := (w_stats w3)\<lparr>sync_in_flight := 1\<rparr>\<rparr>
          in if durable_on_issue (w_plants w4) then report_durable frozen w4 else w4)"

definition maybe_issue :: "('d, 'f, 's) disk_ops \<Rightarrow> instant \<Rightarrow> ('d, 'f, 's) writer \<Rightarrow> ('d, 'f, 's) writer" where
  "maybe_issue ops now w =
     (if sg_failed (segment w) \<or> in_flight w \<noteq> None then w
      else let cadence = (if sg_dirty (segment w) then min_interval (w_policy w) else None);
               asked = (sync_wanted w \<and> cadence = None) in
        if cadence = None \<and> \<not> asked then w
        else if (case cadence of Some interval \<Rightarrow> now - issued_at w < interval | None \<Rightarrow> False) then w
        else issue_sync ops now w)"

definition w_settle :: "instant \<Rightarrow> nat option list \<Rightarrow> unit io \<Rightarrow> ('d, 'f, 's) writer \<Rightarrow> ('d, 'f, 's) writer" where
  "w_settle now frozen result w =
     (let took = now - issued_at w;
          w1 = w\<lparr>w_stats := (w_stats w)\<lparr>sync_in_flight := 0, syncs_total := syncs_total (w_stats w) + 1,
                    last_sync_micros := of_nat (min (took div 1000) (2 ^ 64 - 1))\<rparr>, slow_warned := False\<rparr> in
      case result of
        Inr _ \<Rightarrow> report_durable (if durable_from_written_now (w_plants w1) then map ln_written (lanes w1) else frozen) w1
      | Inl e \<Rightarrow> fail w1)"

definition sync_done :: "('d, 'f, 's) disk_ops \<Rightarrow> instant \<Rightarrow> ('d, 'f, 's) writer \<Rightarrow> ('d, 'f, 's) writer option" where
  "sync_done ops now w =
     (case in_flight w of
        None \<Rightarrow> None
      | Some (frozen, s) \<Rightarrow>
          (case on_disk (dk_await ops s) w of (result, w1) \<Rightarrow> Some (w_settle now frozen result (w1\<lparr>in_flight := None\<rparr>))))"

definition watch_slow :: "instant \<Rightarrow> ('d, 'f, 's) writer \<Rightarrow> ('d, 'f, 's) writer" where
  "watch_slow now w =
     (if in_flight w \<noteq> None \<and> \<not> slow_warned w \<and> SLOW_SYNC \<le> now - issued_at w
      then w\<lparr>slow_warned := True, w_stats := (w_stats w)\<lparr>delayed_syncs := delayed_syncs (w_stats w) + 1\<rparr>\<rparr> else w)"

definition finish_round :: "('d, 'f, 's) disk_ops \<Rightarrow> ('d, 'f, 's) writer \<Rightarrow> ('d, 'f, 's) writer" where
  "finish_round ops w =
     (if sg_dirty (segment w) \<and> \<not> sg_failed (segment w) then
        (case mark ops w of
           (Inl e, w1) \<Rightarrow> fail w1
         | (Inr _, w1) \<Rightarrow>
             let w2 = w1\<lparr>w_round := w_round w1 + 1\<rparr>; frozen = map ln_written (lanes w2) in
             (case sync_through ops w2 of
                (Inr _, w3) \<Rightarrow> report_durable frozen (with_segment (\<lambda>s. s\<lparr>sg_dirty := False\<rparr>) w3)
              | (Inl e, w3) \<Rightarrow> fail w3))
      else w)"

definition last_round :: "('d, 'f, 's) disk_ops \<Rightarrow> instant \<Rightarrow> ('d, 'f, 's) writer \<Rightarrow> ('d, 'f, 's) writer" where
  "last_round ops now w =
     (let w1 = (case sync_done ops now w of Some w' \<Rightarrow> w' | None \<Rightarrow> w); w2 = finish_round ops w1 in
      w2\<lparr>lanes := map (send_progress Stopped) (lanes w2)\<rparr>)"

section \<open>Compaction\<close>

definition sync_removals :: "('d, 'f, 's) disk_ops \<Rightarrow> ('d, 'f, 's) writer \<Rightarrow> bool \<times> ('d, 'f, 's) writer" where
  "sync_removals ops w = (case on_disk (dk_sync_dir ops) w of (Inr _, w1) \<Rightarrow> (True, w1) | (Inl _, w1) \<Rightarrow> (False, w1))"

definition w_remove :: "('d, 'f, 's) disk_ops \<Rightarrow> bytes \<Rightarrow> ('d, 'f, 's) writer \<Rightarrow> nat io \<times> ('d, 'f, 's) writer" where
  "w_remove ops name w =
     (let (n, w1) = on_disk (len_or_zero ops name) w in
      case on_disk (dk_remove_file ops name) w1 of
        (Inl e, w2) \<Rightarrow> (Inl e, w2)
      | (Inr _, w2) \<Rightarrow> (Inr n, w2))"

definition older_generation :: "('d, 'f, 's) writer \<Rightarrow> bytes \<Rightarrow> u64 option" where
  "older_generation w name = generation_below (w_generation w) name"

record removal =
  rm_left :: bool
  rm_current :: "u64 option"
  rm_unsynced :: bool
  rm_stopped :: "u64 option"
  rm_files :: nat
  rm_bytes :: nat

definition remove_one :: "('d, 'f, 's) disk_ops \<Rightarrow> u64 \<times> bytes \<Rightarrow> removal \<times> ('d, 'f, 's) writer \<Rightarrow> removal \<times> ('d, 'f, 's) writer" where
  "remove_one ops gn st =
     (case (gn, st) of ((generation, name), (rm, w)) \<Rightarrow>
      (case w_remove ops name w of
         (Inr n, w1) \<Rightarrow>
           (rm\<lparr>rm_unsynced := True, rm_files := rm_files rm + 1, rm_bytes := rm_bytes rm + n\<rparr>,
            if parse_segment_name name \<noteq> None
            then w1\<lparr>older_segments := older_segments w1 - 1, older_seg_bytes := older_seg_bytes w1 - n\<rparr> else w1)
       | (Inl NotFound, w1) \<Rightarrow> (rm, w1)
       | (Inl _, w1) \<Rightarrow> (rm\<lparr>rm_left := True, rm_stopped := Some generation\<rparr>, w1)))"

definition remove_step :: "('d, 'f, 's) disk_ops \<Rightarrow> bool \<Rightarrow> u64 \<times> bytes \<Rightarrow> removal \<times> ('d, 'f, 's) writer \<Rightarrow>
    removal \<times> ('d, 'f, 's) writer" where
  "remove_step ops round_closed gn st =
     (case st of (rm, w) \<Rightarrow>
      if \<not> round_closed \<or> (case rm_stopped rm of Some stopped \<Rightarrow> stopped < fst gn | None \<Rightarrow> False)
      then (rm\<lparr>rm_left := True\<rparr>, w)
      else if rm_current rm \<noteq> Some (fst gn) then
        if rm_unsynced rm then
          (case sync_removals ops w of
             (False, w1) \<Rightarrow> (rm\<lparr>rm_stopped := rm_current rm, rm_left := True\<rparr>, w1)
           | (True, w1) \<Rightarrow> remove_one ops gn (rm\<lparr>rm_unsynced := False, rm_current := Some (fst gn)\<rparr>, w1))
        else remove_one ops gn (rm\<lparr>rm_unsynced := False, rm_current := Some (fst gn)\<rparr>, w)
      else remove_one ops gn (rm, w))"

definition remove_older :: "('d, 'f, 's) disk_ops \<Rightarrow> bytes list \<Rightarrow> bool \<Rightarrow> ('d, 'f, 's) writer \<Rightarrow> removal \<times> ('d, 'f, 's) writer" where
  "remove_older ops names round_closed w =
     fold (remove_step ops round_closed)
       (sort (List.map_filter (\<lambda>name. map_option (\<lambda>g. (g, name)) (older_generation w name)) names))
       (\<lparr>rm_left = False, rm_current = None, rm_unsynced = False, rm_stopped = None, rm_files = 0, rm_bytes = 0\<rparr>, w)"

definition remove_snapshot :: "('d, 'f, 's) disk_ops \<Rightarrow> u16 \<Rightarrow> u32 \<Rightarrow> bytes \<Rightarrow> removal \<times> ('d, 'f, 's) writer \<Rightarrow>
    removal \<times> ('d, 'f, 's) writer" where
  "remove_snapshot ops executor cycle name st =
     (case st of (rm, w) \<Rightarrow>
      (case parse_snapshot_name name of
         None \<Rightarrow> st
       | Some (generation, owner, this) \<Rightarrow>
           if generation = w_generation w \<and> owner = executor \<and> this < cycle then
             (case w_remove ops name w of
                (Inr n, w1) \<Rightarrow> (rm\<lparr>rm_files := rm_files rm + 1, rm_bytes := rm_bytes rm + n\<rparr>, w1)
              | (Inl _, w1) \<Rightarrow> (rm, w1))
           else st))"

definition covered_by_all :: "lane list \<Rightarrow> closed \<Rightarrow> bool" where
  "covered_by_all ls c =
     list_all (\<lambda>(l, wrote). case wrote of None \<Rightarrow> True | Some b \<Rightarrow> (case ln_covered l of Some x \<Rightarrow> b \<le> x | None \<Rightarrow> False))
       (zip ls (cl_last_batch c))"

definition covered_by_any :: "lane list \<Rightarrow> closed \<Rightarrow> bool" where
  "covered_by_any ls c =
     list_ex (\<lambda>(l, wrote). case wrote of None \<Rightarrow> False | Some b \<Rightarrow> (case ln_covered l of Some x \<Rightarrow> b \<le> x | None \<Rightarrow> False))
       (zip ls (cl_last_batch c))"

text \<open>The walk over the closed rotations: \<open>kept\<close> are those before the index, still in the table.\<close>

fun remove_closed :: "('d, 'f, 's) disk_ops \<Rightarrow> closed list \<Rightarrow> closed list \<Rightarrow> removal \<times> ('d, 'f, 's) writer \<Rightarrow>
    removal \<times> ('d, 'f, 's) writer" where
  "remove_closed ops kept [] (rm, w) = (rm, w\<lparr>w_closed := kept\<rparr>)"
| "remove_closed ops kept (c # cs) (rm, w) =
     (if \<not> (covered_by_all (lanes w) c \<or> removes_uncovered (w_plants w) \<and> covered_by_any (lanes w) c)
      then (rm, w\<lparr>w_closed := kept @ c # cs\<rparr>)
      else if cl_rotation c = 0 \<and> rm_left rm then remove_closed ops (kept @ [c]) cs (rm, w)
      else
        let (synced, w1) = (if rm_unsynced rm then sync_removals ops w else (True, w)) in
        if \<not> synced then (rm, w1\<lparr>w_closed := kept @ c # cs\<rparr>)
        else
          let rm1 = rm\<lparr>rm_unsynced := False\<rparr> in
          (case w_remove ops (segment_name (w_generation w1) (cl_rotation c)) w1 of
             (Inr n, w2) \<Rightarrow>
               remove_closed ops kept cs (rm1\<lparr>rm_files := rm_files rm1 + 1, rm_bytes := rm_bytes rm1 + n\<rparr>, w2)
           | (Inl _, w2) \<Rightarrow> (rm1, w2\<lparr>w_closed := kept @ c # cs\<rparr>)))"

definition compact :: "('d, 'f, 's) disk_ops \<Rightarrow> u16 \<Rightarrow> u32 \<Rightarrow> ('d, 'f, 's) writer \<Rightarrow> ('d, 'f, 's) writer" where
  "compact ops executor cycle w =
     (let (r, w1) = on_disk (dk_list ops) w;
          names = (case r of Inr ns \<Rightarrow> ns | Inl _ \<Rightarrow> []);
          round_closed = list_all (\<lambda>l. snapshot_bytes l \<noteq> None) (lanes w1);
          (rm, w2) = remove_older ops names round_closed w1;
          w3 = (if \<not> rm_left rm then w2\<lparr>older_bytes := 0\<rparr> else w2);
          (rm', w4) = fold (remove_snapshot ops executor cycle) names (rm, w3);
          (rm'', w5) = remove_closed ops [] (w_closed w4) (rm', w4) in
      if rm_files rm'' = 0 then w5
      else snd (sync_removals ops (publish_log_size w5)))"

definition w_covered :: "('d, 'f, 's) disk_ops \<Rightarrow> u16 \<Rightarrow> u32 \<Rightarrow> nat option \<Rightarrow> nat \<Rightarrow> ('d, 'f, 's) writer \<Rightarrow>
    ('d, 'f, 's) writer option" where
  "w_covered ops executor cycle through image_size w =
     map_option (compact ops executor cycle)
       (with_lane executor (\<lambda>l. l\<lparr>ln_covered := max (ln_covered l) through, snapshot_bytes := Some image_size,
          ln_nudged := False, ln_refusing := False\<rparr>) w)"

section \<open>The loop\<close>

fun w_take :: "('d, 'f, 's) disk_ops \<Rightarrow> to_writer \<Rightarrow> ('d, 'f, 's) writer \<Rightarrow> ('d, 'f, 's) writer option" where
  "w_take ops (Submit executor b bytes) w =
     map_option (\<lambda>w'. w'\<lparr>staged := staged w' @ bytes\<rparr>)
       (with_lane executor (\<lambda>l. l\<lparr>ln_received := Some b, pending_bytes := pending_bytes l + length bytes\<rparr>) w)"
| "w_take ops (Covered executor cycle through image_size) w = w_covered ops executor cycle through image_size w"
| "w_take ops SyncNow w = Some (w\<lparr>sync_wanted := True\<rparr>)"
| "w_take ops (StopWriter executor) w = with_lane executor (\<lambda>l. l\<lparr>ln_stopped := True\<rparr>) w"

fun take_all :: "('d, 'f, 's) disk_ops \<Rightarrow> to_writer list \<Rightarrow> ('d, 'f, 's) writer \<Rightarrow> ('d, 'f, 's) writer option" where
  "take_all ops [] w = Some w"
| "take_all ops (m # ms) w = Option.bind (w_take ops m w) (take_all ops ms)"

text \<open>One turn of the loop, by the arm of the \<open>select\<close> that was taken and the clock readings of
  the turn: a completed sync, everything the inbox held, the last link gone, a tick. Whether the
  loop ends with it comes first.\<close>

datatype writer_wake =
    SyncSettled instant instant
  | Inbox "to_writer list" instant instant
  | InboxClosed
  | WriterTick instant instant

definition writer_ready :: "writer_wake \<Rightarrow> ('d, 'f, 's) writer \<Rightarrow> bool" where
  "writer_ready wk w = (case wk of SyncSettled _ _ \<Rightarrow> in_flight w \<noteq> None | Inbox ms _ _ \<Rightarrow> ms \<noteq> [] | _ \<Rightarrow> True)"

fun writer_turn :: "('d, 'f, 's) disk_ops \<Rightarrow> writer_wake \<Rightarrow> ('d, 'f, 's) writer \<Rightarrow> (bool \<times> ('d, 'f, 's) writer) option" where
  "writer_turn ops (SyncSettled later now) w = map_option (\<lambda>w1. (False, maybe_issue ops now w1)) (sync_done ops later w)"
| "writer_turn ops (Inbox ms now later) w =
     do {
       w1 \<leftarrow> take_all ops ms w;
       w2 \<leftarrow> write_staged ops w1;
       let w3 = maybe_issue ops now w2;
       if list_all ln_stopped (lanes w3) then Some (True, last_round ops later w3) else Some (False, w3)
     }"
| "writer_turn ops InboxClosed w = Some (True, w)"
| "writer_turn ops (WriterTick watched now) w = Some (False, maybe_issue ops now (watch_slow watched w))"

section \<open>The start path\<close>

definition cut_points :: "recovered_shard list \<Rightarrow> (u16 \<times> u64) list" where
  "cut_points shards = map (\<lambda>(i, sh). (of_nat i, rs_seq sh)) (filter (\<lambda>(_, sh). rs_cut sh) (zip [0..<length shards] shards))"

fun rebase_records :: "(u16 \<times> u64) list \<Rightarrow> bytes option" where
  "rebase_records [] = Some []"
| "rebase_records ((shard, seq) # cuts) =
     do {
       payload \<leftarrow> encode Rebase;
       r \<leftarrow> encode_record \<lparr>rec_shard = shard, rec_seq = seq, rec_payload = payload\<rparr>;
       rs \<leftarrow> rebase_records cuts;
       Some (r @ rs)
     }"

definition past_rebase :: "(u16 \<times> u64) list \<Rightarrow> recovered_shard list \<Rightarrow> recovered_shard list" where
  "past_rebase cuts shards =
     fold (\<lambda>(shard, _) ss. ss[unat shard := (ss ! unat shard)\<lparr>rs_seq := rs_seq (ss ! unat shard) + 1\<rparr>]) cuts shards"

definition write_rebases :: "('d, 'f, 's) disk_ops \<Rightarrow> ('d, 'f, 's) writer \<Rightarrow> recovered_shard list \<Rightarrow>
    (unit io \<times> ('d, 'f, 's) writer \<times> recovered_shard list) option" where
  "write_rebases ops w shards =
     (if cut_points shards \<noteq> w_cuts w then None
      else case rebase_records (w_cuts w) of
        None \<Rightarrow> None
      | Some bytes \<Rightarrow>
          let shards' = past_rebase (w_cuts w) shards in
          if bytes = [] then Some (Inr (), w, shards')
          else case append_now ops bytes w of
            (Inl e, w1) \<Rightarrow> Some (Inl e, w1, shards')
          | (Inr _, w1) \<Rightarrow> (case sync_now ops w1 of (r, w2) \<Rightarrow> Some (r, w2, shards')))"

end
