(* ===== verification/WriterInv.thy ===== *)
theory WriterInv
  imports Writer
begin

text \<open>
  What the log writer promises, over any disk that keeps the contract \<open>log_disk\<close> and any run of
  its loop, with other tasks creating and removing snapshots between its turns. Every batch
  submitted to it is followed through the run: an executor that is told of a failure after
  submitting it has to give it up; a snapshot may cover it; otherwise it lies in a segment, and
  by the time the writer calls it durable, in the part of the segment a crash spares.
\<close>

section \<open>Submissions\<close>

text \<open>A batch as it was submitted: by whom, its number, how much its executor had been told by then,
  its bytes.\<close>

record submission =
  su_lane :: nat
  su_batch :: nat
  su_heard :: nat
  su_bytes :: bytes

definition heard :: "('d, 'f, 's) writer \<Rightarrow> nat \<Rightarrow> nat" where
  "heard w e = (if e < length (lanes w) then length (ln_progress (lanes w ! e)) else 0)"

fun submitted :: "('d, 'f, 's) writer \<Rightarrow> to_writer list \<Rightarrow> submission list" where
  "submitted w (Submit e b bs # ms) =
     \<lparr>su_lane = unat e, su_batch = b, su_heard = heard w (unat e), su_bytes = bs\<rparr> # submitted w ms"
| "submitted w (_ # ms) = submitted w ms"
| "submitted w [] = []"

fun messages :: "writer_wake \<Rightarrow> to_writer list" where
  "messages (Inbox ms _ _) = ms"
| "messages _ = []"

definition of_lane :: "nat \<Rightarrow> submission list \<Rightarrow> submission list" where
  "of_lane e S = filter (\<lambda>s. su_lane s = e) S"

text \<open>A run of the loop: its turns in order, each with the writer before it and the submissions it
  received; between two turns the world may change the disk as \<open>env\<close> allows.\<close>

inductive writer_runs :: "('d, 'f, 's) disk_ops \<Rightarrow> ('d \<Rightarrow> 'd \<Rightarrow> bool) \<Rightarrow> ('d, 'f, 's) writer \<Rightarrow> submission list list \<Rightarrow>
    ('d, 'f, 's) writer \<Rightarrow> bool" for ops env w0 where
  start: "writer_runs ops env w0 [] (nudge_if_due w0)"
| turn: "writer_runs ops env w0 h w \<Longrightarrow> writer_ready wk w \<Longrightarrow> writer_turn ops wk w = Some (stop, w') \<Longrightarrow>
    writer_runs ops env w0 (h @ [submitted w (messages wk)]) w'"
| world: "writer_runs ops env w0 h w \<Longrightarrow> env (w_disk w) d \<Longrightarrow> writer_runs ops env w0 h (w\<lparr>w_disk := d\<rparr>)"

definition no_plants :: writer_plants where
  "no_plants = \<lparr>durable_on_issue = False, durable_from_written_now = False, removes_uncovered = False\<rparr>"

text \<open>What other tasks do to the directory: anything but touch a segment.\<close>

definition segments_left :: "('d \<Rightarrow> bytes \<Rightarrow> bytes option) \<Rightarrow> ('d \<Rightarrow> bytes \<Rightarrow> nat) \<Rightarrow> ('s \<Rightarrow> bytes \<Rightarrow> nat \<Rightarrow> 'd \<Rightarrow> bool) \<Rightarrow>
    'd \<Rightarrow> 'd \<Rightarrow> bool" where
  "segments_left stored firm pledged = untouched stored firm pledged {n. parse_segment_name n = None}"

section \<open>Names\<close>

lemma segment_name_inj: "segment_name g r = segment_name g' r' \<longleftrightarrow> g = g' \<and> r = r'"
  by (metis parse_segment_name_name option.inject prod.inject)

lemma segment_no_snapshot: "parse_snapshot_name (segment_name g r) = None"
  using strip_suffix_snoc [of "ascii ''.sna''" 112 "hex_pad 16 (unat g) @ ascii ''-'' @ hex_pad 8 (unat r) @ ascii ''.se''" 103]
  by (simp add: parse_snapshot_name_def parse_name_def segment_name_def)

section \<open>Bytes that lie in a file\<close>

definition lies_in :: "bytes \<Rightarrow> bytes option \<Rightarrow> nat \<Rightarrow> bool" where
  "lies_in bs x k = (\<exists>c i. x = Some c \<and> take (length bs) (drop i c) = bs \<and> i + length bs \<le> k)"

lemma take_drop_fits: "take (length bs) (drop i c) = bs \<Longrightarrow> bs \<noteq> [] \<Longrightarrow> i + length bs \<le> length c"
proof -
  assume a: "take (length bs) (drop i c) = bs" "bs \<noteq> []"
  have "min (length c - i) (length bs) = length bs" using arg_cong [OF a(1), of length] by simp
  then have "length bs \<le> length c - i" by (metis min.cobounded1)
  moreover have "0 < length bs" using a(2) by simp
  ultimately show ?thesis by linarith
qed

lemma lies_in_append: "lies_in bs (Some c) k \<Longrightarrow> lies_in bs (Some (c @ x)) k"
proof -
  assume "lies_in bs (Some c) k"
  then obtain i where i: "take (length bs) (drop i c) = bs" "i + length bs \<le> k" by (auto simp: lies_in_def)
  show ?thesis
  proof (cases "bs = []")
    case False
    then have "i + length bs \<le> length c" using take_drop_fits [OF i(1)] by blast
    then show ?thesis using i by (auto simp: lies_in_def intro!: exI [of _ i])
  qed (use i in \<open>auto simp: lies_in_def\<close>)
qed

lemma lies_in_mono: "lies_in bs x k \<Longrightarrow> k \<le> k' \<Longrightarrow> lies_in bs x k'"
  unfolding lies_in_def by force

lemma lies_in_length: "lies_in bs (Some c) k \<Longrightarrow> lies_in bs (Some c) (length c)"
proof -
  assume "lies_in bs (Some c) k"
  then obtain i where i: "take (length bs) (drop i c) = bs" by (auto simp: lies_in_def)
  then have "i + length bs \<le> length c \<or> bs = []" using take_drop_fits [OF i] by blast
  then show ?thesis using i by (auto simp: lies_in_def intro: exI [of _ 0])
qed

lemma lies_in_new:
  assumes "(ss :: submission list) = xs @ s # ys"
  shows "lies_in (su_bytes s) (Some (c @ concat (map su_bytes ss))) (length c + length (concat (map su_bytes ss)))"
  unfolding lies_in_def using assms by (auto intro!: exI [of _ "length c + length (concat (map su_bytes xs))"])

lemma snoc_split: "p @ [d] = xs @ e # ys \<Longrightarrow> (\<exists>ys'. p = xs @ e # ys') \<or> xs = p \<and> d = e"
  by (cases ys rule: rev_cases) auto

section \<open>Ranks\<close>

definition ranked :: "submission list \<Rightarrow> bool" where
  "ranked S = (\<forall>e. sorted_wrt (<) (map su_batch (of_lane e S)))"

definition known :: "submission list \<Rightarrow> nat \<Rightarrow> nat option \<Rightarrow> bool" where
  "known S e x = (\<forall>b. x = Some b \<longrightarrow> b \<in> su_batch ` set (of_lane e S))"

lemma of_lane_append [simp]: "of_lane e (S @ P) = of_lane e S @ of_lane e P" "of_lane e [] = []"
  by (simp_all add: of_lane_def)

lemma of_lane_set: "s \<in> set (of_lane e S) \<longleftrightarrow> s \<in> set S \<and> su_lane s = e"
  by (auto simp: of_lane_def)

lemma knownI: "s \<in> set S \<Longrightarrow> su_lane s = e \<Longrightarrow> su_batch s = b \<Longrightarrow> known S e (Some b)"
  by (auto simp: known_def of_lane_set intro!: rev_image_eqI)

lemma known_None [simp]: "known S e None"
  by (simp add: known_def)

lemma known_more: "known S e x \<Longrightarrow> known (S @ P) e x"
  by (auto simp: known_def)

lemma ranked_append: "ranked (S @ P) \<Longrightarrow> ranked S"
  by (simp add: ranked_def sorted_wrt_append)

lemma ranked_less: "ranked (S @ P) \<Longrightarrow> s \<in> set S \<Longrightarrow> s' \<in> set P \<Longrightarrow> su_lane s = su_lane s' \<Longrightarrow> su_batch s < su_batch s'"
  unfolding ranked_def by (drule spec [of _ "su_lane s'"]) (auto simp: sorted_wrt_append of_lane_set)

lemma ranked_last: "ranked (S @ P) \<Longrightarrow> s \<in> set P \<Longrightarrow> su_batch s \<le> su_batch (last (of_lane (su_lane s) P))"
proof -
  assume r: "ranked (S @ P)" and s: "s \<in> set P"
  let ?L = "of_lane (su_lane s) P"
  have "sorted_wrt (<) (map su_batch ?L)" using r by (simp add: ranked_def sorted_wrt_append)
  moreover have m: "s \<in> set ?L" using s by (simp add: of_lane_set)
  moreover obtain xs y where "?L = xs @ [y]" using m by (cases ?L rule: rev_cases) auto
  ultimately show ?thesis by (auto simp: sorted_wrt_append)
qed

lemma known_below: "ranked (S @ P) \<Longrightarrow> known S e x \<Longrightarrow> s \<in> set P \<Longrightarrow> su_lane s = e \<Longrightarrow> \<not> Some (su_batch s) \<le> x"
  by (cases x) (fastforce simp: known_def of_lane_set dest: ranked_less)+

section \<open>The fate of a batch\<close>

context log_disk
begin

definition seg_name :: "('d, 'f, 's) writer \<Rightarrow> u32 \<Rightarrow> bytes" where
  "seg_name w rot = segment_name (w_generation w) rot"

definition told :: "('d, 'f, 's) writer \<Rightarrow> submission \<Rightarrow> bool" where
  "told w s = (Fault \<in> set (drop (su_heard s) (ln_progress (lanes w ! su_lane s))))"

definition accounted :: "('d, 'f, 's) writer \<Rightarrow> submission \<Rightarrow> u32 \<Rightarrow> bool" where
  "accounted w s rot =
     (rot = sg_rotation (segment w) \<and> Some (su_batch s) \<le> ln_written (lanes w ! su_lane s) \<or>
      (\<exists>c \<in> set (w_closed w). cl_rotation c = rot \<and> Some (su_batch s) \<le> cl_last_batch c ! su_lane s))"

definition lies :: "('d, 'f, 's) writer \<Rightarrow> submission \<Rightarrow> u32 \<Rightarrow> nat \<Rightarrow> bool" where
  "lies w s rot k = (accounted w s rot \<and> lies_in (su_bytes s) (stored (w_disk w) (seg_name w rot)) k)"

definition safe :: "('d, 'f, 's) writer \<Rightarrow> submission \<Rightarrow> bool" where
  "safe w s = (Some (su_batch s) \<le> ln_covered (lanes w ! su_lane s) \<or>
     (\<exists>rot. lies w s rot (firm (w_disk w) (seg_name w rot))))"

definition live :: "('d, 'f, 's) writer \<Rightarrow> submission \<Rightarrow> bool" where
  "live w s = (\<not> sg_failed (segment w) \<and> sg_dirty (segment w) \<and>
     (\<exists>k. lies_in (su_bytes s) (stored (w_disk w) (seg_name w (sg_rotation (segment w)))) k) \<and>
     Some (su_batch s) \<le> ln_written (lanes w ! su_lane s))"

definition in_air :: "('d, 'f, 's) writer \<Rightarrow> submission \<Rightarrow> bool" where
  "in_air w s = (\<exists>frozen sy rot k. in_flight w = Some (frozen, sy) \<and> lies w s rot k \<and> pledged sy (seg_name w rot) k (w_disk w))"

section \<open>The invariant\<close>

definition holding :: "submission list \<Rightarrow> ('d, 'f, 's) writer \<Rightarrow> bool" where
  "holding P w =
     (staged w = concat (map su_bytes P) \<and>
      (\<forall>e < length (lanes w).
         pending_bytes (lanes w ! e) = length (concat (map su_bytes (of_lane e P))) \<and>
         ln_received (lanes w ! e) = (if of_lane e P = [] then ln_written (lanes w ! e) else Some (su_batch (last (of_lane e P))))))"

definition proper :: "submission list \<Rightarrow> ('d, 'f, 's) writer \<Rightarrow> bool" where
  "proper S w = (\<forall>s \<in> set S. su_lane s < length (lanes w) \<and> su_heard s \<le> length (ln_progress (lanes w ! su_lane s)) \<and> su_bytes s \<noteq> [])"

definition files :: "nat \<Rightarrow> ('d, 'f, 's) writer \<Rightarrow> bool" where
  "files N w =
     (name_of (sg_file (segment w)) = seg_name w (sg_rotation (segment w)) \<and>
      stored (w_disk w) (seg_name w (sg_rotation (segment w))) \<noteq> None \<and>
      unat (sg_rotation (segment w)) \<le> unat (sg_attempted (segment w)) \<and> unat (sg_attempted (segment w)) \<le> N \<and>
      (\<forall>c \<in> set (w_closed w). unat (cl_rotation c) < unat (sg_rotation (segment w)) \<and>
         length (cl_last_batch c) = length (lanes w)) \<and>
      distinct (map cl_rotation (w_closed w)))"

definition fates :: "submission list \<Rightarrow> ('d, 'f, 's) writer \<Rightarrow> bool" where
  "fates S w = (\<forall>s \<in> set S. told w s \<or> safe w s \<or> live w s \<or> in_air w s)"

definition flight :: "submission list \<Rightarrow> ('d, 'f, 's) writer \<Rightarrow> bool" where
  "flight S w =
     (\<forall>frozen sy. in_flight w = Some (frozen, sy) \<longrightarrow>
        \<not> sg_failed (segment w) \<and> length frozen = length (lanes w) \<and>
        (\<forall>e < length (lanes w). known S e (frozen ! e)) \<and>
        (\<forall>s \<in> set S. Some (su_batch s) \<le> frozen ! su_lane s \<longrightarrow> told w s \<or> safe w s \<or> in_air w s))"

definition claims :: "submission list \<Rightarrow> ('d, 'f, 's) writer \<Rightarrow> bool" where
  "claims S w =
     (\<forall>e < length (lanes w). known S e (ln_written (lanes w ! e)) \<and>
        (\<forall>xs b k r ys. ln_progress (lanes w ! e) = xs @ Durable (Some b) k r # ys \<longrightarrow>
           known S e (Some b) \<and>
           (\<forall>s \<in> set (of_lane e S). su_batch s \<le> b \<longrightarrow> Fault \<in> set (drop (su_heard s) xs) \<or> safe w s)))"

definition winv :: "nat \<Rightarrow> submission list \<Rightarrow> submission list \<Rightarrow> ('d, 'f, 's) writer \<Rightarrow> bool" where
  "winv N S P w =
     (holding P w \<and> proper (S @ P) w \<and> ranked (S @ P) \<and> files N w \<and> fates S w \<and> flight S w \<and> claims S w \<and>
      w_plants w = no_plants)"

lemmas fate_defs = told_def accounted_def lies_def safe_def live_def in_air_def seg_name_def

lemmas winv_defs = winv_def holding_def proper_def files_def fates_def flight_def claims_def fate_defs

lemma winv_cong:
  assumes "w_disk w' = w_disk w" "w_generation w' = w_generation w" "segment w' = segment w" "lanes w' = lanes w"
    "staged w' = staged w" "in_flight w' = in_flight w" "w_closed w' = w_closed w" "w_plants w' = w_plants w"
  shows "winv N S P w' = winv N S P w"
  unfolding winv_defs assms ..

lemma winv_fields [simp]:
  "winv N S P (w\<lparr>w_stats := x1\<rparr>) = winv N S P w" "winv N S P (w\<lparr>issued_at := x2\<rparr>) = winv N S P w"
  "winv N S P (w\<lparr>slow_warned := x3\<rparr>) = winv N S P w" "winv N S P (w\<lparr>sync_wanted := x4\<rparr>) = winv N S P w"
  "winv N S P (w\<lparr>w_round := x5\<rparr>) = winv N S P w" "winv N S P (w\<lparr>older_bytes := x6\<rparr>) = winv N S P w"
  "winv N S P (w\<lparr>older_segments := x7\<rparr>) = winv N S P w" "winv N S P (w\<lparr>older_seg_bytes := x8\<rparr>) = winv N S P w"
  by (rule winv_cong; simp)+

lemma winv_bytes [simp]: "winv N S P (with_segment (\<lambda>s. s\<lparr>sg_bytes := f s\<rparr>) w) = winv N S P w"
  by (simp add: winv_defs with_segment_def)

subsection \<open>What carries over\<close>

definition carries :: "('d, 'f, 's) writer \<Rightarrow> ('d, 'f, 's) writer \<Rightarrow> bool" where
  "carries w w' =
     (w_generation w' = w_generation w \<and> length (lanes w') = length (lanes w) \<and>
      (\<forall>e < length (lanes w). ln_covered (lanes w ! e) \<le> ln_covered (lanes w' ! e) \<and>
         (\<exists>zs. ln_progress (lanes w' ! e) = ln_progress (lanes w ! e) @ zs)) \<and>
      (\<forall>s rot. su_lane s < length (lanes w) \<longrightarrow> accounted w s rot \<longrightarrow>
         Some (su_batch s) \<le> ln_covered (lanes w' ! su_lane s) \<or>
         accounted w' s rot \<and> (\<forall>c. stored (w_disk w) (seg_name w rot) = Some c \<longrightarrow>
           (\<exists>x. stored (w_disk w') (seg_name w rot) = Some (c @ x)))) \<and>
      (\<forall>m. stored (w_disk w) m \<noteq> None \<longrightarrow> stored (w_disk w') m \<noteq> None \<longrightarrow> firm (w_disk w) m \<le> firm (w_disk w') m) \<and>
      (\<forall>m sy k. stored (w_disk w) m \<noteq> None \<longrightarrow> stored (w_disk w') m \<noteq> None \<longrightarrow> pledged sy m k (w_disk w) \<longrightarrow>
         pledged sy m k (w_disk w')))"

lemma carries_told: "carries w w' \<Longrightarrow> su_lane s < length (lanes w) \<Longrightarrow> told w s \<Longrightarrow> told w' s"
  unfolding carries_def told_def by fastforce

lemma proper_carries:
  assumes "proper S w" "carries w w'"
  shows "proper S w'"
  unfolding proper_def
proof
  fix s
  assume "s \<in> set S"
  then have q: "su_lane s < length (lanes w)" "su_heard s \<le> length (ln_progress (lanes w ! su_lane s))" "su_bytes s \<noteq> []"
    using assms(1) by (auto simp: proper_def)
  obtain zs where "ln_progress (lanes w' ! su_lane s) = ln_progress (lanes w ! su_lane s) @ zs"
    using assms(2) q(1) by (auto simp: carries_def)
  then show "su_lane s < length (lanes w') \<and> su_heard s \<le> length (ln_progress (lanes w' ! su_lane s)) \<and> su_bytes s \<noteq> []"
    using q assms(2) by (simp add: carries_def)
qed

lemma carries_lies:
  assumes "carries w w'" "su_lane s < length (lanes w)" "lies w s rot k"
  shows "safe w' s \<or> lies w' s rot k \<and> stored (w_disk w') (seg_name w' rot) \<noteq> None"
proof -
  obtain c where c: "stored (w_disk w) (seg_name w rot) = Some c" "lies_in (su_bytes s) (Some c) k" "accounted w s rot"
    using assms(3) by (auto simp: lies_def lies_in_def)
  have g: "seg_name w' rot = seg_name w rot" using assms(1) by (simp add: seg_name_def carries_def)
  from assms(1,2) c have "Some (su_batch s) \<le> ln_covered (lanes w' ! su_lane s) \<or>
    accounted w' s rot \<and> (\<exists>x. stored (w_disk w') (seg_name w rot) = Some (c @ x))"
    by (auto simp: carries_def)
  then show ?thesis using lies_in_append [OF c(2)] by (auto simp: safe_def lies_def g)
qed

lemma carries_safe:
  assumes "carries w w'" "su_lane s < length (lanes w)" "safe w s"
  shows "safe w' s"
proof (cases "Some (su_batch s) \<le> ln_covered (lanes w ! su_lane s)")
  case True
  moreover have "ln_covered (lanes w ! su_lane s) \<le> ln_covered (lanes w' ! su_lane s)"
    using assms(1,2) by (simp add: carries_def)
  ultimately show ?thesis unfolding safe_def by (meson order_trans)
next
  case False
  then obtain rot where l: "lies w s rot (firm (w_disk w) (seg_name w rot))" using assms(3) by (auto simp: safe_def)
  have g: "seg_name w' rot = seg_name w rot" using assms(1) by (simp add: seg_name_def carries_def)
  from carries_lies [OF assms(1,2) l] show ?thesis
  proof
    assume a: "lies w' s rot (firm (w_disk w) (seg_name w rot)) \<and> stored (w_disk w') (seg_name w' rot) \<noteq> None"
    then have "firm (w_disk w) (seg_name w rot) \<le> firm (w_disk w') (seg_name w' rot)"
      using assms(1) g l by (auto simp: carries_def lies_def lies_in_def)
    with a show ?thesis unfolding safe_def lies_def using lies_in_mono by blast
  qed
qed

lemma carries_air:
  assumes "carries w w'" "su_lane s < length (lanes w)" "in_flight w' = in_flight w" "in_air w s"
  shows "safe w' s \<or> in_air w' s"
proof -
  obtain fz sy rot k where a: "in_flight w = Some (fz, sy)" "lies w s rot k" "pledged sy (seg_name w rot) k (w_disk w)"
    using assms(4) by (auto simp: in_air_def)
  have g: "seg_name w' rot = seg_name w rot" using assms(1) by (simp add: seg_name_def carries_def)
  from carries_lies [OF assms(1,2) a(2)] show ?thesis
  proof
    assume b: "lies w' s rot k \<and> stored (w_disk w') (seg_name w' rot) \<noteq> None"
    then have "pledged sy (seg_name w' rot) k (w_disk w')" using assms(1) a(2,3) g by (auto simp: carries_def lies_def lies_in_def)
    then show ?thesis using a(1) b assms(3) by (auto simp: in_air_def)
  qed simp
qed

lemma carries_live:
  assumes "carries w w'" "su_lane s < length (lanes w)" "live w s"
    and "sg_rotation (segment w') = sg_rotation (segment w)" "\<not> sg_failed (segment w')"
    "sg_dirty (segment w')" "ln_written (lanes w ! su_lane s) \<le> ln_written (lanes w' ! su_lane s)"
  shows "safe w' s \<or> live w' s"
proof -
  obtain k where "lies w s (sg_rotation (segment w)) k" using assms(3) by (auto simp: live_def lies_def accounted_def)
  from carries_lies [OF assms(1,2) this] assms(3-7) show ?thesis by (auto simp: live_def lies_def intro: order_trans)
qed

text \<open>What a lane hears that is not word of a sync.\<close>

definition hears :: "('d, 'f, 's) writer \<Rightarrow> ('d, 'f, 's) writer \<Rightarrow> bool" where
  "hears w w' =
     (\<forall>e < length (lanes w). \<exists>zs. ln_progress (lanes w' ! e) = ln_progress (lanes w ! e) @ zs \<and>
        (\<forall>b k r. Durable b k r \<notin> set zs))"

lemma claimsD:
  assumes "claims S w" "e < length (lanes w)" "ln_progress (lanes w ! e) = xs @ Durable (Some b) k r # ys"
  shows "known S e (Some b)" "\<And>s. s \<in> set (of_lane e S) \<Longrightarrow> su_batch s \<le> b \<Longrightarrow> Fault \<in> set (drop (su_heard s) xs) \<or> safe w s"
  using assms unfolding claims_def by blast+

lemma claims_carries:
  assumes "claims S w" "carries w w'" "proper S w" "hears w w'" "\<forall>e < length (lanes w). known S e (ln_written (lanes w' ! e))"
  shows "claims S w'"
  unfolding claims_def
proof (intro allI impI conjI)
  have n: "length (lanes w') = length (lanes w)" using assms(2) by (simp add: carries_def)
  fix e
  assume e: "e < length (lanes w')"
  show "known S e (ln_written (lanes w' ! e))" using assms(5) e n by simp
  fix xs b k r ys
  assume p: "ln_progress (lanes w' ! e) = xs @ Durable (Some b) k r # ys"
  obtain zs where z: "ln_progress (lanes w' ! e) = ln_progress (lanes w ! e) @ zs" "\<forall>b k r. Durable b k r \<notin> set zs"
    using assms(4) e n by (auto simp: hears_def)
  have "\<exists>ys'. ln_progress (lanes w ! e) = xs @ Durable (Some b) k r # ys'"
    using p z(1) z(2) [rule_format, of "Some b" k r] by (auto simp: append_eq_append_conv2 append_eq_Cons_conv)
  then obtain ys' where old: "ln_progress (lanes w ! e) = xs @ Durable (Some b) k r # ys'" ..
  show "known S e (Some b)" using claimsD(1) [OF assms(1) _ old] e n by simp
  show "\<forall>s \<in> set (of_lane e S). su_batch s \<le> b \<longrightarrow> Fault \<in> set (drop (su_heard s) xs) \<or> safe w' s"
  proof (intro ballI impI)
    fix s
    assume s: "s \<in> set (of_lane e S)" "su_batch s \<le> b"
    then have "Fault \<in> set (drop (su_heard s) xs) \<or> safe w s" using claimsD(2) [OF assms(1) _ old] e n by simp
    then show "Fault \<in> set (drop (su_heard s) xs) \<or> safe w' s"
      using carries_safe [OF assms(2)] s(1) e n by (auto simp: of_lane_set)
  qed
qed

lemma claims_more:
  assumes "claims S w" "ranked (S @ P)"
  shows "claims (S @ P) w"
proof -
  have new: "\<not> su_batch s \<le> b" if "known S e (Some b)" "s \<in> set (of_lane e P)" for s e b
    using known_below [OF assms(2) that(1), of s] that(2) by (auto simp: of_lane_set)
  show ?thesis
    unfolding claims_def
  proof (intro allI impI conjI)
    fix e
    assume e: "e < length (lanes w)"
    then show "known (S @ P) e (ln_written (lanes w ! e))" using assms(1) by (simp add: claims_def known_more)
    fix xs b k r ys
    assume "ln_progress (lanes w ! e) = xs @ Durable (Some b) k r # ys"
    then have "known S e (Some b)" "\<forall>s \<in> set (of_lane e S). su_batch s \<le> b \<longrightarrow> Fault \<in> set (drop (su_heard s) xs) \<or> safe w s"
      using assms(1) e unfolding claims_def by blast+
    then show "known (S @ P) e (Some b)"
      "\<forall>s \<in> set (of_lane e (S @ P)). su_batch s \<le> b \<longrightarrow> Fault \<in> set (drop (su_heard s) xs) \<or> safe w s"
      using new by (auto simp: known_more)
  qed
qed

lemma flight_carries:
  assumes "flight S w" "carries w w'" "proper S w" "in_flight w' = in_flight w" "sg_failed (segment w') = sg_failed (segment w)"
  shows "flight S w'"
proof -
  have n: "length (lanes w') = length (lanes w)" using assms(2) by (simp add: carries_def)
  have "told w' s \<or> safe w' s \<or> in_air w' s" if "s \<in> set S" "told w s \<or> safe w s \<or> in_air w s" for s
    using that assms(3) carries_told [OF assms(2)] carries_safe [OF assms(2)] carries_air [OF assms(2) _ assms(4)]
    by (auto simp: proper_def)
  then show ?thesis using assms(1) unfolding flight_def assms(4,5) n by blast
qed

lemma flight_more:
  assumes "flight S w" "ranked (S @ P)" "proper (S @ P) w"
  shows "flight (S @ P) w"
  unfolding flight_def
proof (intro allI impI conjI)
  fix frozen sy
  assume f: "in_flight w = Some (frozen, sy)"
  then have k: "\<forall>e < length (lanes w). known S e (frozen ! e)" and
    o: "\<forall>s \<in> set S. Some (su_batch s) \<le> frozen ! su_lane s \<longrightarrow> told w s \<or> safe w s \<or> in_air w s"
    using assms(1) unfolding flight_def by blast+
  show "\<not> sg_failed (segment w)" "length frozen = length (lanes w)" using assms(1) f unfolding flight_def by blast+
  show "known (S @ P) e (frozen ! e)" if "e < length (lanes w)" for e using k that known_more by blast
  show "\<forall>s \<in> set (S @ P). Some (su_batch s) \<le> frozen ! su_lane s \<longrightarrow> told w s \<or> safe w s \<or> in_air w s"
  proof (intro ballI impI)
    fix s
    assume s: "s \<in> set (S @ P)" "Some (su_batch s) \<le> frozen ! su_lane s"
    then have "s \<notin> set P" using known_below [OF assms(2), of "su_lane s" "frozen ! su_lane s" s] k assms(3) by (auto simp: proper_def)
    then show "told w s \<or> safe w s \<or> in_air w s" using s o by auto
  qed
qed

lemma winv_carries:
  assumes i: "winv N S P w" and c: "carries w w'" "hears w w'"
    and same: "in_flight w' = in_flight w" "staged w' = staged w" "w_plants w' = w_plants w"
      "sg_rotation (segment w') = sg_rotation (segment w)" "sg_failed (segment w') = sg_failed (segment w)"
      "sg_dirty (segment w') = sg_dirty (segment w)"
    and lanes: "\<forall>e < length (lanes w). ln_received (lanes w' ! e) = ln_received (lanes w ! e) \<and>
      ln_written (lanes w' ! e) = ln_written (lanes w ! e) \<and> pending_bytes (lanes w' ! e) = pending_bytes (lanes w ! e)"
    and f: "files N w'"
  shows "winv N S P w'"
proof -
  have n: "length (lanes w') = length (lanes w)" using c by (simp add: carries_def)
  have pr: "proper S w" "proper (S @ P) w" using i by (auto simp: winv_def proper_def)
  have h: "holding P w'" using i same lanes by (simp add: winv_def holding_def n)
  have p: "proper (S @ P) w'" by (rule proper_carries [OF pr(2) c(1)])
  have fa: "fates S w'"
    unfolding fates_def
  proof
    fix s
    assume s: "s \<in> set S"
    then have l: "su_lane s < length (lanes w)" using pr by (simp add: proper_def)
    from i s have "told w s \<or> safe w s \<or> live w s \<or> in_air w s" by (auto simp: winv_def fates_def)
    then show "told w' s \<or> safe w' s \<or> live w' s \<or> in_air w' s"
      using carries_told [OF c(1) l] carries_safe [OF c(1) l] carries_air [OF c(1) l same(1)]
        carries_live [OF c(1) l _ same(4)] same(5,6) lanes l by (auto simp: live_def)
  qed
  have "flight S w'" using flight_carries [OF _ c(1) pr(1) same(1,5)] i by (simp add: winv_def)
  moreover have "claims S w'"
    using claims_carries [OF _ c(1) pr(1) c(2)] i lanes by (simp add: winv_def claims_def)
  ultimately show ?thesis using i h p fa f same(3) by (simp add: winv_def)
qed

subsection \<open>Steps that move only the disk\<close>

definition rotations :: "('d, 'f, 's) writer \<Rightarrow> u32 set" where
  "rotations w = insert (sg_rotation (segment w)) (cl_rotation ` set (w_closed w))"

lemma accounted_rotation: "accounted w s rot \<Longrightarrow> rot \<in> rotations w"
  by (auto simp: accounted_def rotations_def)

lemma winv_disk:
  assumes i: "winv N S P w" and u: "untouched stored firm pledged M (w_disk w) d"
    and g: "\<forall>rot \<in> rotations w. \<forall>c. stored (w_disk w) (seg_name w rot) = Some c \<longrightarrow> (\<exists>x. stored d (seg_name w rot) = Some (c @ x))"
  shows "winv N S P (w\<lparr>w_disk := d\<rparr>)"
proof (rule winv_carries [OF i])
  show "carries w (w\<lparr>w_disk := d\<rparr>)"
    using u g accounted_rotation [of w] by (auto simp: carries_def untouched_def accounted_def)
  show "files N (w\<lparr>w_disk := d\<rparr>)"
    using i g by (fastforce simp: winv_def files_def seg_name_def rotations_def)
qed (simp_all add: hears_def)

lemma winv_untouched:
  assumes "winv N S P w" "untouched stored firm pledged M (w_disk w) d" "\<forall>rot. seg_name w rot \<notin> M"
  shows "winv N S P (w\<lparr>w_disk := d\<rparr>)"
  using assms by (intro winv_disk [OF assms(1,2)]) (simp add: untouched_def)

lemma current_file:
  assumes "winv N S P w"
  obtains c where "stored (w_disk w) (name_of (sg_file (segment w))) = Some c"
    "name_of (sg_file (segment w)) = seg_name w (sg_rotation (segment w))"
  using assms by (auto simp: winv_def files_def)

lemma winv_write:
  assumes i: "winv N S P w" and d: "dk_write_all ops (sg_file (segment w)) bs (w_disk w) = (r, d)"
  shows "winv N S P (w\<lparr>w_disk := d\<rparr>)"
proof -
  obtain c where c: "stored (w_disk w) (name_of (sg_file (segment w))) = Some c"
    "name_of (sg_file (segment w)) = seg_name w (sg_rotation (segment w))"
    by (rule current_file [OF i])
  from write_ok [OF d c(1)] obtain k where u: "untouched stored firm pledged {name_of (sg_file (segment w))} (w_disk w) d"
    and k: "stored d (name_of (sg_file (segment w))) = Some (c @ take k bs)"
    by blast
  show ?thesis
  proof (rule winv_disk [OF i u], intro ballI allI impI)
    fix rot c'
    assume a: "stored (w_disk w) (seg_name w rot) = Some c'"
    show "\<exists>x. stored d (seg_name w rot) = Some (c' @ x)"
    proof (cases "seg_name w rot = name_of (sg_file (segment w))")
      case True
      then show ?thesis using a c(1) k by simp
    next
      case False
      then have "stored d (seg_name w rot) = stored (w_disk w) (seg_name w rot)" using u by (simp add: untouched_def)
      then show ?thesis using a by simp
    qed
  qed
qed

lemma winv_mark:
  assumes i: "winv N S P w" and m: "mark ops w = (r, w')"
  shows "winv N S P w' \<and> lanes w' = lanes w \<and> in_flight w' = in_flight w \<and> w_plants w' = w_plants w \<and>
    sg_failed (segment w') = sg_failed (segment w) \<and> sg_dirty (segment w') = sg_dirty (segment w) \<and> staged w' = staged w"
proof -
  obtain r0 d where d: "dk_write_all ops (sg_file (segment w)) SYNC_MARK (w_disk w) = (r0, d)" by fastforce
  have w': "w' = w\<lparr>w_disk := d\<rparr> \<or> w' = with_segment (\<lambda>s. s\<lparr>sg_bytes := sg_bytes s + length SYNC_MARK\<rparr>) (w\<lparr>w_disk := d\<rparr>)"
    using m by (cases r0) (auto simp: mark_def on_disk_def d)
  then have "winv N S P w'" using winv_write [OF i d] by (elim disjE) (simp_all only: winv_bytes)
  with w' show ?thesis by (auto simp: with_segment_def)
qed

lemma winv_sync_through:
  assumes i: "winv N S P w" and m: "sync_through ops w = (r, w')"
  shows "winv N S P w' \<and> (\<exists>d. w' = w\<lparr>w_disk := d\<rparr>) \<and>
    (r = Inr () \<longrightarrow> (\<exists>c. stored (w_disk w') (seg_name w' (sg_rotation (segment w'))) = Some c \<and>
       length c \<le> firm (w_disk w') (seg_name w' (sg_rotation (segment w')))))"
proof -
  obtain c where c: "stored (w_disk w) (name_of (sg_file (segment w))) = Some c"
    "name_of (sg_file (segment w)) = seg_name w (sg_rotation (segment w))"
    by (rule current_file [OF i])
  obtain sy d1 where s: "dk_sync_later ops (sg_file (segment w)) (w_disk w) = (sy, d1)" by fastforce
  obtain r0 d2 where a: "dk_await ops sy d1 = (r0, d2)" by fastforce
  have w': "w' = w\<lparr>w_disk := d2\<rparr>" "r = r0" using m by (simp_all add: sync_through_def on_disk_def s a)
  have u1: "untouched stored firm pledged {} (w_disk w) d1" and p: "pledged sy (name_of (sg_file (segment w))) (length c) d1"
    using sync_later_ok [OF s c(1)] by auto
  have u2: "untouched stored firm pledged {} d1 d2" using await_ok [OF a] by blast
  have st: "stored d1 = stored (w_disk w)" "stored d2 = stored (w_disk w)" using u1 u2 by (auto simp: untouched_def)
  have "length c \<le> firm d2 (name_of (sg_file (segment w)))" if "r0 = Inr ()"
    using await_ok [OF a, of "name_of (sg_file (segment w))" "length c"] that p c(1) st by auto
  moreover have "winv N S P w'" unfolding w' by (rule winv_untouched [OF i untouched_after [OF u1 u2]]) simp
  ultimately show ?thesis using w' c st by (auto simp: seg_name_def)
qed

text \<open>A segment synced whole is clean.\<close>

lemma winv_clean:
  assumes i: "winv N S P w"
    and c: "stored (w_disk w) (seg_name w (sg_rotation (segment w))) = Some c"
      "length c \<le> firm (w_disk w) (seg_name w (sg_rotation (segment w)))"
  shows "winv N S P (with_segment (\<lambda>s. s\<lparr>sg_dirty := False\<rparr>) w)"
proof -
  let ?w = "with_segment (\<lambda>s. s\<lparr>sg_dirty := False\<rparr>) w"
  have same: "told ?w = told w" "safe ?w = safe w" "in_air ?w = in_air w"
    by (rule ext, simp add: fate_defs with_segment_def)+
  have "safe w s" if "live w s" for s
  proof -
    from that have "lies_in (su_bytes s) (Some c) (firm (w_disk w) (seg_name w (sg_rotation (segment w))))"
      using c lies_in_mono [OF lies_in_length c(2)] by (auto simp: live_def)
    then show ?thesis using that c(1) by (auto simp: safe_def lies_def accounted_def live_def)
  qed
  then have "fates S ?w" using i by (auto simp: winv_def fates_def same)
  moreover have "flight S ?w" using i by (simp add: winv_def flight_def same) (simp add: with_segment_def)
  moreover have "claims S ?w" using i by (simp add: winv_def claims_def same) (simp add: with_segment_def)
  ultimately show ?thesis
    using i by (simp add: winv_def) (simp add: holding_def proper_def files_def with_segment_def seg_name_def)
qed

subsection \<open>Failures and nudges\<close>

lemma fail_lane_fields:
  "ln_received (fail_lane f l) = ln_written l" "ln_written (fail_lane f l) = ln_written l" "pending_bytes (fail_lane f l) = 0"
  "ln_covered (fail_lane f l) = ln_covered l"
  "ln_progress (fail_lane f l) = ln_progress l @ (if f \<or> 0 < pending_bytes l then [Fault] else [])"
  by (simp_all add: fail_lane_def send_progress_def Let_def)

lemma fail_fields:
  "lanes (fail w) = map (fail_lane (\<not> sg_failed (segment w))) (lanes w)" "w_disk (fail w) = w_disk w"
  "w_generation (fail w) = w_generation w" "w_closed (fail w) = w_closed w" "in_flight (fail w) = None" "staged (fail w) = []"
  "w_plants (fail w) = w_plants w" "segment (fail w) = (segment w)\<lparr>sg_failed := True, sg_dirty := False\<rparr>"
  by (cases "in_flight w"; simp add: fail_def with_segment_def Let_def)+

lemma winv_fail:
  assumes i: "winv N S P w"
  shows "winv N (S @ P) [] (fail w)"
proof -
  let ?w = "fail w"
  have pr: "proper (S @ P) w" "proper S w" and rk: "ranked (S @ P)" using i by (auto simp: winv_def proper_def)
  have acc: "accounted ?w s rot" if "accounted w s rot" "su_lane s < length (lanes w)" for s rot
    using that by (auto simp: accounted_def fail_fields fail_lane_fields)
  have c: "carries w ?w"
    using acc by (auto simp: carries_def fail_fields fail_lane_fields seg_name_def)
  have h: "hears w ?w" by (auto simp: hears_def fail_fields fail_lane_fields)
  have fault: "told ?w s" if "s \<in> set (S @ P)" "\<not> sg_failed (segment w) \<or> 0 < pending_bytes (lanes w ! su_lane s)" for s
    using that pr(1) by (auto simp: told_def proper_def fail_fields fail_lane_fields)
  have "fates (S @ P) ?w"
    unfolding fates_def
  proof
    fix s
    assume s: "s \<in> set (S @ P)"
    then have l: "su_lane s < length (lanes w)" using pr by (auto simp: proper_def)
    show "told ?w s \<or> safe ?w s \<or> live ?w s \<or> in_air ?w s"
    proof (cases "\<not> sg_failed (segment w) \<or> 0 < pending_bytes (lanes w ! su_lane s)")
      case False
      have "s \<notin> set P"
      proof
        assume p: "s \<in> set P"
        then have "su_bytes s \<noteq> []" "s \<in> set (of_lane (su_lane s) P)" using pr(1) by (auto simp: proper_def of_lane_set)
        then have "0 < length (concat (map su_bytes (of_lane (su_lane s) P)))" by auto
        then show False using False i l by (simp add: winv_def holding_def)
      qed
      then have "told w s \<or> safe w s"
        using s i False by (auto simp: winv_def fates_def flight_def live_def in_air_def)
      then show ?thesis using carries_told [OF c l] carries_safe [OF c l] by blast
    qed (use fault [OF s] in blast)
  qed
  moreover have "claims (S @ P) ?w"
    by (rule claims_carries [OF claims_more [OF _ rk] c pr(1) h])
      (use i in \<open>auto simp: winv_def claims_def fail_fields fail_lane_fields known_more\<close>)
  moreover have "proper (S @ P) ?w" by (rule proper_carries [OF pr(1) c])
  ultimately show ?thesis
    using i by (simp add: winv_def)
      (auto simp: holding_def files_def flight_def fail_fields fail_lane_fields seg_name_def)
qed

lemma nudge_lane_fields:
  "ln_received (nudge_lane cf r f old i l) = ln_received l" "ln_written (nudge_lane cf r f old i l) = ln_written l"
  "pending_bytes (nudge_lane cf r f old i l) = pending_bytes l" "ln_covered (nudge_lane cf r f old i l) = ln_covered l"
  "\<exists>zs. ln_progress (nudge_lane cf r f old i l) = ln_progress l @ zs \<and> (\<forall>b k r. Durable b k r \<notin> set zs)"
  by (auto simp: nudge_lane_def send_progress_def Let_def)

lemma nudge_fields:
  "length (lanes (nudge_if_due w)) = length (lanes w)" "w_disk (nudge_if_due w) = w_disk w" "segment (nudge_if_due w) = segment w"
  "w_generation (nudge_if_due w) = w_generation w" "w_closed (nudge_if_due w) = w_closed w" "in_flight (nudge_if_due w) = in_flight w"
  "staged (nudge_if_due w) = staged w" "w_plants (nudge_if_due w) = w_plants w"
  by (simp_all add: nudge_if_due_def Let_def)

lemma winv_nudge:
  assumes i: "winv N S P w"
  shows "winv N S P (nudge_if_due w)"
proof -
  let ?w = "nudge_if_due w"
  obtain cf r f old where n: "\<And>e. e < length (lanes w) \<Longrightarrow> lanes ?w ! e = nudge_lane cf r f old e (lanes w ! e)"
    by (simp add: nudge_if_due_def Let_def)
  show ?thesis
  proof (rule winv_carries [OF i])
    show "hears w ?w" unfolding hears_def using n nudge_lane_fields(5) by metis
    moreover have "accounted ?w s rot" if "accounted w s rot" "su_lane s < length (lanes w)" for s rot
      using that by (auto simp: accounted_def nudge_fields n nudge_lane_fields)
    ultimately show "carries w ?w"
      by (auto simp: carries_def hears_def nudge_fields n nudge_lane_fields(1-4))
    show "files N ?w" using i by (simp add: winv_def files_def nudge_fields seg_name_def)
  qed (simp_all add: nudge_fields n nudge_lane_fields)
qed

subsection \<open>Writing a drain\<close>

lemma written_lane_fields:
  "ln_received (written_lane l) = ln_received l" "ln_written (written_lane l) = ln_received l" "pending_bytes (written_lane l) = 0"
  "ln_covered (written_lane l) = ln_covered l"
  "\<exists>zs. ln_progress (written_lane l) = ln_progress l @ zs \<and> (\<forall>b k r. Durable b k r \<notin> set zs)"
  by (auto simp: written_lane_def send_progress_def Let_def)

lemma received_known:
  assumes "winv N S P w" "e < length (lanes w)"
  shows "known (S @ P) e (ln_received (lanes w ! e))" "ln_written (lanes w ! e) \<le> ln_received (lanes w ! e)"
proof -
  let ?L = "of_lane e P"
  have r: "ln_received (lanes w ! e) = (if ?L = [] then ln_written (lanes w ! e) else Some (su_batch (last ?L)))"
    and k: "known S e (ln_written (lanes w ! e))" and rk: "ranked (S @ P)"
    using assms by (auto simp: winv_def holding_def claims_def)
  show "known (S @ P) e (ln_received (lanes w ! e))"
    using k last_in_set [of ?L] by (auto simp: r known_more known_def)
  have "ln_written (lanes w ! e) \<le> Some (su_batch (last ?L))" if "?L \<noteq> []"
    using known_below [OF rk k, of "last ?L"] last_in_set [OF that] by (auto simp: of_lane_set)
  then show "ln_written (lanes w ! e) \<le> ln_received (lanes w ! e)" by (simp add: r)
qed

text \<open>The writer once the drain is in the file.\<close>

definition drained :: "'d \<Rightarrow> ('d, 'f, 's) writer \<Rightarrow> ('d, 'f, 's) writer" where
  "drained d w = w\<lparr>w_disk := d, segment := (segment w)\<lparr>sg_bytes := sg_bytes (segment w) + length (staged w), sg_dirty := True\<rparr>,
     staged := [], lanes := map written_lane (lanes w)\<rparr>"

lemma winv_drained:
  assumes i: "winv N S P w" and d: "dk_write_all ops (sg_file (segment w)) (staged w) (w_disk w) = (Inr (), d)"
    and ok: "\<not> sg_failed (segment w)"
  shows "winv N (S @ P) [] (drained d w)"
proof -
  let ?w = "drained d w"
  have pr: "proper (S @ P) w" "proper S w" and rk: "ranked (S @ P)" using i by (auto simp: winv_def proper_def)
  obtain c where c: "stored (w_disk w) (name_of (sg_file (segment w))) = Some c"
    "name_of (sg_file (segment w)) = seg_name w (sg_rotation (segment w))"
    by (rule current_file [OF i])
  from write_ok [OF d c(1)]
  have u: "untouched stored firm pledged {name_of (sg_file (segment w))} (w_disk w) d"
    and k: "stored d (seg_name w (sg_rotation (segment w))) = Some (c @ staged w)"
    by (auto simp: c(2))
  have g: "\<exists>x. stored d m = Some (c' @ x)" if "stored (w_disk w) m = Some c'" for m c'
    using that u k c by (cases "m = name_of (sg_file (segment w))") (auto simp: untouched_def)
  have acc: "accounted ?w s rot" if "accounted w s rot" "su_lane s < length (lanes w)" for s rot
    using that received_known(2) [OF i that(2)]
    by (auto simp: accounted_def drained_def written_lane_fields intro: order_trans)
  have cr: "carries w ?w"
    unfolding carries_def using acc g u
    by (auto simp: drained_def written_lane_fields(1-4) untouched_def seg_name_def)
      (metis written_lane_fields(5))
  have h: "hears w ?w" using written_lane_fields(5) by (auto simp: hears_def drained_def)
  have pr': "proper (S @ P) ?w"
    by (rule proper_carries [OF pr(1) cr])
  have "fates (S @ P) ?w"
    unfolding fates_def
  proof
    fix s
    assume s: "s \<in> set (S @ P)"
    then have l: "su_lane s < length (lanes w)" using pr by (auto simp: proper_def)
    show "told ?w s \<or> safe ?w s \<or> live ?w s \<or> in_air ?w s"
    proof (cases "s \<in> set S")
      case True
      then have "told w s \<or> safe w s \<or> live w s \<or> in_air w s" using i by (auto simp: winv_def fates_def)
      moreover have "ln_written (lanes w ! su_lane s) \<le> ln_written (lanes ?w ! su_lane s)"
        using received_known(2) [OF i l] l by (simp add: drained_def written_lane_fields)
      ultimately show ?thesis
        using carries_told [OF cr l] carries_safe [OF cr l] carries_air [OF cr l] carries_live [OF cr l] ok
        by (auto simp: drained_def)
    next
      case False
      then have p: "s \<in> set P" using s by simp
      then obtain xs ys where xs: "P = xs @ s # ys" by (meson split_list)
      have "of_lane (su_lane s) P \<noteq> []" using p by (metis empty_iff empty_set of_lane_set)
      then have "ln_received (lanes w ! su_lane s) = Some (su_batch (last (of_lane (su_lane s) P)))"
        using i l by (simp add: winv_def holding_def)
      moreover have "staged w = concat (map su_bytes P)" using i by (simp add: winv_def holding_def)
      ultimately have "live ?w s"
        using ranked_last [OF rk p] lies_in_new [OF xs, of c] ok l k
        by (auto simp: live_def drained_def written_lane_fields seg_name_def)
      then show ?thesis by blast
    qed
  qed
  moreover have "flight (S @ P) ?w"
    by (rule flight_more [OF flight_carries [OF _ cr pr(2)] rk pr']) (use i in \<open>simp_all add: winv_def drained_def\<close>)
  moreover have "claims (S @ P) ?w"
    by (rule claims_carries [OF claims_more [OF _ rk] cr pr(1) h])
      (use i received_known(1) [OF i] in \<open>simp_all add: winv_def drained_def written_lane_fields\<close>)
  moreover have "files N ?w" using i g c by (fastforce simp: winv_def files_def drained_def seg_name_def)
  moreover have "holding [] ?w" by (simp add: holding_def drained_def written_lane_fields)
  ultimately show ?thesis using i pr' by (simp add: winv_def drained_def)
qed

lemma winv_write_out:
  assumes i: "winv N S P w" and ok: "\<not> sg_failed (segment w)"
  shows "winv N (S @ P) [] (write_out ops w)"
proof -
  obtain r d where d: "dk_write_all ops (sg_file (segment w)) (staged w) (w_disk w) = (r, d)" by fastforce
  show ?thesis
  proof (cases r)
    case (Inl e)
    have "winv N S P (w\<lparr>w_disk := d\<rparr>)" by (rule winv_write [OF i d])
    from winv_fail [OF this] show ?thesis by (simp add: write_out_def on_disk_def d Inl)
  next
    case (Inr x)
    have "winv N (S @ P) [] (write_out ops w) = winv N (S @ P) [] (drained d w)"
      by (rule winv_cong) (simp_all add: write_out_def on_disk_def d Inr drained_def publish_log_size_def with_segment_def Let_def)
    then show ?thesis using winv_drained [OF i _ ok] d Inr by simp
  qed
qed

subsection \<open>Rotating\<close>

lemma create_segment_ok:
  assumes "create_segment ops g rot cuts d = Some (r, d')"
  shows "untouched stored firm pledged {segment_name g rot} d d' \<and>
    (\<forall>f. r = Inr f \<longrightarrow> name_of f = segment_name g rot \<and> stored d' (segment_name g rot) \<noteq> None)"
proof -
  let ?n = "segment_name g rot"
  obtain r1 d1 where c: "dk_create_append ops ?n d = (r1, d1)" by fastforce
  have u1: "untouched stored firm pledged {?n} d d1" using create_ok [OF c] by blast
  show ?thesis
  proof (cases r1)
    case (Inl e)
    then show ?thesis using assms u1 by (auto simp: create_segment_def c)
  next
    case (Inr f)
    from create_ok [OF c] Inr have f: "name_of f = ?n" and s1: "stored d1 ?n \<noteq> None" by auto
    then obtain b where b: "stored d1 (name_of f) = Some b" by auto
    obtain h where h: "encode_segment_header g rot cuts = Some h"
      using assms by (auto simp: create_segment_def c Inr split: option.splits)
    obtain r2 d2 where w: "dk_write_all ops f h d1 = (r2, d2)" by fastforce
    from write_ok [OF w b] obtain k where u2: "untouched stored firm pledged {?n} d1 d2" and s2: "stored d2 ?n = Some (b @ take k h)"
      by (auto simp: f)
    have u12: "untouched stored firm pledged {?n} d d2" by (rule untouched_trans [OF u1 u2]) (use s1 in auto)
    obtain r3 d3 where y: "dk_sync_data ops f d2 = (r3, d3)" by fastforce
    from sync_data_ok [OF y] s2 f have u3: "untouched stored firm pledged {} d2 d3" by fastforce
    have s3: "stored d3 ?n = stored d2 ?n" using u3 by (simp add: untouched_def)
    have "untouched stored firm pledged {?n} d d3"
      by (rule untouched_trans [OF u12 untouched_mono [OF u3]]) (use s2 in simp_all)
    then show ?thesis
      using assms u12 s2 s3 f by (cases r2; cases r3) (auto simp: create_segment_def c Inr h w y)
  qed
qed

lemma create_synced_ok:
  assumes "create_synced ops g rot cuts d = Some (r, d')"
  shows "untouched stored firm pledged {segment_name g rot} d d' \<and>
    (\<forall>f. r = Inr f \<longrightarrow> name_of f = segment_name g rot \<and> stored d' (segment_name g rot) \<noteq> None)"
proof -
  obtain r1 d1 where c: "create_segment ops g rot cuts d = Some (r1, d1)"
    using assms by (auto simp: create_synced_def split: option.splits sum.splits)
  note c1 = create_segment_ok [OF c]
  obtain r2 d2 where y: "dk_sync_dir ops d1 = (r2, d2)" by fastforce
  note u2 = sync_dir_ok [OF y]
  have s: "stored d2 = stored d1" using u2 by (auto simp: untouched_def)
  have "untouched stored firm pledged {segment_name g rot} d d2"
    by (rule untouched_trans [OF _ untouched_mono [OF u2]]) (use c1 s in simp_all)
  then show ?thesis using assms c1 s by (cases r1; cases r2) (auto simp: create_synced_def c y)
qed

lemma winv_more_turns: "winv N S P w \<Longrightarrow> N \<le> N' \<Longrightarrow> winv N' S P w"
  by (auto simp: winv_def files_def)

lemma winv_attempt:
  assumes "winv N S P w" "N + 1 < 2 ^ 32"
  shows "winv (N + 1) S P (with_segment (\<lambda>s. s\<lparr>sg_attempted := sg_attempted s + 1\<rparr>) w)"
    "unat (sg_attempted (segment w) + 1) = unat (sg_attempted (segment w)) + 1"
proof -
  have "unat (sg_attempted (segment w)) \<le> N" using assms(1) by (simp add: winv_def files_def)
  then show u: "unat (sg_attempted (segment w) + 1) = unat (sg_attempted (segment w)) + 1"
    using assms(2) by (simp add: unat_word_ariths)
  let ?w = "with_segment (\<lambda>s. s\<lparr>sg_attempted := sg_attempted s + 1\<rparr>) w"
  have "told ?w = told w" "safe ?w = safe w" "in_air ?w = in_air w" "live ?w = live w"
    by (rule ext, simp add: fate_defs with_segment_def)+
  then show "winv (N + 1) S P ?w"
    using assms(1) u by (simp add: winv_def fates_def flight_def claims_def)
      (simp add: holding_def proper_def files_def with_segment_def seg_name_def)
qed

text \<open>The writer once the next segment is open.\<close>

definition swapped :: "'f \<Rightarrow> u32 \<Rightarrow> ('d, 'f, 's) writer \<Rightarrow> ('d, 'f, 's) writer" where
  "swapped f next w = w\<lparr>segment := segment_new f next,
     w_closed := w_closed w @ [\<lparr>cl_rotation = sg_rotation (segment w), cl_last_batch = map ln_written (lanes w), cl_bytes = sg_bytes (segment w)\<rparr>]\<rparr>"

lemma winv_swapped:
  assumes i: "winv N S P w" and q: "sg_failed (segment w) \<or> \<not> sg_dirty (segment w)"
    and f: "name_of f = seg_name w next" "stored (w_disk w) (seg_name w next) \<noteq> None"
    and n: "unat (sg_rotation (segment w)) < unat next" "unat next \<le> N"
  shows "winv N S P (swapped f next w)"
proof -
  let ?w = "swapped f next w"
  have pr: "proper (S @ P) w" "proper S w" using i by (auto simp: winv_def proper_def)
  have acc: "accounted ?w s rot" if "accounted w s rot" "su_lane s < length (lanes w)" for s rot
    using that by (auto simp: accounted_def swapped_def)
  have c: "carries w ?w" using acc by (auto simp: carries_def swapped_def seg_name_def)
  have h: "hears w ?w" by (simp add: hears_def swapped_def)
  have "fates S ?w"
    unfolding fates_def
  proof
    fix s
    assume s: "s \<in> set S"
    then have l: "su_lane s < length (lanes w)" using pr by (auto simp: proper_def)
    have "told w s \<or> safe w s \<or> in_air w s" using i s q by (auto simp: winv_def fates_def live_def)
    then show "told ?w s \<or> safe ?w s \<or> live ?w s \<or> in_air ?w s"
      using carries_told [OF c l] carries_safe [OF c l] carries_air [OF c l] by (auto simp: swapped_def)
  qed
  moreover have "flight S ?w"
  proof (cases "in_flight w")
    case (Some x)
    then have "\<not> sg_failed (segment w)" using i by (cases x) (auto simp: winv_def flight_def)
    then show ?thesis by (intro flight_carries [OF _ c pr(2)]) (use i in \<open>simp_all add: winv_def swapped_def segment_new_def\<close>)
  qed (simp add: flight_def swapped_def)
  moreover have "claims S ?w"
    by (rule claims_carries [OF _ c pr(2) h]) (use i in \<open>simp_all add: winv_def claims_def swapped_def\<close>)
  moreover have "files N ?w"
    using i f n unfolding winv_def files_def
    by (auto simp: swapped_def segment_new_def seg_name_def)
  ultimately show ?thesis using i by (simp add: winv_def) (simp add: holding_def proper_def swapped_def)
qed

lemma rotation_le_attempted: "winv N S P w \<Longrightarrow> rot \<in> rotations w \<Longrightarrow> unat rot \<le> unat (sg_attempted (segment w))"
  by (fastforce simp: winv_def files_def rotations_def)

lemma winv_swap:
  assumes i: "winv N S P w" and q: "sg_failed (segment w) \<or> \<not> sg_dirty (segment w)" and N: "N + 1 < 2 ^ 32"
    and r: "swap_segment ops w = Some (ok, w')"
  shows "if ok then winv (N + 1) S P w' \<and> \<not> sg_failed (segment w') else winv (N + 1) (S @ P) [] w'"
proof -
  let ?w1 = "with_segment (\<lambda>s. s\<lparr>sg_attempted := sg_attempted s + 1\<rparr>) w"
  let ?next = "sg_attempted (segment w) + 1"
  note i1 = winv_attempt [OF i N]
  obtain rf d where c: "create_synced ops (w_generation w) ?next (w_cuts w) (w_disk w) = Some (rf, d)"
    using r by (auto simp: swap_segment_def with_segment_def Let_def split: option.splits)
  note cs = create_synced_ok [OF c]
  have new: "unat rot < unat ?next" if "rot \<in> rotations ?w1" for rot
    using rotation_le_attempted [OF i, of rot] that i1(2) by (auto simp: rotations_def with_segment_def)
  have i2: "winv (N + 1) S P (?w1\<lparr>w_disk := d\<rparr>)"
  proof (rule winv_disk [OF i1(1)])
    show "untouched stored firm pledged {segment_name (w_generation w) ?next} (w_disk ?w1) d"
      using cs by (simp add: with_segment_def)
    show "\<forall>rot \<in> rotations ?w1. \<forall>c. stored (w_disk ?w1) (seg_name ?w1 rot) = Some c \<longrightarrow> (\<exists>x. stored d (seg_name ?w1 rot) = Some (c @ x))"
    proof (intro ballI allI impI)
      fix rot c
      assume "rot \<in> rotations ?w1" and s: "stored (w_disk ?w1) (seg_name ?w1 rot) = Some c"
      then have "seg_name ?w1 rot \<noteq> segment_name (w_generation w) ?next"
        using new by (fastforce simp: seg_name_def with_segment_def segment_name_inj)
      then show "\<exists>x. stored d (seg_name ?w1 rot) = Some (c @ x)"
        using cs s by (simp add: untouched_def with_segment_def)
    qed
  qed
  show ?thesis
  proof (cases rf)
    case (Inl e)
    then show ?thesis using r winv_fail [OF i2] by (simp add: swap_segment_def Let_def with_segment_def c)
  next
    case (Inr f)
    let ?w2 = "?w1\<lparr>w_disk := d\<rparr>"
    have "winv (N + 1) S P (swapped f ?next ?w2)"
      by (rule winv_swapped [OF i2])
        (use q cs Inr new i i1(2) in \<open>auto simp: with_segment_def seg_name_def rotations_def winv_def files_def\<close>)
    moreover have "w' = nudge_if_due (publish_log_size (swapped f ?next ?w2))" "ok"
      using r Inr by (simp_all add: swap_segment_def Let_def with_segment_def c swapped_def)
    moreover have "winv (N + 1) S P (publish_log_size w) = winv (N + 1) S P w" for w :: "('d, 'f, 's) writer"
      by (simp add: publish_log_size_def Let_def)
    ultimately show ?thesis
      using winv_nudge [of "N + 1" S P "publish_log_size (swapped f ?next ?w2)"]
      by (simp add: nudge_fields) (simp add: publish_log_size_def Let_def swapped_def segment_new_def)
  qed
qed

lemma winv_rotate:
  assumes i: "winv N S P w" and N: "N + 1 < 2 ^ 32" and r: "rotate ops w = Some (ok, w')"
  shows "if ok then winv (N + 1) S P w' \<and> \<not> sg_failed (segment w') else winv (N + 1) (S @ P) [] w'"
proof (cases "sg_dirty (segment w) \<and> \<not> sg_failed (segment w)")
  case True
  obtain r1 w1 where m: "mark ops w = (r1, w1)" by fastforce
  note i1 = winv_mark [OF i m]
  show ?thesis
  proof (cases r1)
    case (Inl e)
    then show ?thesis
      using r True winv_more_turns [OF winv_fail, of N S P w1 "N + 1"] i1 by (simp add: rotate_def m)
  next
    case Inr1: (Inr x)
    obtain r2 w2 where y: "sync_through ops w1 = (r2, w2)" by fastforce
    from winv_sync_through [OF conjunct1 [OF i1] y] obtain d where i2: "winv N S P w2" and w2: "w2 = w1\<lparr>w_disk := d\<rparr>"
      and s: "r2 = Inr () \<longrightarrow> (\<exists>c. stored (w_disk w2) (seg_name w2 (sg_rotation (segment w2))) = Some c \<and>
        length c \<le> firm (w_disk w2) (seg_name w2 (sg_rotation (segment w2))))"
      by blast
    show ?thesis
    proof (cases r2)
      case (Inl e)
      then show ?thesis using r True winv_more_turns [OF winv_fail [OF i2], of "N + 1"] Inr1 by (simp add: rotate_def m y)
    next
      case (Inr x)
      then obtain c where "winv N S P (with_segment (\<lambda>s. s\<lparr>sg_dirty := False\<rparr>) w2)" using winv_clean [OF i2] s by auto
      from winv_swap [OF this _ N, of ok w'] show ?thesis
        using r True Inr Inr1 by (auto simp: rotate_def m y with_segment_def)
    qed
  qed
next
  case False
  then show ?thesis using winv_swap [OF i _ N] r by (auto simp: rotate_def)
qed

lemma winv_write_staged:
  assumes i: "winv N S P w" and N: "N + 1 < 2 ^ 32" and r: "write_staged ops w = Some w'"
  shows "winv (N + 1) (S @ P) [] w'"
proof (cases "staged w = []")
  case True
  have "P = []"
  proof (cases P)
    case (Cons p ps)
    then have "su_bytes p \<noteq> []" "staged w = concat (map su_bytes (p # ps))"
      using i by (simp_all add: winv_def proper_def holding_def)
    then show ?thesis using True by simp
  qed
  then show ?thesis using True r winv_more_turns [OF i, of "N + 1"] by (simp add: write_staged_def)
next
  case staged: False
  show ?thesis
  proof (cases "sg_failed (segment w) \<or> segment_bytes w \<le> sg_bytes (segment w)")
    case True
    obtain ok w1 where t: "rotate ops w = Some (ok, w1)"
      using r staged True by (auto simp: write_staged_def split: option.splits)
    then have "w' = (if ok then write_out ops w1 else w1)" using r staged True by (cases ok) (simp_all add: write_staged_def)
    then show ?thesis using winv_rotate [OF i N t] winv_write_out [of "N + 1" S P w1] by (cases ok) auto
  next
    case False
    then show ?thesis
      using r staged winv_more_turns [OF winv_write_out [OF i], of "N + 1"] by (simp add: write_staged_def)
  qed
qed

subsection \<open>Rounds\<close>

lemma winv_issue:
  assumes i: "winv N S [] w" and ok: "\<not> sg_failed (segment w)" "in_flight w = None"
  shows "winv N S [] (issue_sync ops now w)"
proof -
  have i0: "winv N S [] (w\<lparr>sync_wanted := False\<rparr>)" using i by simp
  obtain r1 w1 where m: "mark ops (w\<lparr>sync_wanted := False\<rparr>) = (r1, w1)" by fastforce
  note i1 = winv_mark [OF i0 m]
  show ?thesis
  proof (cases r1)
    case (Inl e)
    then show ?thesis using winv_fail [OF conjunct1 [OF i1]] by (simp add: issue_sync_def m)
  next
    case (Inr x)
    have iw: "winv N S [] w1" and w1: "\<not> sg_failed (segment w1)" "in_flight w1 = None" "w_plants w1 = no_plants"
      using i1 ok i by (auto simp: winv_def)
    obtain c where c: "stored (w_disk w1) (name_of (sg_file (segment w1))) = Some c"
      "name_of (sg_file (segment w1)) = seg_name w1 (sg_rotation (segment w1))"
      by (rule current_file [OF iw])
    obtain sy d where y: "dk_sync_later ops (sg_file (segment w1)) (w_disk w1) = (sy, d)" by fastforce
    have u: "untouched stored firm pledged {} (w_disk w1) d" and pl: "pledged sy (seg_name w1 (sg_rotation (segment w1))) (length c) d"
      using sync_later_ok [OF y c(1)] by (auto simp: c(2))
    have i2: "winv N S [] (w1\<lparr>w_disk := d\<rparr>)" by (rule winv_untouched [OF iw u]) simp
    let ?w2 = "w1\<lparr>w_disk := d\<rparr>"
    let ?w = "w1\<lparr>w_disk := d, segment := (segment w1)\<lparr>sg_dirty := False\<rparr>, in_flight := Some (map ln_written (lanes w1), sy)\<rparr>"
    have same: "told ?w = told ?w2" "safe ?w = safe ?w2" by (rule ext, simp add: fate_defs)+
    have st: "stored d (seg_name w1 (sg_rotation (segment w1))) = Some c" using u c by (simp add: untouched_def)
    have air: "in_air ?w s" if "live ?w2 s" for s
    proof -
      from that obtain k where "lies_in (su_bytes s) (Some c) k" "Some (su_batch s) \<le> ln_written (lanes w1 ! su_lane s)"
        using st by (auto simp: live_def seg_name_def)
      then show ?thesis
        using lies_in_length [of "su_bytes s" c k] st pl
        by (auto simp: in_air_def lies_def accounted_def seg_name_def intro!: exI [of _ "sg_rotation (segment w1)"] exI [of _ "length c"])
    qed
    have fate: "told ?w s \<or> safe ?w s \<or> in_air ?w s" if "s \<in> set S" for s
    proof -
      have "told ?w2 s \<or> safe ?w2 s \<or> live ?w2 s \<or> in_air ?w2 s" using i2 that by (auto simp: winv_def fates_def)
      then show ?thesis using air [of s] w1(2) by (auto simp: same in_air_def)
    qed
    have "fates S ?w" using fate by (auto simp: fates_def)
    moreover have "flight S ?w" using fate w1 i2 by (auto simp: flight_def winv_def claims_def)
    moreover have "claims S ?w" using i2 by (simp add: winv_def claims_def same)
    ultimately have "winv N S [] ?w"
      using i2 by (simp add: winv_def) (simp add: holding_def proper_def files_def seg_name_def)
    moreover have "winv N S [] (issue_sync ops now w) = winv N S [] ?w"
      by (rule winv_cong) (simp_all add: issue_sync_def m Inr with_segment_def on_disk_def y Let_def w1 no_plants_def)
    ultimately show ?thesis by simp
  qed
qed

lemma winv_maybe_issue: "winv N S [] w \<Longrightarrow> winv N S [] (maybe_issue ops now w)"
  by (cases "in_flight w") (auto simp: maybe_issue_def Let_def intro: winv_issue)

lemma length_report_lanes [simp]: "length (report_lanes r cs ls) = length ls"
  by (induction r cs ls rule: report_lanes.induct) simp_all

lemma nth_report_lanes: "length cs = length ls \<Longrightarrow> e < length ls \<Longrightarrow> report_lanes r cs ls ! e = report_lane r (cs ! e) (ls ! e)"
proof (induction r cs ls arbitrary: e rule: report_lanes.induct)
  case (1 r c cs l ls)
  then show ?case by (cases e) simp_all
qed simp_all

lemma report_lane_fields:
  "ln_received (report_lane r x l) = ln_received l" "ln_written (report_lane r x l) = ln_written l"
  "pending_bytes (report_lane r x l) = pending_bytes l" "ln_covered (report_lane r x l) = ln_covered l"
  "ln_progress (report_lane r x l) = ln_progress l \<or> x \<noteq> None \<and>
     ln_progress (report_lane r x l) = ln_progress l @ [Durable x (written_bytes l) r]"
  by (cases x; auto simp: report_lane_def send_progress_def)+

lemma winv_report:
  assumes i: "winv N S P w" and f: "in_flight w = None" "length fz = length (lanes w)"
    and k: "\<forall>e < length (lanes w). known S e (fz ! e)"
    and s: "\<forall>s \<in> set S. Some (su_batch s) \<le> fz ! su_lane s \<longrightarrow> told w s \<or> safe w s"
  shows "winv N S P (report_durable fz w)"
proof -
  let ?w = "report_durable fz w"
  have pr: "proper (S @ P) w" "proper S w" using i by (auto simp: winv_def proper_def)
  have n: "lanes ?w ! e = report_lane (w_round w) (fz ! e) (lanes w ! e)" if "e < length (lanes w)" for e
    using that f(2) by (simp add: report_durable_def nth_report_lanes)
  have len: "length (lanes ?w) = length (lanes w)" by (simp add: report_durable_def)
  have rest: "w_disk ?w = w_disk w" "segment ?w = segment w" "w_closed ?w = w_closed w" "w_generation ?w = w_generation w"
    "in_flight ?w = None" "staged ?w = staged w" "w_plants ?w = w_plants w"
    using f by (simp_all add: report_durable_def)
  have acc: "accounted ?w s rot" if "accounted w s rot" "su_lane s < length (lanes w)" for s rot
    using that by (auto simp: accounted_def n rest report_lane_fields)
  have pg: "\<exists>zs. ln_progress (lanes ?w ! e) = ln_progress (lanes w ! e) @ zs" if "e < length (lanes w)" for e
    using report_lane_fields(5) [of "w_round w" "fz ! e" "lanes w ! e"] n [OF that] by auto
  have c: "carries w ?w"
    unfolding carries_def using acc pg by (simp add: len rest n report_lane_fields(4) seg_name_def)
  have "claims S ?w"
    unfolding claims_def
  proof (intro allI impI conjI)
    fix e
    assume "e < length (lanes ?w)"
    then have e: "e < length (lanes w)" by (simp add: len)
    then show "known S e (ln_written (lanes ?w ! e))" using i by (simp add: n report_lane_fields winv_def claims_def)
    fix xs b j r ys
    assume p: "ln_progress (lanes ?w ! e) = xs @ Durable (Some b) j r # ys"
    consider (old) ys' where "ln_progress (lanes w ! e) = xs @ Durable (Some b) j r # ys'"
      | (new) "xs = ln_progress (lanes w ! e)" "fz ! e = Some b"
    proof (cases "ln_progress (lanes ?w ! e) = ln_progress (lanes w ! e)")
      case True
      show ?thesis by (rule old [of ys]) (use p True in simp)
    next
      case False
      then have "ln_progress (lanes w ! e) @ [Durable (fz ! e) (written_bytes (lanes w ! e)) (w_round w)] = xs @ Durable (Some b) j r # ys"
        using report_lane_fields(5) [of "w_round w" "fz ! e" "lanes w ! e"] p n [OF e] by auto
      from snoc_split [OF this] show ?thesis using old new by auto
    qed
    then have "known S e (Some b) \<and> (\<forall>s \<in> set (of_lane e S). su_batch s \<le> b \<longrightarrow> Fault \<in> set (drop (su_heard s) xs) \<or> safe w s)"
    proof cases
      case old
      then show ?thesis using claimsD [OF _ e old, of S] i by (auto simp: winv_def)
    next
      case new
      have "Fault \<in> set (drop (su_heard t) xs) \<or> safe w t" if "t \<in> set (of_lane e S)" "su_batch t \<le> b" for t
        using s [rule_format, of t] that new by (simp add: of_lane_set told_def)
      then show ?thesis using k e new by (auto simp: known_def)
    qed
    then show "known S e (Some b)"
      "\<forall>s \<in> set (of_lane e S). su_batch s \<le> b \<longrightarrow> Fault \<in> set (drop (su_heard s) xs) \<or> safe ?w s"
      using carries_safe [OF c] e by (auto simp: of_lane_set)
  qed
  moreover have "fates S ?w"
    unfolding fates_def
  proof
    fix s
    assume s: "s \<in> set S"
    then have l: "su_lane s < length (lanes w)" using pr by (auto simp: proper_def)
    have "told w s \<or> safe w s \<or> live w s" using i s f by (auto simp: winv_def fates_def in_air_def)
    then show "told ?w s \<or> safe ?w s \<or> live ?w s \<or> in_air ?w s"
      using carries_told [OF c l] carries_safe [OF c l] l
      by (auto simp: live_def n rest report_lane_fields seg_name_def)
  qed
  moreover have "proper (S @ P) ?w"
    by (rule proper_carries [OF pr(1) c])
  ultimately show ?thesis
    using i by (simp add: winv_def) (simp add: holding_def files_def flight_def n len rest report_lane_fields seg_name_def)
qed

lemma winv_landed:
  assumes i: "winv N S P w" and f: "in_flight w = Some (fz, sy)" and a: "dk_await ops sy (w_disk w) = (Inr (), d)"
  shows "winv N S P (w\<lparr>w_disk := d, in_flight := None\<rparr>)" "length fz = length (lanes w)"
    "\<forall>e < length (lanes w). known S e (fz ! e)"
    "\<forall>s \<in> set S. Some (su_batch s) \<le> fz ! su_lane s \<longrightarrow>
       told (w\<lparr>w_disk := d, in_flight := None\<rparr>) s \<or> safe (w\<lparr>w_disk := d, in_flight := None\<rparr>) s"
proof -
  let ?w1 = "w\<lparr>w_disk := d\<rparr>" and ?w = "w\<lparr>w_disk := d, in_flight := None\<rparr>"
  have u: "untouched stored firm pledged {} (w_disk w) d" using await_ok [OF a] by blast
  have st: "stored d = stored (w_disk w)" using u by (auto simp: untouched_def)
  have i1: "winv N S P ?w1" by (rule winv_untouched [OF i u]) simp
  have same: "told ?w = told ?w1" "safe ?w = safe ?w1" "live ?w = live ?w1" by (rule ext, simp add: fate_defs)+
  have land: "safe ?w1 s" if air: "in_air w s" for s
  proof -
    obtain rot k where k: "lies w s rot k" "pledged sy (seg_name w rot) k (w_disk w)" using air f by (auto simp: in_air_def)
    moreover from k(1) have "stored (w_disk w) (seg_name w rot) \<noteq> None" by (auto simp: lies_def lies_in_def)
    ultimately have "k \<le> firm d (seg_name w rot)" using await_ok [OF a, of "seg_name w rot" k] by blast
    then show ?thesis
      using k(1) lies_in_mono by (fastforce simp: safe_def lies_def accounted_def seg_name_def st)
  qed
  have c: "carries w ?w1" using u by (auto simp: carries_def untouched_def accounted_def)
  have pr: "su_lane s < length (lanes w)" if "s \<in> set S" for s using that i by (auto simp: winv_def proper_def)
  have old: "told w s \<or> safe w s \<Longrightarrow> told ?w1 s \<or> safe ?w1 s" if "s \<in> set S" for s
    using carries_told [OF c pr [OF that]] carries_safe [OF c pr [OF that]] by blast
  have "fates S ?w"
    unfolding fates_def same
  proof
    fix s
    assume s: "s \<in> set S"
    then have "told w s \<or> safe w s \<or> live w s \<or> in_air w s" using i by (auto simp: winv_def fates_def)
    moreover have "live w s \<Longrightarrow> live ?w1 s" by (simp add: live_def st seg_name_def)
    ultimately show "told ?w1 s \<or> safe ?w1 s \<or> live ?w1 s \<or> in_air ?w s" using old [OF s] land [of s] by blast
  qed
  moreover have "claims S ?w" using i1 by (simp add: winv_def claims_def same)
  ultimately show "winv N S P ?w"
    using i1 by (simp add: winv_def) (simp add: holding_def proper_def files_def flight_def seg_name_def)
  have fl: "flight S w" using i by (simp add: winv_def)
  show "length fz = length (lanes w)" "\<forall>e < length (lanes w). known S e (fz ! e)"
    using fl f unfolding flight_def by blast+
  show "\<forall>s \<in> set S. Some (su_batch s) \<le> fz ! su_lane s \<longrightarrow> told ?w s \<or> safe ?w s"
    unfolding same using fl f old land unfolding flight_def by blast
qed

lemma winv_sync_done:
  assumes i: "winv N S P w" and r: "sync_done ops now w = Some w'"
  shows "winv N (S @ P) [] w' \<and> in_flight w' = None \<or> winv N S P w' \<and> in_flight w' = None"
proof -
  obtain fz sy where f: "in_flight w = Some (fz, sy)" using r by (auto simp: sync_done_def split: option.splits)
  obtain res d where a: "dk_await ops sy (w_disk w) = (res, d)" by fastforce
  have i1: "winv N S P (w\<lparr>w_disk := d\<rparr>)" using winv_untouched [OF i, of "{}" d] await_ok [OF a] by simp
  have pl: "w_plants w = no_plants" using i by (simp add: winv_def)
  show ?thesis
  proof (cases res)
    case (Inl e)
    obtain st sl where w': "w' = fail (w\<lparr>w_disk := d, in_flight := None, w_stats := st, slow_warned := sl\<rparr>)"
      using r by (auto simp: sync_done_def f on_disk_def a Inl w_settle_def Let_def)
    have "winv N (S @ P) [] w' = winv N (S @ P) [] (fail (w\<lparr>w_disk := d\<rparr>))"
      by (rule winv_cong) (simp_all add: w' fail_fields)
    then show ?thesis using winv_fail [OF i1] w' by (simp add: fail_fields)
  next
    case (Inr x)
    let ?w = "w\<lparr>w_disk := d, in_flight := None\<rparr>"
    have "dk_await ops sy (w_disk w) = (Inr (), d)" using a Inr by simp
    note l = winv_landed [OF i f this]
    have "winv N S P (report_durable fz ?w)"
      by (rule winv_report [OF l(1)]) (use l(2-4) in simp_all)
    moreover obtain st sl where w': "w' = report_durable fz (w\<lparr>w_disk := d, in_flight := None, w_stats := st, slow_warned := sl\<rparr>)"
      using r pl by (auto simp: sync_done_def f on_disk_def a Inr w_settle_def Let_def no_plants_def)
    moreover have "winv N S P w' = winv N S P (report_durable fz ?w)"
      by (rule winv_cong) (simp_all add: w' report_durable_def)
    ultimately show ?thesis by (simp add: report_durable_def)
  qed
qed

lemma winv_finish_round:
  assumes i: "winv N S [] w" and f: "in_flight w = None"
  shows "winv N S [] (finish_round ops w)"
proof (cases "sg_dirty (segment w) \<and> \<not> sg_failed (segment w)")
  case True
  obtain r1 w1 where m: "mark ops w = (r1, w1)" by fastforce
  note i1 = winv_mark [OF i m]
  show ?thesis
  proof (cases r1)
    case (Inl e)
    then show ?thesis using winv_fail [OF conjunct1 [OF i1]] True by (simp add: finish_round_def m)
  next
    case Inr1: (Inr x)
    let ?w2 = "w1\<lparr>w_round := w_round w1 + 1\<rparr>"
    have i2: "winv N S [] ?w2" using i1 by simp
    obtain r2 w3 where y: "sync_through ops ?w2 = (r2, w3)" by fastforce
    from winv_sync_through [OF i2 y] obtain d where i3: "winv N S [] w3" and w3: "w3 = ?w2\<lparr>w_disk := d\<rparr>"
      and s: "r2 = Inr () \<longrightarrow> (\<exists>c. stored (w_disk w3) (seg_name w3 (sg_rotation (segment w3))) = Some c \<and>
        length c \<le> firm (w_disk w3) (seg_name w3 (sg_rotation (segment w3))))"
      by blast
    show ?thesis
    proof (cases r2)
      case (Inl e)
      then show ?thesis using winv_fail [OF i3] True Inr1 by (simp add: finish_round_def m y Let_def)
    next
      case (Inr x)
      let ?w4 = "with_segment (\<lambda>s. s\<lparr>sg_dirty := False\<rparr>) w3"
      have i4: "winv N S [] ?w4" using winv_clean [OF i3] s Inr by auto
      have q: "in_flight ?w4 = None" "\<not> sg_dirty (segment ?w4)" "lanes ?w4 = lanes w1"
        using i1 f by (simp_all add: with_segment_def w3)
      have "winv N S [] (report_durable (map ln_written (lanes w1)) ?w4)"
        by (rule winv_report [OF i4 q(1)])
          (use i4 q in \<open>auto simp: winv_def claims_def fates_def live_def in_air_def\<close>)
      then show ?thesis using True Inr Inr1 by (simp add: finish_round_def m y Let_def)
    qed
  qed
qed (use i in \<open>auto simp: finish_round_def\<close>)

lemma winv_flight_over:
  assumes i: "winv N S [] w" and w1: "w1 = (case sync_done ops now w of Some w' \<Rightarrow> w' | None \<Rightarrow> w)"
  shows "winv N S [] w1 \<and> in_flight w1 = None"
proof (cases "sync_done ops now w")
  case None
  then have "in_flight w = None" by (auto simp: sync_done_def split: option.splits prod.splits)
  then show ?thesis using i None w1 by simp
next
  case (Some w')
  then show ?thesis using winv_sync_done [OF i Some] w1 by auto
qed

lemma winv_last_round:
  assumes i: "winv N S [] w"
  shows "winv N S [] (last_round ops now w)"
proof -
  let ?w1 = "case sync_done ops now w of Some w' \<Rightarrow> w' | None \<Rightarrow> w"
  have "winv N S [] ?w1 \<and> in_flight ?w1 = None" by (rule winv_flight_over [OF i refl])
  then have i2: "winv N S [] (finish_round ops ?w1)" using winv_finish_round by blast
  have "winv N S [] (w\<lparr>lanes := map (send_progress Stopped) (lanes w)\<rparr>)" if i: "winv N S [] w" for w
  proof (rule winv_carries [OF i])
    show "carries w (w\<lparr>lanes := map (send_progress Stopped) (lanes w)\<rparr>)"
      by (auto simp: carries_def send_progress_def accounted_def seg_name_def)
  qed (use i in \<open>auto simp: hears_def send_progress_def winv_def files_def seg_name_def\<close>)
  from this [OF i2] show ?thesis by (simp add: last_round_def Let_def)
qed

lemma winv_watch_slow [simp]: "winv N S P (watch_slow now w) = winv N S P w"
  by (rule winv_cong) (simp_all add: watch_slow_def)

subsection \<open>Compaction\<close>

definition beside :: "('d, 'f, 's) writer \<Rightarrow> ('d, 'f, 's) writer \<Rightarrow> bool" where
  "beside w w' = ((\<forall>N S P. winv N S P w \<longrightarrow> winv N S P w') \<and> lanes w' = lanes w \<and> w_generation w' = w_generation w \<and>
     w_plants w' = w_plants w)"

lemma beside_trans: "beside w w1 \<Longrightarrow> beside w1 w2 \<Longrightarrow> beside w w2"
  by (simp add: beside_def)

lemma beside_refl [simp]: "beside w w"
  by (simp add: beside_def)

lemma beside_disk: "untouched stored firm pledged M (w_disk w) d \<Longrightarrow> \<forall>rot. seg_name w rot \<notin> M \<Longrightarrow> beside w (w\<lparr>w_disk := d\<rparr>)"
  using winv_untouched by (auto simp: beside_def)

lemma w_remove_ok:
  assumes "w_remove ops name w = (r, w')"
  shows "\<exists>d. w' = w\<lparr>w_disk := d\<rparr> \<and> untouched stored firm pledged {name} (w_disk w) d \<and>
    (\<forall>e. r = Inl e \<longrightarrow> stored d = stored (w_disk w))"
proof -
  obtain k d1 where l: "dk_len ops name (w_disk w) = (k, d1)" by fastforce
  obtain r2 d2 where m: "dk_remove_file ops name d1 = (r2, d2)" by fastforce
  have u1: "untouched stored firm pledged {} (w_disk w) d1" using len_ok [OF l] by blast
  note u2 = remove_ok [OF m]
  have w': "w' = w\<lparr>w_disk := d2\<rparr>" "(\<exists>e. r = Inl e) \<longleftrightarrow> (\<exists>e. r2 = Inl e)"
    using assms by (cases k; cases r2; auto simp: w_remove_def on_disk_def len_or_zero_def l m Let_def)+
  have "stored d2 = stored (w_disk w)" if "r = Inl e" for e
  proof
    fix n
    have "r2 \<noteq> Inr ()" using that w'(2) by auto
    then show "stored d2 n = stored (w_disk w) n" using u1 u2 by (cases "n = name") (auto simp: untouched_def)
  qed
  then show ?thesis using w'(1) untouched_after [OF u1 conjunct1 [OF u2]] by blast
qed

lemma beside_remove: "w_remove ops name w = (r, w') \<Longrightarrow> \<forall>rot. name \<noteq> seg_name w rot \<Longrightarrow> beside w w'"
  using w_remove_ok [of name w r w'] beside_disk [of "{name}" w] by auto

lemma sync_removals_ok: "sync_removals ops w = (r, w') \<Longrightarrow> \<exists>d. w' = w\<lparr>w_disk := d\<rparr> \<and> untouched stored firm pledged {} (w_disk w) d"
  using sync_dir_ok by (fastforce simp: sync_removals_def on_disk_def split: prod.splits sum.splits)

lemma beside_sync_removals: "sync_removals ops w = (r, w') \<Longrightarrow> beside w w'"
  using sync_removals_ok [of w r w'] beside_disk [of "{}" w] by auto

lemma beside_remove_one:
  assumes "generation_below (w_generation w) name = Some g" "remove_one ops (g', name) (rm, w) = (rm', w')"
  shows "beside w w'"
proof -
  obtain r w1 where m: "w_remove ops name w = (r, w1)" by fastforce
  have "\<forall>rot. name \<noteq> seg_name w rot"
    using assms(1) by (auto simp: generation_below_def name_generation_def seg_name_def parse_segment_name_name split: option.splits if_splits)
  from beside_remove [OF m this] show ?thesis
    using assms(2) by (cases r; auto simp: remove_one_def m beside_def split: if_splits io_error.splits)
qed

lemma beside_remove_step:
  assumes "generation_below (w_generation w) name = Some g" "remove_step ops rc (g', name) (rm, w) = (rm', w')"
  shows "beside w w'"
proof -
  obtain b w1 where y: "sync_removals ops w = (b, w1)" by fastforce
  note s = beside_sync_removals [OF y]
  have one: "beside w2 w'" if "remove_one ops (g', name) (rm2, w2) = (rm', w')" "w_generation w2 = w_generation w" for rm2 w2
    using beside_remove_one [OF _ that(1), of g] assms(1) that(2) by simp
  show ?thesis
    using assms(2) one [of _ w1] one [of _ w] s beside_trans [OF s]
    by (auto simp: remove_step_def y beside_def split: if_splits bool.splits option.splits)
qed

lemma beside_remove_older:
  assumes "remove_older ops names rc w = (rm', w')"
  shows "beside w w'"
proof -
  let ?L = "sort (List.map_filter (\<lambda>name. map_option (\<lambda>g. (g, name)) (older_generation w name)) names)"
  have all: "beside w2 (snd (fold (remove_step ops rc) L (rm, w2)))"
    if "\<forall>(g, name) \<in> set L. generation_below (w_generation w2) name = Some g" for L rm and w2 :: "('d, 'f, 's) writer"
    using that
  proof (induction L arbitrary: rm w2)
    case (Cons x L)
    obtain g name where x: "x = (g, name)" by fastforce
    obtain rm1 w3 where r: "remove_step ops rc (g, name) (rm, w2) = (rm1, w3)" by fastforce
    have b: "beside w2 w3" using beside_remove_step [OF _ r, of g] Cons.prems x by auto
    then have "\<forall>(g, name) \<in> set L. generation_below (w_generation w3) name = Some g" using Cons.prems by (simp add: beside_def)
    from beside_trans [OF b Cons.IH [OF this]] show ?case by (simp add: x r)
  qed simp
  have "\<forall>(g, name) \<in> set ?L. generation_below (w_generation w) name = Some g"
    by (auto simp: older_generation_def map_filter_def)
  from all [OF this, of "\<lparr>rm_left = False, rm_current = None, rm_unsynced = False, rm_stopped = None, rm_files = 0, rm_bytes = 0\<rparr>"]
  show ?thesis using assms unfolding remove_older_def by simp
qed

lemma beside_remove_snapshots: "fold (remove_snapshot ops e cyc) names (rm, w) = (rm', w') \<Longrightarrow> beside w w'"
proof (induction names arbitrary: rm w)
  case (Cons name names)
  obtain rm1 w1 where r: "remove_snapshot ops e cyc name (rm, w) = (rm1, w1)" by fastforce
  obtain x w2 where y: "w_remove ops name w = (x, w2)" by fastforce
  have "beside w w2" if "parse_snapshot_name name = Some z" for z
    using beside_remove [OF y] that segment_no_snapshot by (metis option.distinct(1) seg_name_def)
  then have "beside w w1" using r by (cases x) (auto simp: remove_snapshot_def y split: option.splits if_splits)
  moreover have "beside w1 w'" using Cons by (simp add: r)
  ultimately show ?case by (rule beside_trans)
qed simp

lemma closed_disk: "w\<lparr>w_closed := X, w_disk := d\<rparr> = w\<lparr>w_disk := d, w_closed := X\<rparr>"
  by (cases w) simp

lemma winv_drop:
  assumes i: "winv N S P w" and w: "w_closed w = kept @ c # cs" and cov: "covered_by_all (lanes w) c"
    and u: "untouched stored firm pledged {seg_name w (cl_rotation c)} (w_disk w) d"
  shows "winv N S P (w\<lparr>w_closed := kept @ cs, w_disk := d\<rparr>)"
proof (rule winv_carries [OF i])
  let ?w = "w\<lparr>w_closed := kept @ cs, w_disk := d\<rparr>"
  have "cl_rotation c \<notin> cl_rotation ` set (kept @ cs)" using i w by (auto simp: winv_def files_def)
  then have f: "\<forall>c' \<in> set (kept @ cs). cl_rotation c' \<noteq> cl_rotation c" by (metis image_eqI)
  have f': "sg_rotation (segment w) \<noteq> cl_rotation c"
    "length (cl_last_batch c) = length (lanes w)"
    using i w by (auto simp: winv_def files_def)
  have rot: "stored d (seg_name w rot) = stored (w_disk w) (seg_name w rot)" if "rot \<noteq> cl_rotation c" for rot
    using u that by (simp add: untouched_def seg_name_def segment_name_inj)
  have "Some (su_batch s) \<le> ln_covered (lanes w ! su_lane s) \<or> accounted ?w s rot \<and> rot \<noteq> cl_rotation c"
    if a: "accounted w s rot" "su_lane s < length (lanes w)" for s rot
  proof (cases "rot = cl_rotation c")
    case True
    then have "Some (su_batch s) \<le> cl_last_batch c ! su_lane s" using a(1) f f'(1) w by (auto simp: accounted_def)
    moreover have "(lanes w ! su_lane s, cl_last_batch c ! su_lane s) \<in> set (zip (lanes w) (cl_last_batch c))"
      using a(2) f'(2) by (auto simp: set_zip)
    then have "cl_last_batch c ! su_lane s \<le> ln_covered (lanes w ! su_lane s)"
      using cov by (fastforce simp: covered_by_all_def list_all_iff split: option.splits)
    ultimately show ?thesis by (meson order_trans)
  next
    case False
    then show ?thesis using a(1) w by (auto simp: accounted_def)
  qed
  then show "carries w ?w"
    unfolding carries_def using u rot by (auto simp: untouched_def) (metis append_Nil2)
  show "files N ?w"
    using i w rot [OF f'(1)] by (auto simp: winv_def files_def seg_name_def)
qed (simp_all add: hears_def)

lemma winv_remove_closed:
  assumes "remove_closed ops kept cs (rm, w) = (rm', w')" "winv N S P (w\<lparr>w_closed := kept @ cs\<rparr>)"
  shows "winv N S P w' \<and> lanes w' = lanes w"
  using assms
proof (induction cs arbitrary: kept rm w)
  case Nil
  then show ?case by auto
next
  case (Cons c cs)
  let ?W = "\<lambda>d X. w\<lparr>w_disk := d, w_closed := X\<rparr>"
  have pl: "\<not> removes_uncovered (w_plants w)" using Cons.prems(2) by (simp add: winv_def no_plants_def)
  consider (short) "\<not> covered_by_all (lanes w) c" | (zero) "covered_by_all (lanes w) c" "cl_rotation c = 0 \<and> rm_left rm"
    | (go) "covered_by_all (lanes w) c" "\<not> (cl_rotation c = 0 \<and> rm_left rm)" by blast
  then show ?case
  proof cases
    case short
    then show ?thesis using Cons.prems pl by auto
  next
    case zero
    then show ?thesis using Cons.IH [of "kept @ [c]" rm w] Cons.prems by simp
  next
    case go
    obtain b w1 where y: "(if rm_unsynced rm then sync_removals ops w else (True, w)) = (b, w1)" by fastforce
    then obtain d1 where w1: "w1 = w\<lparr>w_disk := d1\<rparr>" and u1: "untouched stored firm pledged {} (w_disk w) d1"
      using sync_removals_ok [of w b w1] untouched_refl [of stored firm pledged "{}" "w_disk w"]
      by (cases "rm_unsynced rm") (auto intro: that [of "w_disk w"])
    have i1: "winv N S P (?W d1 (kept @ c # cs))"
      using winv_untouched [OF Cons.prems(2), of "{}" d1] u1 by (simp add: closed_disk)
    show ?thesis
    proof (cases b)
      case False
      then show ?thesis using Cons.prems(1) go i1 y w1 by auto
    next
      case True
      let ?n = "segment_name (w_generation w) (cl_rotation c)"
      obtain r w2 where m: "w_remove ops ?n w1 = (r, w2)" by fastforce
      from w_remove_ok [OF m] obtain d2 where w2: "w2 = w\<lparr>w_disk := d2\<rparr>" and u2: "untouched stored firm pledged {?n} d1 d2"
        and e2: "\<forall>e. r = Inl e \<longrightarrow> stored d2 = stored d1" by (auto simp: w1)
      show ?thesis
      proof (cases r)
        case (Inl e)
        have "winv N S P (?W d2 (kept @ c # cs))"
          using winv_disk [OF i1, of "{?n}" d2] u2 e2 Inl by (simp add: closed_disk)
        then show ?thesis using Cons.prems(1) go y True m Inl w2 w1 by auto
      next
        case (Inr k)
        have "winv N S P (?W d2 (kept @ cs))"
          using winv_drop [OF i1, of kept c cs d2] go(1) u2 by (simp add: seg_name_def closed_disk)
        then show ?thesis
          using Cons.IH [of kept _ w2] Cons.prems(1) go y True m Inr w1 w2 by (simp add: Let_def)
      qed
    qed
  qed
qed

lemma winv_compact:
  assumes "winv N S P w"
  shows "winv N S P (compact ops e cyc w)" "lanes (compact ops e cyc w) = lanes w"
proof -
  obtain r d where l: "dk_list ops (w_disk w) = (r, d)" by fastforce
  let ?w1 = "w\<lparr>w_disk := d\<rparr>" and ?names = "case r of Inr ns \<Rightarrow> ns | Inl _ \<Rightarrow> []"
  let ?rc = "list_all (\<lambda>l. snapshot_bytes l \<noteq> None) (lanes w)"
  obtain rm2 w2 where o: "remove_older ops ?names ?rc ?w1 = (rm2, w2)" by fastforce
  let ?w3 = "if \<not> rm_left rm2 then w2\<lparr>older_bytes := 0\<rparr> else w2"
  obtain rm4 w4 where n: "fold (remove_snapshot ops e cyc) ?names (rm2, ?w3) = (rm4, w4)" by fastforce
  obtain rm5 w5 where c: "remove_closed ops [] (w_closed w4) (rm4, w4) = (rm5, w5)" by fastforce
  have "beside w ?w1" using list_ok [OF l] by (intro beside_disk [of "{}"]) auto
  moreover have "beside ?w1 w2" by (rule beside_remove_older [OF o])
  moreover have "beside w2 ?w3" by (simp add: beside_def)
  moreover have "beside ?w3 w4" by (rule beside_remove_snapshots [OF n])
  ultimately have b: "beside w w4" by (meson beside_trans)
  then have "winv N S P w4" using assms by (simp add: beside_def)
  then have i5: "winv N S P w5" "lanes w5 = lanes w" using winv_remove_closed [OF c] b by (auto simp: beside_def)
  obtain q w6 where y: "sync_removals ops (publish_log_size w5) = (q, w6)" by fastforce
  have "beside (publish_log_size w5) w6" by (rule beside_sync_removals [OF y])
  then have i6: "winv N S P w6" "lanes w6 = lanes w"
    using i5 by (auto simp: beside_def publish_log_size_def Let_def)
  have "compact ops e cyc w = (if rm_files rm5 = 0 then w5 else w6)"
    using o n c y by (simp add: compact_def on_disk_def l Let_def)
  then show "winv N S P (compact ops e cyc w)" "lanes (compact ops e cyc w) = lanes w" using i5 i6 by auto
qed

subsection \<open>Turns\<close>

lemma with_lane_SomeD:
  assumes "with_lane e f w = Some w'"
  shows "unat e < length (lanes w)" "w' = w\<lparr>lanes := (lanes w)[unat e := f (lanes w ! unat e)]\<rparr>"
  using assms by (auto simp: with_lane_def split: if_splits)

lemma winv_lane:
  assumes i: "winv N S P w" and e: "e < length (lanes w)"
    and l: "ln_received l = ln_received (lanes w ! e)" "ln_written l = ln_written (lanes w ! e)"
      "pending_bytes l = pending_bytes (lanes w ! e)" "ln_progress l = ln_progress (lanes w ! e)"
      "ln_covered (lanes w ! e) \<le> ln_covered l"
  shows "winv N S P (w\<lparr>lanes := (lanes w)[e := l]\<rparr>)"
proof (rule winv_carries [OF i])
  let ?w = "w\<lparr>lanes := (lanes w)[e := l]\<rparr>"
  have "accounted ?w s rot" if "accounted w s rot" "su_lane s < length (lanes w)" for s rot
    using that l(2) e by (auto simp: accounted_def nth_list_update)
  then show "carries w ?w" using l e by (auto simp: carries_def nth_list_update seg_name_def)
  show "files N ?w" using i by (simp add: winv_def files_def seg_name_def)
qed (use l e in \<open>auto simp: hears_def nth_list_update\<close>)

lemma winv_submit:
  assumes i: "winv N S P w" and e: "e < length (lanes w)" and r: "ranked (S @ P @ [s])"
    and s: "su_lane s = e" "su_batch s = b" "su_heard s = length (ln_progress (lanes w ! e))" "su_bytes s = bs" "bs \<noteq> []"
    and l: "l = (lanes w ! e)\<lparr>ln_received := Some b, pending_bytes := pending_bytes (lanes w ! e) + length bs\<rparr>"
  shows "winv N S (P @ [s]) (w\<lparr>lanes := (lanes w)[e := l], staged := staged w @ bs\<rparr>)"
proof -
  let ?w = "w\<lparr>lanes := (lanes w)[e := l], staged := staged w @ bs\<rparr>"
  have pg: "ln_progress ((lanes w)[e := l] ! x) = ln_progress (lanes w ! x)" "ln_written ((lanes w)[e := l] ! x) = ln_written (lanes w ! x)"
    "ln_covered ((lanes w)[e := l] ! x) = ln_covered (lanes w ! x)" for x
    using e l by (cases "x = e"; simp)+
  have same: "told ?w = told w" "safe ?w = safe w" "live ?w = live w" "in_air ?w = in_air w"
    by (rule ext, simp add: fate_defs pg)+
  have "holding (P @ [s]) ?w"
    using i e l s by (auto simp: winv_def holding_def nth_list_update of_lane_def)
  moreover have "proper (S @ P @ [s]) ?w" using i e s by (simp add: winv_def proper_def pg)
  moreover have "fates S ?w" "flight S ?w" "claims S ?w"
    using i by (simp_all add: winv_def fates_def flight_def claims_def same pg)
  ultimately show ?thesis using i r by (simp add: winv_def) (simp add: files_def seg_name_def)
qed

lemma winv_take:
  assumes i: "winv N S P w" and t: "w_take ops m w = Some w'" and r: "ranked (S @ P @ submitted w [m])"
    and b: "\<forall>s \<in> set (submitted w [m]). su_bytes s \<noteq> []"
  shows "winv N S (P @ submitted w [m]) w' \<and> length (lanes w') = length (lanes w) \<and>
    (\<forall>e < length (lanes w). ln_progress (lanes w' ! e) = ln_progress (lanes w ! e))"
proof (cases m)
  case (Submit e b bs)
  let ?l = "(lanes w ! unat e)\<lparr>ln_received := Some b, pending_bytes := pending_bytes (lanes w ! unat e) + length bs\<rparr>"
  obtain w1 where w1: "with_lane e (\<lambda>l. l\<lparr>ln_received := Some b, pending_bytes := pending_bytes l + length bs\<rparr>) w = Some w1"
    "w' = w1\<lparr>staged := staged w1 @ bs\<rparr>"
    using t Submit by auto
  note wl = with_lane_SomeD [OF w1(1)]
  have "w' = w\<lparr>lanes := (lanes w)[unat e := ?l], staged := staged w @ bs\<rparr>" using w1(2) wl(2) by simp
  then show ?thesis
    using winv_submit [OF i wl(1), of "hd (submitted w [m])" b bs ?l] r assms(4) Submit wl(1) by (simp add: nth_list_update heard_def)
next
  case (Covered e c through n)
  obtain w1 where w1: "with_lane e (\<lambda>l. l\<lparr>ln_covered := max (ln_covered l) through, snapshot_bytes := Some n, ln_nudged := False,
      ln_refusing := False\<rparr>) w = Some w1" "w' = compact ops e c w1"
    using t Covered by (auto simp: w_covered_def)
  note wl = with_lane_SomeD [OF w1(1)]
  have "winv N S P w1" unfolding wl(2) by (rule winv_lane [OF i wl(1)]) simp_all
  from winv_compact [OF this, of e c] show ?thesis using w1(2) wl Covered by (simp add: nth_list_update)
next
  case SyncNow
  then show ?thesis using i t by auto
next
  case (StopWriter e)
  then have t': "with_lane e (\<lambda>l. l\<lparr>ln_stopped := True\<rparr>) w = Some w'" using t by simp
  note wl = with_lane_SomeD [OF t']
  have "winv N S P w'" unfolding wl(2) by (rule winv_lane [OF i wl(1)]) simp_all
  then show ?thesis using wl StopWriter by (simp add: nth_list_update)
qed

lemma submitted_cong:
  assumes "length (lanes w') = length (lanes w)" "\<forall>e < length (lanes w). ln_progress (lanes w' ! e) = ln_progress (lanes w ! e)"
  shows "submitted w' ms = submitted w ms"
proof (induction ms)
  case (Cons m ms)
  then show ?case using assms by (cases m) (auto simp: heard_def)
qed simp

lemma submitted_Cons: "submitted w (m # ms) = submitted w [m] @ submitted w ms"
  by (cases m) simp_all

lemma winv_take_all:
  assumes "winv N S P w" "take_all ops ms w = Some w'" "ranked (S @ P @ submitted w ms)"
    and "\<forall>s \<in> set (submitted w ms). su_bytes s \<noteq> []"
  shows "winv N S (P @ submitted w ms) w'"
  using assms
proof (induction ms arbitrary: P w)
  case Nil
  then show ?case by simp
next
  case (Cons m ms)
  note split = submitted_Cons [of w m ms]
  obtain w1 where t: "w_take ops m w = Some w1" "take_all ops ms w1 = Some w'"
    using Cons.prems(2) by (auto simp: bind_eq_Some_conv)
  have rk: "ranked (S @ P @ submitted w [m])"
    using Cons.prems(3) ranked_append [of "S @ P @ submitted w [m]" "submitted w ms"] by (simp only: split append_assoc)
  have ne: "\<forall>s \<in> set (submitted w [m]). su_bytes s \<noteq> []" "\<forall>s \<in> set (submitted w ms). su_bytes s \<noteq> []"
    using Cons.prems(4) unfolding split by auto
  note i1 = winv_take [OF Cons.prems(1) t(1) rk ne(1)]
  have same: "submitted w1 ms = submitted w ms" using i1 by (intro submitted_cong) auto
  have "winv N S ((P @ submitted w [m]) @ submitted w1 ms) w'"
    using Cons.IH [OF conjunct1 [OF i1] t(2)] Cons.prems(3) ne(2) unfolding same split by simp
  then show ?case unfolding same split by simp
qed

lemma winv_turn:
  assumes i: "winv N S [] w" and N: "N + 1 < 2 ^ 32" and t: "writer_turn ops wk w = Some (stop, w')"
    and r: "ranked (S @ submitted w (messages wk))" "\<forall>s \<in> set (submitted w (messages wk)). su_bytes s \<noteq> []"
  shows "winv (N + 1) (S @ submitted w (messages wk)) [] w'"
proof (cases wk)
  case (SyncSettled later now)
  then obtain w1 where "sync_done ops later w = Some w1" "w' = maybe_issue ops now w1" using t by auto
  then show ?thesis
    using winv_sync_done [OF i] winv_maybe_issue winv_more_turns [of N S "[]" w' "N + 1"] SyncSettled by auto
next
  case (Inbox ms now later)
  obtain w1 w2 where w1: "take_all ops ms w = Some w1" and w2: "write_staged ops w1 = Some w2"
    using t Inbox by (auto simp: bind_eq_Some_conv)
  have "winv N S (submitted w ms) w1" using winv_take_all [OF i w1] r Inbox by simp
  from winv_maybe_issue [OF winv_write_staged [OF this N w2], of now]
  have i3: "winv (N + 1) (S @ submitted w ms) [] (maybe_issue ops now w2)" .
  have "w' = maybe_issue ops now w2 \<or> w' = last_round ops later (maybe_issue ops now w2)"
    using t Inbox w1 w2 by (auto simp: Let_def split: if_splits)
  then show ?thesis using i3 winv_last_round [OF i3] Inbox by auto
next
  case InboxClosed
  then show ?thesis using t winv_more_turns [OF i] by auto
next
  case (WriterTick watched now)
  then have "w' = maybe_issue ops now (watch_slow watched w)" using t by auto
  then show ?thesis
    using winv_maybe_issue [of N S "watch_slow watched w" now] winv_more_turns [of N S "[]" w' "N + 1"] i WriterTick by simp
qed

lemma sum_lens_ok: "sum_lens ops names d = (k, d') \<Longrightarrow> untouched stored firm pledged {} d d'"
proof (induction names arbitrary: k d)
  case (Cons name names)
  obtain r d1 where l: "dk_len ops name d = (r, d1)" by fastforce
  have u: "untouched stored firm pledged {} d d1" using len_ok [OF l] by blast
  obtain m where "sum_lens ops names d1 = (m, d')"
    using Cons.prems by (cases r) (auto simp: len_or_zero_def l split: prod.splits)
  then show ?case using untouched_after [OF u Cons.IH] by simp
qed (simp add: untouched_refl)

lemma winv_open:
  assumes o: "writer_open ops now sp d = Some (Inr w)" and p: "ws_plants sp = no_plants"
  shows "winv 0 [] [] w"
proof -
  let ?n = "segment_name (ws_generation sp) 0"
  obtain f d1 where c: "create_synced ops (ws_generation sp) 0 (ws_cuts sp) d = Some (Inr f, d1)"
    using o by (auto simp: writer_open_def split: option.splits sum.splits)
  have f: "name_of f = ?n" "stored d1 ?n \<noteq> None" using create_synced_ok [OF c] by auto
  obtain r d2 where l: "dk_list ops d1 = (r, d2)" by fastforce
  obtain names where r: "r = Inr names" using o by (cases r) (auto simp: writer_open_def c l)
  let ?older = "filter (\<lambda>name. generation_below (ws_generation sp) name \<noteq> None) names"
  obtain b3 d3 where s3: "sum_lens ops ?older d2 = (b3, d3)" by fastforce
  obtain b4 d4 where s4: "sum_lens ops (filter (\<lambda>name. parse_segment_name name \<noteq> None) ?older) d3 = (b4, d4)" by fastforce
  have "untouched stored firm pledged {} d1 d4"
    using untouched_after [OF untouched_after [OF conjunct1 [OF list_ok [OF l]] sum_lens_ok [OF s3]] sum_lens_ok [OF s4]] .
  then have "stored d4 ?n \<noteq> None" using f by (simp add: untouched_def)
  moreover have "w_disk w = d4 \<and> w_generation w = ws_generation sp \<and> segment w = segment_new f 0 \<and> staged w = [] \<and>
      lanes w = replicate (unat (ws_executors sp)) lane_new \<and> in_flight w = None \<and> w_closed w = [] \<and> w_plants w = no_plants"
    using o p by (auto simp: writer_open_def c l r s3 s4 Let_def publish_log_size_def simp del: not_None_eq filter_filter)
  ultimately show ?thesis
    using f by (auto simp: segment_new_def winv_def holding_def proper_def ranked_def files_def fates_def flight_def claims_def
        lane_new_def seg_name_def)
qed

lemma winv_runs:
  assumes "writer_runs ops (segments_left stored firm pledged) w0 h w" "winv 0 [] [] w0"
    and "length h < 2 ^ 32" "ranked (concat h)" "\<forall>s \<in> set (concat h). su_bytes s \<noteq> []"
  shows "winv (length h) (concat h) [] w"
  using assms
proof (induction rule: writer_runs.induct)
  case start
  then show ?case by (simp add: winv_nudge)
next
  case (turn h w wk stop w')
  then have "winv (length h) (concat h) [] w" using ranked_append [of "concat h" "submitted w (messages wk)"] by simp
  from winv_turn [OF this _ turn.hyps(3)] turn.prems show ?case by simp
next
  case (world h w d)
  have "\<forall>rot. seg_name w rot \<notin> {n. parse_segment_name n = None}" by (simp add: seg_name_def parse_segment_name_name)
  then show ?case using world winv_untouched by (simp add: segments_left_def)
qed

lemma finish_round_idle:
  assumes i: "winv N S [] w" and f: "in_flight w = None"
  shows "in_flight (finish_round ops w) = None \<and> (sg_failed (segment (finish_round ops w)) \<or> \<not> sg_dirty (segment (finish_round ops w)))"
proof (cases "sg_dirty (segment w) \<and> \<not> sg_failed (segment w)")
  case True
  obtain r1 w1 where m: "mark ops w = (r1, w1)" by fastforce
  obtain r2 w2 where y: "sync_through ops (w1\<lparr>w_round := w_round w1 + 1\<rparr>) = (r2, w2)" by fastforce
  have "in_flight w2 = in_flight w1" using y by (auto simp: sync_through_def on_disk_def split: prod.splits)
  then show ?thesis
    using True winv_mark [OF i m] f
    by (cases r1; cases r2) (auto simp: finish_round_def m y Let_def fail_fields report_durable_def with_segment_def)
qed (use f in \<open>auto simp: finish_round_def\<close>)

lemma last_round_idle:
  assumes i: "winv N S [] w"
  shows "in_flight (last_round ops now w) = None" "sg_failed (segment (last_round ops now w)) \<or> \<not> sg_dirty (segment (last_round ops now w))"
    "length (lanes (last_round ops now w)) = length (lanes (finish_round ops (case sync_done ops now w of Some w' \<Rightarrow> w' | None \<Rightarrow> w)))"
    "e < length (lanes (last_round ops now w)) \<Longrightarrow> last (ln_progress (lanes (last_round ops now w) ! e)) = Stopped"
proof -
  let ?w1 = "case sync_done ops now w of Some w' \<Rightarrow> w' | None \<Rightarrow> w"
  have "winv N S [] ?w1 \<and> in_flight ?w1 = None"
    by (rule winv_flight_over [OF i refl])
  then show "in_flight (last_round ops now w) = None" "sg_failed (segment (last_round ops now w)) \<or> \<not> sg_dirty (segment (last_round ops now w))"
    using finish_round_idle [of N S ?w1] by (simp_all add: last_round_def Let_def)
  show "length (lanes (last_round ops now w)) = length (lanes (finish_round ops ?w1))"
    "e < length (lanes (last_round ops now w)) \<Longrightarrow> last (ln_progress (lanes (last_round ops now w) ! e)) = Stopped"
    by (simp_all add: last_round_def Let_def send_progress_def)
qed

lemma stopped_settles:
  assumes i: "winv N S [] w" and N: "N + 1 < 2 ^ 32" and t: "writer_turn ops (Inbox ms now later) w = Some (True, w')"
    and r: "ranked (S @ submitted w ms)" "\<forall>s \<in> set (submitted w ms). su_bytes s \<noteq> []" and s: "s \<in> set (S @ submitted w ms)"
  shows "last (ln_progress (lanes w' ! su_lane s)) = Stopped \<and> (told w' s \<or> safe w' s)"
proof -
  obtain w1 w2 where w1: "take_all ops ms w = Some w1" and w2: "write_staged ops w1 = Some w2"
    using t by (auto simp: bind_eq_Some_conv)
  have "winv N S (submitted w ms) w1" using winv_take_all [OF i w1] r by simp
  from winv_maybe_issue [OF winv_write_staged [OF this N w2], of now]
  have i3: "winv (N + 1) (S @ submitted w ms) [] (maybe_issue ops now w2)" .
  have w': "w' = last_round ops later (maybe_issue ops now w2)" using t w1 w2 by (auto simp: Let_def split: if_splits)
  have i4: "winv (N + 1) (S @ submitted w ms) [] w'" unfolding w' by (rule winv_last_round [OF i3])
  then have "told w' s \<or> safe w' s"
    using s last_round_idle(1,2) [OF i3, of later] by (auto simp: winv_def fates_def live_def in_air_def w')
  moreover have "su_lane s < length (lanes w')" using i4 s by (auto simp: winv_def proper_def)
  ultimately show ?thesis using last_round_idle(4) [OF i3, of "su_lane s" later] w' by simp
qed

lemma safe_stored:
  assumes "safe w s"
  shows "Some (su_batch s) \<le> ln_covered (lanes w ! su_lane s) \<or>
    (\<exists>rot c i. stored (w_disk w) (segment_name (w_generation w) rot) = Some c \<and> take (length (su_bytes s)) (drop i c) = su_bytes s \<and>
       i + length (su_bytes s) \<le> firm (w_disk w) (segment_name (w_generation w) rot))"
  using assms unfolding safe_def lies_def lies_in_def seg_name_def by blast

end

end
