(* ===== verification/WriterCorrect.thy ===== *)
theory WriterCorrect
  imports WriterInv
begin

text \<open>
  The promises of the log writer, from the invariant of \<open>WriterInv\<close>, and a run over the disk in a
  map that witnesses them.
\<close>

section \<open>Properties\<close>

text \<open>C4. What the writer calls durable is on the disk. Whatever the disk refuses and whatever else
  happens in the directory, once an executor has been sent \<open>Durable\<close> through batch \<open>b\<close>, every
  batch it submitted with a number up to \<open>b\<close> lies whole in a segment of the generation, in
  bytes a crash spares; the only exceptions are batches a durable snapshot covers, and batches
  whose executor was sent \<open>Fault\<close> between the submission and the \<open>Durable\<close>.\<close>

theorem durable_is_on_disk:
  assumes "log_disk ops stored firm pledged name_of" "writer_open ops now sp d = Some (Inr w0)" "ws_plants sp = no_plants"
    and "writer_runs ops (segments_left stored firm pledged) w0 h w" "length h < 2 ^ 32"
    and "ranked (concat h)" "\<forall>s \<in> set (concat h). su_bytes s \<noteq> []"
    and "s \<in> set (concat h)" "ln_progress (lanes w ! su_lane s) = before @ Durable (Some b) n r # rest" "su_batch s \<le> b"
  shows "Fault \<in> set (drop (su_heard s) before) \<or> Some (su_batch s) \<le> ln_covered (lanes w ! su_lane s) \<or>
    (\<exists>rot c i. stored (w_disk w) (segment_name (w_generation w) rot) = Some c \<and> take (length (su_bytes s)) (drop i c) = su_bytes s \<and>
       i + length (su_bytes s) \<le> firm (w_disk w) (segment_name (w_generation w) rot))"
proof -
  note ld = log_disk.winv_open [OF assms(1-3)]
  note i = log_disk.winv_runs [OF assms(1,4) ld assms(5-7)]
  have l: "su_lane s < length (lanes w)" "s \<in> set (of_lane (su_lane s) (concat h))"
    using i assms(8) by (auto simp: log_disk.winv_def [OF assms(1)] log_disk.proper_def [OF assms(1)] of_lane_set)
  have "Fault \<in> set (drop (su_heard s) before) \<or> log_disk.safe stored firm w s"
    using log_disk.claimsD(2) [OF assms(1) _ l(1) assms(9) l(2) assms(10)] i by (auto simp: log_disk.winv_def [OF assms(1)])
  then show ?thesis using log_disk.safe_stored [OF assms(1)] by blast
qed


section \<open>Witnesses\<close>

definition a_writer_spec :: writer_spec where
  "a_writer_spec = \<lparr>ws_generation = 1, ws_cuts = [], ws_executors = 1, ws_policy = ALWAYS, ws_segment_bytes = SEGMENT_BYTES,
     ws_checkpoint = \<lparr>cf_floor = 1, cf_ratio = 1, bytes_per_tick = 1\<rparr>, ws_plants = no_plants, ws_stats = stats_new 1\<rparr>"

definition a_mem :: mem_fs where
  "a_mem = mem_fs_default\<lparr>fs_dir := True\<rparr>"

definition a_batch :: submission where
  "a_batch = \<lparr>su_lane = 0, su_batch = 0, su_heard = 0, su_bytes = [7]\<rparr>"

lemmas disk_eval = mem_disk_ops_def mem_create_append_def mem_write_all_def mem_sync_data_def mem_sync_later_def mem_await_def
  mem_sync_dir_def mem_list_def mem_len_def countdown_def sync_fails_def mark_synced_def contents_def mem_fs_default_def a_mem_def

lemmas writer_eval = writer_open_def create_synced_def create_segment_def a_writer_spec_def generation_below_def name_generation_def
  parse_segment_name_name ALWAYS_def publish_log_size_def segment_new_def lane_new_def nudge_if_due_def nudge_lane_def
  with_lane_def write_staged_def write_out_def written_lane_def send_progress_def with_segment_def on_disk_def maybe_issue_def
  issue_sync_def mark_def sync_done_def w_settle_def report_durable_def report_lane_def no_plants_def heard_def last_round_def
  finish_round_def SEGMENT_BYTES_def WRITTEN_GRAIN_def WRITER_BUDGET_def Let_def bind_eq_Some_conv

lemma a_segment_header: "\<exists>h. encode_segment_header 1 0 [] = Some h"
  by (simp add: encode_segment_header_def Let_def)

text \<open>The writer with its first round in flight, over a segment that began with the header \<open>h\<close>.\<close>

definition a_flight :: "bytes \<Rightarrow> (mem_fs, bytes, unit io) writer" where
  "a_flight h =
     \<lparr>w_disk = a_mem\<lparr>fs_files := [(segment_name 1 0, h @ 7 # SYNC_MARK)],
        fs_synced := [(segment_name 1 0, Suc (length h + length SYNC_MARK))], fs_syncs := [(segment_name 1 0, 2)],
        fs_dir_syncs := 1, fs_journal := [DirSynced]\<rparr>,
      w_generation = 1, w_cuts = [], w_policy = ALWAYS, segment_bytes = SEGMENT_BYTES,
      w_checkpoint = \<lparr>cf_floor = 1, cf_ratio = 1, bytes_per_tick = 1\<rparr>, w_plants = no_plants,
      segment = (segment_new (segment_name 1 0) 0)\<lparr>sg_bytes := Suc (length SYNC_MARK)\<rparr>,
      lanes = [lane_new\<lparr>ln_received := Some 0, ln_written := Some 0, written_bytes := 1\<rparr>],
      staged = [], in_flight = Some ([Some 0], Inr ()), issued_at = 0, slow_warned = False, sync_wanted = False, w_round = 1,
      w_closed = [], older_bytes = 0, older_segments = 0, older_seg_bytes = 0,
      w_stats = (stats_new 1)\<lparr>log_bytes := 1 + of_nat (segment_header_len 0), log_segments := 1, sync_in_flight := 1\<rparr>\<rparr>"

lemma a_first_turn:
  assumes "encode_segment_header 1 0 [] = Some h"
  shows "\<exists>w0. writer_open mem_disk_ops 0 a_writer_spec a_mem = Some (Inr w0) \<and>
     writer_turn mem_disk_ops (Inbox [Submit 0 0 [7]] 0 0) (nudge_if_due w0) = Some (False, a_flight h) \<and>
     submitted (nudge_if_due w0) [Submit 0 0 [7]] = [a_batch]"
  using assms by (simp add: writer_eval disk_eval a_batch_def a_flight_def)

lemma a_second_turn:
  "\<exists>w. writer_turn mem_disk_ops (SyncSettled 0 0) (a_flight h) = Some (False, w) \<and>
     ln_progress (lanes w ! 0) = [Durable (Some 0) 1 1] \<and>
     (\<exists>w'. writer_turn mem_disk_ops (Inbox [StopWriter 0] 0 0) w = Some (True, w'))"
  by (simp add: writer_eval disk_eval a_flight_def)

lemma a_durable_run:
  "\<exists>w0 w. writer_open mem_disk_ops 0 a_writer_spec a_mem = Some (Inr w0) \<and>
     writer_runs mem_disk_ops (segments_left mem_stored mem_firm mem_pledged) w0 [[a_batch], []] w \<and>
     ln_progress (lanes w ! 0) = [Durable (Some 0) 1 1] \<and>
     (\<exists>w'. writer_turn mem_disk_ops (Inbox [StopWriter 0] 0 0) w = Some (True, w'))"
proof -
  obtain h where h: "encode_segment_header 1 0 [] = Some h" using a_segment_header by blast
  obtain w0 where w0: "writer_open mem_disk_ops 0 a_writer_spec a_mem = Some (Inr w0)"
    "writer_turn mem_disk_ops (Inbox [Submit 0 0 [7]] 0 0) (nudge_if_due w0) = Some (False, a_flight h)"
    "submitted (nudge_if_due w0) [Submit 0 0 [7]] = [a_batch]"
    using a_first_turn [OF h] by blast
  obtain w w' where w: "writer_turn mem_disk_ops (SyncSettled 0 0) (a_flight h) = Some (False, w)"
    "ln_progress (lanes w ! 0) = [Durable (Some 0) 1 1]"
    "writer_turn mem_disk_ops (Inbox [StopWriter 0] 0 0) w = Some (True, w')"
    using a_second_turn [of h] by blast
  have r1: "writer_runs mem_disk_ops env w0 [[a_batch]] (a_flight h)" for env
    using writer_runs.turn [OF writer_runs.start, of "Inbox [Submit 0 0 [7]] 0 0" w0 mem_disk_ops False "a_flight h" env] w0(2,3)
    by (simp add: writer_ready_def)
  have "in_flight (a_flight h) \<noteq> None" by (simp add: a_flight_def)
  then have "writer_runs mem_disk_ops env w0 ([[a_batch]] @ [[]]) w" for env
    using writer_runs.turn [OF r1, of "SyncSettled 0 0" False w env] w(1) by (simp add: writer_ready_def)
  then show ?thesis using w0 w by auto
qed

lemma a_batch_ranked: "ranked [a_batch]"
  by (simp add: ranked_def of_lane_def)

theorem durable_is_on_disk_witness:
  "\<exists>w :: (mem_fs, bytes, unit io) writer. ln_progress (lanes w ! 0) = [Durable (Some 0) 1 1] \<and>
     (Some 0 \<le> ln_covered (lanes w ! 0) \<or>
      (\<exists>rot c i. mem_stored (w_disk w) (segment_name (w_generation w) rot) = Some c \<and> take 1 (drop i c) = [7] \<and>
         i + 1 \<le> mem_firm (w_disk w) (segment_name (w_generation w) rot)))"
proof -
  obtain w0 w where o: "writer_open mem_disk_ops 0 a_writer_spec a_mem = Some (Inr w0)"
    and r: "writer_runs mem_disk_ops (segments_left mem_stored mem_firm mem_pledged) w0 [[a_batch], []] w"
    and p: "ln_progress (lanes w ! 0) = [Durable (Some 0) 1 1]"
    using a_durable_run by blast
  have "Some 0 \<le> ln_covered (lanes w ! 0) \<or>
      (\<exists>rot c i. mem_stored (w_disk w) (segment_name (w_generation w) rot) = Some c \<and> take 1 (drop i c) = [7] \<and>
         i + 1 \<le> mem_firm (w_disk w) (segment_name (w_generation w) rot))"
    using durable_is_on_disk [OF mem.log_disk_axioms o _ r, of a_batch "[]" 0 1 1 "[]"] p a_batch_ranked
    by (simp add: a_writer_spec_def a_batch_def)
  with p show ?thesis by blast
qed


end
