(* ===== verification/Compaction.thy ===== *)
theory Compaction
  imports WriterInv
begin

text \<open>
  The order in which the writer removes files, over the disk in a map and its journal of removals
  and directory syncs. A generation's segments hold the rebases that keep older generations'
  records dead, so they must not be gone while an older file could still be there after a crash.
\<close>

section \<open>The journal\<close>

definition newer_segment :: "bytes \<Rightarrow> bytes \<Rightarrow> bool" where
  "newer_segment old new = (\<exists>g g' r. name_generation old = Some g \<and> parse_segment_name new = Some (g', r) \<and> g < g')"

definition not_before :: "bytes \<Rightarrow> bytes \<Rightarrow> bool" where
  "not_before n1 n2 = (\<forall>g1 g2. name_generation n1 = Some g1 \<longrightarrow> name_generation n2 = Some g2 \<longrightarrow> g1 \<le> g2)"

text \<open>Files go oldest generation first, and between the removal of a file and that of a newer
  generation's segment the directory is synced.\<close>

definition in_order :: "journal_entry list \<Rightarrow> bool" where
  "in_order js = (\<forall>xs old ys new zs. js = xs @ journal_entry.Removed old # ys @ journal_entry.Removed new # zs \<longrightarrow>
     not_before old new \<and> (newer_segment old new \<longrightarrow> DirSynced \<in> set ys))"

text \<open>The removals no sync of the directory has followed.\<close>

definition loose :: "journal_entry list \<Rightarrow> bytes set" where
  "loose js = {n. journal_entry.Removed n \<in> set (takeWhile (\<lambda>x. x \<noteq> DirSynced) (rev js))}"

lemma loose_simps [simp]: "loose [] = {}" "loose (js @ [DirSynced]) = {}" "loose (js @ [journal_entry.Removed n]) = insert n (loose js)"
  by (auto simp: loose_def)

lemma looseI: "js = xs @ journal_entry.Removed n # ys \<Longrightarrow> DirSynced \<notin> set ys \<Longrightarrow> n \<in> loose js"
  by (auto simp: loose_def takeWhile_append)

lemma in_order_Nil [simp]: "in_order []"
  by (simp add: in_order_def)

lemma in_order_synced: "in_order js \<Longrightarrow> in_order (js @ [DirSynced])"
  unfolding in_order_def
proof (intro allI impI)
  fix xs old ys new zs
  assume a: "\<forall>xs old ys new zs. js = xs @ journal_entry.Removed old # ys @ journal_entry.Removed new # zs \<longrightarrow>
      not_before old new \<and> (newer_segment old new \<longrightarrow> DirSynced \<in> set ys)"
    and e: "js @ [DirSynced] = xs @ journal_entry.Removed old # ys @ journal_entry.Removed new # zs"
  show "not_before old new \<and> (newer_segment old new \<longrightarrow> DirSynced \<in> set ys)"
  proof (cases zs rule: rev_cases)
    case (snoc zs' z)
    then have "js = xs @ journal_entry.Removed old # ys @ journal_entry.Removed new # zs'" using e by simp
    then show ?thesis using a by blast
  qed (use e in simp)
qed

lemma in_order_removed:
  assumes "in_order js" "\<forall>n1 \<in> loose js. \<not> newer_segment n1 n" "\<And>n1. journal_entry.Removed n1 \<in> set js \<Longrightarrow> not_before n1 n"
  shows "in_order (js @ [journal_entry.Removed n])"
  unfolding in_order_def
proof (intro allI impI)
  fix xs old ys new zs
  assume e: "js @ [journal_entry.Removed n] = xs @ journal_entry.Removed old # ys @ journal_entry.Removed new # zs"
  show "not_before old new \<and> (newer_segment old new \<longrightarrow> DirSynced \<in> set ys)"
  proof (cases zs rule: rev_cases)
    case Nil
    then have "js @ [journal_entry.Removed n] = (xs @ journal_entry.Removed old # ys) @ [journal_entry.Removed new]" using e by simp
    then have "js = xs @ journal_entry.Removed old # ys" "new = n" by (simp_all only: append1_eq_conv journal_entry.inject)
    then show ?thesis using looseI [of js xs old ys] assms(2,3) by auto
  next
    case (snoc zs' z)
    then have "js @ [journal_entry.Removed n] = (xs @ journal_entry.Removed old # ys @ journal_entry.Removed new # zs') @ [z]" using e by simp
    then have "js = xs @ journal_entry.Removed old # ys @ journal_entry.Removed new # zs'" by (simp only: append1_eq_conv)
    then show ?thesis using assms(1) unfolding in_order_def by blast
  qed
qed

text \<open>So a crash with the journal at any point, whichever of the unsynced removals it undoes,
  leaves no file while a newer generation's segment is gone.\<close>

lemma in_order_crash:
  assumes "in_order (p @ q)" "old \<in> loose p \<or> journal_entry.Removed old \<in> set q" "journal_entry.Removed new \<in> set p"
  shows "\<not> newer_segment old new"
proof
  assume n: "newer_segment old new"
  obtain xs zs where p: "p = xs @ journal_entry.Removed new # zs" using split_list [OF assms(3)] by blast
  have later: False if r: "journal_entry.Removed old \<in> set (zs @ q)"
  proof -
    obtain ys ws where "zs @ q = ys @ journal_entry.Removed old # ws" using split_list [OF r] by blast
    then have "p @ q = xs @ journal_entry.Removed new # ys @ journal_entry.Removed old # ws" using p by simp
    then have "not_before new old" using assms(1) unfolding in_order_def by blast
    then show False using n by (auto simp: not_before_def newer_segment_def name_generation_def split: option.splits)
  qed
  show False
  proof (cases "journal_entry.Removed old \<in> set q")
    case False
    then have "journal_entry.Removed old \<in> set (takeWhile (\<lambda>x. x \<noteq> DirSynced) (rev p))" using assms(2) by (simp add: loose_def)
    then obtain as bs where ab: "takeWhile (\<lambda>x. x \<noteq> DirSynced) (rev p) = as @ journal_entry.Removed old # bs" using split_list by metis
    define cs where "cs = dropWhile (\<lambda>x. x \<noteq> DirSynced) (rev p)"
    have "rev p = (as @ journal_entry.Removed old # bs) @ cs" using ab takeWhile_dropWhile_id cs_def by metis
    then have "p = rev ((as @ journal_entry.Removed old # bs) @ cs)" by (metis rev_rev_ident)
    then have p': "p = rev (bs @ cs) @ journal_entry.Removed old # rev as" by simp
    have dry: "DirSynced \<notin> set as" using ab set_takeWhileD [of DirSynced "\<lambda>x. x \<noteq> DirSynced" "rev p"] by auto
    have "new \<noteq> old" using n by (auto simp: newer_segment_def name_generation_def)
    then consider "journal_entry.Removed new \<in> set (rev as)" | "journal_entry.Removed new \<in> set (rev (bs @ cs))" using assms(3) p' by auto
    then show False
    proof cases
      case 1
      then obtain us vs where "rev as = us @ journal_entry.Removed new # vs" using split_list by metis
      then have "p @ q = rev (bs @ cs) @ journal_entry.Removed old # us @ journal_entry.Removed new # (vs @ q)" "DirSynced \<notin> set us"
        using p' dry by (auto simp flip: set_rev [of as])
      then show False using assms(1) n unfolding in_order_def by blast
    next
      case 2
      then obtain us vs where "rev (bs @ cs) = us @ journal_entry.Removed new # vs" using split_list by metis
      then have "p @ q = us @ journal_entry.Removed new # vs @ journal_entry.Removed old # (rev as @ q)" using p' by simp
      then have "not_before new old" using assms(1) unfolding in_order_def by blast
      then show False using n by (auto simp: not_before_def newer_segment_def name_generation_def split: option.splits)
    qed
  qed (use later in auto)
qed

section \<open>One removal, one sync\<close>

type_synonym mem_writer = "(mem_fs, bytes, unit io) writer"

definition journaled :: "mem_writer \<Rightarrow> journal_entry list \<Rightarrow> mem_writer \<Rightarrow> bool" where
  "journaled w js w' = (fs_journal (w_disk w') = fs_journal (w_disk w) @ js \<and> w_generation w' = w_generation w \<and>
     (\<forall>n. mem_stored (w_disk w') n \<noteq> None \<longrightarrow> mem_stored (w_disk w) n \<noteq> None) \<and>
     (\<forall>n. journal_entry.Removed n \<notin> set js \<longrightarrow> mem_stored (w_disk w') n = mem_stored (w_disk w) n))"

lemma journaled_refl: "journaled w [] w"
  by (simp add: journaled_def)

lemma journaled_trans: "journaled w js w1 \<Longrightarrow> journaled w1 js' w2 \<Longrightarrow> journaled w (js @ js') w2"
  by (auto simp: journaled_def)

lemma journaled_left: "journaled w js w' \<Longrightarrow> mem_stored (w_disk w') n \<noteq> None \<Longrightarrow> mem_stored (w_disk w) n \<noteq> None"
  by (simp add: journaled_def)

lemma mem_remove_file_journal:
  assumes "mem_remove_file name d = (r, d')"
  shows "r = Inr () \<and> fs_journal d' = fs_journal d @ [journal_entry.Removed name] \<and> mem_stored d' = (mem_stored d)(name := None) \<or>
    r = Inl NotFound \<and> fs_journal d' = fs_journal d \<and> mem_stored d' = mem_stored d \<and> mem_stored d name = None \<or>
    r = Inl io_error.Failed \<and> fs_journal d' = fs_journal d \<and> mem_stored d' = mem_stored d"
  using assms by (auto simp: mem_remove_file_def Let_def mem_stored_def fun_eq_iff split: prod.splits if_splits)

lemma w_remove_disk:
  "w_remove mem_disk_ops name w = (r, w') \<Longrightarrow>
    \<exists>d'. mem_remove_file name (w_disk w) = (map_sum id (\<lambda>_. ()) r, d') \<and> w' = w\<lparr>w_disk := d'\<rparr>"
  by (auto simp: w_remove_def on_disk_def len_or_zero_def mem_disk_ops_def mem_len_def Let_def split: option.splits sum.splits prod.splits)

lemma w_remove_journaled:
  assumes "w_remove mem_disk_ops name w = (r, w')"
  shows "(\<exists>k. r = Inr k) \<and> journaled w [journal_entry.Removed name] w' \<and> mem_stored (w_disk w') name = None \<or>
    r = Inl NotFound \<and> journaled w [] w' \<and> mem_stored (w_disk w') name = None \<or>
    r = Inl io_error.Failed \<and> journaled w [] w'"
proof -
  obtain d' where d: "mem_remove_file name (w_disk w) = (map_sum id (\<lambda>_. ()) r, d')" "w' = w\<lparr>w_disk := d'\<rparr>"
    using w_remove_disk [OF assms] by blast
  show ?thesis using mem_remove_file_journal [OF d(1)] d(2) by (cases r) (auto simp: journaled_def)
qed

lemma sync_removals_journaled:
  assumes "sync_removals mem_disk_ops w = (b, w')"
  shows "journaled w (if b then [DirSynced] else []) w' \<and> lanes w' = lanes w \<and> w_plants w' = w_plants w"
  using assms
  by (auto simp: sync_removals_def on_disk_def mem_disk_ops_def mem_sync_dir_def countdown_def Let_def journaled_def mem_stored_def
      split: option.splits if_splits)


lemma journaled_fields:
  "journaled w js (w'\<lparr>older_segments := a, older_seg_bytes := b\<rparr>) = journaled w js w'"
  "journaled w js (w'\<lparr>w_closed := cs\<rparr>) = journaled w js w'" "journaled (w\<lparr>older_bytes := c\<rparr>) js w' = journaled w js w'"
  by (simp_all add: journaled_def)

section \<open>The older generations\<close>

text \<open>What the pass over the older files keeps, \<open>met\<close> being the files it has come by, oldest
  generation first, and \<open>js\<close> what it has journaled: its removals are in order, those not yet synced
  are of the generation at hand, and once a file stays only its own generation and older ones lose
  files.\<close>

definition pass_ok :: "(u64 \<times> bytes) list \<Rightarrow> journal_entry list \<Rightarrow> removal \<Rightarrow> bool" where
  "pass_ok met js rm = (in_order js \<and>
     (\<forall>n \<in> loose js. rm_unsynced rm \<and> name_generation n = rm_current rm) \<and>
     (rm_unsynced rm \<longrightarrow> rm_current rm \<noteq> None) \<and>
     (\<forall>(g, n) \<in> set met. name_generation n = Some g) \<and>
     (\<forall>n. journal_entry.Removed n \<in> set js \<longrightarrow> n \<in> snd ` set met))"

definition stays_ok :: "bool \<Rightarrow> journal_entry list \<Rightarrow> removal \<Rightarrow> u64 \<Rightarrow> bool" where
  "stays_ok rc js rm g = (rm_left rm \<and>
     (rc \<longrightarrow> (\<exists>c. rm_stopped rm = Some c \<and> c \<le> g \<and> (c = g \<longrightarrow> rm_current rm = Some g))) \<and>
     (\<forall>n g'. journal_entry.Removed n \<in> set js \<longrightarrow> name_generation n = Some g' \<longrightarrow> g' \<le> g))"

definition halted :: "bool \<Rightarrow> (u64 \<times> bytes) list \<Rightarrow> journal_entry list \<Rightarrow> removal \<Rightarrow> mem_writer \<Rightarrow> bool" where
  "halted rc met js rm w = (\<forall>(g, name) \<in> set met. mem_stored (w_disk w) name \<noteq> None \<longrightarrow> stays_ok rc js rm g)"

definition to_come :: "(u64 \<times> bytes) list \<Rightarrow> removal \<Rightarrow> u64 \<times> bytes \<Rightarrow> bool" where
  "to_come met rm gn = (name_generation (snd gn) = Some (fst gn) \<and> (\<forall>(g, _) \<in> set met. g \<le> fst gn) \<and>
     (\<forall>c. rm_current rm = Some c \<longrightarrow> c \<le> fst gn))"

lemma newer_segment_later: "newer_segment n1 n \<Longrightarrow> name_generation n1 = Some g1 \<Longrightarrow> name_generation n = Some g \<Longrightarrow> g1 < g"
  by (auto simp: newer_segment_def name_generation_def split: option.splits)

lemma remove_one_journaled:
  assumes "remove_one mem_disk_ops (g, name) (rm, w) = (rm', w')"
  shows "rm_current rm' = rm_current rm \<and>
    (journaled w [journal_entry.Removed name] w' \<and> mem_stored (w_disk w') name = None \<and> rm_unsynced rm' \<and> rm_left rm' = rm_left rm \<and> rm_stopped rm' = rm_stopped rm \<or>
     journaled w [] w' \<and> mem_stored (w_disk w') name = None \<and> rm' = rm \<or>
     journaled w [] w' \<and> rm_left rm' \<and> rm_stopped rm' = Some g \<and> rm_unsynced rm' = rm_unsynced rm)"
proof -
  obtain r w1 where r: "w_remove mem_disk_ops name w = (r, w1)" by fastforce
  from w_remove_journaled [OF r] consider (gone_now) k where "r = Inr k" "journaled w [journal_entry.Removed name] w1" "mem_stored (w_disk w1) name = None"
    | (gone) "r = Inl NotFound" "journaled w [] w1" "mem_stored (w_disk w1) name = None" | (failed) "r = Inl io_error.Failed" "journaled w [] w1"
    by (elim disjE conjE exE)
  then show ?thesis
  proof cases
    case gone_now
    have "journaled w [journal_entry.Removed name] w' \<and> w_disk w' = w_disk w1 \<and> rm_current rm' = rm_current rm \<and> rm_unsynced rm' \<and> rm_left rm' = rm_left rm \<and> rm_stopped rm' = rm_stopped rm"
      using assms r gone_now by (cases "parse_segment_name name = None") (force simp: remove_one_def journaled_fields)+
    then show ?thesis using gone_now by simp
  next
    case failed
    have "w' = w1" "rm' = rm\<lparr>rm_left := True, rm_stopped := Some g\<rparr>" using assms r failed by (simp_all add: remove_one_def)
    then show ?thesis using failed by simp
  qed (use assms r in \<open>simp add: remove_one_def\<close>)
qed

lemma removed_at_most:
  assumes "pass_ok met js rm" "to_come met rm (g, name)" "journal_entry.Removed n \<in> set js" "name_generation n = Some g'"
  shows "g' \<le> g"
proof -
  have "n \<in> snd ` set met" using assms(1,3) unfolding pass_ok_def by blast
  then obtain h where h: "(h, n) \<in> set met" by force
  then have "name_generation n = Some h" "h \<le> g" using assms(1,2) by (auto simp: pass_ok_def to_come_def)
  then show ?thesis using assms(4) by simp
qed

lemma halted_mono:
  assumes "halted rc met js rm w" "journaled w k w'" "\<And>g n. (g, n) \<in> set met \<Longrightarrow> stays_ok rc js rm g \<Longrightarrow> stays_ok rc (js @ k) rm' g"
    and "mem_stored (w_disk w') name \<noteq> None \<Longrightarrow> stays_ok rc (js @ k) rm' g"
  shows "halted rc (met @ [(g, name)]) (js @ k) rm' w'"
  using assms by (fastforce simp: halted_def journaled_def)

text \<open>A step that reaches the removal: the generation is the one at hand.\<close>

lemma remove_one_pass:
  assumes r: "remove_one mem_disk_ops (g, name) (rm, w) = (rm', w')" and p: "pass_ok met js rm" "halted rc met js rm w" "to_come met rm (g, name)"
    and c: "rm_current rm = Some g" "\<And>c. rm_stopped rm = Some c \<Longrightarrow> g \<le> c" "rc"
  shows "\<exists>k. journaled w k w' \<and> pass_ok (met @ [(g, name)]) (js @ k) rm' \<and> halted rc (met @ [(g, name)]) (js @ k) rm' w' \<and>
    rm_current rm' = Some g"
proof -
  have g: "name_generation name = Some g" using p(3) by (simp add: to_come_def)
  have cur: "rm_current rm' = Some g" using remove_one_journaled [OF r] c(1) by simp
  consider
    (removed) "journaled w [journal_entry.Removed name] w'" "mem_stored (w_disk w') name = None" "rm_unsynced rm'" "rm_left rm' = rm_left rm" "rm_stopped rm' = rm_stopped rm"
  | (gone) "journaled w [] w'" "mem_stored (w_disk w') name = None" "rm' = rm"
  | (left) "journaled w [] w'" "rm_left rm'" "rm_stopped rm' = Some g" "rm_unsynced rm' = rm_unsynced rm"
    using remove_one_journaled [OF r] by argo
  then show ?thesis
  proof cases
    case removed
    have "\<forall>n1 \<in> loose js. \<not> newer_segment n1 name"
      using p(1) c(1) g newer_segment_later unfolding pass_ok_def by (metis less_irrefl)
    moreover have "not_before n1 name" if "journal_entry.Removed n1 \<in> set js" for n1
      using removed_at_most [OF p(1,3) that] g by (simp add: not_before_def)
    ultimately have "in_order (js @ [journal_entry.Removed name])" using p(1) in_order_removed unfolding pass_ok_def by blast
    then have "pass_ok (met @ [(g, name)]) (js @ [journal_entry.Removed name]) rm'"
      using p(1) g removed(3) cur c(1) by (auto simp: pass_ok_def)
    moreover have "halted rc (met @ [(g, name)]) (js @ [journal_entry.Removed name]) rm' w'"
    proof (rule halted_mono [OF p(2) removed(1)])
      fix g1 n1 assume "(g1, n1) \<in> set met" and s: "stays_ok rc js rm g1"
      have "g \<le> g1" using s c(2,3) unfolding stays_ok_def by (meson order_trans)
      then show "stays_ok rc (js @ [journal_entry.Removed name]) rm' g1"
        using s removed(4,5) c(1) cur g by (auto simp: stays_ok_def)
    qed (use removed(2) in simp)
    ultimately show ?thesis using removed(1) cur by blast
  next
    case gone
    have "pass_ok (met @ [(g, name)]) (js @ []) rm'" using p(1) g gone(3) by (auto simp: pass_ok_def)
    moreover have "halted rc (met @ [(g, name)]) (js @ []) rm' w'"
      by (rule halted_mono [OF p(2) gone(1)]) (use gone in \<open>auto simp: stays_ok_def\<close>)
    ultimately show ?thesis using gone(1) cur by blast
  next
    case left
    have "pass_ok (met @ [(g, name)]) (js @ []) rm'" using p(1) g left(4) cur c(1) by (auto simp: pass_ok_def)
    moreover have "halted rc (met @ [(g, name)]) (js @ []) rm' w'"
    proof (rule halted_mono [OF p(2) left(1)])
      fix g1 n1 assume "(g1, n1) \<in> set met" and s: "stays_ok rc js rm g1"
      have "g \<le> g1" using s c(2,3) unfolding stays_ok_def by (meson order_trans)
      then show "stays_ok rc (js @ []) rm' g1" using s left(2,3) cur by (auto simp: stays_ok_def)
    next
      show "stays_ok rc (js @ []) rm' g" using left(2,3) cur removed_at_most [OF p(1,3)] by (auto simp: stays_ok_def)
    qed
    ultimately show ?thesis using left(1) cur by blast
  qed
qed

text \<open>Where the generation changes, nothing of the newer one has stayed.\<close>

lemma all_gone:
  assumes "halted rc met js rm w" "to_come met rm (g, name)" "rm_current rm \<noteq> Some g" "rc" "\<And>c. rm_stopped rm = Some c \<Longrightarrow> g \<le> c"
    and "(g1, n1) \<in> set met"
  shows "mem_stored (w_disk w) n1 = None"
proof (rule ccontr)
  assume "mem_stored (w_disk w) n1 \<noteq> None"
  then have "stays_ok rc js rm g1" using assms(1,6) by (auto simp: halted_def)
  then obtain c where c: "rm_stopped rm = Some c" "c \<le> g1" "c = g1 \<longrightarrow> rm_current rm = Some g1"
    using assms(4) unfolding stays_ok_def by blast
  moreover have "g1 \<le> g" using assms(2,6) by (auto simp: to_come_def)
  moreover have "g \<le> c" using assms(5) c(1) .
  ultimately show False using assms(3) by (metis order_antisym order_trans)
qed

lemma remove_step_pass:
  assumes r: "remove_step mem_disk_ops rc (g, name) (rm, w) = (rm', w')" and p: "pass_ok met js rm" "halted rc met js rm w" "to_come met rm (g, name)"
  shows "\<exists>k. journaled w k w' \<and> pass_ok (met @ [(g, name)]) (js @ k) rm' \<and> halted rc (met @ [(g, name)]) (js @ k) rm' w' \<and>
    (rm_current rm' = rm_current rm \<or> rm_current rm' = Some g)"
proof -
  have g: "name_generation name = Some g" using p(3) by (simp add: to_come_def)
  let ?skip = "\<not> rc \<or> (case rm_stopped rm of Some stopped \<Rightarrow> stopped < g | None \<Rightarrow> False)"
  show ?thesis
  proof (cases ?skip)
    case True
    then have e: "rm' = rm\<lparr>rm_left := True\<rparr>" "w' = w" using r unfolding remove_step_def by (simp_all only: prod.case fst_conv if_True prod.inject)
    have s: "stays_ok rc (js @ []) rm' g" using True removed_at_most [OF p(1,3)] e by (auto simp: stays_ok_def split: option.splits)
    have "halted rc (met @ [(g, name)]) (js @ []) rm' w'"
      by (rule halted_mono [OF p(2)]) (use e s in \<open>auto simp: journaled_refl stays_ok_def\<close>)
    moreover have "pass_ok (met @ [(g, name)]) (js @ []) rm'" using p(1) g e by (auto simp: pass_ok_def)
    ultimately show ?thesis using e journaled_refl [of w] by (intro exI [of _ "[]"]) simp
  next
    case False
    have step: "remove_step mem_disk_ops rc (g, name) (rm, w) =
      (if rm_current rm \<noteq> Some g then
        if rm_unsynced rm then
          (case sync_removals mem_disk_ops w of
             (False, w1) \<Rightarrow> (rm\<lparr>rm_stopped := rm_current rm, rm_left := True\<rparr>, w1)
           | (True, w1) \<Rightarrow> remove_one mem_disk_ops (g, name) (rm\<lparr>rm_unsynced := False, rm_current := Some g\<rparr>, w1))
        else remove_one mem_disk_ops (g, name) (rm\<lparr>rm_unsynced := False, rm_current := Some g\<rparr>, w)
      else remove_one mem_disk_ops (g, name) (rm, w))"
      using False unfolding remove_step_def by (simp only: prod.case fst_conv if_False)
    from False have stop: "rc" "\<And>c. rm_stopped rm = Some c \<Longrightarrow> g \<le> c" by (auto split: option.splits)
    let ?rm = "rm\<lparr>rm_unsynced := False, rm_current := Some g\<rparr>"
    consider (same) "rm_current rm = Some g"
      | (dry) "rm_current rm \<noteq> Some g" "\<not> rm_unsynced rm"
      | (synced) w1 where "rm_current rm \<noteq> Some g" "rm_unsynced rm" "sync_removals mem_disk_ops w = (True, w1)"
      | (unsynced) w1 where "rm_current rm \<noteq> Some g" "rm_unsynced rm" "sync_removals mem_disk_ops w = (False, w1)"
      by (metis (full_types) surj_pair)
    then show ?thesis
    proof cases
      case same
      then have "remove_one mem_disk_ops (g, name) (rm, w) = (rm', w')" using r unfolding step by simp
      from remove_one_pass [OF this p same stop(2) stop(1)] show ?thesis by blast
    next
      case dry
      then have o: "remove_one mem_disk_ops (g, name) (?rm, w) = (rm', w')" using r unfolding step by simp
      have "pass_ok met js ?rm" "to_come met ?rm (g, name)" using p(1,3) dry(2) by (auto simp: pass_ok_def to_come_def)
      moreover have "halted rc met js ?rm w" using all_gone [OF p(2,3) dry(1) stop] by (auto simp: halted_def)
      ultimately show ?thesis using remove_one_pass [OF o _ _ _ _ _ stop(1)] stop(2) by fastforce
    next
      case synced
      then have o: "remove_one mem_disk_ops (g, name) (?rm, w1) = (rm', w')" using r unfolding step by simp
      have j: "journaled w [DirSynced] w1" using sync_removals_journaled [OF synced(3)] by simp
      have "pass_ok met (js @ [DirSynced]) ?rm" using p(1) by (auto simp: pass_ok_def in_order_synced)
      moreover have "to_come met ?rm (g, name)" using p(3) by (auto simp: to_come_def)
      moreover have "halted rc met (js @ [DirSynced]) ?rm w1"
        using all_gone [OF p(2,3) synced(1) stop] j by (auto simp: halted_def journaled_def)
      ultimately obtain k where "journaled w1 k w'" "pass_ok (met @ [(g, name)]) ((js @ [DirSynced]) @ k) rm'"
          "halted rc (met @ [(g, name)]) ((js @ [DirSynced]) @ k) rm' w'" "rm_current rm' = Some g"
        using remove_one_pass [OF o _ _ _ _ _ stop(1), of met "js @ [DirSynced]"] stop(2) by fastforce
      then show ?thesis using journaled_trans [OF j] by (intro exI [of _ "[DirSynced] @ k"]) simp
    next
      case unsynced
      then have e: "rm' = rm\<lparr>rm_stopped := rm_current rm, rm_left := True\<rparr>" "w' = w1" using r unfolding step by simp_all
      have j: "journaled w [] w'" using sync_removals_journaled [OF unsynced(3)] e by simp
      obtain c where c: "rm_current rm = Some c" using p(1) unsynced(2) by (auto simp: pass_ok_def)
      have "c \<le> g" using p(3) c by (simp add: to_come_def)
      then have s: "stays_ok rc (js @ []) rm' g"
        using e c unsynced(1) removed_at_most [OF p(1,3)] by (auto simp: stays_ok_def)
      have "halted rc (met @ [(g, name)]) (js @ []) rm' w'"
        using all_gone [OF p(2,3) unsynced(1) stop] j s by (fastforce simp: halted_def journaled_def)
      moreover have "pass_ok (met @ [(g, name)]) (js @ []) rm'" using p(1) g e by (auto simp: pass_ok_def)
      ultimately show ?thesis using j e by (intro exI [of _ "[]"]) simp
    qed
  qed
qed

lemma remove_older_pass:
  assumes "fold (remove_step mem_disk_ops rc) L (rm, w) = (rm', w')" "pass_ok met js rm" "halted rc met js rm w"
    and "\<forall>gn \<in> set L. to_come met rm gn" "sorted L"
  shows "\<exists>k. journaled w k w' \<and> pass_ok (met @ L) (js @ k) rm' \<and> halted rc (met @ L) (js @ k) rm' w'"
  using assms
proof (induction L arbitrary: rm w met js)
  case Nil
  then show ?case by (auto intro: exI [of _ "[]"] simp: journaled_refl)
next
  case (Cons gn L)
  obtain g name where gn: "gn = (g, name)" by fastforce
  obtain rm1 w1 where s: "remove_step mem_disk_ops rc (g, name) (rm, w) = (rm1, w1)" by fastforce
  obtain k where k: "journaled w k w1" "pass_ok (met @ [(g, name)]) (js @ k) rm1" "halted rc (met @ [(g, name)]) (js @ k) rm1 w1"
      "rm_current rm1 = rm_current rm \<or> rm_current rm1 = Some g"
    using remove_step_pass [OF s Cons.prems(2,3)] Cons.prems(4) gn by auto
  have "\<forall>x \<in> set L. (g, name) \<le> x" using Cons.prems(5) gn by simp
  then have later: "g \<le> fst x" if "x \<in> set L" for x using that by (fastforce simp: less_eq_prod_def)
  have "\<forall>x \<in> set L. to_come (met @ [(g, name)]) rm1 x" using Cons.prems(4) later k(4) by (auto simp: to_come_def)
  moreover have "fold (remove_step mem_disk_ops rc) L (rm1, w1) = (rm', w')" using Cons.prems(1) s gn by simp
  ultimately obtain k' where "journaled w1 k' w'" "pass_ok ((met @ [(g, name)]) @ L) ((js @ k) @ k') rm'" "halted rc ((met @ [(g, name)]) @ L) ((js @ k) @ k') rm' w'"
    using Cons.IH [OF _ k(2,3)] Cons.prems(5) by (simp only: sorted_simps) blast
  then show ?case using journaled_trans [OF k(1)] gn by (intro exI [of _ "k @ k'"]) simp
qed

section \<open>This generation's files\<close>

text \<open>Once the older files are behind: nothing but this generation's files goes, each older
  removal is synced before one of its segments, and rotation 0 waits for all of them.\<close>

definition own_ok :: "u64 \<Rightarrow> bool \<Rightarrow> journal_entry list \<Rightarrow> removal \<Rightarrow> bool" where
  "own_ok G left js rm = (in_order js \<and> rm_left rm = left \<and>
     (\<forall>n g. journal_entry.Removed n \<in> set js \<longrightarrow> name_generation n = Some g \<longrightarrow> g \<le> G) \<and>
     (\<forall>n \<in> loose js. name_generation n = Some G \<or> rm_unsynced rm))"

definition own_removal :: "u64 \<Rightarrow> bool \<Rightarrow> bytes \<Rightarrow> bool" where
  "own_removal G left n = (parse_segment_name n = None \<or> (\<exists>r. parse_segment_name n = Some (G, r) \<and> (left \<longrightarrow> r \<noteq> 0)))"

definition own_journal :: "u64 \<Rightarrow> bool \<Rightarrow> journal_entry list \<Rightarrow> bool" where
  "own_journal G left k = (\<forall>n. journal_entry.Removed n \<in> set k \<longrightarrow> own_removal G left n)"

lemma snapshot_not_segment: "parse_snapshot_name name = Some x \<Longrightarrow> parse_segment_name name = None"
proof -
  assume "parse_snapshot_name name = Some x"
  then obtain stem where "strip_suffix (ascii ''.snap'') name = Some stem"
    by (auto simp: parse_snapshot_name_def parse_name_def split: Option.bind_splits)
  then have "name = stem @ ascii ''.snap''" by (auto simp: strip_suffix_def split: if_splits) (metis append_take_drop_id)
  then have "strip_suffix (ascii ''.seg'') name = None" by (auto simp: strip_suffix_def)
  then show ?thesis by (simp add: parse_segment_name_def parse_name2_def)
qed

lemma remove_snapshot_own:
  assumes "remove_snapshot mem_disk_ops e c name (rm, w) = (rm', w')" "own_ok (w_generation w) left js rm"
  shows "\<exists>k. journaled w k w' \<and> own_ok (w_generation w) left (js @ k) rm' \<and> own_journal (w_generation w) left k"
proof (cases "\<exists>owner this. parse_snapshot_name name = Some (w_generation w, owner, this) \<and> owner = e \<and> this < c")
  case False
  then have "rm' = rm" "w' = w" using assms(1) by (auto simp: remove_snapshot_def split: option.splits if_splits)
  then show ?thesis using assms(2) by (intro exI [of _ "[]"]) (simp add: journaled_refl own_journal_def)
next
  case True
  then have n: "parse_segment_name name = None" "name_generation name = Some (w_generation w)"
    using snapshot_not_segment [of name] by (auto simp: name_generation_def parse_snapshot_name_def)
  obtain r w1 where r: "w_remove mem_disk_ops name w = (r, w1)" by fastforce
  have w': "w' = w1" "rm_left rm' = rm_left rm" "rm_unsynced rm' = rm_unsynced rm"
    using True assms(1) r by (auto simp: remove_snapshot_def split: sum.splits)
  have "\<forall>n1 \<in> loose js. \<not> newer_segment n1 name" using n(1) by (simp add: newer_segment_def)
  moreover have "not_before n1 name" if "journal_entry.Removed n1 \<in> set js" for n1
    using assms(2) that n(2) by (auto simp: own_ok_def not_before_def)
  ultimately have "in_order (js @ [journal_entry.Removed name])" using assms(2) in_order_removed unfolding own_ok_def by blast
  then have "own_ok (w_generation w) left (js @ [journal_entry.Removed name]) rm'" "own_ok (w_generation w) left (js @ []) rm'"
    using assms(2) w'(2,3) n(2) by (auto simp: own_ok_def)
  moreover have "own_journal (w_generation w) left [journal_entry.Removed name]" "own_journal (w_generation w) left []"
    using n(1) by (auto simp: own_journal_def own_removal_def)
  ultimately show ?thesis using w_remove_journaled [OF r] w'(1) by blast
qed

lemma remove_snapshots_own:
  assumes "fold (remove_snapshot mem_disk_ops e c) names (rm, w) = (rm', w')" "own_ok (w_generation w) left js rm"
  shows "\<exists>k. journaled w k w' \<and> own_ok (w_generation w) left (js @ k) rm' \<and> own_journal (w_generation w) left k"
  using assms
proof (induction names arbitrary: rm w js)
  case Nil
  then show ?case by (intro exI [of _ "[]"]) (simp add: journaled_refl own_journal_def)
next
  case (Cons name names)
  obtain rm1 w1 where s: "remove_snapshot mem_disk_ops e c name (rm, w) = (rm1, w1)" by fastforce
  obtain k where k: "journaled w k w1" "own_ok (w_generation w) left (js @ k) rm1" "own_journal (w_generation w) left k"
    using remove_snapshot_own [OF s Cons.prems(2)] by blast
  then have g: "w_generation w1 = w_generation w" by (simp add: journaled_def)
  obtain k' where "journaled w1 k' w'" "own_ok (w_generation w) left ((js @ k) @ k') rm'" "own_journal (w_generation w) left k'"
    using Cons.IH [of rm1 w1 "js @ k"] Cons.prems(1) s k(2) g by auto
  then show ?case using k journaled_trans [OF k(1)] by (intro exI [of _ "k @ k'"]) (auto simp: own_journal_def)
qed

lemma own_ok_segment:
  assumes "own_ok G left js rm" "left \<longrightarrow> r \<noteq> 0" "\<not> rm_unsynced rm"
  shows "own_ok G left (js @ [journal_entry.Removed (segment_name G r)]) rm"
    "own_journal G left [journal_entry.Removed (segment_name G r)]"
proof -
  have g: "name_generation (segment_name G r) = Some G" by (simp add: name_generation_def parse_segment_name_name)
  have "\<forall>n1 \<in> loose js. \<not> newer_segment n1 (segment_name G r)"
    using assms(1,3) newer_segment_later [OF _ _ g] unfolding own_ok_def by (metis less_irrefl)
  moreover have "not_before n1 (segment_name G r)" if "journal_entry.Removed n1 \<in> set js" for n1
    using assms(1) that g by (auto simp: own_ok_def not_before_def)
  ultimately have "in_order (js @ [journal_entry.Removed (segment_name G r)])" using assms(1) in_order_removed unfolding own_ok_def by blast
  then show "own_ok G left (js @ [journal_entry.Removed (segment_name G r)]) rm" using assms(1) g by (auto simp: own_ok_def)
  show "own_journal G left [journal_entry.Removed (segment_name G r)]"
    using assms(2) by (auto simp: own_journal_def own_removal_def parse_segment_name_name)
qed

lemma own_ok_fields:
  "own_ok G left js (rm\<lparr>rm_files := a, rm_bytes := b\<rparr>) = own_ok G left js rm"
  by (simp add: own_ok_def)

lemma own_journal_append: "own_journal G left (k @ k') \<longleftrightarrow> own_journal G left k \<and> own_journal G left k'"
  by (auto simp: own_journal_def)

lemma own_journal_quiet [simp]: "own_journal G left []" "own_journal G left [DirSynced]"
  by (simp_all add: own_journal_def)

lemma remove_closed_own:
  assumes "remove_closed mem_disk_ops kept cs (rm, w) = (rm', w')" "own_ok (w_generation w) left js rm"
  shows "\<exists>k. journaled w k w' \<and> own_ok (w_generation w) left (js @ k) rm' \<and> own_journal (w_generation w) left k"
  using assms
proof (induction cs arbitrary: kept rm w js)
  case Nil
  then show ?case by (intro exI [of _ "[]"]) (auto simp: journaled_fields journaled_refl)
next
  case (Cons c cs)
  let ?covered = "covered_by_all (lanes w) c \<or> removes_uncovered (w_plants w) \<and> covered_by_any (lanes w) c"
  let ?G = "w_generation w" let ?name = "segment_name ?G (cl_rotation c)" let ?rm = "rm\<lparr>rm_unsynced := False\<rparr>"
  obtain synced w1 where s: "(if rm_unsynced rm then sync_removals mem_disk_ops w else (True, w)) = (synced, w1)" by fastforce
  define k where "k = (if rm_unsynced rm \<and> synced then [DirSynced] else [])"
  have j: "journaled w k w1" using s sync_removals_journaled [of w synced w1] by (auto simp: k_def journaled_refl split: if_splits)
  then have g: "w_generation w1 = ?G" by (simp add: journaled_def)
  have q: "own_journal ?G left k" by (simp add: k_def)
  have left: "rm_left rm = left" using Cons.prems(2) by (simp add: own_ok_def)
  obtain r w2 where r: "w_remove mem_disk_ops ?name w1 = (r, w2)" by fastforce
  consider (stays) "\<not> ?covered" | (waits) ?covered "cl_rotation c = 0 \<and> left" | (unsynced) ?covered "\<not> (cl_rotation c = 0 \<and> left)" "\<not> synced"
    | (goes) ?covered "\<not> (cl_rotation c = 0 \<and> left)" "synced" by blast
  then show ?case
  proof cases
    case stays
    then have "rm' = rm" "w' = w\<lparr>w_closed := kept @ c # cs\<rparr>" using Cons.prems(1) by auto
    then show ?thesis using Cons.prems(2) by (intro exI [of _ "[]"]) (simp add: journaled_fields journaled_refl)
  next
    case waits
    then have "remove_closed mem_disk_ops (kept @ [c]) cs (rm, w) = (rm', w')" using Cons.prems(1) left by simp
    then show ?thesis using Cons.IH Cons.prems(2) by blast
  next
    case unsynced
    then have "rm' = rm" "w' = w1\<lparr>w_closed := kept @ c # cs\<rparr>" "k = []" using Cons.prems(1) left s by (auto simp: k_def)
    then show ?thesis using Cons.prems(2) j by (intro exI [of _ "[]"]) (simp add: journaled_fields)
  next
    case goes
    have ok: "own_ok ?G left (js @ k) ?rm"
      using Cons.prems(2) goes(3) by (auto simp: own_ok_def k_def in_order_synced)
    note seg = own_ok_segment [OF ok, of "cl_rotation c"]
    have e: "remove_closed mem_disk_ops kept (c # cs) (rm, w) =
      (case r of Inr n \<Rightarrow> remove_closed mem_disk_ops kept cs (?rm\<lparr>rm_files := rm_files rm + 1, rm_bytes := rm_bytes rm + n\<rparr>, w2)
       | Inl _ \<Rightarrow> (?rm, w2\<lparr>w_closed := kept @ c # cs\<rparr>))"
      using goes s left r g by (auto simp: Let_def split: sum.splits)
    show ?thesis
    proof (cases r)
      case (Inl x)
      then have "journaled w1 [] w2" using w_remove_journaled [OF r] by auto
      then have "journaled w k w2" using journaled_trans [OF j] by fastforce
      then show ?thesis using e Inl Cons.prems(1) ok q by (intro exI [of _ k]) (auto simp: journaled_fields)
    next
      case (Inr n)
      let ?k = "k @ [journal_entry.Removed ?name]"
      have "journaled w1 [journal_entry.Removed ?name] w2" using w_remove_journaled [OF r] Inr by auto
      then have j2: "journaled w ?k w2" using journaled_trans [OF j] by blast
      have g2: "w_generation w2 = ?G" using j2 by (simp add: journaled_def)
      have "own_ok ?G left (js @ ?k) (?rm\<lparr>rm_files := rm_files rm + 1, rm_bytes := rm_bytes rm + n\<rparr>)"
        using seg(1) goes(2) by (auto simp: own_ok_def)
      then obtain k' where "journaled w2 k' w'" "own_ok ?G left ((js @ ?k) @ k') rm'" "own_journal ?G left k'"
        using Cons.IH [of kept "?rm\<lparr>rm_files := rm_files rm + 1, rm_bytes := rm_bytes rm + n\<rparr>" w2 "js @ ?k"] e Inr Cons.prems(1) g2 by auto
      moreover have "own_journal ?G left ?k" using q seg(2) goes(2) by (auto simp: own_journal_append)
      moreover have "journaled w (?k @ k') w'" by (rule journaled_trans [OF j2 \<open>journaled w2 k' w'\<close>])
      ultimately show ?thesis by (intro exI [of _ "?k @ k'"]) (auto simp: own_journal_def)
    qed
  qed
qed

section \<open>A compaction\<close>

lemma compact_in_order:
  fixes w :: mem_writer
  assumes dir: "fs_dir (w_disk w)"
  shows "\<exists>js. journaled w js (compact mem_disk_ops e c w) \<and> in_order js \<and>
    (\<forall>old g new. mem_stored (w_disk (compact mem_disk_ops e c w)) old \<noteq> None \<longrightarrow> generation_below (w_generation w) old = Some g \<longrightarrow>
       journal_entry.Removed new \<in> set js \<longrightarrow>
       (\<exists>g'. name_generation new = Some g' \<and> g' \<le> g) \<or> own_removal (w_generation w) True new)"
proof -
  define names where "names = (let ns = map fst (fs_files (w_disk w)) in if list_reversed (w_disk w) then rev ns else ns)"
  have n: "on_disk (dk_list mem_disk_ops) w = (Inr names, w)" "\<And>x. mem_stored (w_disk w) x \<noteq> None \<Longrightarrow> x \<in> set names"
    using dir by (auto simp: names_def on_disk_def mem_disk_ops_def mem_list_def mem_stored_def Let_def dest!: map_of_SomeD intro: rev_image_eqI)
  define rc where "rc = list_all (\<lambda>l. snapshot_bytes l \<noteq> None) (lanes w)"
  define L where "L = sort (List.map_filter (\<lambda>name. map_option (\<lambda>g. (g, name)) (older_generation w name)) names)"
  let ?rm0 = "\<lparr>rm_left = False, rm_current = None, rm_unsynced = False, rm_stopped = None, rm_files = 0, rm_bytes = 0\<rparr>"
  obtain rm w2 where o: "fold (remove_step mem_disk_ops rc) L (?rm0, w) = (rm, w2)" by fastforce
  have inL: "(g, x) \<in> set L \<longleftrightarrow> x \<in> set names \<and> generation_below (w_generation w) x = Some g" for g x
    by (force simp: L_def List.map_filter_def older_generation_def)
  have "\<forall>gn \<in> set L. to_come [] ?rm0 gn" using inL by (auto simp: to_come_def generation_below_def split: option.splits if_splits)
  moreover have "sorted L" by (simp add: L_def)
  moreover have "pass_ok [] [] ?rm0" "halted rc [] [] ?rm0 w" by (simp_all add: pass_ok_def halted_def)
  ultimately obtain k1 where k1: "journaled w k1 w2" "pass_ok L k1 rm" "halted rc L k1 rm w2"
    using remove_older_pass [OF o, of "[]" "[]"] by auto
  define w3 where "w3 = (if \<not> rm_left rm then w2\<lparr>older_bytes := 0\<rparr> else w2)"
  have j3: "journaled w2 k w' = journaled w3 k w'" for k w' by (simp add: w3_def journaled_fields)
  let ?G = "w_generation w"
  have G3: "w_generation w3 = ?G" using k1(1) by (simp add: w3_def journaled_def)
  have own: "own_ok ?G (rm_left rm) k1 rm"
  proof -
    have "g \<le> ?G" if "journal_entry.Removed x \<in> set k1" "name_generation x = Some g" for x g
    proof -
      have "x \<in> snd ` set L" using k1(2) that(1) unfolding pass_ok_def by blast
      then obtain h where "(h, x) \<in> set L" by force
      then show ?thesis using inL that(2) by (auto simp: generation_below_def split: if_splits)
    qed
    then show ?thesis using k1(2) by (auto simp: own_ok_def pass_ok_def)
  qed
  obtain rm' w4 where s: "fold (remove_snapshot mem_disk_ops e c) names (rm, w3) = (rm', w4)" by fastforce
  obtain k2 where k2: "journaled w3 k2 w4" "own_ok ?G (rm_left rm) (k1 @ k2) rm'" "own_journal ?G (rm_left rm) k2"
    using remove_snapshots_own [OF s, unfolded G3, OF own] by blast
  have G4: "w_generation w4 = ?G" using k2(1) G3 by (simp add: journaled_def)
  obtain rm'' w5 where cl: "remove_closed mem_disk_ops [] (w_closed w4) (rm', w4) = (rm'', w5)" by fastforce
  obtain k3 where k3: "journaled w4 k3 w5" "own_ok ?G (rm_left rm) ((k1 @ k2) @ k3) rm''" "own_journal ?G (rm_left rm) k3"
    using remove_closed_own [OF cl, unfolded G4, OF k2(2)] by blast
  have e: "compact mem_disk_ops e c w = (if rm_files rm'' = 0 then w5 else snd (sync_removals mem_disk_ops (publish_log_size w5)))"
    using n(1) o s cl unfolding compact_def remove_older_def by (simp del: not_None_eq flip: rc_def L_def w3_def)
  obtain k4 where k4: "journaled w5 k4 (compact mem_disk_ops e c w)" "k4 = [] \<or> k4 = [DirSynced]"
  proof (cases "rm_files rm'' = 0")
    case True
    then show ?thesis using that [of "[]"] e journaled_refl by simp
  next
    case False
    obtain b w6 where "sync_removals mem_disk_ops (publish_log_size w5) = (b, w6)" by fastforce
    then show ?thesis
      using that [of "if b then [DirSynced] else []"] sync_removals_journaled [of "publish_log_size w5" b w6] False e
      by (auto simp: publish_log_size_def journaled_def)
  qed
  let ?js = "((k1 @ k2) @ k3) @ k4"
  have j: "journaled w ?js (compact mem_disk_ops e c w)"
    using k1(1) k2(1) k3(1) k4(1) unfolding j3 [symmetric] by (metis journaled_trans)
  have "in_order ((k1 @ k2) @ k3)" using k3(2) by (simp only: own_ok_def)
  then have "in_order ?js" using k4(2) in_order_synced by (metis append_Nil2)
  moreover have "(\<exists>g'. name_generation new = Some g' \<and> g' \<le> g) \<or> own_removal ?G True new"
    if old: "mem_stored (w_disk (compact mem_disk_ops e c w)) old \<noteq> None" "generation_below ?G old = Some g"
      and new: "journal_entry.Removed new \<in> set ?js" for old g new
  proof -
    have "journaled w2 ((k2 @ k3) @ k4) (compact mem_disk_ops e c w)"
      using journaled_trans [OF journaled_trans [OF k2(1) k3(1)] k4(1)] by (simp only: j3)
    then have "mem_stored (w_disk w2) old \<noteq> None" "mem_stored (w_disk w) old \<noteq> None"
      using old(1) k1(1) journaled_left by blast+
    then have st: "stays_ok rc k1 rm g" using k1(3) inL n(2) old(2) unfolding halted_def by blast
    consider "journal_entry.Removed new \<in> set k1" | "journal_entry.Removed new \<in> set (k2 @ k3)" using new k4(2) by auto
    then show ?thesis
    proof cases
      case 1
      then have "new \<in> snd ` set L" using k1(2) unfolding pass_ok_def by blast
      then obtain h where "name_generation new = Some h" using inL by (force simp: generation_below_def split: option.splits)
      then show ?thesis using st 1 by (auto simp: stays_ok_def)
    next
      case 2
      then have "own_removal ?G (rm_left rm) new" using k2(3) k3(3) by (auto simp: own_journal_def)
      then show ?thesis using st by (simp add: stays_ok_def)
    qed
  qed
  ultimately show ?thesis using j by blast
qed


section \<open>A directory with an older generation in it\<close>

definition an_older_mem :: mem_fs where
  "an_older_mem = mem_fs_default\<lparr>fs_dir := True, fs_files := [(segment_name 1 0, []), (segment_name 2 0, []), (segment_name 2 1, [])]\<rparr>"

definition an_older_writer :: "mem_fs \<Rightarrow> nat option \<Rightarrow> u32 list \<Rightarrow> mem_writer" where
  "an_older_writer fs snapped rotations =
     \<lparr>w_disk = fs, w_generation = 2, w_cuts = [], w_policy = ALWAYS, segment_bytes = SEGMENT_BYTES,
      w_checkpoint = \<lparr>cf_floor = 1, cf_ratio = 1, bytes_per_tick = 1\<rparr>, w_plants = no_plants,
      segment = segment_new (segment_name 2 2) 2, lanes = [lane_new\<lparr>ln_covered := Some 0, snapshot_bytes := snapped\<rparr>],
      staged = [], in_flight = None, issued_at = 0, slow_warned = False, sync_wanted = False, w_round = 1,
      w_closed = map (\<lambda>r. \<lparr>cl_rotation = r, cl_last_batch = [Some 0], cl_bytes = 0\<rparr>) rotations, older_bytes = 0,
      older_segments = 1, older_seg_bytes = 0, w_stats = stats_new 1\<rparr>"

lemmas compact_eval = compact_def remove_older_def remove_step_def remove_one_def w_remove_def sync_removals_def on_disk_def
  len_or_zero_def mem_disk_ops_def mem_list_def mem_len_def mem_remove_file_def mem_sync_dir_def countdown_def mem_fs_default_def
  map_filter_simps older_generation_def generation_below_def name_generation_def parse_segment_name_name remove_snapshot_def
  segment_no_snapshot covered_by_all_def publish_log_size_def lane_new_def no_plants_def segment_name_inj Let_def bt_remove_def
  an_older_writer_def an_older_mem_def mem_stored_def

text \<open>With no image yet the older file stays, and rotation 0 with it, while rotation 1 goes.\<close>

lemma an_open_round:
  "fs_journal (w_disk (compact mem_disk_ops 0 1 (an_older_writer an_older_mem None [0, 1]))) = [journal_entry.Removed (segment_name 2 1), DirSynced]"
  by (simp add: compact_eval)


section \<open>Where the order is not kept\<close>

text \<open>A listing that fails is taken for an empty directory: rotation 0 goes while the older
  generation's file stays.\<close>

lemma failed_listing_drops_rebases:
  "(let w = compact (mem_disk_ops\<lparr>dk_list := \<lambda>d. (Inl io_error.Failed, d)\<rparr>) 0 1 (an_older_writer an_older_mem (Some 1) [0]) in
     mem_stored (w_disk w) (segment_name 1 0) \<noteq> None \<and> mem_stored (w_disk w) (segment_name 2 0) = None)"
  by (simp add: compact_eval)

text \<open>A compaction whose last directory sync fails forgets that its removals are not durable: the
  next one removes rotation 0 with no sync after the older file's removal.\<close>

lemma failed_sync_forgotten:
  "(let w = compact mem_disk_ops 0 1 (an_older_writer (an_older_mem\<lparr>dir_sync_fails_after := Some 0\<rparr>) (Some 1) []);
        w' = compact mem_disk_ops 0 2 (w\<lparr>w_closed := w_closed (an_older_writer an_older_mem None [0])\<rparr>) in
     fs_journal (w_disk w') = [journal_entry.Removed (segment_name 1 0), journal_entry.Removed (segment_name 2 0), DirSynced])"
  by (simp add: compact_eval)

end
