(* ===== verification/Checkpoint.thy ===== *)
theory Checkpoint
  imports Writer ExecutorCorrect
begin

text \<open>
  The checkpoint, \<^verbatim>\<open>crates/seedstone-core/src/log/checkpoint.rs\<close>: an executor's snapshot of its
  shards, taken a budget at a time in the housekeeping tick. \<open>cp_open\<close> is the cycle in progress.
  The disk is any one with the operations \<open>dops\<close>; the reports to the trace are left out, and with
  them the scratch buffer and the directory's size, which nothing else reads. \<open>None\<close> is a panic:
  an entry, a header or a range of shards that does not fit its length field.
\<close>

definition SNAPSHOT_FLOOR :: nat where "SNAPSHOT_FLOOR = 64 * 1024 * 1024"
definition SNAPSHOT_RATIO :: nat where "SNAPSHOT_RATIO = 1"
definition SNAPSHOT_BYTES_PER_TICK :: nat where "SNAPSHOT_BYTES_PER_TICK = 1024 * 1024"

definition PRODUCTION :: checkpoint_config where
  "PRODUCTION = \<lparr>cf_floor = SNAPSHOT_FLOOR, cf_ratio = SNAPSHOT_RATIO, bytes_per_tick = SNAPSHOT_BYTES_PER_TICK\<rparr>"

section \<open>The state\<close>

record waiting =
  wt_sent :: "nat option"
  wt_asked :: bool

record 'f cycle =
  cy_file :: "'f option"
  cy_number :: u32
  cy_bases :: "u64 list"
  cy_cursors :: "u64 option list"
  cy_counts :: "u64 list"
  cy_buffer :: bytes
  cy_bytes :: nat
  cy_ticks :: u64
  cy_waiting :: "waiting option"
  footer_written :: bool
  dir_pending :: bool
  cy_overshoot :: nat
  through_batch :: "nat option"
  cy_opened_at :: nat
  opened_unix :: u64

record checkpoint_plants =
  reports_covered_at_open :: bool
  finishes_before_log :: bool

datatype ck_step = Pending bool | Imaged

definition cycle_fresh :: "u32 \<Rightarrow> u64 list \<Rightarrow> nat \<Rightarrow> nat option \<Rightarrow> nat \<Rightarrow> 'f cycle" where
  "cycle_fresh number bases over through opened =
     \<lparr>cy_file = None, cy_number = number, cy_bases = bases, cy_cursors = replicate (length bases) (Some 0),
      cy_counts = replicate (length bases) 0, cy_buffer = [], cy_bytes = 0, cy_ticks = 0, cy_waiting = None,
      footer_written = False, dir_pending = False, cy_overshoot = over, through_batch = through,
      cy_opened_at = opened, opened_unix = 0\<rparr>"

definition scanned_all :: "'f cycle \<Rightarrow> bool" where
  "scanned_all cy = list_all (\<lambda>c. c = None) (cy_cursors cy)"

record ('d, 'f) segment_checkpoint =
  cp_disk :: 'd
  cp_generation :: u64
  cp_executor :: u16
  cp_config :: checkpoint_config
  cp_cycle :: u32
  cp_completed :: u32
  last_snapshot :: nat
  cp_opened_at :: nat
  cp_plants :: checkpoint_plants
  forced :: bool
  cp_nudged :: bool
  cp_open :: "'f cycle option"

definition checkpoint_new :: "'d \<Rightarrow> u64 \<Rightarrow> u16 \<Rightarrow> checkpoint_config \<Rightarrow> ('d, 'f) segment_checkpoint" where
  "checkpoint_new d g x cf =
     \<lparr>cp_disk = d, cp_generation = g, cp_executor = x, cp_config = cf, cp_cycle = 0, cp_completed = 0,
      last_snapshot = 0, cp_opened_at = 0,
      cp_plants = \<lparr>reports_covered_at_open = False, finishes_before_log = False\<rparr>, forced = False, cp_nudged = False,
      cp_open = None\<rparr>"

text \<open>A verb of the disk, on the checkpoint's.\<close>

definition cp_on_disk :: "('d \<Rightarrow> 'a \<times> 'd) \<Rightarrow> ('d, 'f) segment_checkpoint \<Rightarrow> 'a \<times> ('d, 'f) segment_checkpoint" where
  "cp_on_disk f cp = (case f (cp_disk cp) of (r, d) \<Rightarrow> (r, cp\<lparr>cp_disk := d\<rparr>))"

section \<open>The cycle\<close>

definition threshold :: "('d, 'f) segment_checkpoint \<Rightarrow> nat" where
  "threshold cp = max (cf_floor (cp_config cp)) (min (cf_ratio (cp_config cp) * last_snapshot cp) (2 ^ 64 - 1))"

definition open_cycle :: "'l shard_state list \<Rightarrow> log_position \<Rightarrow> u64 \<Rightarrow> ('d, 'f) segment_checkpoint \<Rightarrow> ('d, 'f) segment_checkpoint"
  where
  "open_cycle sts lp millis cp =
     (let over = lp_bytes lp - cp_opened_at cp - threshold cp;
          cy = cycle_fresh (cp_cycle cp) (map sh_seq sts) over (lp_batch lp) (lp_bytes lp)
      in cp\<lparr>cp_opened_at := lp_bytes lp, cp_open := Some (cy\<lparr>opened_unix := millis\<rparr>), cp_cycle := cp_cycle cp + 1\<rparr>)"

text \<open>Per owned shard, by its id.\<close>

definition by_shard :: "u16 \<Rightarrow> 'a list \<Rightarrow> (u16 \<times> 'a) list option" where
  "by_shard first xs = (if length xs \<le> 2 ^ 16 then Some (zip (map (\<lambda>i. first + of_nat i) [0..<length xs]) xs) else None)"

definition image_name :: "('d, 'f) segment_checkpoint \<Rightarrow> 'f cycle \<Rightarrow> bytes" where
  "image_name cp cy = snapshot_name (cp_generation cp) (cp_executor cp) (cy_number cy)"

definition ensure_file :: "('d, 'f, 's) disk_ops \<Rightarrow> u16 \<Rightarrow> 'f cycle \<Rightarrow> ('d, 'f) segment_checkpoint \<Rightarrow>
    (unit io \<times> 'f cycle \<times> ('d, 'f) segment_checkpoint) option" where
  "ensure_file dops first cy cp =
     (if cy_file cy \<noteq> None then Some (Inr (), cy, cp)
      else do {
        bases \<leftarrow> by_shard first (cy_bases cy);
        (case cp_on_disk (dk_create_append dops (image_name cp cy)) cp of
           (Inl e, cp1) \<Rightarrow> Some (Inl e, cy, cp1)
         | (Inr file, cp1) \<Rightarrow>
             do {
               bytes \<leftarrow> snapshot_encode \<lparr>snap_generation = cp_generation cp, snap_executor = cp_executor cp,
                 snap_cycle = cy_number cy, snap_unix_millis = opened_unix cy, snap_bases = bases\<rparr>;
               Some (case cp_on_disk (dk_write_all dops file bytes) cp1 of
                  (Inl e, cp2) \<Rightarrow> (Inl e, cy, cp2)
                | (Inr _, cp2) \<Rightarrow>
                    (case cp_on_disk (dk_sync_data dops file) cp2 of
                       (Inl e, cp3) \<Rightarrow> (Inl e, cy, cp3)
                     | (Inr _, cp3) \<Rightarrow>
                         (case cp_on_disk (dk_sync_dir dops) cp3 of
                            (Inl e, cp4) \<Rightarrow> (Inl e, cy, cp4)
                          | (Inr _, cp4) \<Rightarrow> (Inr (), cy\<lparr>cy_bytes := length bytes, cy_file := Some file\<rparr>, cp4))))
             })
      })"

definition remove_abandoned :: "('d, 'f, 's) disk_ops \<Rightarrow> bytes \<Rightarrow> ('d, 'f) segment_checkpoint \<Rightarrow> ('d, 'f) segment_checkpoint" where
  "remove_abandoned dops name cp = snd (cp_on_disk (dk_remove_file dops name) cp)"

definition restart :: "('d, 'f, 's) disk_ops \<Rightarrow> 'f cycle \<Rightarrow> ('d, 'f) segment_checkpoint \<Rightarrow> 'f cycle \<times> ('d, 'f) segment_checkpoint"
  where
  "restart dops cy cp =
     (let again = cycle_fresh (cp_cycle cp) (cy_bases cy) (cy_overshoot cy) (through_batch cy) (cy_opened_at cy) in
      (again\<lparr>cy_ticks := cy_ticks cy, opened_unix := opened_unix cy\<rparr>,
       remove_abandoned dops (image_name cp cy) (cp\<lparr>cp_cycle := cp_cycle cp + 1\<rparr>)))"

definition drain :: "('d, 'f, 's) disk_ops \<Rightarrow> 'f cycle \<Rightarrow> ('d, 'f) segment_checkpoint \<Rightarrow>
    (unit io \<times> 'f cycle \<times> ('d, 'f) segment_checkpoint) option" where
  "drain dops cy cp =
     (if cy_buffer cy = [] then Some (Inr (), cy, cp)
      else do {
        file \<leftarrow> cy_file cy;
        Some (case cp_on_disk (dk_write_all dops file (cy_buffer cy)) cp of
           (Inl e, cp1) \<Rightarrow> (Inl e, cy, cp1)
         | (Inr _, cp1) \<Rightarrow> (Inr (), cy\<lparr>cy_bytes := cy_bytes cy + length (cy_buffer cy), cy_buffer := []\<rparr>, cp1))
      })"

section \<open>The scan\<close>

lemma scan_loop_up: "snd (scan_loop new small large v) = 0 \<or> pos v < pos (snd (scan_loop new small large v))"
proof (induction new small large v rule: scan_loop.induct)
  case (1 new small large v)
  then show ?case
    using reverse_increment_up [of v large]
    by (subst (1 2) scan_loop.simps) (auto simp: Let_def split: prod.splits if_splits)
qed

lemma dict_scan_up: "dict_scan d v = (met, v') \<Longrightarrow> v' = 0 \<or> pos v < pos v'"
  using reverse_increment_up [of v] scan_loop_up [of _ _ _ v]
  by (auto simp: dict_scan_def split: if_splits option.splits prod.splits) (metis snd_conv)+

lemma dict_scan_nearer: "dict_scan d v = (met, v') \<Longrightarrow> v' \<noteq> 0 \<Longrightarrow> 2 ^ 64 - pos v' < 2 ^ 64 - pos v"
  using dict_scan_up [of d v met v'] pos_less [of v'] by auto

fun encode_entries :: "u16 \<Rightarrow> u64 \<Rightarrow> now \<Rightarrow> (bytes \<times> entry) list \<Rightarrow> bytes option" where
  "encode_entries shard base n [] = Some []"
| "encode_entries shard base n ((key, e) # es) =
     do {
       b \<leftarrow> encode_entry shard base key (entry_value e) (deadline_millis n (expires_at e));
       bs \<leftarrow> encode_entries shard base n es;
       Some (b @ bs)
     }"

record scanned =
  si_cursor :: "u64 option"
  si_count :: u64
  si_used :: nat
  si_buffer :: bytes

text \<open>The inner loop, over one shard, until its cursor comes back or the budget is spent.\<close>

function scan_shard :: "nat \<Rightarrow> u16 \<Rightarrow> u64 \<Rightarrow> now \<Rightarrow> dict \<Rightarrow> u64 \<Rightarrow> u64 \<Rightarrow> nat \<Rightarrow> bytes \<Rightarrow> scanned option" where
  "scan_shard budget shard base n d cursor seen_n used_n buffer =
     (if budget \<le> used_n then Some \<lparr>si_cursor = Some cursor, si_count = seen_n, si_used = used_n, si_buffer = buffer\<rparr>
      else case dict_scan d cursor of (met, cursor') \<Rightarrow>
        (case encode_entries shard base n met of
           None \<Rightarrow> None
         | Some bs \<Rightarrow>
             let seen_n' = seen_n + of_nat (length met); used_n' = used_n + length bs in
             if cursor' = 0 then Some \<lparr>si_cursor = None, si_count = seen_n', si_used = used_n', si_buffer = buffer @ bs\<rparr>
             else scan_shard budget shard base n d cursor' seen_n' used_n' (buffer @ bs)))"
  by pat_completeness auto
termination
  by (relation "measure (\<lambda>(budget, shard, base, n, d, cursor, seen_n, used_n, buffer). 2 ^ 64 - pos cursor)")
    (auto dest: dict_scan_nearer [OF sym])

declare scan_shard.simps [simp del]

text \<open>The outer loop over the shards from the given offset on; it returns where the budget ran out.\<close>

fun scan_from :: "nat \<Rightarrow> u16 \<Rightarrow> now \<Rightarrow> 'l shard_state list \<Rightarrow> nat \<Rightarrow> nat \<Rightarrow> 'f cycle \<Rightarrow> 'f cycle option" where
  "scan_from budget first n [] offset used_n cy = Some cy"
| "scan_from budget first n (st # sts) offset used_n cy =
     do {
       cur \<leftarrow> get (cy_cursors cy) offset;
       (case cur of
          None \<Rightarrow> scan_from budget first n sts (Suc offset) used_n cy
        | Some cursor \<Rightarrow>
            if 2 ^ 16 \<le> offset then None
            else do {
              base \<leftarrow> get (cy_bases cy) offset;
              seen_n \<leftarrow> get (cy_counts cy) offset;
              sd \<leftarrow> scan_shard budget (first + of_nat offset) base n (sh_dict st) cursor seen_n used_n (cy_buffer cy);
              let cy' = cy\<lparr>cy_cursors := (cy_cursors cy)[offset := si_cursor sd], cy_counts := (cy_counts cy)[offset := si_count sd],
                           cy_buffer := si_buffer sd\<rparr>;
              (case si_cursor sd of
                 Some _ \<Rightarrow> Some cy'
               | None \<Rightarrow> scan_from budget first n sts (Suc offset) (si_used sd) cy')
            })
     }"

definition cycle_scan :: "checkpoint_config \<Rightarrow> u16 \<Rightarrow> 'l shard_state list \<Rightarrow> now \<Rightarrow> 'f cycle \<Rightarrow> 'f cycle option" where
  "cycle_scan cf first sts n cy = scan_from (bytes_per_tick cf) first n sts 0 0 cy"

section \<open>One tick of an open cycle\<close>

text \<open>The footer's wait, noted on the first tick that finds the scan ended; and whether it is still on.\<close>

definition log_short_of_image :: "log_position \<Rightarrow> 'f cycle \<Rightarrow> bool \<times> waiting \<times> 'f cycle" where
  "log_short_of_image lp cy =
     (let w = (case cy_waiting cy of Some w \<Rightarrow> w | None \<Rightarrow> \<lparr>wt_sent = lp_batch lp, wt_asked = False\<rparr>) in
      (wt_sent w \<noteq> through_batch cy \<and> lp_durable lp < wt_sent w, w, cy\<lparr>cy_waiting := Some w\<rparr>))"

definition sync_footer :: "('d, 'f, 's) disk_ops \<Rightarrow> 'f cycle \<Rightarrow> ('d, 'f) segment_checkpoint \<Rightarrow>
    (ck_step io \<times> 'f cycle \<times> ('d, 'f) segment_checkpoint) option" where
  "sync_footer dops cy cp =
     do {
       file \<leftarrow> cy_file cy;
       Some (case cp_on_disk (dk_sync_data dops file) cp of
          (Inl e, cp1) \<Rightarrow> (Inl e, restart dops cy cp1)
        | (Inr _, cp1) \<Rightarrow>
            (case cp_on_disk (dk_sync_dir dops) cp1 of
               (Inl e, cp2) \<Rightarrow> (Inl e, cy\<lparr>dir_pending := True\<rparr>, cp2)
             | (Inr _, cp2) \<Rightarrow> (Inr Imaged, cy\<lparr>dir_pending := False\<rparr>, cp2)))
     }"

text \<open>The end of the scan: the footer put behind the entries, or the wait; and whether to ask for a sync.\<close>

definition end_scan :: "u16 \<Rightarrow> log_position \<Rightarrow> bool \<Rightarrow> 'f cycle \<Rightarrow> (bool \<times> 'f cycle) option" where
  "end_scan first lp early cy =
     (let (short, w, cy1) = (if scanned_all cy \<and> \<not> early then log_short_of_image lp cy else (False, \<lparr>wt_sent = None, wt_asked = False\<rparr>, cy))
      in if short then Some (\<not> wt_asked w, cy1\<lparr>cy_waiting := Some (w\<lparr>wt_asked := True\<rparr>)\<rparr>)
         else if scanned_all cy then
           do {
             counts \<leftarrow> by_shard first (cy_counts cy1);
             footer \<leftarrow> footer_encode_record counts (cy_number cy1);
             Some (False, cy1\<lparr>cy_buffer := cy_buffer cy1 @ footer @ [END_OF_LOG], footer_written := True\<rparr>)
           }
         else Some (False, cy1))"

definition step_inner :: "('d, 'f, 's) disk_ops \<Rightarrow> u16 \<Rightarrow> 'l shard_state list \<Rightarrow> now \<Rightarrow> log_position \<Rightarrow> 'f cycle \<Rightarrow>
    ('d, 'f) segment_checkpoint \<Rightarrow> (ck_step io \<times> 'f cycle \<times> ('d, 'f) segment_checkpoint) option" where
  "step_inner dops first sts n lp cy0 cp0 =
     do {
       (r, cy, cp) \<leftarrow> ensure_file dops first (cy0\<lparr>cy_ticks := cy_ticks cy0 + 1\<rparr>) cp0;
       (case r of
          Inl e \<Rightarrow> Some (Inl e, restart dops cy cp)
        | Inr _ \<Rightarrow>
            if dir_pending cy then
              Some (case cp_on_disk (dk_sync_dir dops) cp of
                 (Inl e, cp1) \<Rightarrow> (Inl e, cy, cp1)
               | (Inr _, cp1) \<Rightarrow> (Inr Imaged, cy\<lparr>dir_pending := False\<rparr>, cp1))
            else if footer_written cy then sync_footer dops cy cp
            else do {
              cy1 \<leftarrow> cycle_scan (cp_config cp) first sts n cy;
              (ask, cy2) \<leftarrow> end_scan first lp (finishes_before_log (cp_plants cp)) cy1;
              (r, cy3, cp3) \<leftarrow> drain dops cy2 cp;
              (case r of
                 Inl e \<Rightarrow> Some (Inl e, restart dops cy3 cp3)
               | Inr _ \<Rightarrow> if footer_written cy3 then sync_footer dops cy3 cp3 else Some (Inr (Pending ask), cy3, cp3))
            })
     }"

definition cycle_step :: "('d, 'f, 's) disk_ops \<Rightarrow> u16 \<Rightarrow> 'l shard_state list \<Rightarrow> now \<Rightarrow> log_position \<Rightarrow>
    ('d, 'f) segment_checkpoint \<Rightarrow> (ck_step io \<times> ('d, 'f) segment_checkpoint) option" where
  "cycle_step dops first sts n lp cp =
     do {
       cy \<leftarrow> cp_open cp;
       (r, cy', cp') \<leftarrow> step_inner dops first sts n lp cy (cp\<lparr>cp_open := None\<rparr>);
       Some (r, cp'\<lparr>cp_open := Some cy'\<rparr>)
     }"

section \<open>The tick\<close>

definition cover :: "'l log_ops \<Rightarrow> u64 \<Rightarrow> 'l shard_state \<Rightarrow> 'l shard_state" where
  "cover ops base st = (if base = 0 then st else st\<lparr>sh_log := log_covered ops (sh_log st) (base - 1)\<rparr>)"

definition cover_all :: "'l log_ops \<Rightarrow> u64 list \<Rightarrow> 'l shard_state list \<Rightarrow> 'l shard_state list" where
  "cover_all ops bases sts = map (\<lambda>(st, base). cover ops base st) (zip sts bases) @ drop (length bases) sts"

definition finish :: "'l log_ops \<Rightarrow> 'l shard_state list \<Rightarrow> ('d, 'f) segment_checkpoint \<Rightarrow>
    (completed \<times> 'l shard_state list \<times> ('d, 'f) segment_checkpoint) option" where
  "finish ops sts cp =
     do {
       cy \<leftarrow> cp_open cp;
       let cleared = of_nat (length (filter lossy sts));
       Some (\<lparr>cm_cycle = cy_number cy, cm_through = through_batch cy, cm_bytes = cy_bytes cy, cm_ticks = cy_ticks cy, cm_cleared = cleared\<rparr>,
         map (\<lambda>st. st\<lparr>lossy := False, image_unix_millis := Some (opened_unix cy)\<rparr>) (cover_all ops (cy_bases cy) sts),
         cp\<lparr>cp_open := None, last_snapshot := cy_bytes cy, cp_completed := cp_completed cp + 1\<rparr>)
     }"

text \<open>The cycle opened on this tick, if one is due, and the plant's early report.\<close>

definition cp_opened :: "'l shard_state list \<Rightarrow> log_position \<Rightarrow> u64 \<Rightarrow> ('d, 'f) segment_checkpoint \<Rightarrow>
    completed option \<times> ('d, 'f) segment_checkpoint" where
  "cp_opened sts lp millis cp =
     (let cp1 = (open_cycle sts lp millis cp)\<lparr>forced := False, cp_nudged := False\<rparr> in
      (if reports_covered_at_open (cp_plants cp1)
       then map_option (\<lambda>cy. \<lparr>cm_cycle = cy_number cy, cm_through = through_batch cy, cm_bytes = last_snapshot cp1,
              cm_ticks = 0, cm_cleared = 0\<rparr>) (cp_open cp1)
       else None, cp1))"

definition cp_tick :: "('d, 'f, 's) disk_ops \<Rightarrow> 'l log_ops \<Rightarrow> u16 \<Rightarrow> 'l shard_state list \<Rightarrow> now \<Rightarrow> log_position \<Rightarrow>
    ('d, 'f) segment_checkpoint \<Rightarrow> (tick_outcome \<times> 'l shard_state list \<times> ('d, 'f) segment_checkpoint) option" where
  "cp_tick dops ops first sts n lp cp =
     (if cp_open cp = None \<and> \<not> forced cp \<and> \<not> cp_nudged cp \<and> lp_bytes lp - cp_opened_at cp < threshold cp
      then Some (tick_none, sts, cp)
      else
        let (early, cp1) = (if cp_open cp = None then cp_opened sts lp (unix_millis n) cp else (None, cp)) in
        do {
          (r, cp2) \<leftarrow> cycle_step dops first sts n lp cp1;
          (case r of
             Inr (Pending ask) \<Rightarrow> Some (\<lparr>tk_completed = early, tk_faulted = False, tk_wants_sync = ask\<rparr>, sts, cp2)
           | Inr Imaged \<Rightarrow>
               do {
                 (done_c, sts', cp3) \<leftarrow> finish ops sts cp2;
                 Some (\<lparr>tk_completed = Some done_c, tk_faulted = False, tk_wants_sync = False\<rparr>, sts', cp3)
               }
           | Inl _ \<Rightarrow> Some (\<lparr>tk_completed = early, tk_faulted = True, tk_wants_sync = False\<rparr>, sts, cp2))
        })"

definition cp_force :: "('d, 'f, 's) disk_ops \<Rightarrow> ('d, 'f) segment_checkpoint \<Rightarrow> ('d, 'f) segment_checkpoint" where
  "cp_force dops cp =
     (let cp1 = (case cp_open cp of
           None \<Rightarrow> cp
         | Some cy \<Rightarrow>
             let cp' = cp\<lparr>cp_open := None\<rparr> in if cy_file cy \<noteq> None then remove_abandoned dops (image_name cp cy) cp' else cp')
      in cp1\<lparr>forced := True\<rparr>)"

definition cp_nudge :: "('d, 'f) segment_checkpoint \<Rightarrow> ('d, 'f) segment_checkpoint" where
  "cp_nudge cp = cp\<lparr>cp_nudged := True\<rparr>"

definition segment_checkpoint_ops :: "('d, 'f, 's) disk_ops \<Rightarrow> 'l log_ops \<Rightarrow> ('l, ('d, 'f) segment_checkpoint) checkpoint_ops" where
  "segment_checkpoint_ops dops ops =
     \<lparr>ck_tick = cp_tick dops ops, ck_force = cp_force dops, ck_nudge = cp_nudge, ck_is_open = (\<lambda>cp. cp_open cp \<noteq> None)\<rparr>"

end
