(* ===== verification/ImageTail.thy ===== *)
theory ImageTail
  imports Checkpoint Replay
begin

text \<open>
  Why a fuzzy image is enough: every effect in the log is absolute, so the tail of the log from an
  image's base, replayed over the image, is the state, whichever tick each key was taken on.
  \<open>taken\<close> is what holds of one shard while its scan goes on, under any changes between the ticks.
\<close>

section \<open>The effects on one key\<close>

fun run_on :: "bytes \<Rightarrow> effect \<Rightarrow> (bytes \<times> u64 option) option \<Rightarrow> (bytes \<times> u64 option) option" where
  "run_on k (Put key v millis) x = (if key = k then Some (v, millis) else x)"
| "run_on k (effect.Del key) x = (if key = k then None else x)"
| "run_on k (Deadline key millis) x = (if key = k then map_option (\<lambda>(v, _). (v, millis)) x else x)"
| "run_on k Flush x = None"
| "run_on k Rebase x = x"

lemma run_effect_on: "run_effect e m k = run_on k e (m k)"
  by (cases e) (auto split: option.split)

lemma fold_run_effect: "fold run_effect es m k = fold (run_on k) es (m k)"
  by (induction es arbitrary: m) (simp_all add: run_effect_on)

fun writes_key :: "bytes \<Rightarrow> effect \<Rightarrow> bool" where
  "writes_key k (Put key v millis) = (key = k)"
| "writes_key k (effect.Del key) = (key = k)"
| "writes_key k Flush = True"
| "writes_key k _ = False"

fun dates_key :: "bytes \<Rightarrow> effect \<Rightarrow> bool" where
  "dates_key k (Deadline key millis) = (key = k)"
| "dates_key k _ = False"

text \<open>What was there before a write does not show after it.\<close>

lemma fold_written: "list_ex (writes_key k) es \<Longrightarrow> fold (run_on k) es x = fold (run_on k) es y"
proof (induction es rule: rev_induct)
  case (snoc e es)
  then show ?case by (cases e) auto
qed simp

lemma fold_unwritten_None: "\<not> list_ex (writes_key k) es \<Longrightarrow> fold (run_on k) es None = None"
proof (induction es)
  case (Cons e es)
  then show ?case by (cases e) auto
qed simp

lemma fold_unwritten:
  assumes "\<not> list_ex (writes_key k) es"
  shows "\<exists>dl. fold (run_on k) es (Some (v, a)) = Some (v, dl) \<and>
    (if list_ex (dates_key k) es then \<forall>b. fold (run_on k) es (Some (v, b)) = Some (v, dl) else dl = a)"
  using assms
proof (induction es rule: rev_induct)
  case (snoc e es)
  then obtain dl where "fold (run_on k) es (Some (v, a)) = Some (v, dl)"
    "if list_ex (dates_key k) es then \<forall>b. fold (run_on k) es (Some (v, b)) = Some (v, dl) else dl = a" by auto
  moreover have "\<exists>c. fold (run_on k) es (Some (v, b)) = Some (v, c)" for b
    using snoc.prems by (induction es arbitrary: b) (auto elim!: writes_key.elims split: if_splits)
  ultimately show ?case using snoc.prems by (cases e) (auto split: if_splits)
qed simp

lemma mutate_unwritten:
  assumes "\<not> writes_key k (recorded n a)"
  shows "if dates_key k (recorded n a) then map_option fst (mutate a m k) = map_option fst (m k) else mutate a m k = m k"
  using assms by (cases a) (simp_all split: option.split prod.split)

lemma mutates_unwritten:
  assumes "\<not> list_ex (writes_key k) (map (recorded n) ms)"
  shows "map_option fst (fold mutate ms m k) = map_option fst (m k) \<and>
    (\<not> list_ex (dates_key k) (map (recorded n) ms) \<longrightarrow> fold mutate ms m k = m k)"
  using assms
proof (induction ms arbitrary: m)
  case (Cons a ms)
  have a: "\<not> writes_key k (recorded n a)" using Cons.prems by simp
  have "map_option fst (fold mutate ms (mutate a m) k) = map_option fst (mutate a m k) \<and>
      (\<not> list_ex (dates_key k) (map (recorded n) ms) \<longrightarrow> fold mutate ms (mutate a m) k = mutate a m k)"
    using Cons.IH Cons.prems by simp
  then show ?case using mutate_unwritten [OF a, of m] by (simp split: if_splits)
qed simp

section \<open>One shard's scan\<close>

definition behind :: "siphash \<Rightarrow> u64 option \<Rightarrow> dict \<Rightarrow> bytes \<Rightarrow> bool" where
  "behind sip cur d k = (case cur of None \<Rightarrow> True | Some v \<Rightarrow> pos (hash_in sip d k) < pos v)"

text \<open>Of a key no effect \<open>E\<close> since the base has written: the image's value is the shard's, its
  deadline too unless an effect moved it, and the image has it if the cursor is past it.\<close>

definition taken :: "siphash \<Rightarrow> now set \<Rightarrow> effect list \<Rightarrow> logged_store \<Rightarrow> u64 option \<Rightarrow> dict \<Rightarrow> bool" where
  "taken sip N E img cur d =
     (\<forall>k. \<not> list_ex (writes_key k) E \<longrightarrow>
        (\<forall>v dl. img k = Some (v, dl) \<longrightarrow>
           (\<exists>at. items d k = Some (v, at) \<and> (\<not> list_ex (dates_key k) E \<longrightarrow> (\<exists>n \<in> N. dl = deadline_millis n at)))) \<and>
        (items d k \<noteq> None \<longrightarrow> behind sip cur d k \<longrightarrow> img k \<noteq> None))"

lemma takenD:
  assumes "taken sip N E img cur d" "\<not> list_ex (writes_key k) E"
  shows "img k = Some (v, dl) \<Longrightarrow> \<exists>at. items d k = Some (v, at) \<and> (\<not> list_ex (dates_key k) E \<longrightarrow> (\<exists>n \<in> N. dl = deadline_millis n at))"
    "items d k \<noteq> None \<Longrightarrow> behind sip cur d k \<Longrightarrow> img k \<noteq> None"
  using assms unfolding taken_def by blast+

lemma taken_start: "taken sip N E (\<lambda>_. None) (Some 0) d"
  by (simp add: taken_def behind_def)

lemma taken_more: "taken sip N E img cur d \<Longrightarrow> N \<subseteq> M \<Longrightarrow> taken sip M E img cur d"
  unfolding taken_def by blast

lemma taken_moves:
  assumes "taken sip N E img cur d" "items d' = fold mutate ms (items d)" "d_seed d' = d_seed d"
  shows "taken sip N (E @ map (recorded n) ms) img cur d'"
  unfolding taken_def
proof (intro allI impI conjI)
  fix k
  assume "\<not> list_ex (writes_key k) (E @ map (recorded n) ms)"
  then have w: "\<not> list_ex (writes_key k) E" "\<not> list_ex (writes_key k) (map (recorded n) ms)" by auto
  have mu: "map_option fst (items d' k) = map_option fst (items d k)"
      "\<not> list_ex (dates_key k) (map (recorded n) ms) \<longrightarrow> items d' k = items d k"
    using mutates_unwritten [OF w(2), of "items d"] by (simp_all add: assms(2))
  show "img k \<noteq> None" if "items d' k \<noteq> None" "behind sip cur d' k"
  proof -
    have "behind sip cur d k" using that(2) assms(3) by (auto simp: behind_def split: option.splits)
    then show ?thesis using takenD(2) [OF assms(1) w(1)] mu(1) that(1) by (metis option.map_disc_iff)
  qed
  fix v dl
  assume "img k = Some (v, dl)"
  from takenD(1) [OF assms(1) w(1) this] obtain at where at: "items d k = Some (v, at)"
    "\<not> list_ex (dates_key k) E \<longrightarrow> (\<exists>n \<in> N. dl = deadline_millis n at)" by blast
  then show "\<exists>at. items d' k = Some (v, at) \<and> (\<not> list_ex (dates_key k) (E @ map (recorded n) ms) \<longrightarrow> (\<exists>n \<in> N. dl = deadline_millis n at))"
    using mu by (cases "items d' k") auto
qed

definition entry_puts :: "now \<Rightarrow> (bytes \<times> entry) list \<Rightarrow> effect list" where
  "entry_puts n met = map (\<lambda>(k, e). Put k (entry_value e) (deadline_millis n (expires_at e))) met"

lemma puts_on:
  assumes "\<And>k e. (k, e) \<in> set met \<Longrightarrow> items d k = Some (item_of e)"
  shows "fold (run_on k) (entry_puts n met) x =
    (if k \<in> fst ` set met then map_option (\<lambda>(v, at). (v, deadline_millis n at)) (items d k) else x)"
  using assms
proof (induction met arbitrary: x)
  case (Cons y met)
  obtain key e where y: "y = (key, e)" by fastforce
  have e: "items d key = Some (item_of e)" using Cons.prems y by simp
  have IH: "fold (run_on k) (entry_puts n met) z =
      (if k \<in> fst ` set met then map_option (\<lambda>(v, at). (v, deadline_millis n at)) (items d k) else z)" for z
    using Cons.IH Cons.prems by simp
  have "fold (run_on k) (entry_puts n (y # met)) x =
      fold (run_on k) (entry_puts n met) (if key = k then Some (entry_value e, deadline_millis n (expires_at e)) else x)"
    by (simp add: entry_puts_def y)
  then show ?case using e by (auto simp: IH y item_of_def)
qed (simp add: entry_puts_def)

lemma puts_image:
  assumes "\<And>k e. (k, e) \<in> set met \<Longrightarrow> items d k = Some (item_of e)"
  shows "fold run_effect (entry_puts n met) img k =
    (if k \<in> fst ` set met then map_option (\<lambda>(v, at). (v, deadline_millis n at)) (items d k) else img k)"
  unfolding fold_run_effect by (rule puts_on [OF assms])

lemma taken_scan:
  assumes "taken sip N E img (Some v) d" "dict_inv sip d" "addressable d" "n \<in> N" "dict_scan d v = (met, v')"
  shows "taken sip N E (fold run_effect (entry_puts n met) img) (if v' = 0 then None else Some v') d"
proof -
  have met: "items d k = Some (item_of e)" if "(k, e) \<in> set met" for k e
    using dict_scan_sound [OF assms(2), of k e v] that assms(5) by (simp add: items_def)
  note img = puts_image [of met d n img, OF met]
  have seen: "k \<in> fst ` set met" if "items d k \<noteq> None" "\<not> behind sip (Some v) d k" "behind sip (if v' = 0 then None else Some v') d k" for k
  proof -
    have "dict_map d k \<noteq> None" using that(1) by (simp add: items_def)
    then obtain e where e: "dict_map d k = Some e" by blast
    have ne: "\<not> dict_is_empty d"
    proof
      assume "dict_is_empty d"
      then have "slots d = {#}" using dict_invD(3) [OF assms(2)] by (simp add: dict_is_empty_def accounted_def)
      then show False using e denotesD [OF denotes_dict_map [OF dict_invD(2) [OF assms(2)]], of k e] by simp
    qed
    obtain m where m: "m < 63" "pos v' = stretch_end (pos v) (64 - m) mod 2 ^ 64"
      "pos v \<le> pos (hash_in sip d k) \<Longrightarrow> pos (hash_in sip d k) < stretch_end (pos v) (64 - m) \<Longrightarrow> (k, e) \<in> set met"
      using dict_scan_step [OF assms(2,3) ne assms(5)] e by metis
    have "pos (hash_in sip d k) < stretch_end (pos v) (64 - m)"
    proof (cases "v' = 0")
      case True
      then show ?thesis using stretch_end_zero [of v "64 - m"] m(2) pos_less [of "hash_in sip d k"] by simp
    next
      case False
      then show ?thesis using stretch_end_mod [OF False m(2)] that(3) by (simp add: behind_def)
    qed
    then show ?thesis using m(3) that(2) by (force simp: behind_def)
  qed
  show ?thesis
    unfolding taken_def
  proof (intro allI impI conjI)
    fix k
    assume w: "\<not> list_ex (writes_key k) E"
    show "fold run_effect (entry_puts n met) img k \<noteq> None" if "items d k \<noteq> None" "behind sip (if v' = 0 then None else Some v') d k"
    proof (cases "k \<in> fst ` set met")
      case True
      then show ?thesis using img [of k] that(1) by (simp del: not_None_eq)
    next
      case False
      then have "behind sip (Some v) d k" using seen [of k] that by blast
      then show ?thesis using takenD(2) [OF assms(1) w] that(1) img [of k] False by (simp del: not_None_eq)
    qed
    fix x dl
    assume i: "fold run_effect (entry_puts n met) img k = Some (x, dl)"
    show "\<exists>at. items d k = Some (x, at) \<and> (\<not> list_ex (dates_key k) E \<longrightarrow> (\<exists>n \<in> N. dl = deadline_millis n at))"
    proof (cases "k \<in> fst ` set met")
      case True
      then show ?thesis using i img [of k] assms(4) by (auto split: prod.splits)
    next
      case False
      then show ?thesis using i img [of k] takenD(1) [OF assms(1) w] by auto
    qed
  qed
qed

text \<open>The tail over the finished image is the state.\<close>

lemma taken_tail:
  assumes "taken sip N E img None d" "mirrors N (fold run_effect E m) (items d)"
  shows "mirrors N (fold run_effect E img) (items d)"
  unfolding mirrors_def
proof
  fix k
  have mk: "mirror_of N (fold (run_on k) E (m k)) (items d k)" using assms(2) by (simp add: mirrors_def fold_run_effect)
  show "mirror_of N (fold run_effect E img k) (items d k)"
  proof (cases "list_ex (writes_key k) E")
    case True
    then show ?thesis using mk fold_written [OF True, of "img k" "m k"] by (simp add: fold_run_effect)
  next
    case w: False
    show ?thesis
    proof (cases "img k")
      case None
      then have "items d k = None" using takenD(2) [OF assms(1) w] by (cases "items d k") (auto simp: behind_def)
      then show ?thesis using None fold_unwritten_None [OF w] by (simp add: fold_run_effect)
    next
      case (Some x)
      obtain v dl where x: "x = (v, dl)" by fastforce
      obtain at where at: "items d k = Some (v, at)" "\<not> list_ex (dates_key k) E \<longrightarrow> (\<exists>n \<in> N. dl = deadline_millis n at)"
        using takenD(1) [OF assms(1) w] Some x by blast
      obtain b where b: "m k = Some (v, b)"
      proof -
        obtain w' c where m: "m k = Some (w', c)" using mk at(1) fold_unwritten_None [OF w] by (cases "m k") auto
        then have "w' = v" using mk at(1) fold_unwritten [OF w, of w' c] by auto
        then show thesis using that m by blast
      qed
      show ?thesis
        using fold_unwritten [OF w, of v dl] mk at b Some x by (auto simp: fold_run_effect split: if_splits)
    qed
  qed
qed

lemma encode_entries_append:
  "encode_entries shard base n (xs @ ys) =
     do { a \<leftarrow> encode_entries shard base n xs; b \<leftarrow> encode_entries shard base n ys; Some (a @ b) }"
  by (induction xs) (auto simp: bind_eq_Some_conv split: Option.bind_splits)

lemma scan_shard_taken:
  assumes "scan_shard budget shard base n d cursor c u buf = Some sd" "dict_inv sip d" "addressable d" "n \<in> N"
    and "taken sip N E img (Some cursor) d"
  shows "\<exists>met bs. encode_entries shard base n met = Some bs \<and> si_buffer sd = buf @ bs \<and> si_count sd = c + of_nat (length met) \<and>
    taken sip N E (fold run_effect (entry_puts n met) img) (si_cursor sd) d \<and>
    (\<forall>k e. (k, e) \<in> set met \<longrightarrow> items d k = Some (item_of e))"
  using assms
proof (induction budget shard base n d cursor c u buf arbitrary: img rule: scan_shard.induct)
  case (1 budget shard base n d cursor c u buf)
  show ?case
  proof (cases "budget \<le> u")
    case True
    then show ?thesis
      using 1(2,6) by (subst (asm) scan_shard.simps) (auto simp: entry_puts_def intro!: exI [of _ "[]"])
  next
    case False
    obtain met v' where scan: "dict_scan d cursor = (met, v')" by fastforce
    obtain bs where bs: "encode_entries shard base n met = Some bs"
      using 1(2) False scan by (subst (asm) scan_shard.simps) (auto split: option.splits)
    note step = taken_scan [OF 1(6) 1(3,4,5) scan]
    have here: "items d k = Some (item_of e)" if "(k, e) \<in> set met" for k e
      using dict_scan_sound [OF 1(3), of k e cursor] that scan by (simp add: items_def)
    show ?thesis
    proof (cases "v' = 0")
      case True
      have "sd = \<lparr>si_cursor = None, si_count = c + of_nat (length met), si_used = u + length bs, si_buffer = buf @ bs\<rparr>"
        using 1(2) False scan bs True by (subst (asm) scan_shard.simps) (simp add: Let_def)
      then show ?thesis using bs step True here by (intro exI [of _ met] exI [of _ bs]) simp
    next
      case v': False
      have r: "scan_shard budget shard base n d v' (c + of_nat (length met)) (u + length bs) (buf @ bs) = Some sd"
        using 1(2) False scan bs v' by (subst (asm) scan_shard.simps) (simp add: Let_def)
      have "taken sip N E (fold run_effect (entry_puts n met) img) (Some v') d" using step v' by simp
      from 1(1) [OF False scan [symmetric] bs refl refl v' r 1(3,4,5) this] obtain met' bs' where
        "encode_entries shard base n met' = Some bs'" "si_buffer sd = (buf @ bs) @ bs'" "si_count sd = c + of_nat (length met) + of_nat (length met')"
        "taken sip N E (fold run_effect (entry_puts n met') (fold run_effect (entry_puts n met) img)) (si_cursor sd) d"
        "\<forall>k e. (k, e) \<in> set met' \<longrightarrow> items d k = Some (item_of e)" by blast
      then show ?thesis using bs here
        by (intro exI [of _ "met @ met'"] exI [of _ "bs @ bs'"]) (auto simp: encode_entries_append entry_puts_def)
    qed
  qed
qed

section \<open>The entries of a file\<close>

text \<open>What a file holds so far: the put effects of its entries, each with the offset of its shard.\<close>

type_synonym entries = "(nat \<times> effect) list"

fun image_wire :: "u16 \<Rightarrow> u64 list \<Rightarrow> entries \<Rightarrow> bytes option" where
  "image_wire first bases [] = Some []"
| "image_wire first bases ((i, e) # es) =
     do {
       payload \<leftarrow> encode e;
       b \<leftarrow> encode_record \<lparr>rec_shard = first + of_nat i, rec_seq = bases ! i, rec_payload = payload\<rparr>;
       bs \<leftarrow> image_wire first bases es;
       Some (b @ bs)
     }"

lemma image_wire_append:
  "image_wire first bases (xs @ ys) = do { a \<leftarrow> image_wire first bases xs; b \<leftarrow> image_wire first bases ys; Some (a @ b) }"
  by (induction xs) (auto simp: bind_eq_Some_conv split: Option.bind_splits)

lemma encode_entries_wire:
  "encode_entries (first + of_nat i) (bases ! i) n met = Some bs \<Longrightarrow> image_wire first bases (map (Pair i) (entry_puts n met)) = Some bs"
proof (induction met arbitrary: bs)
  case (Cons x met)
  obtain k e where x: "x = (k, e)" by fastforce
  show ?case using Cons by (auto simp: x entry_puts_def encode_entry_def bind_eq_Some_conv)
qed (simp add: entry_puts_def)

definition image_of :: "nat \<Rightarrow> entries \<Rightarrow> logged_store" where
  "image_of i ents = fold run_effect (map snd (filter (\<lambda>x. fst x = i) ents)) (\<lambda>_. None)"

definition tally :: "nat \<Rightarrow> entries \<Rightarrow> u64" where
  "tally i ents = of_nat (length (filter (\<lambda>x. fst x = i) ents))"

text \<open>An entry a record can carry; the reader takes no longer one for a record.\<close>

definition storable :: "bytes \<Rightarrow> bytes \<Rightarrow> bool" where
  "storable k v = (BODY_FIXED_LEN + encoded_len (Put k v (Some 0)) \<le> MAX_BODY_LEN)"

definition fit_put :: "effect \<Rightarrow> bool" where
  "fit_put e = (\<exists>k v dl. e = Put k v dl \<and> storable k v)"

definition sound_dict :: "siphash \<Rightarrow> dict \<Rightarrow> bool" where
  "sound_dict sip d = (dict_inv sip d \<and> addressable d \<and> (\<forall>k v at. items d k = Some (v, at) \<longrightarrow> storable k v))"

definition scan_ok :: "siphash \<Rightarrow> now set \<Rightarrow> 'l shard_state list \<Rightarrow> (nat \<Rightarrow> effect list) \<Rightarrow> 'f cycle \<Rightarrow> entries \<Rightarrow> bool" where
  "scan_ok sip N sts E cy ents =
     (length (cy_cursors cy) = length sts \<and> length (cy_bases cy) = length sts \<and>
      cy_counts cy = map (\<lambda>i. tally i ents) [0..<length sts] \<and>
      (\<forall>(i, e) \<in> set ents. i < length sts \<and> fit_put e) \<and>
      (\<forall>i < length sts. taken sip N (E i) (image_of i ents) (cy_cursors cy ! i) (sh_dict (sts ! i))))"

lemma image_of_append: "image_of i (ents @ map (Pair j) es) = (if i = j then fold run_effect es (image_of i ents) else image_of i ents)"
  by (simp add: image_of_def comp_def)

lemma tally_append: "tally i (ents @ map (Pair j) es) = (if i = j then tally i ents + of_nat (length es) else tally i ents)"
  by (simp add: tally_def comp_def)

lemma length_entry_puts [simp]: "length (entry_puts n met) = length met"
  by (simp add: entry_puts_def)

lemma entry_puts_fit:
  assumes "sound_dict sip d" "\<And>k e. (k, e) \<in> set met \<Longrightarrow> items d k = Some (item_of e)" "x \<in> set (entry_puts n met)"
  shows "fit_put x"
  using assms unfolding sound_dict_def fit_put_def entry_puts_def item_of_def by fastforce

definition sound_shards :: "siphash \<Rightarrow> 'l shard_state list \<Rightarrow> bool" where
  "sound_shards sip sts = (\<forall>st \<in> set sts. sound_dict sip (sh_dict st))"

lemma scan_one_ok:
  assumes "scan_ok sip N sts E cy ents" "sound_shards sip sts" "n \<in> N" "j < length sts" "cy_cursors cy ! j = Some cursor"
    and "scan_shard budget (first + of_nat j) (cy_bases cy ! j) n (sh_dict (sts ! j)) cursor (cy_counts cy ! j) u (cy_buffer cy) = Some sd"
  shows "\<exists>new bs. image_wire first (cy_bases cy) new = Some bs \<and> si_buffer sd = cy_buffer cy @ bs \<and>
    scan_ok sip N sts E (cy\<lparr>cy_cursors := (cy_cursors cy)[j := si_cursor sd], cy_counts := (cy_counts cy)[j := si_count sd], cy_buffer := b\<rparr>) (ents @ new)"
proof -
  have sd: "sound_dict sip (sh_dict (sts ! j))" using assms(2,4) by (simp add: sound_shards_def)
  then have d: "dict_inv sip (sh_dict (sts ! j))" "addressable (sh_dict (sts ! j))" by (simp_all add: sound_dict_def)
  have "taken sip N (E j) (image_of j ents) (Some cursor) (sh_dict (sts ! j))" using assms(1,4,5) by (auto simp: scan_ok_def)
  from scan_shard_taken [OF assms(6) d assms(3) this] obtain met bs where
    met: "encode_entries (first + of_nat j) (cy_bases cy ! j) n met = Some bs" "si_buffer sd = cy_buffer cy @ bs"
      "si_count sd = cy_counts cy ! j + of_nat (length met)"
      "taken sip N (E j) (fold run_effect (entry_puts n met) (image_of j ents)) (si_cursor sd) (sh_dict (sts ! j))"
      "\<And>k e. (k, e) \<in> set met \<Longrightarrow> items (sh_dict (sts ! j)) k = Some (item_of e)" by blast
  let ?new = "map (Pair j) (entry_puts n met)"
  have "(cy_counts cy)[j := si_count sd] = map (\<lambda>i. tally i (ents @ ?new)) [0..<length sts]"
    using assms(1,4) met(3) by (auto simp: scan_ok_def tally_append nth_list_update simp del: map_map intro!: nth_equalityI)
  moreover have "\<forall>(i, e) \<in> set (ents @ ?new). i < length sts \<and> fit_put e"
    using assms(1,4) entry_puts_fit [OF sd met(5)] by (auto simp: scan_ok_def)
  moreover have "taken sip N (E i) (image_of i (ents @ ?new)) ((cy_cursors cy)[j := si_cursor sd] ! i) (sh_dict (sts ! i))" if "i < length sts" for i
    using assms(1,4) met(4) that by (cases "i = j") (auto simp: scan_ok_def image_of_append)
  ultimately show ?thesis
    using encode_entries_wire [OF met(1)] met(2) assms(1) by (intro exI [of _ ?new] exI [of _ bs]) (simp add: scan_ok_def)
qed

lemma scan_from_ok:
  assumes "scan_from budget first n xs off u cy = Some cy'" "xs = drop off sts" "scan_ok sip N sts E cy ents" "sound_shards sip sts" "n \<in> N"
  shows "\<exists>new bs cs ns. image_wire first (cy_bases cy) new = Some bs \<and> scan_ok sip N sts E cy' (ents @ new) \<and>
    cy' = cy\<lparr>cy_cursors := cs, cy_counts := ns, cy_buffer := cy_buffer cy @ bs\<rparr>"
  using assms(1,2,3)
proof (induction xs arbitrary: off u cy ents)
  case Nil
  then show ?case by (intro exI [of _ "[]"] exI [of _ "cy_cursors cy"] exI [of _ "cy_counts cy"]) simp
next
  case (Cons st xs)
  have j: "off < length sts" "st = sts ! off" "xs = drop (Suc off) sts"
    using Cons.prems(2) by (metis drop_all length_drop list.distinct(1) not_le_imp_less)
      (metis Cons.prems(2) drop_all hd_drop_conv_nth list.distinct(1) list.sel(1) not_le_imp_less, metis Cons.prems(2) drop_Suc list.sel(3) tl_drop)
  have lens: "length (cy_cursors cy) = length sts" "length (cy_bases cy) = length sts" "length (cy_counts cy) = length sts"
    using Cons.prems(3) by (simp_all add: scan_ok_def)
  show ?case
  proof (cases "cy_cursors cy ! off")
    case None
    then have "scan_from budget first n xs (Suc off) u cy = Some cy'" using Cons.prems(1) lens j(1) by (simp add: get_def)
    from Cons.IH [OF this j(3) Cons.prems(3)] show ?thesis .
  next
    case (Some cursor)
    then obtain sd where sd: "scan_shard budget (first + of_nat off) (cy_bases cy ! off) n (sh_dict (sts ! off)) cursor (cy_counts cy ! off) u (cy_buffer cy) = Some sd"
      using Cons.prems(1) lens j(1,2) by (auto simp: get_def bind_eq_Some_conv split: if_splits)
    let ?cy = "cy\<lparr>cy_cursors := (cy_cursors cy)[off := si_cursor sd], cy_counts := (cy_counts cy)[off := si_count sd], cy_buffer := si_buffer sd\<rparr>"
    obtain new bs where new: "image_wire first (cy_bases cy) new = Some bs" "si_buffer sd = cy_buffer cy @ bs" "scan_ok sip N sts E ?cy (ents @ new)"
      using scan_one_ok [OF Cons.prems(3) assms(4,5) j(1) Some sd] by blast
    show ?thesis
    proof (cases "si_cursor sd")
      case (Some v)
      then have "cy' = ?cy" using Cons.prems(1) lens j(1,2) \<open>cy_cursors cy ! off = Some cursor\<close> sd by (auto simp: get_def split: if_splits)
      then show ?thesis using new by (intro exI [of _ new] exI [of _ bs]) auto
    next
      case None
      then have "scan_from budget first n xs (Suc off) (si_used sd) ?cy = Some cy'"
        using Cons.prems(1) lens j(1,2) \<open>cy_cursors cy ! off = Some cursor\<close> sd by (auto simp: get_def split: if_splits)
      from Cons.IH [OF this j(3) new(3)] obtain new' bs' cs ns where
        "image_wire first (cy_bases cy) new' = Some bs'" "scan_ok sip N sts E cy' ((ents @ new) @ new')"
        "cy' = ?cy\<lparr>cy_cursors := cs, cy_counts := ns, cy_buffer := si_buffer sd @ bs'\<rparr>" by auto
      then show ?thesis using new by (intro exI [of _ "new @ new'"] exI [of _ "bs @ bs'"] exI [of _ cs] exI [of _ ns]) (simp add: image_wire_append)
    qed
  qed
qed

end
