(* ===== verification/CheckpointCorrect.thy ===== *)
theory CheckpointCorrect
  imports ImageTail
begin

text \<open>
  What a completed snapshot is: over any disk that keeps the contract of \<open>log_disk\<close>, any run of
  ticks with changes to the shards, the directory and the checkpoint's requests between them.
\<close>

section \<open>The cases of a tick\<close>

lemma cp_tick_cases:
  assumes "cp_tick dops ops first sts n lp cp = Some (tick, sts', cp')"
  obtains (idle) "cp_open cp = None" "tick = tick_none" "sts' = sts" "cp' = cp"
  | (going) r cp1 early where "(early, cp1) = (if cp_open cp = None then cp_opened sts lp (unix_millis n) cp else (None, cp))"
      "cycle_step dops first sts n lp cp1 = Some (r, cp')" "r \<noteq> Inr Imaged" "sts' = sts" "tk_completed tick = early"
  | (imaged) cp1 cp2 early c where "(early, cp1) = (if cp_open cp = None then cp_opened sts lp (unix_millis n) cp else (None, cp))"
      "cycle_step dops first sts n lp cp1 = Some (Inr Imaged, cp2)" "finish ops sts cp2 = Some (c, sts', cp')" "tk_completed tick = Some c"
proof (cases "cp_open cp = None \<and> \<not> forced cp \<and> \<not> cp_nudged cp \<and> lp_bytes lp - cp_opened_at cp < threshold cp")
  case True
  then have "Some (tick, sts', cp') = Some (tick_none, sts, cp)" using assms unfolding cp_tick_def if_P [OF True] by simp
  then show ?thesis using idle True by simp
next
  case False
  obtain early cp1 where o: "(early, cp1) = (if cp_open cp = None then cp_opened sts lp (unix_millis n) cp else (None, cp))"
    by (metis surj_pair)
  obtain r cp2 where r: "cycle_step dops first sts n lp cp1 = Some (r, cp2)"
    using assms False by (auto simp: cp_tick_def Let_def bind_eq_Some_conv simp flip: o)
  have e: "cp_tick dops ops first sts n lp cp = (case r of
      Inr (Pending ask) \<Rightarrow> Some (\<lparr>tk_completed = early, tk_faulted = False, tk_wants_sync = ask\<rparr>, sts, cp2)
    | Inr Imaged \<Rightarrow>
        do {
          (done_c, sts', cp3) \<leftarrow> finish ops sts cp2;
          Some (\<lparr>tk_completed = Some done_c, tk_faulted = False, tk_wants_sync = False\<rparr>, sts', cp3)
        }
    | Inl _ \<Rightarrow> Some (\<lparr>tk_completed = early, tk_faulted = True, tk_wants_sync = False\<rparr>, sts, cp2))"
    unfolding cp_tick_def if_not_P [OF False] o [symmetric] Let_def by (simp add: r)
  show ?thesis
  proof (cases "r = Inr Imaged")
    case True
    then obtain c where "finish ops sts cp2 = Some (c, sts', cp')" "tk_completed tick = Some c"
      using trans [OF e [symmetric] assms] by (auto simp: bind_eq_Some_conv)
    then show ?thesis using imaged [OF o] r True by blast
  next
    case n: False
    then have "cp2 = cp'" "sts' = sts" "tk_completed tick = early" using e assms by (auto split: sum.splits ck_step.splits)
    then show ?thesis using going [OF o] r n by blast
  qed
qed

section \<open>The checkpoint towards its executor\<close>

lemma cover_all_left:
  assumes "\<And>l through rs. holds l rs \<Longrightarrow> holds (log_covered ops l through) rs"
  shows "list_all2 (left_alone holds) sts (cover_all ops bases sts)"
proof (rule list_all2I)
  show "length sts = length (cover_all ops bases sts)" by (simp add: cover_all_def)
  have one: "left_alone holds st (cover ops base st)" for st base using assms by (simp add: left_alone_def cover_def)
  have same: "left_alone holds st st" for st by (simp add: left_alone_def)
  show "\<forall>(a, b) \<in> set (zip sts (cover_all ops bases sts)). left_alone holds a b"
    using one same by (auto simp: set_zip cover_all_def nth_append min_def split: if_splits)
qed

lemma left_alone_noted:
  "left_alone holds st st' \<Longrightarrow> left_alone holds st (st'\<lparr>lossy := b, image_unix_millis := x\<rparr>)"
  by (simp add: left_alone_def)

lemma cp_tick_reads:
  assumes "\<And>l through rs. holds l rs \<Longrightarrow> holds (log_covered ops l through) rs"
    and "cp_tick dops ops first sts n lp cp = Some (tick, sts', cp')"
  shows "list_all2 (left_alone holds) sts sts'"
proof -
  have "sts' = sts \<or> (\<exists>bases x. sts' = map (\<lambda>st. st\<lparr>lossy := False, image_unix_millis := x\<rparr>) (cover_all ops bases sts))"
    by (rule cp_tick_cases [OF assms(2)]) (auto simp: finish_def bind_eq_Some_conv)
  then show ?thesis
  proof (elim disjE exE)
    assume "sts' = sts"
    then show ?thesis by (simp add: left_alone_def list.rel_refl)
  next
    fix bases x
    assume e: "sts' = map (\<lambda>st. st\<lparr>lossy := False, image_unix_millis := x\<rparr>) (cover_all ops bases sts)"
    have "list_all2 (left_alone holds) sts (cover_all ops bases sts)" by (rule cover_all_left) (rule assms(1))
    then show ?thesis unfolding e list_all2_map2 by (rule list_all2_mono) (rule left_alone_noted)
  qed
qed

interpretation snap: imaging file_log_ops file_log_holds "segment_checkpoint_ops dops file_log_ops" for dops
proof unfold_locales
  fix first sts n lp c tick sts' c'
  assume "ck_tick (segment_checkpoint_ops dops file_log_ops) first sts n lp c = Some (tick, sts', c')"
  then have t: "cp_tick dops file_log_ops first sts n lp c = Some (tick, sts', c')" by (simp add: segment_checkpoint_ops_def)
  show "list_all2 (left_alone file_log_holds) sts sts'"
    by (rule cp_tick_reads [OF _ t]) (simp add: file_log_ops_def file_log_covered_def file_log_holds_def)
qed

section \<open>The file of a cycle\<close>

lemma u32_up: "(k :: u32) < - 1 \<Longrightarrow> k < k + 1"
  by unat_arith

lemma u32_room: "(k :: u32) < - 2 \<Longrightarrow> k < - 1 \<and> k + 1 < - 1"
proof -
  assume a: "k < - 2"
  have e: "unat (- 2 :: u32) = 4294967294" "unat (- 1 :: u32) = 4294967295" by (simp_all add: unsigned_minus_1_eq_mask mask_eq_exp_minus_1)
  have k: "unat k < 4294967294" using a e(1) unfolding word_less_nat_alt by simp
  then have "unat (k + 1) = unat k + 1" by (simp add: unat_word_ariths)
  then show ?thesis using k e(2) unfolding word_less_nat_alt by simp
qed

lemma cp_on_disk_eq: "cp_on_disk f cp = (r, cp') \<longleftrightarrow> (\<exists>d. f (cp_disk cp) = (r, d) \<and> cp' = cp\<lparr>cp_disk := d\<rparr>)"
  by (auto simp: cp_on_disk_def split: prod.splits)

definition image_header :: "u16 \<Rightarrow> ('d, 'f) segment_checkpoint \<Rightarrow> 'f cycle \<Rightarrow> bytes option" where
  "image_header first cp cy =
     do {
       bases \<leftarrow> by_shard first (cy_bases cy);
       snapshot_encode \<lparr>snap_generation = cp_generation cp, snap_executor = cp_executor cp, snap_cycle = cy_number cy,
         snap_unix_millis = opened_unix cy, snap_bases = bases\<rparr>
     }"

text \<open>The bytes of a whole file after its header: the entries, the footer with their number per
  shard, and the end of the log.\<close>

definition whole_image :: "u16 \<Rightarrow> u64 list \<Rightarrow> u32 \<Rightarrow> entries \<Rightarrow> bytes option" where
  "whole_image first bases number ents =
     do {
       bs \<leftarrow> image_wire first bases ents;
       ns \<leftarrow> by_shard first (map (\<lambda>i. tally i ents) [0..<length bases]);
       footer \<leftarrow> footer_encode_record ns number;
       Some (bs @ footer @ [END_OF_LOG])
     }"

text \<open>What a verb of the disk does to the checkpoint: another disk, the files but one as they were.\<close>

definition only_file :: "('d \<Rightarrow> bytes \<Rightarrow> bytes option) \<Rightarrow> bytes \<Rightarrow> 'd \<Rightarrow> 'd \<Rightarrow> bool" where
  "only_file stored name d d' = (\<forall>m. m \<noteq> name \<longrightarrow> stored d' m = stored d m)"

lemma only_file_trans: "only_file stored name d d1 \<Longrightarrow> only_file stored name d1 d2 \<Longrightarrow> only_file stored name d d2"
  by (simp add: only_file_def)

lemma only_file_untouched:
  "untouched stored firm pledged {name} d d' \<Longrightarrow> only_file stored name d d'" "untouched stored firm pledged {} d d' \<Longrightarrow> only_file stored name d d'"
  by (simp_all add: only_file_def untouched_def)

context log_disk
begin

definition holds_file :: "u16 \<Rightarrow> ('d, 'f) segment_checkpoint \<Rightarrow> 'f cycle \<Rightarrow> bytes \<Rightarrow> bool" where
  "holds_file first cp cy bs =
     (\<exists>f h. cy_file cy = Some f \<and> name_of f = image_name cp cy \<and> image_header first cp cy = Some h \<and>
        stored (cp_disk cp) (image_name cp cy) = Some (h @ bs) \<and> cy_bytes cy = length (h @ bs))"

lemma ensure_file_holds:
  assumes "ensure_file ops first cy cp = Some (r, cy', cp')" "cy_file cy = None" "stored (cp_disk cp) (image_name cp cy) = None"
  shows "\<exists>d. cp' = cp\<lparr>cp_disk := d\<rparr> \<and> only_file stored (image_name cp cy) (cp_disk cp) d \<and>
    (case r of Inr _ \<Rightarrow> (\<exists>f k. cy' = cy\<lparr>cy_bytes := k, cy_file := Some f\<rparr>) \<and> holds_file first cp' cy' [] | Inl _ \<Rightarrow> cy' = cy)"
proof -
  let ?n = "image_name cp cy"
  obtain bases where b: "by_shard first (cy_bases cy) = Some bases" using assms(1,2) by (auto simp: ensure_file_def bind_eq_Some_conv)
  obtain rf d1 where c: "dk_create_append ops ?n (cp_disk cp) = (rf, d1)" by fastforce
  note c_ok = create_ok [OF c]
  show ?thesis
  proof (cases rf)
    case (Inl e)
    then show ?thesis
      using assms(1,2) b c c_ok by (auto simp: ensure_file_def cp_on_disk_def only_file_untouched)
  next
    case (Inr f)
    have f: "name_of f = ?n" "stored d1 (name_of f) = Some []" using c_ok Inr assms(3) by auto
    obtain h where h: "image_header first cp cy = Some h"
      using assms(1,2) b c Inr by (auto simp: ensure_file_def cp_on_disk_def image_header_def bind_eq_Some_conv)
    obtain rw d2 where w: "dk_write_all ops f h d1 = (rw, d2)" by fastforce
    note w_ok = write_ok [OF w f(2)]
    obtain k where k: "stored d2 (name_of f) = Some (take k h)" "rw = Inr () \<longrightarrow> k = length h" using w_ok by auto
    obtain rs d3 where s: "dk_sync_data ops f d2 = (rs, d3)" by fastforce
    note s_ok = sync_data_ok [OF s k(1)]
    obtain rd d4 where d: "dk_sync_dir ops d3 = (rd, d4)" by fastforce
    note d_ok = sync_dir_ok [OF d]
    have e: "(r, cy', cp') = (case rw of Inl e \<Rightarrow> (Inl e, cy, cp\<lparr>cp_disk := d2\<rparr>) | Inr _ \<Rightarrow>
        (case rs of Inl e \<Rightarrow> (Inl e, cy, cp\<lparr>cp_disk := d3\<rparr>) | Inr _ \<Rightarrow>
          (case rd of Inl e \<Rightarrow> (Inl e, cy, cp\<lparr>cp_disk := d4\<rparr>)
           | Inr _ \<Rightarrow> (Inr (), cy\<lparr>cy_bytes := length h, cy_file := Some f\<rparr>, cp\<lparr>cp_disk := d4\<rparr>))))"
      using assms(1,2) b c Inr h w s d
      by (auto simp: ensure_file_def cp_on_disk_def image_header_def bind_eq_Some_conv split: sum.splits)
    have o1: "only_file stored ?n (cp_disk cp) d1" using c_ok by (auto simp: only_file_untouched)
    have o2: "only_file stored ?n (cp_disk cp) d2" using o1 w_ok f(1) by (auto intro: only_file_trans simp: only_file_untouched)
    have o3: "only_file stored ?n (cp_disk cp) d3" using o2 s_ok by (simp add: only_file_def untouched_def)
    have o4: "only_file stored ?n (cp_disk cp) d4" using o3 d_ok by (simp add: only_file_def untouched_def)
    have "stored d4 ?n = Some (take k h)" using k(1) s_ok d_ok f(1) by (auto simp: untouched_def)
    then have "rw = Inr () \<Longrightarrow> holds_file first (cp\<lparr>cp_disk := d4\<rparr>) (cy\<lparr>cy_bytes := length h, cy_file := Some f\<rparr>) []"
      using k(2) f(1) h by (simp add: holds_file_def image_name_def image_header_def)
    then show ?thesis using e o2 o3 o4 by (cases rw; cases rs; cases rd) auto
  qed
qed

lemma restart_fresh:
  assumes "restart ops cy cp = (cy', cp')"
  shows "\<exists>d. cp' = cp\<lparr>cp_cycle := cp_cycle cp + 1, cp_disk := d\<rparr> \<and> only_file stored (image_name cp cy) (cp_disk cp) d \<and>
    cy' = (cycle_fresh (cp_cycle cp) (cy_bases cy) (cy_overshoot cy) (through_batch cy) (cy_opened_at cy))
      \<lparr>cy_ticks := cy_ticks cy, opened_unix := opened_unix cy\<rparr>"
proof -
  obtain r d where d: "dk_remove_file ops (image_name cp cy) (cp_disk cp) = (r, d)" by fastforce
  have "only_file stored (image_name cp cy) (cp_disk cp) d" using remove_ok [OF d] by (auto simp: only_file_untouched)
  then show ?thesis using assms d by (auto simp: restart_def Let_def remove_abandoned_def cp_on_disk_def)
qed

lemma drain_holds:
  assumes "drain ops cy cp = Some (r, cy', cp')" "holds_file first cp cy bs"
  shows "\<exists>d. cp' = cp\<lparr>cp_disk := d\<rparr> \<and> only_file stored (image_name cp cy) (cp_disk cp) d \<and>
    (case r of Inr _ \<Rightarrow> (\<exists>k. cy' = cy\<lparr>cy_bytes := k, cy_buffer := []\<rparr>) \<and> holds_file first cp' cy' (bs @ cy_buffer cy) | Inl _ \<Rightarrow> cy' = cy)"
proof (cases "cy_buffer cy = []")
  case True
  have e: "r = Inr ()" "cy' = cy" "cp' = cp" using assms(1) True by (simp_all add: drain_def)
  have "cy = cy\<lparr>cy_bytes := cy_bytes cy, cy_buffer := []\<rparr>" using True by simp
  then have "\<exists>k. cy = cy\<lparr>cy_bytes := k, cy_buffer := []\<rparr>" by blast
  then show ?thesis using assms(2) True e by (intro exI [of _ "cp_disk cp"]) (simp add: only_file_def)
next
  case False
  obtain f h where f: "cy_file cy = Some f" "name_of f = image_name cp cy" "image_header first cp cy = Some h"
    "stored (cp_disk cp) (name_of f) = Some (h @ bs)" "cy_bytes cy = length (h @ bs)"
    using assms(2) by (auto simp: holds_file_def)
  obtain rw d where w: "dk_write_all ops f (cy_buffer cy) (cp_disk cp) = (rw, d)" by fastforce
  note w_ok = write_ok [OF w f(4)]
  have e: "(r, cy', cp') = (case rw of Inl e \<Rightarrow> (Inl e, cy, cp\<lparr>cp_disk := d\<rparr>)
      | Inr _ \<Rightarrow> (Inr (), cy\<lparr>cy_bytes := cy_bytes cy + length (cy_buffer cy), cy_buffer := []\<rparr>, cp\<lparr>cp_disk := d\<rparr>))"
    using assms(1) False f(1) w by (auto simp: drain_def cp_on_disk_def split: sum.splits)
  have "only_file stored (image_name cp cy) (cp_disk cp) d" using w_ok f(2) by (auto simp: only_file_untouched)
  then show ?thesis
    using e w_ok f by (auto simp: holds_file_def image_name_def image_header_def split: sum.splits)
qed

lemma sync_footer_holds:
  assumes "sync_footer ops cy cp = Some (r, cy', cp')" "holds_file first cp cy bs"
  shows "(\<exists>d e. r = Inl e \<and> only_file stored (image_name cp cy) (cp_disk cp) d \<and> (cy', cp') = restart ops cy (cp\<lparr>cp_disk := d\<rparr>)) \<or>
    (\<exists>d b. cp' = cp\<lparr>cp_disk := d\<rparr> \<and> only_file stored (image_name cp cy) (cp_disk cp) d \<and> cy' = cy\<lparr>dir_pending := b\<rparr> \<and>
      holds_file first cp' cy' bs \<and> cy_bytes cy \<le> firm d (image_name cp cy) \<and> (\<forall>ask. r \<noteq> Inr (Pending ask)))"
proof -
  obtain f h where f: "cy_file cy = Some f" "name_of f = image_name cp cy" "image_header first cp cy = Some h"
    "stored (cp_disk cp) (name_of f) = Some (h @ bs)" "cy_bytes cy = length (h @ bs)"
    using assms(2) by (auto simp: holds_file_def)
  obtain rs d1 where s: "dk_sync_data ops f (cp_disk cp) = (rs, d1)" by fastforce
  note s_ok = sync_data_ok [OF s f(4)]
  obtain rd d2 where d: "dk_sync_dir ops d1 = (rd, d2)" by fastforce
  note d_ok = sync_dir_ok [OF d]
  have o: "only_file stored (image_name cp cy) (cp_disk cp) d1" "only_file stored (image_name cp cy) (cp_disk cp) d2"
    using s_ok d_ok by (simp_all add: only_file_def untouched_def)
  have e: "(r, cy', cp') = (case rs of Inl e \<Rightarrow> (Inl e, restart ops cy (cp\<lparr>cp_disk := d1\<rparr>))
      | Inr _ \<Rightarrow> (case rd of Inl e \<Rightarrow> (Inl e, cy\<lparr>dir_pending := True\<rparr>, cp\<lparr>cp_disk := d2\<rparr>)
                | Inr _ \<Rightarrow> (Inr Imaged, cy\<lparr>dir_pending := False\<rparr>, cp\<lparr>cp_disk := d2\<rparr>)))"
    using assms(1) f(1) s d by (auto simp: sync_footer_def cp_on_disk_def split: sum.splits)
  show ?thesis
  proof (cases rs)
    case (Inl x)
    then show ?thesis using e o(1) by auto
  next
    case (Inr u)
    have st: "stored d2 (image_name cp cy) = Some (h @ bs)" using s_ok d_ok f(2,4) by (simp add: untouched_def)
    have "firm d1 (name_of f) \<le> firm d2 (name_of f)" using s_ok d_ok f(4) by (simp add: untouched_def)
    then have "cy_bytes cy \<le> firm d2 (image_name cp cy)" using s_ok Inr f(2,5) by (auto intro: order_trans)
    then show ?thesis
      using e Inr o(2) st f by (intro disjI2 exI [of _ d2]) (auto simp: holds_file_def image_name_def image_header_def split: sum.splits)
  qed
qed

definition image_at :: "u16 \<Rightarrow> ('d, 'f) segment_checkpoint \<Rightarrow> 'f cycle \<Rightarrow> entries \<Rightarrow> bool" where
  "image_at first cp cy ents =
     (cy_buffer cy = [] \<and> cy_number cy < cp_cycle cp \<and>
      (if cy_file cy = None
       then ents = [] \<and> \<not> footer_written cy \<and> \<not> dir_pending cy \<and> stored (cp_disk cp) (image_name cp cy) = None
       else if footer_written cy
       then scanned_all cy \<and> (\<exists>w. whole_image first (cy_bases cy) (cy_number cy) ents = Some w \<and> holds_file first cp cy w) \<and>
         (dir_pending cy \<longrightarrow> cy_bytes cy \<le> firm (cp_disk cp) (image_name cp cy))
       else \<not> dir_pending cy \<and> (\<exists>bs. image_wire first (cy_bases cy) ents = Some bs \<and> holds_file first cp cy bs)))"

text \<open>No file yet under the name of a cycle to come.\<close>

definition absent :: "('d, 'f) segment_checkpoint \<Rightarrow> bool" where
  "absent cp = (\<forall>c. cp_cycle cp \<le> c \<longrightarrow> stored (cp_disk cp) (snapshot_name (cp_generation cp) (cp_executor cp) c) = None)"

lemma absent_only:
  assumes "absent cp" "only_file stored (image_name cp cy) (cp_disk cp) d" "cy_number cy < cp_cycle cp" "cp_cycle cp \<le> k"
  shows "absent (cp\<lparr>cp_cycle := k, cp_disk := d\<rparr>)"
proof -
  have "snapshot_name (cp_generation cp) (cp_executor cp) c \<noteq> image_name cp cy" if "cp_cycle cp \<le> c" for c
    using that assms(3) parse_snapshot_name_name [of "cp_generation cp" "cp_executor cp"] unfolding image_name_def
    by (metis leD option.inject prod.inject)
  then show ?thesis using assms(1,2,4) by (auto simp: absent_def only_file_def)
qed

lemma scan_ok_fields:
  "cy_cursors cy' = cy_cursors cy \<Longrightarrow> cy_bases cy' = cy_bases cy \<Longrightarrow> cy_counts cy' = cy_counts cy \<Longrightarrow>
    scan_ok sip N sts E cy' ents = scan_ok sip N sts E cy ents"
  by (simp add: scan_ok_def)

lemma holds_file_fields:
  "holds_file first cp cy bs \<Longrightarrow> cy_file cy' = cy_file cy \<Longrightarrow> cy_number cy' = cy_number cy \<Longrightarrow> cy_bases cy' = cy_bases cy \<Longrightarrow>
    opened_unix cy' = opened_unix cy \<Longrightarrow> cy_bytes cy' = cy_bytes cy \<Longrightarrow> holds_file first cp cy' bs"
  by (simp add: holds_file_def image_name_def image_header_def)

lemma scan_ok_fresh: "length bases = length sts \<Longrightarrow> scan_ok sip N sts E (cycle_fresh k bases over through opened) []"
  by (auto simp: scan_ok_def cycle_fresh_def image_of_def tally_def taken_start map_replicate_const)

text \<open>What a step leaves: the cycle in order under its bases, with the entries its file holds.\<close>

definition stepped :: "siphash \<Rightarrow> now set \<Rightarrow> 'l shard_state list \<Rightarrow> (nat \<Rightarrow> effect list) \<Rightarrow> u16 \<Rightarrow> 'f cycle \<Rightarrow>
    ('d, 'f) segment_checkpoint \<Rightarrow> 'f cycle \<Rightarrow> ('d, 'f) segment_checkpoint \<Rightarrow> entries \<Rightarrow> bool" where
  "stepped sip N sts E first cy cp cy' cp' ents =
     ((\<exists>k d. cp' = cp\<lparr>cp_cycle := k, cp_disk := d\<rparr> \<and> (k = cp_cycle cp \<or> k = cp_cycle cp + 1)) \<and> absent cp' \<and>
      cy_bases cy' = cy_bases cy \<and> through_batch cy' = through_batch cy \<and> opened_unix cy' = opened_unix cy \<and>
      scan_ok sip N sts E cy' ents \<and> image_at first cp' cy' ents)"

lemma stepped_restart:
  assumes "restart ops cy (cp\<lparr>cp_disk := d\<rparr>) = (cy', cp')" "absent cp" "only_file stored (image_name cp cy) (cp_disk cp) d"
    and "cy_number cy < cp_cycle cp" "cp_cycle cp < - 1" "length (cy_bases cy) = length sts"
  shows "stepped sip N sts E first cy cp cy' cp' []"
proof -
  obtain d' where d': "cp' = cp\<lparr>cp_cycle := cp_cycle cp + 1, cp_disk := d'\<rparr>" "only_file stored (image_name cp cy) d d'"
    "cy' = (cycle_fresh (cp_cycle cp) (cy_bases cy) (cy_overshoot cy) (through_batch cy) (cy_opened_at cy))
      \<lparr>cy_ticks := cy_ticks cy, opened_unix := opened_unix cy\<rparr>"
    using restart_fresh [OF assms(1)] by (auto simp: image_name_def)
  have o: "only_file stored (image_name cp cy) (cp_disk cp) d'" using only_file_trans [OF assms(3) d'(2)] .
  have up: "cp_cycle cp < cp_cycle cp + 1" using assms(5) by (rule u32_up)
  have a: "absent cp'" unfolding d'(1) by (rule absent_only [OF assms(2) o assms(4)]) (use up in simp)
  have "stored d' (snapshot_name (cp_generation cp) (cp_executor cp) (cp_cycle cp)) = None"
    using absent_only [OF assms(2) o assms(4) order_refl] by (simp add: absent_def)
  moreover have "scan_ok sip N sts E cy' []"
    using scan_ok_fresh [OF assms(6)] by (subst scan_ok_fields [of cy' "cycle_fresh (cp_cycle cp) (cy_bases cy) 0 None 0"]) (simp_all add: d'(3) cycle_fresh_def)
  ultimately show ?thesis
    using a up by (auto simp: stepped_def image_at_def d' cycle_fresh_def image_name_def)
qed

lemma end_scan_cases:
  assumes "end_scan first lp early cy = Some (ask, cy')"
  obtains (on) w where "cy' = cy\<lparr>cy_waiting := w\<rparr>"
  | (ended) w ns ft where "scanned_all cy" "by_shard first (cy_counts cy) = Some ns" "footer_encode_record ns (cy_number cy) = Some ft"
      "cy' = cy\<lparr>cy_waiting := w, cy_buffer := cy_buffer cy @ ft @ [END_OF_LOG], footer_written := True\<rparr>"
proof -
  obtain short w cy1 where b: "(short, w, cy1) = (if scanned_all cy \<and> \<not> early then log_short_of_image lp cy else (False, \<lparr>wt_sent = None, wt_asked = False\<rparr>, cy))"
    by (metis prod_cases3)
  have cy1: "\<exists>x. cy1 = cy\<lparr>cy_waiting := x\<rparr>"
  proof (cases "scanned_all cy \<and> \<not> early")
    case True
    then show ?thesis using b by (auto simp: log_short_of_image_def Let_def)
  next
    case False
    then have "cy1 = cy\<lparr>cy_waiting := cy_waiting cy\<rparr>" using b by auto
    then show ?thesis by blast
  qed
  then obtain x where x: "cy1 = cy\<lparr>cy_waiting := x\<rparr>" by blast
  have e: "(if short then Some (\<not> wt_asked w, cy1\<lparr>cy_waiting := Some (w\<lparr>wt_asked := True\<rparr>)\<rparr>)
      else if scanned_all cy then
        do { ns \<leftarrow> by_shard first (cy_counts cy1); ft \<leftarrow> footer_encode_record ns (cy_number cy1);
             Some (False, cy1\<lparr>cy_buffer := cy_buffer cy1 @ ft @ [END_OF_LOG], footer_written := True\<rparr>) }
      else Some (False, cy1)) = Some (ask, cy')"
    using assms unfolding end_scan_def b [symmetric] Let_def prod.case .
  consider "short" | "\<not> short" "scanned_all cy" | "\<not> short" "\<not> scanned_all cy" by blast
  then show ?thesis
  proof cases
    case 1
    then have "cy' = cy\<lparr>cy_waiting := Some (w\<lparr>wt_asked := True\<rparr>)\<rparr>" using e x by simp
    then show ?thesis by (rule on)
  next
    case 2
    then obtain ns ft where "by_shard first (cy_counts cy) = Some ns" "footer_encode_record ns (cy_number cy) = Some ft"
      "cy' = cy\<lparr>cy_waiting := x, cy_buffer := cy_buffer cy @ ft @ [END_OF_LOG], footer_written := True\<rparr>"
      using e x by (auto simp: bind_eq_Some_conv)
    then show ?thesis using ended 2(2) by blast
  next
    case 3
    then have "cy' = cy\<lparr>cy_waiting := x\<rparr>" using e x by simp
    then show ?thesis by (rule on)
  qed
qed

lemma ensure_file_at:
  assumes "ensure_file ops first cy cp = Some (r, cy', cp')" "image_at first cp cy ents"
  shows "\<exists>d f k. cp' = cp\<lparr>cp_disk := d\<rparr> \<and> only_file stored (image_name cp cy) (cp_disk cp) d \<and>
    cy' = cy\<lparr>cy_bytes := k, cy_file := f\<rparr> \<and> (\<forall>u. r = Inr u \<longrightarrow> f \<noteq> None \<and> image_at first cp' cy' ents)"
proof (cases "cy_file cy")
  case None
  have st: "stored (cp_disk cp) (image_name cp cy) = None" using assms(2) None by (simp add: image_at_def)
  obtain d where d: "cp' = cp\<lparr>cp_disk := d\<rparr>" "only_file stored (image_name cp cy) (cp_disk cp) d"
    "case r of Inr _ \<Rightarrow> (\<exists>f k. cy' = cy\<lparr>cy_bytes := k, cy_file := Some f\<rparr>) \<and> holds_file first cp' cy' [] | Inl _ \<Rightarrow> cy' = cy"
    using ensure_file_holds [OF assms(1) None st] by blast
  show ?thesis
  proof (cases r)
    case (Inl x)
    then have "cy' = cy\<lparr>cy_bytes := cy_bytes cy, cy_file := cy_file cy\<rparr>" using d(3) by simp
    then show ?thesis using d(1,2) Inl by blast
  next
    case (Inr u)
    then obtain f k where f: "cy' = cy\<lparr>cy_bytes := k, cy_file := Some f\<rparr>" "holds_file first cp' cy' []" using d(3) by auto
    have "ents = []" "\<not> footer_written cy" "\<not> dir_pending cy" "cy_buffer cy = []" "cy_number cy < cp_cycle cp"
      using assms(2) None by (simp_all add: image_at_def)
    moreover have "cy_file cy' = Some f" "footer_written cy' = footer_written cy" "dir_pending cy' = dir_pending cy" "cy_buffer cy' = cy_buffer cy"
        "cy_number cy' = cy_number cy" "cp_cycle cp' = cp_cycle cp" by (simp_all add: f(1) d(1))
    ultimately have "image_at first cp' cy' ents" using f(2) unfolding image_at_def by simp
    then show ?thesis using d(1,2) f(1) by (intro exI [of _ d] exI [of _ "Some f"] exI [of _ k]) simp
  qed
next
  case (Some f)
  then have "r = Inr ()" "cy' = cy\<lparr>cy_bytes := cy_bytes cy, cy_file := cy_file cy\<rparr>" "cp' = cp\<lparr>cp_disk := cp_disk cp\<rparr>"
    using assms(1) by (simp_all add: ensure_file_def)
  moreover have "only_file stored (image_name cp cy) (cp_disk cp) (cp_disk cp)" by (simp add: only_file_def)
  moreover have "image_at first cp' cy' ents" using calculation assms(2) by simp
  ultimately show ?thesis using Some by blast
qed

lemma stepped_after:
  assumes "stepped sip N sts E first cy1 (cp\<lparr>cp_disk := d\<rparr>) cy' cp' ents"
    and "cy_bases cy1 = cy_bases cy" "through_batch cy1 = through_batch cy" "opened_unix cy1 = opened_unix cy"
  shows "stepped sip N sts E first cy cp cy' cp' ents"
  using assms by (auto simp: stepped_def)

text \<open>Where a cycle's step ended in a durable image.\<close>

definition image_done_at :: "u16 \<Rightarrow> ('d, 'f) segment_checkpoint \<Rightarrow> 'f cycle \<Rightarrow> entries \<Rightarrow> bool" where
  "image_done_at first cp cy ents =
     (scanned_all cy \<and> cy_bytes cy \<le> firm (cp_disk cp) (image_name cp cy) \<and>
      (\<exists>w. whole_image first (cy_bases cy) (cy_number cy) ents = Some w \<and> holds_file first cp cy w))"

lemma absent_here: "absent cp \<Longrightarrow> only_file stored (image_name cp cy) (cp_disk cp) d \<Longrightarrow> cy_number cy < cp_cycle cp \<Longrightarrow> absent (cp\<lparr>cp_disk := d\<rparr>)"
  using absent_only [of cp cy d "cp_cycle cp"] by simp

lemma footer_stepped:
  assumes run: "sync_footer ops cy cp = Some (r, cy', cp')"
    and scan: "scan_ok sip N sts E cy ents" and "absent cp" "cp_cycle cp < - 1" "cy_number cy < cp_cycle cp"
    and whole: "whole_image first (cy_bases cy) (cy_number cy) ents = Some w" "holds_file first cp cy w" "cy_buffer cy = []" "footer_written cy" "scanned_all cy"
  shows "\<exists>ents'. stepped sip N sts E first cy cp cy' cp' ents' \<and> (r = Inr Imaged \<longrightarrow> image_done_at first cp' cy' ents')"
  using sync_footer_holds [OF run whole(2)]
proof (elim disjE exE conjE)
  fix d e
  assume d: "r = Inl e" "only_file stored (image_name cp cy) (cp_disk cp) d" "(cy', cp') = restart ops cy (cp\<lparr>cp_disk := d\<rparr>)"
  have "length (cy_bases cy) = length sts" using scan by (simp add: scan_ok_def)
  from stepped_restart [OF d(3) [symmetric] assms(3) d(2) assms(5,4) this] d(1) show ?thesis by blast
next
  fix d b
  assume d: "cp' = cp\<lparr>cp_disk := d\<rparr>" "only_file stored (image_name cp cy) (cp_disk cp) d" "cy' = cy\<lparr>dir_pending := b\<rparr>"
    "holds_file first cp' cy' w" "cy_bytes cy \<le> firm d (image_name cp cy)"
  have w: "whole_image first (cy_bases cy') (cy_number cy') ents = Some w" "scanned_all cy'" using whole(1,5) d(3) by (simp_all add: whole_image_def scanned_all_def)
  have "cy_file cy' \<noteq> None" using d(4) by (auto simp: holds_file_def)
  then have "image_at first cp' cy' ents" using w d whole(3,4) assms(5) by (simp add: image_at_def image_name_def)
  moreover have "scan_ok sip N sts E cy' ents" using scan by (subst scan_ok_fields [of cy' cy]) (simp_all add: d(3))
  moreover have "absent cp'" unfolding d(1) by (rule absent_here [OF assms(3) d(2) assms(5)])
  moreover have "\<exists>k d. cp' = cp\<lparr>cp_cycle := k, cp_disk := d\<rparr> \<and> (k = cp_cycle cp \<or> k = cp_cycle cp + 1)"
    unfolding d(1) by (intro exI [of _ "cp_cycle cp"] exI [of _ d]) simp
  ultimately have "stepped sip N sts E first cy cp cy' cp' ents" using d(3) by (simp add: stepped_def)
  moreover have "image_done_at first cp' cy' ents" using w d by (simp add: image_done_at_def image_name_def)
  ultimately show ?thesis by blast
qed

lemma dir_stepped:
  assumes d: "dk_sync_dir ops (cp_disk cp) = (rd, d)"
    and "scan_ok sip N sts E cy ents" "absent cp" "image_at first cp cy ents" "dir_pending cy"
  shows "stepped sip N sts E first cy cp cy (cp\<lparr>cp_disk := d\<rparr>) ents \<and>
    stepped sip N sts E first cy cp (cy\<lparr>dir_pending := False\<rparr>) (cp\<lparr>cp_disk := d\<rparr>) ents \<and>
    image_done_at first (cp\<lparr>cp_disk := d\<rparr>) (cy\<lparr>dir_pending := False\<rparr>) ents"
proof -
  note d_ok = sync_dir_ok [OF d]
  obtain w where w: "cy_file cy \<noteq> None" "footer_written cy" "scanned_all cy" "whole_image first (cy_bases cy) (cy_number cy) ents = Some w" "holds_file first cp cy w"
    "cy_bytes cy \<le> firm (cp_disk cp) (image_name cp cy)" "cy_buffer cy = []" "cy_number cy < cp_cycle cp"
    using assms(4,5) by (auto simp: image_at_def split: if_splits)
  obtain h where h: "stored (cp_disk cp) (image_name cp cy) = Some (h @ w)" using w(5) by (auto simp: holds_file_def)
  have st: "stored d (image_name cp cy) = stored (cp_disk cp) (image_name cp cy)" using d_ok by (simp add: untouched_def)
  have hf: "holds_file first (cp\<lparr>cp_disk := d\<rparr>) cy w" using w(5) st by (simp add: holds_file_def image_name_def image_header_def)
  then have hf': "holds_file first (cp\<lparr>cp_disk := d\<rparr>) (cy\<lparr>dir_pending := False\<rparr>) w" by (rule holds_file_fields) simp_all
  have fi: "cy_bytes cy \<le> firm d (image_name cp cy)" using w(6) d_ok h st by (auto simp: untouched_def intro: order_trans)
  have wh: "whole_image first (cy_bases (cy\<lparr>dir_pending := False\<rparr>)) (cy_number (cy\<lparr>dir_pending := False\<rparr>)) ents = Some w" "scanned_all (cy\<lparr>dir_pending := False\<rparr>)"
    using w(3,4) by (simp_all add: whole_image_def scanned_all_def)
  have "only_file stored (image_name cp cy) (cp_disk cp) d" using d_ok by (simp add: only_file_def untouched_def)
  then have a: "absent (cp\<lparr>cp_disk := d\<rparr>)" by (rule absent_here [OF assms(3) _ w(8)])
  have ex: "\<exists>k d'. cp\<lparr>cp_disk := d\<rparr> = cp\<lparr>cp_cycle := k, cp_disk := d'\<rparr> \<and> (k = cp_cycle cp \<or> k = cp_cycle cp + 1)"
    by (intro exI [of _ "cp_cycle cp"] exI [of _ d]) simp
  have sc: "scan_ok sip N sts E (cy\<lparr>dir_pending := False\<rparr>) ents" using assms(2) by (subst scan_ok_fields [of _ cy]) simp_all
  have "image_at first (cp\<lparr>cp_disk := d\<rparr>) cy ents" "image_at first (cp\<lparr>cp_disk := d\<rparr>) (cy\<lparr>dir_pending := False\<rparr>) ents"
    using w hf hf' fi wh by (auto simp: image_at_def image_name_def)
  then show ?thesis using a ex sc assms(2) wh hf' fi by (simp add: stepped_def image_done_at_def image_name_def)
qed

lemma scan_stepped:
  assumes c: "cycle_scan cf first sts n cy = Some cy1" and en: "end_scan first lp early cy1 = Some (ask, cy2)"
    and dr: "drain ops cy2 cp = Some (r, cy3, cp3)"
    and scan: "scan_ok sip N sts E cy ents" "sound_shards sip sts" "n \<in> N"
    and img: "image_at first cp cy ents" "absent cp" "cp_cycle cp < - 1" "cy_file cy \<noteq> None" "\<not> footer_written cy"
  obtains (failed) e where "r = Inl e" "stepped sip N sts E first cy cp (fst (restart ops cy3 cp3)) (snd (restart ops cy3 cp3)) []"
  | (held) new where "r = Inr ()" "\<not> footer_written cy3" "stepped sip N sts E first cy cp cy3 cp3 (ents @ new)"
  | (ended) new w d where "r = Inr ()" "footer_written cy3" "cp3 = cp\<lparr>cp_disk := d\<rparr>" "absent cp3" "scan_ok sip N sts E cy3 (ents @ new)"
      "whole_image first (cy_bases cy3) (cy_number cy3) (ents @ new) = Some w" "holds_file first cp3 cy3 w" "cy_buffer cy3 = []" "scanned_all cy3"
      "cy_bases cy3 = cy_bases cy" "through_batch cy3 = through_batch cy" "opened_unix cy3 = opened_unix cy" "cy_number cy3 = cy_number cy"
proof -
  have num: "cy_number cy < cp_cycle cp" and len: "length (cy_bases cy) = length sts" and buf: "cy_buffer cy = []" and nd: "\<not> dir_pending cy"
    using img scan(1) by (auto simp: image_at_def scan_ok_def)
  obtain bs where bs: "image_wire first (cy_bases cy) ents = Some bs" "holds_file first cp cy bs"
    using img by (auto simp: image_at_def split: if_splits)
  obtain new bs' cs ns where new: "image_wire first (cy_bases cy) new = Some bs'" "scan_ok sip N sts E cy1 (ents @ new)"
    "cy1 = cy\<lparr>cy_cursors := cs, cy_counts := ns, cy_buffer := bs'\<rparr>"
    using scan_from_ok [OF c [unfolded cycle_scan_def], of sts sip N E ents] scan buf by auto
  have all: "image_wire first (cy_bases cy) (ents @ new) = Some (bs @ bs')" using bs(1) new(1) by (simp add: image_wire_append)
  obtain x b ft where cy2: "cy2 = cy1\<lparr>cy_waiting := x, cy_buffer := bs' @ ft, footer_written := b\<rparr>"
    and b: "if b then scanned_all cy1 \<and> (\<exists>w. whole_image first (cy_bases cy1) (cy_number cy1) (ents @ new) = Some w \<and> w = bs @ bs' @ ft) else ft = []"
  proof (rule end_scan_cases [OF en])
    fix x
    assume x: "cy2 = cy1\<lparr>cy_waiting := x\<rparr>"
    show thesis using that [of False "[]" x] x new(3) img(5) by simp
  next
    fix x cts ft
    assume a: "scanned_all cy1" "by_shard first (cy_counts cy1) = Some cts" "footer_encode_record cts (cy_number cy1) = Some ft"
      "cy2 = cy1\<lparr>cy_waiting := x, cy_buffer := cy_buffer cy1 @ ft @ [END_OF_LOG], footer_written := True\<rparr>"
    have "cy_counts cy1 = map (\<lambda>i. tally i (ents @ new)) [0..<length (cy_bases cy1)]" using new(2) by (simp add: scan_ok_def)
    then have "whole_image first (cy_bases cy1) (cy_number cy1) (ents @ new) = Some (bs @ bs' @ ft @ [END_OF_LOG])"
      using a(2,3) all new(3) by (simp add: whole_image_def)
    then show thesis using that [of True "ft @ [END_OF_LOG]" x] a(1,4) new(3) by simp
  qed
  have hf: "holds_file first cp cy2 bs" by (rule holds_file_fields [OF bs(2)]) (simp_all add: cy2 new(3))
  have nm: "image_name cp cy2 = image_name cp cy" by (simp add: image_name_def cy2 new(3))
  obtain d where d: "cp3 = cp\<lparr>cp_disk := d\<rparr>" "only_file stored (image_name cp cy) (cp_disk cp) d"
    "case r of Inr _ \<Rightarrow> (\<exists>k. cy3 = cy2\<lparr>cy_bytes := k, cy_buffer := []\<rparr>) \<and> holds_file first cp3 cy3 (bs @ cy_buffer cy2) | Inl _ \<Rightarrow> cy3 = cy2"
    using drain_holds [OF dr hf] unfolding nm by blast
  have a: "absent cp3" unfolding d(1) by (rule absent_here [OF img(2) d(2) num])
  show thesis
  proof (cases r)
    case (Inl e)
    then have cy3: "cy3 = cy2" using d(3) by simp
    obtain cy4 cp4 where rs: "restart ops cy3 (cp\<lparr>cp_disk := d\<rparr>) = (cy4, cp4)" by fastforce
    have "stepped sip N sts E first cy3 cp cy4 cp4 []"
      by (rule stepped_restart [OF rs img(2)]) (use d(2) num img(3) len in \<open>simp_all add: cy3 nm, simp_all add: cy2 new(3)\<close>)
    then have "stepped sip N sts E first cy cp cy4 cp4 []" using stepped_after [where cp = cp and d = "cp_disk cp" and ?cy1.0 = cy3 and cy = cy] by (simp add: cy3 cy2 new(3))
    then show ?thesis using failed Inl rs d(1) by simp
  next
    case (Inr u)
    then obtain k where cy3: "cy3 = cy2\<lparr>cy_bytes := k, cy_buffer := []\<rparr>" "holds_file first cp3 cy3 (bs @ cy_buffer cy2)" using d(3) by auto
    have sc: "scan_ok sip N sts E cy3 (ents @ new)" using new(2) by (subst scan_ok_fields [of cy3 cy1]) (simp_all add: cy3 cy2)
    show ?thesis
    proof (cases b)
      case True
      then have "whole_image first (cy_bases cy3) (cy_number cy3) (ents @ new) = Some (bs @ bs' @ ft)" "scanned_all cy3"
        using b by (simp_all add: cy3 cy2 whole_image_def scanned_all_def)
      then show ?thesis using ended [of d new "bs @ bs' @ ft"] a d(1) sc cy3 True Inr by (simp add: cy2 new(3))
    next
      case False
      then have "holds_file first cp3 cy3 (bs @ bs')" using cy3(2) b by (simp add: cy2)
      then have "image_at first cp3 cy3 (ents @ new)"
        using all num nd img(4) False by (auto simp: image_at_def cy3 cy2 new(3) d(1))
      moreover have "\<exists>k d'. cp3 = cp\<lparr>cp_cycle := k, cp_disk := d'\<rparr> \<and> (k = cp_cycle cp \<or> k = cp_cycle cp + 1)"
        unfolding d(1) by (intro exI [of _ "cp_cycle cp"] exI [of _ d]) simp
      ultimately have "stepped sip N sts E first cy cp cy3 cp3 (ents @ new)"
        using a sc by (simp add: stepped_def cy3 cy2 new(3))
      then show ?thesis using held Inr False by (simp add: cy3 cy2)
    qed
  qed
qed

lemma step_holds:
  assumes run: "step_inner ops first sts n lp cy cp = Some (r, cy', cp')"
    and scan: "scan_ok sip N sts E cy ents" "sound_shards sip sts" "n \<in> N"
    and img: "image_at first cp cy ents" "absent cp" "cp_cycle cp < - 1"
  shows "\<exists>ents'. stepped sip N sts E first cy cp cy' cp' ents' \<and> (r = Inr Imaged \<longrightarrow> image_done_at first cp' cy' ents')"
proof -
  let ?cy = "cy\<lparr>cy_ticks := cy_ticks cy + 1\<rparr>"
  have num: "cy_number cy < cp_cycle cp" and len: "length (cy_bases cy) = length sts"
    using img(1) scan(1) by (simp_all add: image_at_def scan_ok_def)
  obtain re cy1 cp1 where e: "ensure_file ops first ?cy cp = Some (re, cy1, cp1)"
    using run by (auto simp: step_inner_def bind_eq_Some_conv)
  have at: "image_at first cp ?cy ents"
    using img(1) by (auto simp: image_at_def image_name_def whole_image_def scanned_all_def holds_file_def image_header_def)
  obtain d f k where d: "cp1 = cp\<lparr>cp_disk := d\<rparr>" "only_file stored (image_name cp ?cy) (cp_disk cp) d" "cy1 = ?cy\<lparr>cy_bytes := k, cy_file := f\<rparr>"
    "\<And>u. re = Inr u \<Longrightarrow> f \<noteq> None \<and> image_at first cp1 cy1 ents" using ensure_file_at [OF e at] by blast
  have a: "absent cp1" unfolding d(1) by (rule absent_here [OF img(2) d(2)]) (use num in simp)
  have sc: "scan_ok sip N sts E cy1 ents" using scan(1) by (subst scan_ok_fields [of cy1 cy]) (simp_all add: d(3))
  have up: "stepped sip N sts E first cy1 cp1 x y z \<Longrightarrow> stepped sip N sts E first cy cp x y z" for x y z
    using stepped_after [where cp = cp and d = d and ?cy1.0 = cy1 and cy = cy] by (simp add: d(1,3))
  have c1: "cp_cycle cp1 < - 1" using img(3) d(1) by simp
  show ?thesis
  proof (cases re)
    case (Inl x)
    then have r: "(cy', cp') = restart ops cy1 cp1" "r = Inl x" using run e by (simp_all add: step_inner_def)
    have "stepped sip N sts E first cy1 cp cy' cp' []"
      by (rule stepped_restart [OF r(1) [symmetric, unfolded d(1)] img(2)])
        (use d(2) num img(3) len in \<open>simp_all add: d(3) image_name_def\<close>)
    then have "stepped sip N sts E first cy cp cy' cp' []" by (simp add: stepped_def d(3))
    then show ?thesis using r(2) by blast
  next
    case (Inr u)
    note at1 = d(4) [OF Inr]
    consider (dir) "dir_pending cy1" | (footer) "\<not> dir_pending cy1" "footer_written cy1" | (going) "\<not> dir_pending cy1" "\<not> footer_written cy1" by blast
    then show ?thesis
    proof cases
      case dir
      obtain rd d2 where d2: "dk_sync_dir ops (cp_disk cp1) = (rd, d2)" by fastforce
      have "(r, cy', cp') = (case rd of Inl e \<Rightarrow> (Inl e, cy1, cp1\<lparr>cp_disk := d2\<rparr>) | Inr _ \<Rightarrow> (Inr Imaged, cy1\<lparr>dir_pending := False\<rparr>, cp1\<lparr>cp_disk := d2\<rparr>))"
        using run e Inr dir d2 by (auto simp: step_inner_def cp_on_disk_def split: sum.splits)
      then show ?thesis using dir_stepped [OF d2 sc a conjunct2 [OF at1] dir] up by (cases rd) auto
    next
      case footer
      have r: "sync_footer ops cy1 cp1 = Some (r, cy', cp')" using run e Inr footer by (simp add: step_inner_def)
      have f: "cy_file cy1 \<noteq> None" using at1 d(3) by simp
      obtain w where w: "whole_image first (cy_bases cy1) (cy_number cy1) ents = Some w" "holds_file first cp1 cy1 w" "cy_buffer cy1 = []" "scanned_all cy1" "cy_number cy1 < cp_cycle cp1"
        using at1 f footer(2) by (auto simp: image_at_def split: if_splits)
      show ?thesis using footer_stepped [OF r sc a c1 w(5,1,2,3) footer(2) w(4)] up by blast
    next
      case going
      have f: "cy_file cy1 \<noteq> None" using at1 d(3) by simp
      obtain cy2 ask cy3 r3 cy4 cp4 where g: "cycle_scan (cp_config cp1) first sts n cy1 = Some cy2"
        "end_scan first lp (finishes_before_log (cp_plants cp1)) cy2 = Some (ask, cy3)" "drain ops cy3 cp1 = Some (r3, cy4, cp4)"
        and out: "(case r3 of Inl e \<Rightarrow> Some (Inl e, restart ops cy4 cp4)
          | Inr _ \<Rightarrow> if footer_written cy4 then sync_footer ops cy4 cp4 else Some (Inr (Pending ask), cy4, cp4)) = Some (r, cy', cp')"
        using run e Inr going by (auto simp: step_inner_def bind_eq_Some_conv)
      show ?thesis
      proof (rule scan_stepped [OF g sc scan(2,3) conjunct2 [OF at1] a c1 f going(2)])
        fix e
        assume "r3 = Inl e" "stepped sip N sts E first cy1 cp1 (fst (restart ops cy4 cp4)) (snd (restart ops cy4 cp4)) []"
        then show ?thesis using out up by (cases "restart ops cy4 cp4") auto
      next
        fix new
        assume "r3 = Inr ()" "\<not> footer_written cy4" "stepped sip N sts E first cy1 cp1 cy4 cp4 (ents @ new)"
        then show ?thesis using out up by auto
      next
        fix new w d'
        assume h: "r3 = Inr ()" "footer_written cy4" "cp4 = cp1\<lparr>cp_disk := d'\<rparr>" "absent cp4" "scan_ok sip N sts E cy4 (ents @ new)"
          "whole_image first (cy_bases cy4) (cy_number cy4) (ents @ new) = Some w" "holds_file first cp4 cy4 w" "cy_buffer cy4 = []" "scanned_all cy4"
          "cy_bases cy4 = cy_bases cy1" "through_batch cy4 = through_batch cy1" "opened_unix cy4 = opened_unix cy1" "cy_number cy4 = cy_number cy1"
        have r: "sync_footer ops cy4 cp4 = Some (r, cy', cp')" using out h(1,2) by simp
        have "cp_cycle cp4 < - 1" "cy_number cy4 < cp_cycle cp4" using h(3,13) c1 num d(1,3) by simp_all
        from footer_stepped [OF r h(5,4) this h(6,7,8,2,9)] show ?thesis
          using up stepped_after [where cp = cp1 and d = d' and ?cy1.0 = cy4 and cy = cy1] h(3,10,11,12) by blast
      qed
    qed
  qed
qed

end

section \<open>A run of ticks\<close>

text \<open>A shard changed between two ticks: the mutations made at one reading of the clock, each logged.\<close>

definition moves :: "siphash \<Rightarrow> mutation list \<Rightarrow> 'l shard_state \<Rightarrow> 'l shard_state \<Rightarrow> bool" where
  "moves sip ms st st' =
     (sound_dict sip (sh_dict st') \<and> d_seed (sh_dict st') = d_seed (sh_dict st) \<and>
      items (sh_dict st') = fold mutate ms (items (sh_dict st)) \<and> sh_seq st' = sh_seq st + of_nat (length ms))"

text \<open>What other tasks may do to the directory: anything but touch the open cycle's file or create
  one under the name of a cycle to come.\<close>

definition others_only :: "('d \<Rightarrow> bytes \<Rightarrow> bytes option) \<Rightarrow> ('d \<Rightarrow> bytes \<Rightarrow> nat) \<Rightarrow> ('d, 'f) segment_checkpoint \<Rightarrow> 'd \<Rightarrow> bool" where
  "others_only stored firm cp d =
     (\<forall>c. cp_cycle cp \<le> c \<or> (\<exists>cy. cp_open cp = Some cy \<and> c = cy_number cy) \<longrightarrow>
        (let name = snapshot_name (cp_generation cp) (cp_executor cp) c in
         stored d name = stored (cp_disk cp) name \<and> firm (cp_disk cp) name \<le> firm d name))"

text \<open>\<open>N\<close> are the clock readings so far and \<open>es\<close> the effects each shard has logged.\<close>

inductive cp_runs :: "('d, 'f, 's) disk_ops \<Rightarrow> 'l log_ops \<Rightarrow> siphash \<Rightarrow> u16 \<Rightarrow> (('d, 'f) segment_checkpoint \<Rightarrow> 'd \<Rightarrow> bool) \<Rightarrow>
    'l shard_state list \<Rightarrow> ('d, 'f) segment_checkpoint \<Rightarrow> now set \<Rightarrow> effect list list \<Rightarrow> 'l shard_state list \<Rightarrow>
    ('d, 'f) segment_checkpoint \<Rightarrow> bool" for dops ops sip first env sts0 cp0 where
  begins: "sound_shards sip sts0 \<Longrightarrow> cp_runs dops ops sip first env sts0 cp0 {} (replicate (length sts0) []) sts0 cp0"
| moved: "cp_runs dops ops sip first env sts0 cp0 N es sts cp \<Longrightarrow> i < length sts \<Longrightarrow> moves sip ms (sts ! i) st \<Longrightarrow>
    cp_runs dops ops sip first env sts0 cp0 (insert n N) (es[i := es ! i @ map (recorded n) ms]) (sts[i := st]) cp"
| ticked: "cp_runs dops ops sip first env sts0 cp0 N es sts cp \<Longrightarrow> cp_cycle cp < - 2 \<Longrightarrow>
    cp_tick dops ops first sts n lp cp = Some (tick, sts', cp') \<Longrightarrow>
    cp_runs dops ops sip first env sts0 cp0 (insert n N) es sts' cp'"
| forces: "cp_runs dops ops sip first env sts0 cp0 N es sts cp \<Longrightarrow> cp_runs dops ops sip first env sts0 cp0 N es sts (cp_force dops cp)"
| nudges: "cp_runs dops ops sip first env sts0 cp0 N es sts cp \<Longrightarrow> cp_runs dops ops sip first env sts0 cp0 N es sts (cp_nudge cp)"
| world: "cp_runs dops ops sip first env sts0 cp0 N es sts cp \<Longrightarrow> env cp d \<Longrightarrow>
    cp_runs dops ops sip first env sts0 cp0 N es sts (cp\<lparr>cp_disk := d\<rparr>)"

definition tailed :: "siphash \<Rightarrow> now set \<Rightarrow> u64 list \<Rightarrow> effect list list \<Rightarrow> 'l shard_state list \<Rightarrow> 'f cycle \<Rightarrow> (nat \<Rightarrow> nat) \<Rightarrow> bool" where
  "tailed sip N s0 es sts cy b =
     (\<forall>i < length sts. b i \<le> length (es ! i) \<and> cy_bases cy ! i = s0 ! i + of_nat (b i) \<and>
        (\<exists>m. mirrors N (fold run_effect (drop (b i) (es ! i)) m) (items (sh_dict (sts ! i)))))"

definition seq_numbered :: "u64 list \<Rightarrow> effect list list \<Rightarrow> 'l shard_state list \<Rightarrow> bool" where
  "seq_numbered s0 es sts =
     (length s0 = length sts \<and> length es = length sts \<and> (\<forall>i < length sts. sh_seq (sts ! i) = s0 ! i + of_nat (length (es ! i))))"

lemma tailed_moves:
  assumes "tailed sip N s0 es sts cy b" "scan_ok sip N sts (\<lambda>i. drop (b i) (es ! i)) cy ents" "moves sip ms (sts ! j) st" "j < length sts" "length es = length sts"
  shows "tailed sip (insert n N) s0 (es[j := es ! j @ map (recorded n) ms]) (sts[j := st]) cy b"
    "scan_ok sip (insert n N) (sts[j := st]) (\<lambda>i. drop (b i) (es[j := es ! j @ map (recorded n) ms] ! i)) cy ents"
proof -
  let ?N = "insert n N" let ?es = "es[j := es ! j @ map (recorded n) ms]" let ?sts = "sts[j := st]"
  have b: "b i \<le> length (es ! i)" if "i < length sts" for i using assms(1) that by (simp add: tailed_def)
  have dr: "drop (b j) (?es ! j) = drop (b j) (es ! j) @ map (recorded n) ms" using b [OF assms(4)] assms(4,5) by simp
  have mv: "items (sh_dict st) = fold mutate ms (items (sh_dict (sts ! j)))" "d_seed (sh_dict st) = d_seed (sh_dict (sts ! j))"
    using assms(3) by (simp_all add: moves_def)
  have "\<exists>m. mirrors ?N (fold run_effect (drop (b i) (?es ! i)) m) (items (sh_dict (?sts ! i)))" if i: "i < length sts" for i
  proof -
    obtain m where m: "mirrors N (fold run_effect (drop (b i) (es ! i)) m) (items (sh_dict (sts ! i)))" using assms(1) i by (auto simp: tailed_def)
    then have m': "mirrors ?N (fold run_effect (drop (b i) (es ! i)) m) (items (sh_dict (sts ! i)))" by (rule mirrors_mono) auto
    show ?thesis
    proof (cases "i = j")
      case True
      then show ?thesis using mirrors_mutates [OF m', of n ms] dr mv(1) assms(4) by auto
    qed (use m' in auto)
  qed
  then show "tailed sip ?N s0 ?es ?sts cy b"
    using assms(1,4,5) unfolding tailed_def by (auto simp: nth_list_update)
  have "taken sip ?N (drop (b i) (?es ! i)) (image_of i ents) (cy_cursors cy ! i) (sh_dict (?sts ! i))" if i: "i < length sts" for i
  proof -
    have t: "taken sip N (drop (b i) (es ! i)) (image_of i ents) (cy_cursors cy ! i) (sh_dict (sts ! i))" using assms(2) i by (simp add: scan_ok_def)
    show ?thesis
    proof (cases "i = j")
      case True
      have "taken sip N (drop (b j) (?es ! j)) (image_of j ents) (cy_cursors cy ! j) (sh_dict st)"
        unfolding dr by (rule taken_moves [OF _ mv]) (use t True in simp)
      then show ?thesis using True assms(4) taken_more by (metis nth_list_update_eq subset_insertI)
    next
      case False
      then show ?thesis using taken_more [OF t, of ?N] by auto
    qed
  qed
  then show "scan_ok sip ?N ?sts (\<lambda>i. drop (b i) (?es ! i)) cy ents" using assms(2) by (simp add: scan_ok_def)
qed

lemma tailed_same:
  assumes "list_all2 (left_alone holds) sts sts'" "N \<subseteq> M"
  shows "tailed sip N s0 es sts cy b \<Longrightarrow> tailed sip M s0 es sts' cy b"
    "scan_ok sip N sts E cy ents \<Longrightarrow> scan_ok sip M sts' E cy ents"
    "sound_shards sip sts \<Longrightarrow> sound_shards sip sts'" "seq_numbered s0 es sts \<Longrightarrow> seq_numbered s0 es sts'"
proof -
  have l: "length sts' = length sts" "\<And>i. i < length sts \<Longrightarrow> sh_dict (sts' ! i) = sh_dict (sts ! i) \<and> sh_seq (sts' ! i) = sh_seq (sts ! i)"
    using assms(1) by (auto simp: list_all2_conv_all_nth left_alone_def)
  show "tailed sip N s0 es sts cy b \<Longrightarrow> tailed sip M s0 es sts' cy b"
    unfolding tailed_def l(1) using l(2) mirrors_mono [OF _ assms(2)] by metis
  show "scan_ok sip N sts E cy ents \<Longrightarrow> scan_ok sip M sts' E cy ents"
    unfolding scan_ok_def l(1) using l(2) taken_more [OF _ assms(2)] by simp
  show "sound_shards sip sts \<Longrightarrow> sound_shards sip sts'" using l by (simp add: sound_shards_def all_set_conv_all_nth)
  show "seq_numbered s0 es sts \<Longrightarrow> seq_numbered s0 es sts'" using l by (simp add: seq_numbered_def)
qed

lemma tailed_open:
  assumes "seq_numbered s0 es sts" "n \<in> N" "cy_bases cy = map sh_seq sts"
  shows "tailed sip N s0 es sts cy (\<lambda>i. length (es ! i))"
proof -
  have "mirrors N (\<lambda>k. map_option (\<lambda>(v, at). (v, deadline_millis n at)) (items d k)) (items d)" for d
    unfolding mirrors_def
  proof
    fix k
    show "mirror_of N (map_option (\<lambda>(v, at). (v, deadline_millis n at)) (items d k)) (items d k)"
      using assms(2) by (cases "items d k") auto
  qed
  then show ?thesis using assms(1,3) by (auto simp: tailed_def seq_numbered_def)
qed

context log_disk
begin

definition cycle_ok :: "siphash \<Rightarrow> u16 \<Rightarrow> now set \<Rightarrow> u64 list \<Rightarrow> effect list list \<Rightarrow> 'l shard_state list \<Rightarrow>
    ('d, 'f) segment_checkpoint \<Rightarrow> 'f cycle \<Rightarrow> bool" where
  "cycle_ok sip first N s0 es sts cp cy =
     (\<exists>b ents. tailed sip N s0 es sts cy b \<and> scan_ok sip N sts (\<lambda>i. drop (b i) (es ! i)) cy ents \<and> image_at first cp cy ents)"

definition cp_inv :: "siphash \<Rightarrow> u16 \<Rightarrow> u64 \<Rightarrow> u16 \<Rightarrow> now set \<Rightarrow> u64 list \<Rightarrow> effect list list \<Rightarrow> 'l shard_state list \<Rightarrow>
    ('d, 'f) segment_checkpoint \<Rightarrow> bool" where
  "cp_inv sip first G X N s0 es sts cp =
     (sound_shards sip sts \<and> seq_numbered s0 es sts \<and> absent cp \<and> cp_generation cp = G \<and> cp_executor cp = X \<and>
      \<not> reports_covered_at_open (cp_plants cp) \<and> (\<forall>cy. cp_open cp = Some cy \<longrightarrow> cycle_ok sip first N s0 es sts cp cy))"

lemma image_at_fields:
  "image_at first (cp\<lparr>cp_open := x\<rparr>) cy ents = image_at first cp cy ents" "absent (cp\<lparr>cp_open := x\<rparr>) = absent cp"
  "image_done_at first (cp\<lparr>cp_open := x\<rparr>) cy ents = image_done_at first cp cy ents"
  by (simp_all add: image_at_def image_name_def holds_file_def image_header_def absent_def image_done_at_def)

lemma absent_cong:
  "absent cp \<Longrightarrow> cp_disk cp' = cp_disk cp \<Longrightarrow> cp_generation cp' = cp_generation cp \<Longrightarrow> cp_executor cp' = cp_executor cp \<Longrightarrow>
    cp_cycle cp' = cp_cycle cp \<Longrightarrow> absent cp'"
  by (simp add: absent_def)

lemma image_at_cong:
  assumes "image_at first cp cy ents" "cp_disk cp' = cp_disk cp" "cp_generation cp' = cp_generation cp" "cp_executor cp' = cp_executor cp"
    "cp_cycle cp' = cp_cycle cp"
  shows "image_at first cp' cy ents"
proof -
  have n: "image_name cp' cy = image_name cp cy" "image_header first cp' cy = image_header first cp cy"
    using assms(3,4) by (simp_all add: image_name_def image_header_def)
  then have "holds_file first cp' cy bs = holds_file first cp cy bs" for bs using assms(2) by (simp add: holds_file_def)
  then show ?thesis using assms(1) n(1) unfolding image_at_def assms(2,5) by simp
qed

lemma cp_inv_cong:
  assumes "cp_inv sip first G X N s0 es sts cp" "cp_disk cp' = cp_disk cp" "cp_generation cp' = cp_generation cp" "cp_executor cp' = cp_executor cp"
    "cp_cycle cp' = cp_cycle cp" "cp_plants cp' = cp_plants cp" "cp_open cp' = None \<or> cp_open cp' = cp_open cp"
  shows "cp_inv sip first G X N s0 es sts cp'"
proof -
  have "cycle_ok sip first N s0 es sts cp' cy" if "cp_open cp' = Some cy" for cy
  proof -
    have "cp_open cp = Some cy" using that assms(7) by auto
    then show ?thesis using assms(1) image_at_cong [OF _ assms(2-5)] unfolding cp_inv_def cycle_ok_def by blast
  qed
  moreover have "absent cp'" by (rule absent_cong [OF _ assms(2-5)]) (use assms(1) in \<open>simp add: cp_inv_def\<close>)
  ultimately show ?thesis using assms unfolding cp_inv_def by metis
qed

lemma cp_inv_moved:
  assumes "cp_inv sip first G X N s0 es sts cp" "j < length sts" "moves sip ms (sts ! j) st"
  shows "cp_inv sip first G X (insert n N) s0 (es[j := es ! j @ map (recorded n) ms]) (sts[j := st]) cp"
proof -
  have "sound_shards sip (sts[j := st])"
    using assms by (auto simp: cp_inv_def sound_shards_def moves_def dest!: set_update_subset_insert [THEN subsetD])
  moreover have "seq_numbered s0 (es[j := es ! j @ map (recorded n) ms]) (sts[j := st])"
    using assms by (auto simp: cp_inv_def seq_numbered_def moves_def nth_list_update add.assoc)
  moreover have "cycle_ok sip first (insert n N) s0 (es[j := es ! j @ map (recorded n) ms]) (sts[j := st]) cp cy" if cy: "cp_open cp = Some cy" for cy
  proof -
    obtain b ents where "tailed sip N s0 es sts cy b" "scan_ok sip N sts (\<lambda>i. drop (b i) (es ! i)) cy ents" "image_at first cp cy ents" "length es = length sts"
      using assms(1) cy by (auto simp: cp_inv_def cycle_ok_def seq_numbered_def)
    with tailed_moves [OF this(1,2) assms(3,2) this(4)] show ?thesis unfolding cycle_ok_def by blast
  qed
  ultimately show ?thesis using assms(1) by (simp add: cp_inv_def)
qed

text \<open>A cycle that opens.\<close>

lemma cp_opened_ok:
  assumes "cp_inv sip first G X N s0 es sts cp" "n \<in> N" "cp_open cp = None" "cp_cycle cp < - 1" "(early, cp1) = cp_opened sts lp millis cp"
  shows "early = None \<and> cp_inv sip first G X N s0 es sts cp1 \<and> cp_cycle cp1 = cp_cycle cp + 1 \<and> (\<exists>cy. cp_open cp1 = Some cy)"
proof -
  let ?cy = "(cycle_fresh (cp_cycle cp) (map sh_seq sts) (lp_bytes lp - cp_opened_at cp - threshold cp) (lp_batch lp) (lp_bytes lp))\<lparr>opened_unix := millis\<rparr>"
  have cp1: "cp1 = cp\<lparr>cp_opened_at := lp_bytes lp, cp_open := Some ?cy, cp_cycle := cp_cycle cp + 1, forced := False, cp_nudged := False\<rparr>" "early = None"
    using assms(1,5) by (simp_all add: cp_opened_def open_cycle_def Let_def cp_inv_def)
  have up: "cp_cycle cp < cp_cycle cp + 1" using assms(4) by (rule u32_up)
  have ab: "absent cp" using assms(1) by (simp add: cp_inv_def)
  then have "absent cp1" using up by (auto simp: absent_def cp1(1))
  moreover have "image_at first cp1 ?cy []" using ab up by (simp add: image_at_def cycle_fresh_def cp1(1) absent_def image_name_def)
  moreover have "scan_ok sip N sts E ?cy []" for E
    using scan_ok_fresh [of "map sh_seq sts" sts] by (subst scan_ok_fields [of ?cy "cycle_fresh (cp_cycle cp) (map sh_seq sts) 0 None 0"]) (simp_all add: cycle_fresh_def)
  moreover have "tailed sip N s0 es sts ?cy (\<lambda>i. length (es ! i))"
    by (rule tailed_open [OF _ assms(2)]) (use assms(1) in \<open>simp_all add: cp_inv_def cycle_fresh_def\<close>)
  ultimately show ?thesis
    using assms(1) unfolding cp_inv_def cycle_ok_def by (auto simp: cp1)
qed

lemma cycle_step_ok:
  assumes run: "cycle_step ops first sts n lp cp = Some (r, cp')" and inv: "cp_inv sip first G X N s0 es sts cp" "n \<in> N" "cp_cycle cp < - 1"
  shows "cp_inv sip first G X N s0 es sts cp' \<and>
    (r = Inr Imaged \<longrightarrow> (\<exists>cy b ents. cp_open cp' = Some cy \<and> tailed sip N s0 es sts cy b \<and>
       scan_ok sip N sts (\<lambda>i. drop (b i) (es ! i)) cy ents \<and> image_done_at first cp' cy ents))"
proof -
  obtain cy cy' cp2 where o: "cp_open cp = Some cy" "step_inner ops first sts n lp cy (cp\<lparr>cp_open := None\<rparr>) = Some (r, cy', cp2)"
    "cp' = cp2\<lparr>cp_open := Some cy'\<rparr>" using run by (auto simp: cycle_step_def bind_eq_Some_conv)
  obtain b ents where b: "tailed sip N s0 es sts cy b" "scan_ok sip N sts (\<lambda>i. drop (b i) (es ! i)) cy ents" "image_at first cp cy ents"
    using inv(1) o(1) by (auto simp: cp_inv_def cycle_ok_def)
  obtain ents' where st: "stepped sip N sts (\<lambda>i. drop (b i) (es ! i)) first cy (cp\<lparr>cp_open := None\<rparr>) cy' cp2 ents'"
    "r = Inr Imaged \<longrightarrow> image_done_at first cp2 cy' ents'"
  proof -
    have "sound_shards sip sts" "absent (cp\<lparr>cp_open := None\<rparr>)" "image_at first (cp\<lparr>cp_open := None\<rparr>) cy ents" "cp_cycle (cp\<lparr>cp_open := None\<rparr>) < - 1"
      using inv b(3) by (simp_all add: image_at_fields cp_inv_def)
    from step_holds [OF o(2) b(2) this(1) inv(2) this(3,2,4)] show ?thesis using that by blast
  qed
  have t: "tailed sip N s0 es sts cy' b" using b(1) st(1) by (simp add: tailed_def stepped_def)
  have "cycle_ok sip first N s0 es sts cp' cy'"
    unfolding cycle_ok_def using t st(1) by (auto simp: stepped_def o(3) image_at_fields)
  then have "cp_inv sip first G X N s0 es sts cp'"
    using inv(1) st(1) by (auto simp: cp_inv_def stepped_def o(3) image_at_fields)
  moreover have "\<exists>cy b ents. cp_open cp' = Some cy \<and> tailed sip N s0 es sts cy b \<and>
       scan_ok sip N sts (\<lambda>i. drop (b i) (es ! i)) cy ents \<and> image_done_at first cp' cy ents" if "r = Inr Imaged"
    using that t st by (intro exI [of _ cy'] exI [of _ b] exI [of _ ents']) (simp add: stepped_def o(3) image_at_fields)
  ultimately show ?thesis by blast
qed

lemma cp_inv_same:
  assumes "cp_inv sip first G X N s0 es sts cp" "list_all2 (left_alone holds) sts sts'" "N \<subseteq> M"
  shows "cp_inv sip first G X M s0 es sts' cp"
  using assms(1) tailed_same [OF assms(2,3)] unfolding cp_inv_def cycle_ok_def by blast

lemma finish_ok:
  assumes "finish lops sts cp = Some (c, sts', cp')" "cp_inv sip first G X N s0 es sts cp"
  shows "cp_inv sip first G X N s0 es sts' cp'"
proof -
  have l: "list_all2 (left_alone (\<lambda>_ _. True)) sts sts'"
  proof -
    obtain bases x where "sts' = map (\<lambda>st. st\<lparr>lossy := False, image_unix_millis := x\<rparr>) (cover_all lops bases sts)"
      using assms(1) by (auto simp: finish_def bind_eq_Some_conv)
    moreover have "list_all2 (left_alone (\<lambda>_ _. True)) sts (cover_all lops bases sts)" by (rule cover_all_left) simp
    ultimately show ?thesis by (auto simp: list_all2_map2 elim!: list_all2_mono intro: left_alone_noted)
  qed
  have "\<exists>a b x. cp' = cp\<lparr>cp_open := None, last_snapshot := a, cp_completed := b\<rparr>" using assms(1) by (auto simp: finish_def bind_eq_Some_conv)
  then have "cp_inv sip first G X N s0 es sts cp'" by (elim exE, intro cp_inv_cong [OF assms(2)]) simp_all
  from cp_inv_same [OF this l] show ?thesis by simp
qed

lemma cp_tick_ok:
  assumes run: "cp_tick ops lops first sts n lp cp = Some (tick, sts', cp')" and inv: "cp_inv sip first G X N s0 es sts cp" "cp_cycle cp < - 2"
  shows "cp_inv sip first G X (insert n N) s0 es sts' cp'"
    "tk_completed tick = Some c \<Longrightarrow> \<exists>cp2 cy b ents. finish lops sts cp2 = Some (c, sts', cp') \<and> cp_open cp2 = Some cy \<and> cp_generation cp2 = G \<and> cp_executor cp2 = X \<and>
       tailed sip (insert n N) s0 es sts cy b \<and> scan_ok sip (insert n N) sts (\<lambda>i. drop (b i) (es ! i)) cy ents \<and> image_done_at first cp2 cy ents"
proof -
  have inv': "cp_inv sip first G X (insert n N) s0 es sts cp"
    by (rule cp_inv_same [OF inv(1), where holds = "\<lambda>_ _. True"]) (auto simp: left_alone_def intro: list.rel_refl)
  note room = u32_room [OF inv(2), THEN conjunct1] u32_room [OF inv(2), THEN conjunct2]
  have opened: "early = None \<and> cp_inv sip first G X (insert n N) s0 es sts cp1 \<and> cp_cycle cp1 < - 1"
    if "(early, cp1) = (if cp_open cp = None then cp_opened sts lp (unix_millis n) cp else (None, cp))" for early cp1
  proof (cases "cp_open cp = None")
    case True
    then show ?thesis using cp_opened_ok [OF inv' _ True room(1), of n early cp1 lp "unix_millis n"] that room(2) by simp
  next
    case False
    then show ?thesis using that inv' room(1) by (auto split: if_splits)
  qed
  show "cp_inv sip first G X (insert n N) s0 es sts' cp'"
  proof (rule cp_tick_cases [OF run])
    fix r cp1 early
    assume "(early, cp1) = (if cp_open cp = None then cp_opened sts lp (unix_millis n) cp else (None, cp))"
      "cycle_step ops first sts n lp cp1 = Some (r, cp')" "sts' = sts"
    then show ?thesis using opened cycle_step_ok [of first sts n lp cp1 r cp' sip G X "insert n N" s0 es] by blast
  next
    fix cp1 cp2 early c
    assume "(early, cp1) = (if cp_open cp = None then cp_opened sts lp (unix_millis n) cp else (None, cp))"
      "cycle_step ops first sts n lp cp1 = Some (Inr Imaged, cp2)" "finish lops sts cp2 = Some (c, sts', cp')"
    then show ?thesis
      using opened cycle_step_ok [of first sts n lp cp1 "Inr Imaged" cp2 sip G X "insert n N" s0 es] finish_ok by blast
  qed (use inv' in simp)
  show "\<exists>cp2 cy b ents. finish lops sts cp2 = Some (c, sts', cp') \<and> cp_open cp2 = Some cy \<and> cp_generation cp2 = G \<and> cp_executor cp2 = X \<and>
       tailed sip (insert n N) s0 es sts cy b \<and> scan_ok sip (insert n N) sts (\<lambda>i. drop (b i) (es ! i)) cy ents \<and> image_done_at first cp2 cy ents"
    if c: "tk_completed tick = Some c"
  proof (rule cp_tick_cases [OF run])
    assume "tick = tick_none"
    then show ?thesis using c by (simp add: tick_none_def)
  next
    fix r cp1 early
    assume "(early, cp1) = (if cp_open cp = None then cp_opened sts lp (unix_millis n) cp else (None, cp))" "tk_completed tick = early"
    then show ?thesis using opened c by fastforce
  next
    fix cp1 cp2 early c'
    assume a: "(early, cp1) = (if cp_open cp = None then cp_opened sts lp (unix_millis n) cp else (None, cp))"
      "cycle_step ops first sts n lp cp1 = Some (Inr Imaged, cp2)" "finish lops sts cp2 = Some (c', sts', cp')" "tk_completed tick = Some c'"
    have "cp_inv sip first G X (insert n N) s0 es sts cp2 \<and> (\<exists>cy b ents. cp_open cp2 = Some cy \<and> tailed sip (insert n N) s0 es sts cy b \<and>
       scan_ok sip (insert n N) sts (\<lambda>i. drop (b i) (es ! i)) cy ents \<and> image_done_at first cp2 cy ents)"
      using opened [OF a(1)] cycle_step_ok [OF a(2), of sip G X "insert n N" s0 es] by blast
    moreover have "cp_generation cp2 = G \<and> cp_executor cp2 = X" using calculation by (simp add: cp_inv_def)
    ultimately show ?thesis using a(3,4) c by auto
  qed
qed

lemma cp_force_ok:
  assumes "cp_inv sip first G X N s0 es sts cp"
  shows "cp_inv sip first G X N s0 es sts (cp_force ops cp)"
proof (cases "cp_open cp")
  case None
  then show ?thesis by (intro cp_inv_cong [OF assms]) (simp_all add: cp_force_def)
next
  case (Some cy)
  obtain b ents where "image_at first cp cy ents" using assms Some by (auto simp: cp_inv_def cycle_ok_def)
  then have num: "cy_number cy < cp_cycle cp" by (simp add: image_at_def)
  obtain r d where d: "dk_remove_file ops (image_name cp cy) (cp_disk cp) = (r, d)" by fastforce
  have "only_file stored (image_name cp cy) (cp_disk cp) d" using remove_ok [OF d] by (auto simp: only_file_untouched)
  then have "absent (cp\<lparr>cp_disk := d\<rparr>)" using absent_here [of cp cy d] assms num by (simp add: cp_inv_def)
  then have "absent (cp_force ops cp)" "absent cp" using Some d assms
    by (auto simp: cp_force_def Let_def remove_abandoned_def cp_on_disk_def absent_def cp_inv_def)
  moreover have "cp_open (cp_force ops cp) = None" "cp_generation (cp_force ops cp) = cp_generation cp" "cp_executor (cp_force ops cp) = cp_executor cp"
      "cp_plants (cp_force ops cp) = cp_plants cp"
    using Some d by (auto simp: cp_force_def Let_def remove_abandoned_def cp_on_disk_def)
  ultimately show ?thesis using assms by (simp add: cp_inv_def)
qed

lemma cp_world_ok:
  assumes "cp_inv sip first G X N s0 es sts cp" "others_only stored firm cp d"
  shows "cp_inv sip first G X N s0 es sts (cp\<lparr>cp_disk := d\<rparr>)"
proof -
  have "absent cp" using assms(1) by (simp add: cp_inv_def)
  then have "absent (cp\<lparr>cp_disk := d\<rparr>)" using assms(2) by (simp add: absent_def others_only_def Let_def)
  moreover have "cycle_ok sip first N s0 es sts (cp\<lparr>cp_disk := d\<rparr>) cy" if o: "cp_open cp = Some cy" for cy
  proof -
    obtain b ents where b: "tailed sip N s0 es sts cy b" "scan_ok sip N sts (\<lambda>i. drop (b i) (es ! i)) cy ents" "image_at first cp cy ents"
      using assms(1) o unfolding cp_inv_def cycle_ok_def by blast
    have s: "stored d (image_name cp cy) = stored (cp_disk cp) (image_name cp cy)" "firm (cp_disk cp) (image_name cp cy) \<le> firm d (image_name cp cy)"
      using assms(2) o by (auto simp: others_only_def image_name_def Let_def)
    have "image_at first (cp\<lparr>cp_disk := d\<rparr>) cy ents"
      using b(3) s by (auto simp: image_at_def image_name_def holds_file_def image_header_def split: if_splits)
    then show ?thesis using b(1,2) unfolding cycle_ok_def by blast
  qed
  ultimately show ?thesis using assms(1) by (simp add: cp_inv_def)
qed

lemma cp_runs_inv:
  assumes "cp_runs ops lops sip first (others_only stored firm) sts0 (checkpoint_new d G X cf) N es sts cp"
    and "\<forall>c. stored d (snapshot_name G X c) = None"
  shows "cp_inv sip first G X N (map sh_seq sts0) es sts cp"
  using assms(1)
proof induction
  case begins
  then show ?case using assms(2) by (simp add: cp_inv_def seq_numbered_def absent_def checkpoint_new_def)
next
  case (moved N es sts cp i ms st n)
  then show ?case using cp_inv_moved by blast
next
  case (ticked N es sts cp n lp tick sts' cp')
  then show ?case using cp_tick_ok(1) by blast
next
  case (forces N es sts cp)
  then show ?case using cp_force_ok by blast
next
  case (nudges N es sts cp)
  from this(2) show ?case by (rule cp_inv_cong) (simp_all add: cp_nudge_def)
next
  case (world N es sts cp d)
  then show ?case using cp_world_ok by blast
qed

text \<open>The file of a completed cycle: its header, the records of the entries, the footer, all of it
  settled; replaying the tail over the entries gives each shard's keyspace.\<close>

lemma completed_image:
  assumes run: "cp_runs ops lops sip first (others_only stored firm) sts0 (checkpoint_new d G X cf) N es sts cp"
    and fresh: "\<forall>c. stored d (snapshot_name G X c) = None" "cp_cycle cp < - 2"
    and tick: "cp_tick ops lops first sts n lp cp = Some (tick, sts', cp')" "tk_completed tick = Some c"
  obtains bases ids unix ents h w where "by_shard first bases = Some ids" "length bases = length sts"
    "snapshot_encode \<lparr>snap_generation = G, snap_executor = X, snap_cycle = cm_cycle c, snap_unix_millis = unix, snap_bases = ids\<rparr> = Some h"
    "whole_image first bases (cm_cycle c) ents = Some w" "\<forall>(i, e) \<in> set ents. i < length sts \<and> fit_put e"
    "stored (cp_disk cp') (snapshot_name G X (cm_cycle c)) = Some (h @ w)" "length (h @ w) \<le> firm (cp_disk cp') (snapshot_name G X (cm_cycle c))"
    "cm_bytes c = length (h @ w)"
    "\<And>i. i < length sts \<Longrightarrow> \<exists>b \<le> length (es ! i). bases ! i = sh_seq (sts0 ! i) + of_nat b \<and>
       mirrors (insert n N) (fold run_effect (drop b (es ! i)) (image_of i ents)) (items (sh_dict (sts ! i)))"
proof -
  have inv: "cp_inv sip first G X N (map sh_seq sts0) es sts cp" by (rule cp_runs_inv [OF run fresh(1)])
  have len: "length sts0 = length sts" using inv by (simp add: cp_inv_def seq_numbered_def)
  obtain cp2 cy b ents where f: "finish lops sts cp2 = Some (c, sts', cp')" "cp_open cp2 = Some cy" "cp_generation cp2 = G" "cp_executor cp2 = X"
    "tailed sip (insert n N) (map sh_seq sts0) es sts cy b" "scan_ok sip (insert n N) sts (\<lambda>i. drop (b i) (es ! i)) cy ents" "image_done_at first cp2 cy ents"
    using cp_tick_ok(2) [OF tick(1) inv fresh(2) tick(2)] by blast
  have c: "cm_cycle c = cy_number cy" "cm_bytes c = cy_bytes cy" "cp_disk cp' = cp_disk cp2"
    using f(1,2) by (auto simp: finish_def)
  obtain w where w: "whole_image first (cy_bases cy) (cy_number cy) ents = Some w" "holds_file first cp2 cy w" "cy_bytes cy \<le> firm (cp_disk cp2) (image_name cp2 cy)"
    "list_all (\<lambda>p. p = None) (cy_cursors cy)"
    using f(7) by (auto simp: image_done_at_def scanned_all_def)
  obtain h where h: "image_header first cp2 cy = Some h" "stored (cp_disk cp2) (image_name cp2 cy) = Some (h @ w)" "cy_bytes cy = length (h @ w)"
    using w(2) by (auto simp: holds_file_def)
  obtain ids where ids: "by_shard first (cy_bases cy) = Some ids"
    "snapshot_encode \<lparr>snap_generation = G, snap_executor = X, snap_cycle = cy_number cy, snap_unix_millis = opened_unix cy, snap_bases = ids\<rparr> = Some h"
    using h(1) f(3,4) by (auto simp: image_header_def bind_eq_Some_conv)
  have nm: "image_name cp2 cy = snapshot_name G X (cm_cycle c)" using f(3,4) c(1) by (simp add: image_name_def)
  have tail: "\<exists>b \<le> length (es ! i). cy_bases cy ! i = sh_seq (sts0 ! i) + of_nat b \<and>
       mirrors (insert n N) (fold run_effect (drop b (es ! i)) (image_of i ents)) (items (sh_dict (sts ! i)))" if i: "i < length sts" for i
  proof -
    have "cy_cursors cy ! i = None" using w(4) f(6) i by (simp add: scan_ok_def list_all_length)
    then have "taken sip (insert n N) (drop (b i) (es ! i)) (image_of i ents) None (sh_dict (sts ! i))"
      using f(6) i by (auto simp: scan_ok_def)
    then show ?thesis using f(5) i len taken_tail unfolding tailed_def by (metis nth_map)
  qed
  have sz: "length (cy_bases cy) = length sts" "\<forall>(i, e) \<in> set ents. i < length sts \<and> fit_put e" using f(6) by (simp_all add: scan_ok_def)
  show thesis
    by (rule that [of "cy_bases cy" ids "opened_unix cy" h ents w])
      (use ids w(1,3) h(2,3) c nm sz tail in simp_all)
qed

end

end
