(* ===== verification/CheckpointProps.thy ===== *)
theory CheckpointProps
  imports CheckpointCorrect
begin

text \<open>
  What the checkpoint promises: a completed image is whole and durable, and with the log's tail it
  holds every shard's keyspace; and a tick with room for the keyspace completes one.
\<close>

section \<open>The fuzzy image\<close>

text \<open>C5. A completed snapshot is a fuzzy image that its log tail makes exact. Take any course of
  housekeeping ticks, forced and nudged cycles, writes to the shards between any two of them, faults of
  the disk and other tasks in the directory. When a tick reports a cycle complete, the file of that
  cycle's name holds a header, one \<open>Put\<close> record per entry met, the footer with the number of entries
  per shard and the end-of-log byte, all in bytes a crash spares; and for each shard the header's base is
  a sequence number from which on the shard's logged effects, replayed over the image's entries, give
  the shard's keyspace at the moment of completion, although it was written while the scan was under way.\<close>

theorem image_and_tail:
  assumes "log_disk dops stored firm pledged name_of"
    and "cp_runs dops lops sip first (others_only stored firm) sts0 (checkpoint_new d G X cf) N es sts cp"
    and "\<forall>c. stored d (snapshot_name G X c) = None" "cp_cycle cp < - 2"
    and "cp_tick dops lops first sts n lp cp = Some (tick, sts', cp')" "tk_completed tick = Some c"
  shows "\<exists>bases ids unix ents h w. by_shard first bases = Some ids \<and> length bases = length sts \<and>
    snapshot_encode \<lparr>snap_generation = G, snap_executor = X, snap_cycle = cm_cycle c, snap_unix_millis = unix, snap_bases = ids\<rparr> = Some h \<and>
    whole_image first bases (cm_cycle c) ents = Some w \<and> cm_bytes c = length (h @ w) \<and>
    stored (cp_disk cp') (snapshot_name G X (cm_cycle c)) = Some (h @ w) \<and> length (h @ w) \<le> firm (cp_disk cp') (snapshot_name G X (cm_cycle c)) \<and>
    (\<forall>i < length sts. \<exists>b \<le> length (es ! i). bases ! i = sh_seq (sts0 ! i) + of_nat b \<and>
       mirrors (insert n N) (fold run_effect (drop b (es ! i)) (image_of i ents)) (items (sh_dict (sts ! i))))"
  by (rule log_disk.completed_image [OF assms]) blast

section \<open>A tick with room enough\<close>

lemma storable_encodes: "storable k v \<Longrightarrow> \<exists>b. encode_entry s base k v dl = Some b"
proof -
  assume s: "storable k v"
  then have f: "fields_fit (Put k v dl)" "BODY_FIXED_LEN + encoded_len (Put k v dl) \<le> MAX_BODY_LEN"
    by (auto simp: storable_def MAX_BODY_LEN_def split: option.splits) (cases dl; simp add: deadline_len_def)
  obtain p where "encode (Put k v dl) = Some p" "length p = encoded_len (Put k v dl)" using encode_fits [OF f(1)] by blast
  then show ?thesis using f(2) by (auto simp: encode_entry_def encode_record_def Let_def MAX_BODY_LEN_def)
qed

lemma entries_encode:
  assumes "\<And>k e. (k, e) \<in> set met \<Longrightarrow> storable k (entry_value e)"
  shows "\<exists>bs. encode_entries s base n met = Some bs"
  using assms
proof (induction met)
  case (Cons p met)
  obtain bs where bs: "encode_entries s base n met = Some bs" using Cons.IH Cons.prems by fastforce
  obtain k e where p: "p = (k, e)" by fastforce
  obtain b where "encode_entry s base k (entry_value e) (deadline_millis n (expires_at e)) = Some b"
    using storable_encodes Cons.prems [of k e] p by fastforce
  then show ?case using bs p by simp
qed simp

lemma dict_scan_storable:
  assumes "sound_dict sip d" "dict_scan d v = (met, v')" "(k, e) \<in> set met"
  shows "storable k (entry_value e)"
proof -
  have "items d k = Some (item_of e)" using dict_scan_sound [of sip d k e v] assms by (simp add: items_def sound_dict_def)
  then show ?thesis using assms(1) by (auto simp: sound_dict_def item_of_def)
qed

text \<open>The inner loop ends with the shard whole once the budget is large enough.\<close>

lemma scan_shard_ends:
  assumes "sound_dict sip d"
  shows "\<exists>B sd. si_cursor sd = None \<and> (\<forall>budget \<ge> B. scan_shard budget s base n d cursor c u bf = Some sd)"
proof (induction "2 ^ 64 - pos cursor" arbitrary: cursor c u bf rule: less_induct)
  case less
  obtain met v where m: "dict_scan d cursor = (met, v)" by fastforce
  obtain bs where bs: "encode_entries s base n met = Some bs"
    using entries_encode dict_scan_storable [OF assms m] by blast
  let ?c = "c + of_nat (length met)" let ?u = "u + length bs"
  have step: "scan_shard budget s base n d cursor c u bf =
      (if v = 0 then Some \<lparr>si_cursor = None, si_count = ?c, si_used = ?u, si_buffer = bf @ bs\<rparr>
       else scan_shard budget s base n d v ?c ?u (bf @ bs))" if "u < budget" for budget
    using that m bs by (subst scan_shard.simps) simp
  show ?case
  proof (cases "v = 0")
    case True
    then show ?thesis using step by (intro exI [of _ "Suc u"] exI [of _ "\<lparr>si_cursor = None, si_count = ?c, si_used = ?u, si_buffer = bf @ bs\<rparr>"]) auto
  next
    case False
    obtain B sd where "si_cursor sd = None" "\<forall>budget \<ge> B. scan_shard budget s base n d v ?c ?u (bf @ bs) = Some sd"
      using less [OF dict_scan_nearer [OF m False]] by blast
    then show ?thesis using step False by (intro exI [of _ "max B (Suc u)"] exI [of _ sd]) auto
  qed
qed

lemma get_nth: "i < length xs \<Longrightarrow> get xs i = Some (xs ! i)"
  by (simp add: get_def)

lemma scan_from_ends:
  assumes "\<forall>st \<in> set sts. sound_dict sip (sh_dict st)" "length (cy_cursors cy) = off + length sts" "length (cy_bases cy) = off + length sts"
    "length (cy_counts cy) = off + length sts" "off + length sts \<le> 2 ^ 16" "\<forall>i < off. cy_cursors cy ! i = None"
  shows "\<exists>B cs ns bf. list_all (\<lambda>c. c = None) cs \<and> length cs = off + length sts \<and> length ns = off + length sts \<and>
    (\<forall>budget \<ge> B. scan_from budget first n sts off u cy = Some (cy\<lparr>cy_cursors := cs, cy_counts := ns, cy_buffer := bf\<rparr>))"
  using assms
proof (induction sts arbitrary: off u cy)
  case Nil
  then show ?case by (intro exI [of _ 0] exI [of _ "cy_cursors cy"] exI [of _ "cy_counts cy"] exI [of _ "cy_buffer cy"]) (simp add: list_all_length)
next
  case (Cons st sts)
  have g: "get (cy_cursors cy) off = Some (cy_cursors cy ! off)" "get (cy_bases cy) off = Some (cy_bases cy ! off)" "get (cy_counts cy) off = Some (cy_counts cy ! off)"
    "off < 2 ^ 16" using Cons.prems by (simp_all add: get_nth)
  show ?case
  proof (cases "cy_cursors cy ! off")
    case None
    then have "\<forall>i < Suc off. cy_cursors cy ! i = None" using Cons.prems(6) by (simp add: less_Suc_eq)
    then show ?thesis using Cons.IH [of cy "Suc off" u] Cons.prems g None by simp
  next
    case (Some cursor)
    obtain B1 sd where sd: "si_cursor sd = None"
      "\<forall>budget \<ge> B1. scan_shard budget (first + of_nat off) (cy_bases cy ! off) n (sh_dict st) cursor (cy_counts cy ! off) u (cy_buffer cy) = Some sd"
    proof -
      have "sound_dict sip (sh_dict st)" using Cons.prems(1) by simp
      from scan_shard_ends [OF this, of "first + of_nat off" "cy_bases cy ! off" n cursor "cy_counts cy ! off" u "cy_buffer cy"]
      show ?thesis using that by blast
    qed
    let ?cy = "cy\<lparr>cy_cursors := (cy_cursors cy)[off := None], cy_counts := (cy_counts cy)[off := si_count sd], cy_buffer := si_buffer sd\<rparr>"
    have now: "\<forall>i < Suc off. cy_cursors ?cy ! i = None" using Cons.prems(2,6) by (auto simp: less_Suc_eq nth_list_update)
    obtain B2 cs ns bf where e: "list_all (\<lambda>c. c = None) cs" "length cs = Suc off + length sts" "length ns = Suc off + length sts"
      "\<forall>budget \<ge> B2. scan_from budget first n sts (Suc off) (si_used sd) ?cy = Some (?cy\<lparr>cy_cursors := cs, cy_counts := ns, cy_buffer := bf\<rparr>)"
    proof -
      have "\<exists>B cs ns bf. list_all (\<lambda>c. c = None) cs \<and> length cs = Suc off + length sts \<and> length ns = Suc off + length sts \<and>
          (\<forall>budget \<ge> B. scan_from budget first n sts (Suc off) (si_used sd) ?cy = Some (?cy\<lparr>cy_cursors := cs, cy_counts := ns, cy_buffer := bf\<rparr>))"
        by (rule Cons.IH) (use Cons.prems now in simp_all)
      then show ?thesis using that by blast
    qed
    have "scan_from budget first n (st # sts) off u cy = Some (cy\<lparr>cy_cursors := cs, cy_counts := ns, cy_buffer := bf\<rparr>)" if "max B1 B2 \<le> budget" for budget
    proof -
      have "scan_from budget first n (st # sts) off u cy = scan_from budget first n sts (Suc off) (si_used sd) ?cy"
        using that sd g Some by simp
      then show ?thesis using that e(4) by simp
    qed
    then show ?thesis using e(1-3) by (intro exI [of _ "max B1 B2"] exI [of _ cs] exI [of _ ns] exI [of _ bf]) simp
  qed
qed

definition healthy :: "mem_fs \<Rightarrow> bool" where
  "healthy fs = (fs_dir fs \<and> \<not> fail_writes fs \<and> \<not> fail_syncs fs \<and> \<not> fail_creates fs \<and> sync_fails_after fs = None \<and>
     write_fails_after fs = None \<and> dir_sync_fails_after fs = None)"

lemma healthy_verbs:
  assumes "healthy fs"
  shows "\<exists>fs'. healthy fs' \<and> dk_create_append mem_disk_ops name fs = (Inr name, fs')"
    "\<exists>fs'. healthy fs' \<and> dk_write_all mem_disk_ops f bs fs = (Inr (), fs')"
    "\<exists>fs'. healthy fs' \<and> dk_sync_data mem_disk_ops f fs = (Inr (), fs')"
    "\<exists>fs'. healthy fs' \<and> dk_sync_dir mem_disk_ops fs = (Inr (), fs')"
  using assms by (simp_all add: healthy_def mem_disk_ops_def mem_create_append_def mem_write_all_def mem_sync_data_def mem_sync_dir_def
      sync_fails_def mark_synced_def countdown_def Let_def)

lemma healthy_ensures:
  fixes cp :: "(mem_fs, bytes) segment_checkpoint"
  assumes "healthy (cp_disk cp)" "length (cy_bases cy) < 2 ^ 16" "cy_file cy = None"
  shows "\<exists>k f d. healthy d \<and> (\<forall>cp'. cp_disk cp' = cp_disk cp \<and> cp_generation cp' = cp_generation cp \<and> cp_executor cp' = cp_executor cp \<longrightarrow>
    ensure_file mem_disk_ops first cy cp' = Some (Inr (), cy\<lparr>cy_bytes := k, cy_file := Some f\<rparr>, cp'\<lparr>cp_disk := d\<rparr>))"
proof -
  let ?n = "image_name cp cy"
  obtain ids where ids: "by_shard first (cy_bases cy) = Some ids" "length ids < 2 ^ 16" using assms(2) by (simp add: by_shard_def)
  obtain h where h: "snapshot_encode \<lparr>snap_generation = cp_generation cp, snap_executor = cp_executor cp, snap_cycle = cy_number cy,
      snap_unix_millis = opened_unix cy, snap_bases = ids\<rparr> = Some h" using ids(2) by (simp add: snapshot_encode_eq)
  obtain d1 where d1: "healthy d1" "dk_create_append mem_disk_ops ?n (cp_disk cp) = (Inr ?n, d1)" using healthy_verbs(1) [OF assms(1)] by blast
  obtain d2 where d2: "healthy d2" "dk_write_all mem_disk_ops ?n h d1 = (Inr (), d2)" using healthy_verbs(2) [OF d1(1)] by blast
  obtain d3 where d3: "healthy d3" "dk_sync_data mem_disk_ops ?n d2 = (Inr (), d3)" using healthy_verbs(3) [OF d2(1)] by blast
  obtain d4 where d4: "healthy d4" "dk_sync_dir mem_disk_ops d3 = (Inr (), d4)" using healthy_verbs(4) [OF d3(1)] by blast
  have "ensure_file mem_disk_ops first cy cp' = Some (Inr (), cy\<lparr>cy_bytes := length h, cy_file := Some ?n\<rparr>, cp'\<lparr>cp_disk := d4\<rparr>)"
    if c: "cp_disk cp' = cp_disk cp" "cp_generation cp' = cp_generation cp" "cp_executor cp' = cp_executor cp" for cp'
  proof -
    have n: "image_name cp' cy = ?n" using c by (simp add: image_name_def)
    show ?thesis unfolding ensure_file_def n using d1(2) d2(2) d3(2) d4(2) ids(1) h assms(3) c by (simp add: cp_on_disk_def)
  qed
  then show ?thesis using d4(1) by blast
qed

lemma healthy_ends:
  fixes cp :: "(mem_fs, bytes) segment_checkpoint"
  assumes "healthy (cp_disk cp)" "length (cy_counts cy) < 2 ^ 16" "cy_file cy = Some f" "scanned_all cy" "cy_waiting cy = None" "through_batch cy = lp_batch lp"
  shows "\<exists>cy2 cy3 cp3 cy4 cp4. end_scan first lp early cy = Some (False, cy2) \<and> drain mem_disk_ops cy2 cp = Some (Inr (), cy3, cp3) \<and>
    footer_written cy3 \<and> sync_footer mem_disk_ops cy3 cp3 = Some (Inr Imaged, cy4, cp4) \<and> cy_number cy4 = cy_number cy"
proof -
  obtain ids where ids: "by_shard first (cy_counts cy) = Some ids" "length ids < 2 ^ 16" using assms(2) by (simp add: by_shard_def)
  obtain ft where ft: "footer_encode_record ids (cy_number cy) = Some ft"
    using ids(2) by (simp add: footer_encode_record_def encode_record_def BODY_FIXED_LEN_def Let_def)
  obtain cy2 where cy2: "end_scan first lp early cy = Some (False, cy2)" "cy_buffer cy2 = cy_buffer cy @ ft @ [END_OF_LOG]" "footer_written cy2" "cy_file cy2 = Some f" "cy_number cy2 = cy_number cy"
    using assms(3-6) ids(1) ft by (cases early) (simp_all add: end_scan_def log_short_of_image_def Let_def)
  obtain d1 where d1: "healthy d1" "dk_write_all mem_disk_ops f (cy_buffer cy2) (cp_disk cp) = (Inr (), d1)" using healthy_verbs(2) [OF assms(1)] by blast
  obtain d2 where d2: "healthy d2" "dk_sync_data mem_disk_ops f d1 = (Inr (), d2)" using healthy_verbs(3) [OF d1(1)] by blast
  obtain d3 where d3: "dk_sync_dir mem_disk_ops d2 = (Inr (), d3)" using healthy_verbs(4) [OF d2(1)] by blast
  let ?cy3 = "cy2\<lparr>cy_bytes := cy_bytes cy2 + length (cy_buffer cy2), cy_buffer := []\<rparr>"
  have "drain mem_disk_ops cy2 cp = Some (Inr (), ?cy3, cp\<lparr>cp_disk := d1\<rparr>)" using d1(2) cy2(2,4) by (simp add: drain_def cp_on_disk_def)
  moreover have "sync_footer mem_disk_ops ?cy3 (cp\<lparr>cp_disk := d1\<rparr>) = Some (Inr Imaged, ?cy3\<lparr>dir_pending := False\<rparr>, cp\<lparr>cp_disk := d3\<rparr>)"
    using d2(2) d3 cy2(4) by (simp add: sync_footer_def cp_on_disk_def)
  ultimately show ?thesis using cy2(1,3,5)
    by (intro exI [of _ cy2] exI [of _ ?cy3] exI [of _ "cp\<lparr>cp_disk := d1\<rparr>"] exI [of _ "?cy3\<lparr>dir_pending := False\<rparr>"] exI [of _ "cp\<lparr>cp_disk := d3\<rparr>"]) simp
qed

lemma healthy_steps:
  fixes cp :: "(mem_fs, bytes) segment_checkpoint"
  assumes "sound_shards sip sts" "length sts < 2 ^ 16" "healthy (cp_disk cp)" "cp_open cp = Some cy"
    and "cy = (cycle_fresh k (map sh_seq sts) over (lp_batch lp) opened)\<lparr>opened_unix := unix\<rparr>"
  shows "\<exists>B. \<forall>budget \<ge> B. \<exists>cp' cy'. cycle_step mem_disk_ops first sts n lp (cp\<lparr>cp_config := (cp_config cp)\<lparr>bytes_per_tick := budget\<rparr>\<rparr>) = Some (Inr Imaged, cp') \<and> cp_open cp' = Some cy' \<and> cy_number cy' = cy_number cy"
proof -
  let ?cy = "cy\<lparr>cy_ticks := cy_ticks cy + 1\<rparr>"
  have f: "cy_file cy = None" "cy_bases cy = map sh_seq sts" "length (cy_cursors cy) = length sts" "length (cy_counts cy) = length sts" "cy_waiting cy = None"
    "through_batch cy = lp_batch lp" "\<not> dir_pending cy" "\<not> footer_written cy" by (simp_all add: assms(5) cycle_fresh_def)
  obtain kk fl d where en: "healthy d" "\<And>cp'. cp_disk cp' = cp_disk cp \<Longrightarrow> cp_generation cp' = cp_generation cp \<Longrightarrow> cp_executor cp' = cp_executor cp \<Longrightarrow>
    ensure_file mem_disk_ops first ?cy cp' = Some (Inr (), ?cy\<lparr>cy_bytes := kk, cy_file := Some fl\<rparr>, cp'\<lparr>cp_disk := d\<rparr>)"
  proof -
    have "length (cy_bases ?cy) < 2 ^ 16" "cy_file ?cy = None" using f(1,2) assms(2) by simp_all
    from healthy_ensures [OF assms(3) this] show ?thesis using that by blast
  qed
  let ?cy1 = "?cy\<lparr>cy_bytes := kk, cy_file := Some fl\<rparr>"
  obtain B cs ns bf where sc: "list_all (\<lambda>c. c = None) cs" "length ns = length sts"
    "\<forall>budget \<ge> B. scan_from budget first n sts 0 0 ?cy1 = Some (?cy1\<lparr>cy_cursors := cs, cy_counts := ns, cy_buffer := bf\<rparr>)"
    using scan_from_ends [of sts sip ?cy1 0 first n 0] assms(1,2) f by (auto simp: sound_shards_def)
  let ?cy2 = "?cy1\<lparr>cy_cursors := cs, cy_counts := ns, cy_buffer := bf\<rparr>"
  have "\<exists>cp' cy'. cycle_step mem_disk_ops first sts n lp (cp\<lparr>cp_config := (cp_config cp)\<lparr>bytes_per_tick := budget\<rparr>\<rparr>) = Some (Inr Imaged, cp') \<and> cp_open cp' = Some cy' \<and> cy_number cy' = cy_number cy"
    if b: "B \<le> budget" for budget
  proof -
    let ?cp = "cp\<lparr>cp_config := (cp_config cp)\<lparr>bytes_per_tick := budget\<rparr>, cp_open := None\<rparr>" let ?cp1 = "?cp\<lparr>cp_disk := d\<rparr>"
    have e: "ensure_file mem_disk_ops first ?cy ?cp = Some (Inr (), ?cy1, ?cp1)" by (rule en(2)) simp_all
    have s: "cycle_scan (cp_config ?cp1) first sts n ?cy1 = Some ?cy2" using sc(3) b by (simp add: cycle_scan_def)
    obtain cya cyb cpb cy4 cp4 where x: "end_scan first lp (finishes_before_log (cp_plants ?cp1)) ?cy2 = Some (False, cya)"
      "drain mem_disk_ops cya ?cp1 = Some (Inr (), cyb, cpb)" "footer_written cyb" "sync_footer mem_disk_ops cyb cpb = Some (Inr Imaged, cy4, cp4)" "cy_number cy4 = cy_number cy"
    proof -
      have "healthy (cp_disk ?cp1)" "length (cy_counts ?cy2) < 2 ^ 16" "cy_file ?cy2 = Some fl" "scanned_all ?cy2" "cy_waiting ?cy2 = None" "through_batch ?cy2 = lp_batch lp"
        using en(1) sc(1,2) assms(2) f by (simp_all add: scanned_all_def)
      from healthy_ends [OF this] show ?thesis using that by fastforce
    qed
    have "step_inner mem_disk_ops first sts n lp cy ?cp = Some (Inr Imaged, cy4, cp4)"
      using f(7,8) x(3,4) s x(1,2) by (simp add: step_inner_def e)
    then show ?thesis using assms(4) x(5) by (simp add: cycle_step_def)
  qed
  then show ?thesis by blast
qed

lemma roomy_tick:
  fixes cp :: "(mem_fs, bytes) segment_checkpoint"
  assumes "sound_shards sip sts" "length sts < 2 ^ 16" "healthy (cp_disk cp)" "cp_open cp = None" "\<not> reports_covered_at_open (cp_plants cp)"
    and "forced cp \<or> cp_nudged cp \<or> threshold cp \<le> lp_bytes lp - cp_opened_at cp"
  shows "\<exists>B. \<forall>budget \<ge> B. \<exists>tick sts' cp' c.
    cp_tick mem_disk_ops lops first sts n lp (cp\<lparr>cp_config := (cp_config cp)\<lparr>bytes_per_tick := budget\<rparr>\<rparr>) = Some (tick, sts', cp') \<and>
    tk_completed tick = Some c \<and> cm_cycle c = cp_cycle cp"
proof -
  let ?cy = "(cycle_fresh (cp_cycle cp) (map sh_seq sts) (lp_bytes lp - cp_opened_at cp - threshold cp) (lp_batch lp) (lp_bytes lp))\<lparr>opened_unix := unix_millis n\<rparr> :: bytes cycle"
  let ?cp = "cp\<lparr>cp_opened_at := lp_bytes lp, cp_open := Some ?cy, cp_cycle := cp_cycle cp + 1, forced := False, cp_nudged := False\<rparr>"
  have num: "cy_number ?cy = cp_cycle cp" by (simp add: cycle_fresh_def)
  let ?with = "\<lambda>budget (c :: (mem_fs, bytes) segment_checkpoint). c\<lparr>cp_config := (cp_config c)\<lparr>bytes_per_tick := budget\<rparr>\<rparr>"
  have "healthy (cp_disk ?cp)" "cp_open ?cp = Some ?cy" using assms(3) by simp_all
  from healthy_steps [OF assms(1,2) this refl, of first n]
  obtain B where B: "\<forall>budget \<ge> B. \<exists>cp' cy'. cycle_step mem_disk_ops first sts n lp (?with budget ?cp) = Some (Inr Imaged, cp') \<and> cp_open cp' = Some cy' \<and> cy_number cy' = cy_number ?cy"
    by blast
  have "\<exists>tick sts' cp' c. cp_tick mem_disk_ops lops first sts n lp (?with budget cp) = Some (tick, sts', cp') \<and> tk_completed tick = Some c \<and> cm_cycle c = cp_cycle cp"
    if b: "B \<le> budget" for budget
  proof -
    have th: "threshold (?with budget cp) = threshold cp" by (simp add: threshold_def)
    have o: "cp_opened sts lp (unix_millis n) (?with budget cp) = (None, ?with budget ?cp)"
      using assms(5) by (simp add: cp_opened_def open_cycle_def th Let_def)
    obtain cp' cy' where "cycle_step mem_disk_ops first sts n lp (?with budget ?cp) = Some (Inr Imaged, cp')" "cp_open cp' = Some cy'" "cy_number cy' = cy_number ?cy"
      using B [rule_format, OF b] by blast
    then show ?thesis using assms(4,6) o num by (auto simp: cp_tick_def th finish_def)
  qed
  then show ?thesis by blast
qed


section \<open>Witnesses\<close>

lemma one_key_sound: "sound_dict sip_const one_key"
proof -
  have "items one_key k = Some (v, at) \<Longrightarrow> storable k v" for k v at
    by (auto simp: items_def one_key_map item_of_def storable_def record_consts deadline_len_def split: if_splits)
  then show ?thesis using one_key_inv one_key_shape by (auto simp: sound_dict_def addressable_def)
qed

definition one_shard :: "file_log shard_state list" where
  "one_shard = [shard_new one_key (file_log_new 0)]"

definition quiet_cp :: "nat \<Rightarrow> (mem_fs, bytes) segment_checkpoint" where
  "quiet_cp budget = checkpoint_new (mem_fs_default\<lparr>fs_dir := True\<rparr>) 1 0 \<lparr>cf_floor = 1, cf_ratio = 1, bytes_per_tick = budget\<rparr>"

lemma one_shard_sound: "sound_shards sip_const one_shard"
  using one_key_sound by (simp add: sound_shards_def one_shard_def shard_new_def shard_recovered_def)

lemma quiet_healthy: "healthy (cp_disk (cp_nudge (quiet_cp b)))" "cp_open (cp_nudge (quiet_cp b)) = None" "cp_nudged (cp_nudge (quiet_cp b))"
  "\<not> reports_covered_at_open (cp_plants (cp_nudge (quiet_cp b)))"
  "(cp_nudge (quiet_cp b))\<lparr>cp_config := (cp_config (cp_nudge (quiet_cp b)))\<lparr>bytes_per_tick := k\<rparr>\<rparr> = cp_nudge (quiet_cp k)"
  by (simp_all add: healthy_def quiet_cp_def checkpoint_new_def cp_nudge_def mem_fs_default_def)

lemma one_shard_length: "length one_shard < 2 ^ 16"
  by (simp add: one_shard_def)

definition a_now :: now where
  "a_now = \<lparr>now_instant = 0, unix_millis = 9\<rparr>"

definition a_position :: log_position where
  "a_position = \<lparr>lp_bytes = 0, lp_batch = None, lp_durable = None\<rparr>"

lemma quiet_due:
  "forced (cp_nudge (quiet_cp b)) \<or> cp_nudged (cp_nudge (quiet_cp b)) \<or> threshold (cp_nudge (quiet_cp b)) \<le> lp_bytes a_position - cp_opened_at (cp_nudge (quiet_cp b))"
  using quiet_healthy(3) by blast

lemma quiet_runs:
  "cp_runs mem_disk_ops file_log_ops sip_const 0 (others_only mem_stored mem_firm) one_shard (quiet_cp b) {} (replicate (length one_shard) []) one_shard (cp_nudge (quiet_cp b))"
  "cp_cycle (cp_nudge (quiet_cp b)) = 0"
  by (rule cp_runs.nudges, rule cp_runs.begins [OF one_shard_sound]) (simp add: quiet_cp_def checkpoint_new_def cp_nudge_def)


theorem image_and_tail_witness:
  "\<exists>tick sts' cp' c h w ents. tk_completed tick = Some c \<and>
     (\<exists>budget. cp_tick mem_disk_ops file_log_ops 0 one_shard a_now a_position (cp_nudge (quiet_cp budget)) = Some (tick, sts', cp')) \<and>
     mem_stored (cp_disk cp') (snapshot_name 1 0 (cm_cycle c)) = Some (h @ w) \<and> whole_image 0 [0] (cm_cycle c) ents = Some w \<and>
     mirrors {a_now} (image_of 0 ents) (items one_key)"
proof -
  obtain budget tick sts' cp' c where t: "tk_completed tick = Some c"
    "cp_tick mem_disk_ops file_log_ops 0 one_shard a_now a_position (cp_nudge (quiet_cp budget)) = Some (tick, sts', cp')"
    using roomy_tick [OF one_shard_sound one_shard_length quiet_healthy(1,2,4) quiet_due [of 0], of file_log_ops 0 a_now]
    unfolding quiet_healthy(5) by blast
  have none: "\<forall>c. mem_stored (mem_fs_default\<lparr>fs_dir := True\<rparr>) (snapshot_name 1 0 c) = None" by (simp add: mem_stored_def mem_fs_default_def)
  have low: "cp_cycle (cp_nudge (quiet_cp budget)) < - 2" unfolding quiet_runs(2) by (rule word_gt_0 [THEN iffD2]) simp
  have run: "cp_runs mem_disk_ops file_log_ops sip_const 0 (others_only mem_stored mem_firm) one_shard
      (checkpoint_new (mem_fs_default\<lparr>fs_dir := True\<rparr>) 1 0 \<lparr>cf_floor = 1, cf_ratio = 1, bytes_per_tick = budget\<rparr>)
      {} (replicate (length one_shard) []) one_shard (cp_nudge (quiet_cp budget))"
    using quiet_runs(1) [of budget] by (simp add: quiet_cp_def)
  obtain bases ents h w where o: "length bases = length one_shard" "whole_image 0 bases (cm_cycle c) ents = Some w"
    "mem_stored (cp_disk cp') (snapshot_name 1 0 (cm_cycle c)) = Some (h @ w)"
    "\<forall>i < length one_shard. \<exists>b \<le> length (replicate (length one_shard) ([] :: effect list) ! i). bases ! i = sh_seq (one_shard ! i) + of_nat b \<and>
       mirrors (insert a_now {}) (fold run_effect (drop b (replicate (length one_shard) [] ! i)) (image_of i ents)) (items (sh_dict (one_shard ! i)))"
    using image_and_tail [OF mem.log_disk_axioms run none low t(2,1)] by blast
  have "bases ! 0 = 0 \<and> mirrors {a_now} (image_of 0 ents) (items one_key)"
    using o(4) by (simp add: one_shard_def shard_new_def shard_recovered_def)
  moreover have "bases = [bases ! 0]" using o(1) by (cases bases) (auto simp: one_shard_def)
  ultimately have "whole_image 0 [0] (cm_cycle c) ents = Some w" "mirrors {a_now} (image_of 0 ents) (items one_key)" using o(2) by metis+
  then show ?thesis using t o(3) by blast
qed

end
