(* ===== verification/Spec2Isabelle.thy ===== *)
theory Spec2Isabelle
  imports Slot Glob Replay RespCorrect ExecutorProps RecoveryCorrect WriterCorrect Compaction CheckpointProps
begin

text \<open>
  A verification development for \<open>seedstone\<close>, an in-memory key-value store that speaks the
  Redis protocol and can keep a replication log on disk.

  \<^bold>\<open>The program.\<close> A connection decodes RESP frames (\<open>crates/seedstone-resp\<close>), turns them
  into commands (\<open>crates/seedstone-service\<close>) and routes each command to the shard that owns
  its key (\<open>crates/seedstone-core\<close>, \<open>slot.rs\<close>). A shard is a dictionary, a sequence number
  and a log; an executor applies commands to its shards one at a time, appends the effect of
  every write to the log before the dictionary changes, sweeps expired keys and evicts under
  memory pressure. On restart the log's records are replayed into empty dictionaries.

  \<^bold>\<open>Conventions.\<close> Bytes, \<open>u16\<close>, \<open>u32\<close> and \<open>u64\<close> are words and wrap; \<open>usize\<close> counters are
  naturals, \<open>i64\<close> values are integers with the range check written out where the code checks
  it. A monotonic instant is a natural number of nanoseconds. Errors are values of a sum or
  option type; in the operations of a shard the outer \<open>None\<close> is the panic of the record
  encoder on a body that does not fit its length field. SipHash is an external crate and
  therefore a parameter \<open>sip\<close> of every dictionary operation; no theorem assumes anything
  about it. The trait \<open>ReplicationLog\<close> is a record of operations passed as an argument.
  A file opened for reading is a \<open>source\<close>: the bytes it delivers and whether an error
  follows them; the answers of the disk during one start are a \<open>disk_view\<close>. Loops are
  recursive functions with termination proofs; there is no fuel. The two loops of the log
  reader, whose end rests on an invariant of the reader, are partial functions, with theorems
  that they end on every file.

  \<^bold>\<open>The theories.\<close>

  \<^item> \<open>Prelude\<close>: little-endian codecs, ASCII and decimal text, checked slicing.
  \<^item> \<open>Slot\<close> (\<open>slot.rs\<close>): \<open>crc16_xmodem\<close>, \<open>shard_of\<close>, \<open>executor_of\<close>; the executors' shard
    ranges partition the shards, evenly.
  \<^item> \<open>Glob\<close> (\<open>glob.rs\<close>): the iterative matcher; it decides an inductive definition of what
    a pattern means.
  \<^item> \<open>Memory\<close> (\<open>memory.rs\<close>): the gauge, the ceiling, the eviction modes, the size parser.
  \<^item> \<open>Table\<close>, \<open>Dict\<close>, \<open>Scan\<close> (\<open>dict.rs\<close>): one bucket table; the dictionary with its two
    tables and incremental rehash; the cursor walk, the expiry step and the LRU sample. Every
    reachable dictionary keeps its figures exact, refines a finite map, and a walk visits
    every key that stays for its whole length, whatever rehashing happens between calls.
  \<^item> \<open>Effect\<close>, \<open>Crc\<close>, \<open>RecordLog\<close> (\<open>log/effect.rs\<close>, \<open>log.rs\<close>): the codecs of the log. Both
    round trip, accept nothing an encoder did not write, and damage to a record's body is
    reported; the sixteen-row checksum is the bitwise one.
  \<^item> \<open>FileLog\<close> (\<open>log.rs\<close>, \<open>log/file.rs\<close>): the log of one shard; locale \<open>replication_log\<close> is
    the contract of the trait, interpreted on \<open>file_log_ops\<close>.
  \<^item> \<open>Keyspace\<close>: the dictionary's contract as the locale \<open>keyspace\<close>, interpreted on the
    dictionary of \<open>Dict\<close>; the interpreter and recovery are verified against it.
  \<^item> \<open>Command\<close>, \<open>Shard\<close>, \<open>Apply\<close> (\<open>shard/command.rs\<close>, \<open>reply.rs\<close>, \<open>policy.rs\<close>,
    \<open>executor.rs\<close>, \<open>apply.rs\<close>): commands, replies, the clock, the shard state and the whole
    interpreter \<open>apply\<close>, one definition per command.
  \<^item> \<open>ApplyCorrect\<close>: an abstract specification of every keyed command over a finite map, that
    the interpreter refines it and logs exactly the effect it applied, and that a command
    the log refuses changes nothing.
  \<^item> \<open>Replay\<close> (\<open>shard/executor.rs\<close>, \<open>replay_into\<close>): what a replayed prefix means, and that the
    log a shard wrote rebuilds the shard.
  \<^item> \<open>Sweep\<close> (\<open>shard/executor.rs\<close>): the expiry sweep, which reclaims exactly the due keys it
    visits, and eviction, which ends and leaves the shard under the ceiling or empty.
  \<^item> \<open>Durability\<close>, \<open>Persistence\<close>, \<open>Executor\<close> (\<open>shard/durability.rs\<close>, \<open>persistence.rs\<close>,
    \<open>executor.rs\<close>): the sync policies, the batches sent and held, the counters, and the
    executor that serves envelopes, submits batches, follows the writer's word and keeps
    house. Channels are lists of what was sent; the trait \<open>Checkpoint\<close> is a record of
    operations.
  \<^item> \<open>Growth\<close>, \<open>ExecutorCorrect\<close>, \<open>ExecutorProps\<close>: how each operation of a shard moves its log,
    the invariant an executor keeps between two turns of its loop, and the promises that
    follow over any run: acknowledgement only after the sync, the whole log to the writer,
    one answer per envelope, reads only while refusing, a gauge that follows the
    dictionaries. Locale \<open>imaging\<close> is the contract of the checkpoint, interpreted on the
    checkpoint that does nothing and, in \<open>CheckpointCorrect\<close>, on the real one.
  \<^item> \<open>SegmentFile\<close> (\<open>log/file.rs\<close>, \<open>log/snapshot.rs\<close>): names, headers with their cut points,
    the entries and the footer of a snapshot, the text of the generation counter. Headers
    round trip, at every version that is read, and damage to one is reported as such.
  \<^item> \<open>Reader\<close>, \<open>ReaderCorrect\<close> (\<open>log/reader.rs\<close>): the chunked reader that steps over holes.
    It ends on every file and yields only records the file holds; it finds every record
    around the holes of a damaged file and accounts for every byte of them; and the size of
    its chunks does not show.
  \<^item> \<open>Recovery\<close>, \<open>RecoveryCorrect\<close> (\<open>log/recovery.rs\<close>, \<open>next_generation\<close> of \<open>log/file.rs\<close>):
    the headers, the scan of the segments, the images, the tails and the garbage of one
    start. A start comes to an end whatever is on disk; a log written in whole segments is
    restored record for record; the prefix rule keeps the dense run of the records no cut
    covers; a new generation is above every name on disk.
  \<^item> \<open>Disk\<close> (\<open>log/disk.rs\<close>): the verbs of the filesystem seam as a record of operations, the disk in a
    map with its injected failures, and locale \<open>log_disk\<close>, the contract of the seam, which the
    disk in a map interprets.
  \<^item> \<open>Writer\<close>, \<open>WriterInv\<close>, \<open>WriterCorrect\<close> (\<open>log/writer.rs\<close>): the writer's loop with its rounds, rotations,
    failures, nudges and compaction. An invariant follows every submitted batch; what the
    writer calls durable lies in bytes a crash spares, and a stop settles every batch.
  \<^item> \<open>Compaction\<close> (\<open>compact\<close> and \<open>remove_older\<close> of \<open>log/writer.rs\<close>): the order of removals and directory
    syncs. A crash at any point of a compaction, bringing back any removals that were not yet
    durable, leaves no file of an older generation beside a newer one whose segments are gone.
    Two runs show where the code falls short of its documentation: a listing that fails, and a
    final directory sync that fails.
  \<^item> \<open>Checkpoint\<close> (\<open>log/checkpoint.rs\<close>): the snapshot cycle with its budgeted scan, its file, the
    wait for the log, the restarts, force and nudge.
  \<^item> \<open>ImageTail\<close>, \<open>CheckpointCorrect\<close>, \<open>CheckpointProps\<close>: what a scan that shares the shards with writers has taken,
    the invariant of the checkpoint over any course of ticks, writes and faults (\<open>cp_runs\<close>), and
    that a completed image is whole, durable and made exact by the log's tail.
  \<^item> \<open>Resp\<close> (\<open>seedstone-resp/src/lib.rs\<close>): frames, the encoder and the resumable decoder;
    \<open>RespCorrect\<close>: a frame the encoder wrote is read back, and how a stream is cut into
    reads does not matter.

  \<^bold>\<open>Not modelled.\<close> Threads, channels, sockets, files and clocks themselves: the model
  takes what they deliver as arguments. The simulator and the binary's start-up code.
\<close>

end
